(* ===== verification/Clboss_Prelude.thy ===== *)
theory Clboss_Prelude
  imports Main "HOL-Library.Word" "HOL-Library.Multiset"
begin

unbundle bit_operations_syntax

text \<open>
  Shared vocabulary of the development: names for the machine integers and byte strings of the
  C++ sources, the exceptions they throw, decimal printing and reading as \<open>std::ostream\<close> and
  \<open>std::istream\<close> do it, the stream-reader combinators, and the two locales that state what
  a serialisation routine promises (\<open>codec\<close>: what is written is read back; \<open>exact_codec\<close>:
  nothing else is accepted). The named collections \<open>codec_simps\<close> and \<open>byte_simps\<close>
  carry the component proofs.
\<close>

type_synonym u8 = "8 word"
type_synonym u16 = "16 word"
type_synonym u32 = "32 word"
type_synonym u64 = "64 word"
type_synonym bytes = "u8 list"
type_synonym 'a reader = "bytes \<Rightarrow> ('a \<times> bytes) option"

named_theorems codec_simps \<open>read-back laws of the serialisation routines\<close>
named_theorems byte_simps \<open>unfolding of the byte-level definitions\<close>

subsection \<open>Exceptions\<close>

datatype exn =
    HexParseFailure string
  | InvalidArgument string
  | RangeError string
  | InvalidSighash string
  | UnknownAddrType
  | InvalidPubKey
  | InvalidPrivKey
  | JsonTypeError
  | ApiError
  | RpcError
  | RuntimeError string
  | IPAddrInvalid string
  | NoSamples
  | AssertFailed
  | UndefinedBehaviour
  | BadFunctionCall

type_synonym 'a result = "exn + 'a"

definition is_ok :: "'a result \<Rightarrow> bool" where
  "is_ok r = (case r of Inl _ \<Rightarrow> False | Inr _ \<Rightarrow> True)"

lemma is_ok_simps [simp]: "is_ok (Inr x)" "\<not> is_ok (Inl e)"
  by (simp_all add: is_ok_def)

lemma is_ok_iff: "is_ok r \<longleftrightarrow> (\<exists>x. r = Inr x)"
  by (cases r) auto

text \<open>Sequencing of code that may throw: the first exception ends the block.\<close>

definition rbind :: "'a result \<Rightarrow> ('a \<Rightarrow> 'b result) \<Rightarrow> 'b result" where
  "rbind r f = (case r of Inl e \<Rightarrow> Inl e | Inr x \<Rightarrow> f x)"

lemma rbind_simps [simp]: "rbind (Inl e) f = Inl e" "rbind (Inr x) f = f x"
  by (simp_all add: rbind_def)

lemma rbind_eq_Inr: "rbind r f = Inr y \<longleftrightarrow> (\<exists>x. r = Inr x \<and> f x = Inr y)"
  by (cases r) auto

lemma rbind_InrE:
  assumes "rbind r f = Inr y"
  obtains x where "r = Inr x" "f x = Inr y"
  using assms by (cases r) simp_all

lemma rbind_cong [fundef_cong]:
  "r = r' \<Longrightarrow> (\<And>x. r' = Inr x \<Longrightarrow> f x = g x) \<Longrightarrow> rbind r f = rbind r' g"
  by (cases r') auto

subsection \<open>Characters and bytes\<close>

definition byte_of_char :: "char \<Rightarrow> u8" where
  "byte_of_char c = of_nat (of_char c)"

definition char_of_byte :: "u8 \<Rightarrow> char" where
  "char_of_byte b = char_of (unat b)"

lemma of_char_less_256: "(of_char c :: nat) < 256"
  by (cases c) (simp add: of_char_def)

lemma unat_byte_of_char [simp]: "unat (byte_of_char c) = of_char c"
  using of_char_less_256 [of c] by (simp add: byte_of_char_def unat_of_nat take_bit_eq_mod)

lemma char_of_byte_of_char [simp]: "char_of_byte (byte_of_char c) = c"
  by (simp add: char_of_byte_def)

lemma byte_of_char_of_byte [simp]: "byte_of_char (char_of_byte b) = b"
proof -
  have "unat b < 256" using unsigned_less [of b] by simp
  then show ?thesis by (simp add: byte_of_char_def char_of_byte_def)
qed

definition digit_char :: "char \<Rightarrow> bool" where
  "digit_char c = (of_char CHR ''0'' \<le> (of_char c :: nat) \<and> (of_char c :: nat) \<le> of_char CHR ''9'')"

subsection \<open>Decimal numbers as streams print and read them\<close>

definition dec_digit :: "nat \<Rightarrow> char" where
  "dec_digit d = char_of (48 + d)"

fun dec :: "nat \<Rightarrow> string" where
  "dec n = (if n < 10 then [dec_digit n] else dec (n div 10) @ [dec_digit (n mod 10)])"

declare dec.simps [simp del]

definition digit_val :: "char \<Rightarrow> nat" where
  "digit_val c = of_char c - 48"

definition undec :: "string \<Rightarrow> nat" where
  "undec s = foldl (\<lambda>v c. v * 10 + digit_val c) 0 s"

lemma of_char_dec_digit: "d < 10 \<Longrightarrow> of_char (dec_digit d) = 48 + d"
  by (simp add: dec_digit_def)

lemma digit_val_dec_digit [simp]: "d < 10 \<Longrightarrow> digit_val (dec_digit d) = d"
  by (simp add: digit_val_def of_char_dec_digit)

lemma digit_char_dec_digit [simp]: "d < 10 \<Longrightarrow> digit_char (dec_digit d)"
  by (simp add: digit_char_def of_char_dec_digit)

lemma dec_nonempty [simp]: "dec n \<noteq> []"
  by (subst dec.simps) simp

lemma dec_digits: "\<forall>c \<in> set (dec n). digit_char c"
proof (induction n rule: dec.induct)
  case (1 n)
  then show ?case by (subst dec.simps) auto
qed

lemma undec_dec [simp]: "undec (dec n) = n"
proof (induction n rule: dec.induct)
  case (1 n)
  then show ?case by (subst dec.simps) (auto simp: undec_def)
qed

lemma dec_length_le: "n < 10 ^ k \<Longrightarrow> 0 < k \<Longrightarrow> length (dec n) \<le> k"
proof (induction n arbitrary: k rule: dec.induct)
  case (1 n)
  show ?case
  proof (cases "n < 10")
    case True
    then show ?thesis using "1.prems" by (simp add: dec.simps [of n])
  next
    case False
    then obtain j where j: "k = Suc j" "0 < j"
      using "1.prems" by (cases k; cases "k - 1") auto
    have "n div 10 < 10 ^ j"
      using "1.prems" j by (simp add: less_mult_imp_div_less mult.commute)
    then have "length (dec (n div 10)) \<le> j"
      using "1.IH" False j by blast
    then show ?thesis using False j by (simp add: dec.simps [of n])
  qed
qed

lemma dec_length_gt: "10 ^ k \<le> n \<Longrightarrow> k < length (dec n)"
proof (induction n arbitrary: k rule: dec.induct)
  case (1 n)
  show ?case
  proof (cases "n < 10")
    case True
    have "k = 0"
    proof (rule ccontr)
      assume "k \<noteq> 0"
      then have "(10::nat) ^ 1 \<le> 10 ^ k" by (intro power_increasing) auto
      then show False using True "1.prems" by simp
    qed
    then show ?thesis by simp
  next
    case False
    show ?thesis
    proof (cases k)
      case 0
      then show ?thesis by simp
    next
      case (Suc j)
      then have "10 ^ j \<le> n div 10" using "1.prems" by (simp add: less_eq_div_iff_mult_less_eq)
      then have "j < length (dec (n div 10))" using "1.IH" False by blast
      then show ?thesis using False Suc by (simp add: dec.simps [of n])
    qed
  qed
qed

subsection \<open>Readers\<close>

text \<open>
  A reader takes what is left of an input stream and gives the value read and the bytes after
  it, or \<open>None\<close> when the stream has failed (\<open>!is.good()\<close>).
\<close>

definition get_byte :: "u8 reader" where
  "get_byte bs = (case bs of [] \<Rightarrow> None | b # r \<Rightarrow> Some (b, r))"

fun get_many :: "'a reader \<Rightarrow> nat \<Rightarrow> 'a list reader" where
  "get_many g 0 bs = Some ([], bs)"
| "get_many g (Suc n) bs =
     (case g bs of
        None \<Rightarrow> None
      | Some (x, r) \<Rightarrow>
          (case get_many g n r of None \<Rightarrow> None | Some (xs, r') \<Rightarrow> Some (x # xs, r')))"

definition get_bytes :: "nat \<Rightarrow> bytes reader" where
  "get_bytes n = get_many get_byte n"

lemma get_bytes_0 [simp]: "get_bytes 0 bs = Some ([], bs)"
  by (simp add: get_bytes_def)

lemma get_bytes_eq: "get_bytes n bs = (if n \<le> length bs then Some (take n bs, drop n bs) else None)"
  unfolding get_bytes_def
proof (induction n arbitrary: bs)
  case 0
  then show ?case by simp
next
  case (Suc n)
  then show ?case by (cases bs) (simp_all add: get_byte_def)
qed

lemma get_bytes_append [simp]: "get_bytes (length xs) (xs @ rest) = Some (xs, rest)"
  by (simp add: get_bytes_eq)

lemma get_bytes_length: "get_bytes n bs = Some (xs, rest) \<Longrightarrow> length xs = n \<and> bs = xs @ rest"
  by (auto simp: get_bytes_eq split: if_splits)

locale codec =
  fixes put :: "'a \<Rightarrow> bytes"
    and get :: "'a reader"
    and ok :: "'a \<Rightarrow> bool"
  assumes get_put: "ok x \<Longrightarrow> get (put x @ rest) = Some (x, rest)"
begin

lemma put_prefix_free:
  assumes "ok x" "ok y" "put x @ r = put y @ s"
  shows "x = y \<and> r = s"
proof -
  have "Some (x, r) = get (put x @ r)" using get_put [OF assms(1)] by (rule sym)
  also have "\<dots> = get (put y @ s)" by (simp only: assms(3))
  also have "\<dots> = Some (y, s)" by (rule get_put [OF assms(2)])
  finally show ?thesis by simp
qed

lemma put_inj: "ok x \<Longrightarrow> ok y \<Longrightarrow> put x = put y \<Longrightarrow> x = y"
  using put_prefix_free [of x y "[]" "[]"] by simp

lemma get_put_whole: "ok x \<Longrightarrow> get (put x) = Some (x, [])"
  using get_put [of x "[]"] by simp

lemma get_many_put:
  "list_all ok xs \<Longrightarrow> get_many get (length xs) (concat (map put xs) @ rest) = Some (xs, rest)"
proof (induction xs)
  case Nil
  then show ?case by simp
next
  case (Cons x xs)
  then have "get (put x @ concat (map put xs) @ rest) = Some (x, concat (map put xs) @ rest)"
    by (intro get_put) simp
  with Cons show ?case by simp
qed

end

locale exact_codec = codec +
  assumes put_get: "get bs = Some (x, rest) \<Longrightarrow> bs = put x @ rest"
begin

lemma get_many_exact:
  "get_many get n bs = Some (xs, rest) \<Longrightarrow> bs = concat (map put xs) @ rest \<and> length xs = n"
proof (induction n arbitrary: bs xs)
  case 0
  then show ?case by simp
next
  case (Suc n)
  then obtain x r ys where x: "get bs = Some (x, r)" and ys: "get_many get n r = Some (ys, rest)"
    and xs: "xs = x # ys"
    by (auto split: option.splits)
  have "r = concat (map put ys) @ rest \<and> length ys = n" using Suc.IH ys by blast
  with put_get [OF x] xs show ?case by simp
qed

end

interpretation byte_codec: exact_codec "\<lambda>b. [b]" get_byte "\<lambda>_. True"
  by unfold_locales (auto simp: get_byte_def split: list.splits)

end
