(* ===== verification/Cxx_Double.thy ===== *)
theory Cxx_Double
  imports Complex_Main Clboss_Prelude
begin

text \<open>
  The C++ \<open>double\<close> as the sources use it: a finite binary64 value is a rational, and every
  operation is the exact one followed by rounding to 53 significant bits, ties to even. The
  amounts, ratios and percentages computed here stay far inside the exponent range, so overflow
  to infinity, subnormals and NaN are outside this model.
\<close>

type_synonym double = rat

subsection \<open>Definitions\<close>

function nbits :: "int \<Rightarrow> nat" where
  "nbits n = (if n \<le> 0 then 0 else Suc (nbits (n div 2)))"
  by pat_completeness auto
termination
  by (relation "measure nat") auto

declare nbits.simps [simp del]

definition dexp :: "rat \<Rightarrow> int" where
  "dexp x =
     (let (n, d) = quotient_of \<bar>x\<bar>; e = int (nbits n) - int (nbits d)
      in if 2 powi e \<le> \<bar>x\<bar> then e else e - 1)"

definition round_half_even :: "rat \<Rightarrow> int" where
  "round_half_even x =
     (let f = \<lfloor>x\<rfloor>; r = x - of_int f
      in if r < 1/2 then f else if r > 1/2 then f + 1 else if even f then f else f + 1)"

definition fl :: "rat \<Rightarrow> double" where
  "fl x =
     (if x = 0 then 0
      else (let q = 2 powi (dexp x - 52) in of_int (round_half_even (x / q)) * q))"

text \<open>Conversion of a double to an unsigned integer truncates (C++ leaves values out of the
  range of the target undefined; the model wraps).\<close>

definition trunc_double :: "double \<Rightarrow> int" where
  "trunc_double d = (if d < 0 then \<lceil>d\<rceil> else \<lfloor>d\<rfloor>)"

subsection \<open>Exactness\<close>

lemma nbits_bounds: "0 < n \<Longrightarrow> 2 ^ (nbits n - 1) \<le> n \<and> n < 2 ^ nbits n"
proof (induction n rule: nbits.induct)
  case (1 n)
  show ?case
  proof (cases "n div 2 \<le> 0")
    case True
    then have "n = 1" using "1.prems" by auto
    then show ?thesis by (simp add: nbits.simps)
  next
    case False
    then have ih: "2 ^ (nbits (n div 2) - 1) \<le> n div 2 \<and> n div 2 < 2 ^ nbits (n div 2)"
      using "1.IH" "1.prems" by simp
    have nb: "nbits n = Suc (nbits (n div 2))" using "1.prems" by (subst nbits.simps) simp
    obtain k where k: "nbits (n div 2) = Suc k"
      using False nbits.simps [of "n div 2"] by simp
    have "2 ^ k \<le> n div 2" "n div 2 < 2 * 2 ^ k" using ih k by simp_all
    then have "2 * 2 ^ k \<le> n \<and> n < 4 * 2 ^ k" by linarith
    then show ?thesis unfolding nb k by simp
  qed
qed

lemma nbits_pos: "0 < n \<Longrightarrow> 0 < nbits n"
  by (subst nbits.simps) simp

lemma nbits_rat:
  assumes "0 < n"
  shows "2 powi (int (nbits n) - 1) \<le> (of_int n :: rat)"
    and "(of_int n :: rat) < 2 powi int (nbits n)"
proof -
  let ?b = "nbits n"
  have b: "2 ^ (?b - 1) \<le> n" "n < 2 ^ ?b" "0 < ?b"
    using nbits_bounds [OF assms] nbits_pos [OF assms] by simp_all
  have e: "int ?b - 1 = int (?b - 1)" using b(3) by simp
  show "2 powi (int ?b - 1) \<le> (of_int n :: rat)"
    unfolding e power_int_of_nat using b(1) by (metis of_int_le_iff of_int_numeral of_int_power)
  show "(of_int n :: rat) < 2 powi int ?b"
    unfolding power_int_of_nat using b(2) by (metis of_int_less_iff of_int_numeral of_int_power)
qed

lemma dexp_bounds:
  assumes "x \<noteq> 0"
  shows "2 powi dexp x \<le> \<bar>x\<bar>" and "\<bar>x\<bar> < 2 powi (dexp x + 1)"
proof -
  obtain n d where nd: "quotient_of \<bar>x\<bar> = (n, d)" by (cases "quotient_of \<bar>x\<bar>")
  have x: "\<bar>x\<bar> = of_int n / of_int d" using quotient_of_div [OF nd] .
  have d: "0 < d" using quotient_of_denom_pos [OF nd] .
  have n: "0 < n"
  proof -
    have "0 < (of_int n :: rat) / of_int d" using assms x by (metis zero_less_abs_iff)
    then show ?thesis using d by (simp add: zero_less_divide_iff)
  qed
  define a b where "a = int (nbits n)" and "b = int (nbits d)"
  have na: "2 powi (a - 1) \<le> (of_int n :: rat)" "(of_int n :: rat) < 2 powi a"
    using nbits_rat [OF n] by (simp_all add: a_def)
  have db: "2 powi (b - 1) \<le> (of_int d :: rat)" "(of_int d :: rat) < 2 powi b"
    using nbits_rat [OF d] by (simp_all add: b_def)
  have lo: "(2::rat) powi (a - b - 1) \<le> \<bar>x\<bar>"
  proof -
    have "(2::rat) powi (a - b - 1) * of_int d \<le> 2 powi (a - b - 1) * 2 powi b"
      using db(2) by (intro mult_left_mono) auto
    also have "\<dots> = 2 powi (a - 1)" by (simp flip: power_int_add)
    also have "\<dots> \<le> of_int n" by (rule na(1))
    finally show ?thesis unfolding x using d by (simp add: pos_le_divide_eq)
  qed
  have hi: "\<bar>x\<bar> < (2::rat) powi (a - b + 1)"
  proof -
    have "(of_int n :: rat) < 2 powi a" by (rule na(2))
    also have "\<dots> = 2 powi (a - b + 1) * 2 powi (b - 1)" by (simp flip: power_int_add)
    also have "\<dots> \<le> 2 powi (a - b + 1) * of_int d" using db(1) by (intro mult_left_mono) auto
    finally show ?thesis unfolding x using d by (simp add: pos_divide_less_eq)
  qed
  have dx: "dexp x = (if 2 powi (a - b) \<le> \<bar>x\<bar> then a - b else a - b - 1)"
    by (simp add: dexp_def nd a_def b_def Let_def)
  show "2 powi dexp x \<le> \<bar>x\<bar>" using lo dx by simp
  show "\<bar>x\<bar> < 2 powi (dexp x + 1)" using hi dx by (auto simp: not_le)
qed

lemma round_half_even_int [simp]: "round_half_even (of_int m) = m"
  by (simp add: round_half_even_def)

lemma powi_2_less_iff: "(2::rat) powi i < 2 powi j \<longleftrightarrow> i < j"
  by (meson leD le_less_linear one_le_numeral one_less_numeral_iff power_int_increasing
      power_int_strict_increasing semiring_norm(76))

lemma fl_0 [simp]: "fl 0 = 0"
  by (simp add: fl_def)

lemma fl_exact:
  assumes "\<bar>m\<bar> < 2 ^ 53"
  shows "fl (of_int m * 2 powi k) = of_int m * 2 powi k"
proof (cases "m = 0")
  case True
  then show ?thesis by simp
next
  case False
  define x :: rat where "x = of_int m * 2 powi k"
  have x0: "x \<noteq> 0" using False by (simp add: x_def)
  have "\<bar>x\<bar> = of_int \<bar>m\<bar> * 2 powi k" by (simp add: x_def abs_mult)
  also have "\<dots> < of_int (2 ^ 53) * 2 powi k"
    using assms by (intro mult_strict_right_mono) (simp_all only: of_int_less_iff, simp)
  also have "\<dots> = (2::rat) powi (53 + k)" by (simp add: power_int_add)
  finally have "\<bar>x\<bar> < (2::rat) powi (53 + k)" .
  with dexp_bounds(1) [OF x0] have "(2::rat) powi dexp x < 2 powi (53 + k)" by simp
  then have e: "0 \<le> k - (dexp x - 52)" by (simp add: powi_2_less_iff)
  define j where "j = nat (k - (dexp x - 52))"
  have k: "k = int j + (dexp x - 52)" using e by (simp add: j_def)
  define q :: rat where "q = 2 powi (dexp x - 52)"
  have xq: "x = of_int (m * 2 ^ j) * q"
    unfolding q_def by (subst x_def, subst k) (simp add: power_int_add)
  have "q \<noteq> 0" by (simp add: q_def)
  then have "x / q = of_int (m * 2 ^ j)"
    using xq by (metis nonzero_mult_div_cancel_right)
  then have "x / 2 powi (dexp x - 52) = of_int (m * 2 ^ j)"
    by (simp only: q_def)
  then have "fl x = of_int (m * 2 ^ j) * 2 powi (dexp x - 52)"
    using x0 by (simp add: fl_def Let_def del: of_int_mult)
  also have "\<dots> = x" using xq by (simp only: q_def)
  finally show ?thesis by (simp add: x_def)
qed

lemma fl_int: "\<bar>m\<bar> < 2 ^ 53 \<Longrightarrow> fl (of_int m) = of_int m"
  using fl_exact [of m 0] by simp

lemma fl_half: "\<bar>m\<bar> < 2 ^ 53 \<Longrightarrow> fl (of_int m / 2) = of_int m / 2"
  using fl_exact [of m "-1"] by (simp add: power_int_minus field_simps)

lemma fl_nat: "n < 2 ^ 53 \<Longrightarrow> fl (of_nat n) = of_nat n"
  using fl_int [of "int n"] by simp

lemma fl_nat_half: "n < 2 ^ 53 \<Longrightarrow> fl (of_nat n / 2) = of_nat n / 2"
  using fl_half [of "int n"] by simp

subsection \<open>Monotonicity\<close>

lemma round_half_even_mono: "x \<le> y \<Longrightarrow> round_half_even x \<le> round_half_even y"
proof -
  assume xy: "x \<le> y"
  have b: "\<lfloor>z\<rfloor> \<le> round_half_even z" "round_half_even z \<le> \<lfloor>z\<rfloor> + 1" for z
    by (simp_all add: round_half_even_def Let_def)
  show ?thesis
  proof (cases "\<lfloor>x\<rfloor> = \<lfloor>y\<rfloor>")
    case True
    then show ?thesis using xy by (auto simp: round_half_even_def Let_def)
  next
    case False
    then have "\<lfloor>x\<rfloor> + 1 \<le> \<lfloor>y\<rfloor>" using floor_mono [OF xy] by linarith
    then show ?thesis using b(2) [of x] b(1) [of y] by linarith
  qed
qed

lemma fl_bounds:
  assumes "0 < x"
  shows "2 powi dexp x \<le> fl x" "fl x \<le> 2 powi (dexp x + 1)"
proof -
  define q :: rat where "q = 2 powi (dexp x - 52)"
  have q: "0 < q" by (simp add: q_def)
  have fx: "fl x = of_int (round_half_even (x / q)) * q" using assms by (simp add: fl_def q_def Let_def)
  have lo: "2 powi dexp x = of_int (2 ^ 52) * q" and hi: "2 powi (dexp x + 1) = of_int (2 ^ 53) * q"
    by (simp_all add: q_def power_int_diff power_int_add)
  have "of_int (2 ^ 52) * q \<le> x" "x < of_int (2 ^ 53) * q"
    using dexp_bounds [of x] assms unfolding lo [symmetric] hi [symmetric] by simp_all
  then have "of_int (2 ^ 52) \<le> x / q" "x / q \<le> of_int (2 ^ 53)"
    using q by (simp_all only: pos_le_divide_eq pos_divide_le_eq less_imp_le)
  then have "(2::int) ^ 52 \<le> round_half_even (x / q)" "round_half_even (x / q) \<le> 2 ^ 53"
    using round_half_even_mono [of "of_int (2 ^ 52)" "x / q"] round_half_even_mono [of "x / q" "of_int (2 ^ 53)"]
    by (simp_all only: round_half_even_int)
  then have "(of_int (2 ^ 52) :: rat) \<le> of_int (round_half_even (x / q))"
    "(of_int (round_half_even (x / q)) :: rat) \<le> of_int (2 ^ 53)"
    by (simp_all only: of_int_le_iff)
  then show "2 powi dexp x \<le> fl x" "fl x \<le> 2 powi (dexp x + 1)"
    unfolding lo hi fx using q by (simp_all only: mult_right_mono less_imp_le)
qed

lemma dexp_mono: "0 < x \<Longrightarrow> x \<le> y \<Longrightarrow> dexp x \<le> dexp y"
proof -
  assume xy: "0 < x" "x \<le> y"
  then have "2 powi dexp x < (2::rat) powi (dexp y + 1)"
    using dexp_bounds(1) [of x] dexp_bounds(2) [of y] by simp
  then show ?thesis by (simp add: powi_2_less_iff)
qed

lemma fl_nonneg: "0 \<le> x \<Longrightarrow> 0 \<le> fl x"
  using fl_bounds(1) [of x] by (cases "x = 0") (auto intro: order_trans [of 0 "2 powi dexp x"])

lemma fl_mono: "0 \<le> x \<Longrightarrow> x \<le> y \<Longrightarrow> fl x \<le> fl y"
proof -
  assume x: "0 \<le> x" and xy: "x \<le> y"
  show ?thesis
  proof (cases "x = 0")
    case True
    then show ?thesis using fl_nonneg [of y] xy by simp
  next
    case False
    then have pos: "0 < x" "0 < y" using x xy by simp_all
    consider "dexp x = dexp y" | "dexp x + 1 \<le> dexp y" using dexp_mono [OF pos(1) xy] by linarith
    then show ?thesis
    proof cases
      case 1
      define q :: rat where "q = 2 powi (dexp y - 52)"
      have "round_half_even (x / q) \<le> round_half_even (y / q)"
        using xy by (intro round_half_even_mono divide_right_mono) (simp_all add: q_def)
      then have "of_int (round_half_even (x / q)) * q \<le> of_int (round_half_even (y / q)) * q"
        by (intro mult_right_mono) (simp_all add: q_def)
      then show ?thesis using pos 1 by (simp add: fl_def q_def Let_def)
    next
      case 2
      have "fl x \<le> 2 powi (dexp x + 1)" by (rule fl_bounds(2) [OF pos(1)])
      also have "\<dots> \<le> 2 powi dexp y" using 2 by (simp add: power_int_increasing)
      also have "\<dots> \<le> fl y" by (rule fl_bounds(1) [OF pos(2)])
      finally show ?thesis .
    qed
  qed
qed

lemma fl_le_nat: "0 \<le> x \<Longrightarrow> x \<le> of_nat n \<Longrightarrow> n < 2 ^ 53 \<Longrightarrow> fl x \<le> of_nat n"
  using fl_mono [of x "of_nat n"] fl_nat [of n] by simp

lemma fl_ge_nat: "of_nat n \<le> x \<Longrightarrow> n < 2 ^ 53 \<Longrightarrow> of_nat n \<le> fl x"
  using fl_mono [of "of_nat n" x] fl_nat [of n] by simp

subsection \<open>The error of rounding\<close>

lemma round_half_even_error: "\<bar>of_int (round_half_even x) - x\<bar> \<le> 1 / 2"
proof -
  have "of_int \<lfloor>x\<rfloor> \<le> x" "x < of_int \<lfloor>x\<rfloor> + 1" by linarith+
  then show ?thesis by (auto simp: round_half_even_def Let_def)
qed

lemma fl_error:
  assumes "0 \<le> x"
  shows "\<bar>fl x - x\<bar> \<le> x / 2 ^ 53"
proof (cases "x = 0")
  case False
  then have pos: "0 < x" using assms by simp
  define q :: rat where "q = 2 powi (dexp x - 52)"
  have q: "0 < q" by (simp add: q_def)
  have fx: "fl x = of_int (round_half_even (x / q)) * q" using pos by (simp add: fl_def q_def Let_def)
  have "\<bar>of_int (round_half_even (x / q)) - x / q\<bar> * q \<le> 1 / 2 * q"
    using round_half_even_error [of "x / q"] q by (intro mult_right_mono) simp_all
  moreover have "fl x - x = (of_int (round_half_even (x / q)) - x / q) * q"
    using q by (simp add: fx field_simps)
  ultimately have "\<bar>fl x - x\<bar> \<le> q / 2" using q by (simp add: abs_mult)
  also have "q / 2 = 2 powi dexp x / 2 ^ 53" by (simp add: q_def power_int_diff)
  also have "\<dots> \<le> x / 2 ^ 53" using dexp_bounds(1) [of x] pos by (intro divide_right_mono) simp_all
  finally show ?thesis .
qed simp

lemma fl_upper: "0 \<le> x \<Longrightarrow> fl x \<le> x * (1 + 1 / 2 ^ 53)"
  using fl_error [of x] by (simp only: abs_le_iff distrib_left right_diff_distrib) simp

lemma fl_lower: "0 \<le> x \<Longrightarrow> x * (1 - 1 / 2 ^ 53) \<le> fl x"
  using fl_error [of x] by (simp only: abs_le_iff distrib_left right_diff_distrib) simp

lemma fl_pos: "0 < x \<Longrightarrow> 0 < fl x"
  using fl_bounds(1) [of x] less_le_trans [of 0 "2 powi dexp x :: rat"] by simp

end
