(* ===== verification/Ln_Amount.thy ===== *)
theory Ln_Amount
  imports Cxx_Double
begin

text \<open>
  \<open>src/Ln/Amount.hpp\<close> and \<open>src/Ln/Amount.cpp\<close>: an amount is a 64-bit count of
  millisatoshis. Addition saturates at the top, subtraction at zero, scaling by a double goes
  through binary64 and truncates. Amounts form a linear order and, under the saturating
  addition, a commutative monoid, so sums of amounts are the library's.
\<close>

subsection \<open>Definitions\<close>

datatype amount = Amount (to_msat: u64)

abbreviation amt :: "amount \<Rightarrow> nat" where
  "amt a \<equiv> unat (to_msat a)"

definition amount_msat :: "u64 \<Rightarrow> amount" where
  "amount_msat v = Amount v"

definition amount_sat :: "u64 \<Rightarrow> amount" where
  "amount_sat v = Amount (v * 1000)"

definition to_sat :: "amount \<Rightarrow> u64" where
  "to_sat a = (to_msat a + 999) div 1000"

definition amount_add :: "amount \<Rightarrow> amount \<Rightarrow> amount" where
  "amount_add a i =
     (let v = to_msat a + to_msat i in if v < to_msat i then Amount (- 1) else Amount v)"

definition amount_sub :: "amount \<Rightarrow> amount \<Rightarrow> amount" where
  "amount_sub a i =
     (if to_msat i > to_msat a then Amount 0 else Amount (to_msat a - to_msat i))"

definition amount_less :: "amount \<Rightarrow> amount \<Rightarrow> bool" where
  "amount_less a o' = (to_msat a < to_msat o')"

definition amount_greater :: "amount \<Rightarrow> amount \<Rightarrow> bool" where
  "amount_greater a o' = amount_less o' a"

definition amount_le :: "amount \<Rightarrow> amount \<Rightarrow> bool" where
  "amount_le a o' = (\<not> amount_greater a o')"

definition amount_ge :: "amount \<Rightarrow> amount \<Rightarrow> bool" where
  "amount_ge a o' = amount_le o' a"

definition double_of_u64 :: "u64 \<Rightarrow> double" where
  "double_of_u64 v = fl (of_nat (unat v))"

text \<open>
  The last step of scaling: a negative product gives 0, one above \<open>double(UINT64_MAX)\<close> (which
  is \<open>2 ^ 64\<close>) gives the maximum, any other is truncated. The C++ conversion is only defined
  below \<open>2 ^ 64\<close>; \<open>conversion_defined\<close> says so, and the model wraps at \<open>2 ^ 64\<close> itself.
\<close>

definition amount_of_scaled :: "double \<Rightarrow> amount" where
  "amount_of_scaled dv =
     (if dv < 0 then Amount 0 else if dv > double_of_u64 (- 1) then Amount (- 1)
      else Amount (of_int \<lfloor>dv\<rfloor>))"

definition conversion_defined :: "double \<Rightarrow> bool" where
  "conversion_defined dv = (dv < 0 \<or> dv > double_of_u64 (- 1) \<or> \<lfloor>dv\<rfloor> < 2 ^ 64)"

definition amount_mul :: "amount \<Rightarrow> double \<Rightarrow> amount" where
  "amount_mul a i = amount_of_scaled (fl (double_of_u64 (to_msat a) * i))"

text \<open>Division by a positive zero gives infinity, so the maximum, unless the amount is 0.\<close>

definition amount_div :: "amount \<Rightarrow> double \<Rightarrow> amount" where
  "amount_div a i =
     (if i = 0 then (if to_msat a = 0 then Amount 0 else Amount (- 1))
      else amount_of_scaled (fl (double_of_u64 (to_msat a) / i)))"

definition amount_ratio :: "amount \<Rightarrow> amount \<Rightarrow> double" where
  "amount_ratio a i = fl (double_of_u64 (to_msat a) / double_of_u64 (to_msat i))"

definition amount_btc :: "double \<Rightarrow> amount" where
  "amount_btc v = Amount (of_int \<lfloor>fl (v * 100000000000)\<rfloor>)"

definition amount_to_btc :: "amount \<Rightarrow> double" where
  "amount_to_btc a = fl (double_of_u64 (to_msat a) / 100000000000)"

definition amount_valid_string :: "string \<Rightarrow> bool" where
  "amount_valid_string s =
     (if length s < 5 then False
      else if drop (length s - 4) s \<noteq> ''msat'' then False
      else if \<not> list_all digit_char (take (length s - 4) s) then False
      else if length s > 13 + 4 then False
      else True)"

definition amount_of_string :: "string \<Rightarrow> amount result" where
  "amount_of_string s =
     (if \<not> amount_valid_string s then Inl (InvalidArgument ''Ln::Amount string invalid.'')
      else Inr (Amount (of_nat (undec (take (length s - 4) s)))))"

definition string_of_amount :: "amount \<Rightarrow> string" where
  "string_of_amount a = dec (amt a) @ ''msat''"

subsection \<open>Order and arithmetic instances\<close>

instantiation amount :: linorder
begin

definition less_amount :: "amount \<Rightarrow> amount \<Rightarrow> bool" where
  "less_amount = amount_less"

definition less_eq_amount :: "amount \<Rightarrow> amount \<Rightarrow> bool" where
  "less_eq_amount = amount_le"

instance
  by standard
     (auto simp: less_amount_def less_eq_amount_def amount_less_def amount_le_def
       amount_greater_def amount.expand)

end

lemma amount_le_iff: "a \<le> b \<longleftrightarrow> amt a \<le> amt b"
  by (simp add: less_eq_amount_def amount_le_def amount_greater_def amount_less_def
      word_less_nat_alt not_less)

lemma amount_less_iff: "a < b \<longleftrightarrow> amt a < amt b"
  by (simp add: less_amount_def amount_less_def word_less_nat_alt)

lemma amount_eq_iff: "a = b \<longleftrightarrow> amt a = amt b"
  by (metis amount.expand word_unat_eq_iff)

lemmas amount_order = amount_le_iff amount_less_iff amount_eq_iff

lemma amt_bound [simp]: "amt a < 2 ^ 64"
  using unsigned_less [of "to_msat a"] by simp

lemma amt_le_max: "amt a \<le> 2 ^ 64 - 1"
  using amt_bound [of a] by linarith

lemma unat_max_u64: "unat (- 1 :: u64) = 2 ^ 64 - 1"
  by (simp add: unsigned_minus_1_eq_mask mask_eq_exp_minus_1)

lemma amt_amount_add: "amt (amount_add a b) = min (amt a + amt b) (2 ^ 64 - 1)"
proof -
  have s: "unat (to_msat a + to_msat b) = (amt a + amt b) mod 2 ^ 64"
    by (simp add: unat_word_ariths)
  show ?thesis
  proof (cases "amt a + amt b < 2 ^ 64")
    case True
    then show ?thesis using s by (simp add: amount_add_def Let_def word_less_nat_alt)
  next
    case False
    then have "(amt a + amt b) mod 2 ^ 64 = amt a + amt b - 2 ^ 64"
      using amt_bound [of a] amt_bound [of b] by (simp add: le_mod_geq)
    then show ?thesis
      using False s amt_bound [of a]
      by (simp add: amount_add_def Let_def word_less_nat_alt unat_max_u64)
  qed
qed

lemma amt_amount_sub: "amt (amount_sub a b) = amt a - amt b"
  by (simp add: amount_sub_def word_less_nat_alt unat_sub word_le_nat_alt)

instantiation amount :: "{comm_monoid_add, minus}"
begin

definition zero_amount :: amount where
  "zero_amount = Amount 0"

definition plus_amount :: "amount \<Rightarrow> amount \<Rightarrow> amount" where
  "plus_amount = amount_add"

definition minus_amount :: "amount \<Rightarrow> amount \<Rightarrow> amount" where
  "minus_amount = amount_sub"

instance
proof
  fix a b c :: amount
  show "a + b + c = a + (b + c)"
    by (simp add: amount_eq_iff plus_amount_def amt_amount_add)
  show "a + b = b + a"
    by (simp add: amount_eq_iff plus_amount_def amt_amount_add add.commute)
  show "0 + a = a"
    using amt_le_max [of a] by (simp add: amount_eq_iff plus_amount_def zero_amount_def amt_amount_add)
qed

end

lemma amt_zero [simp]: "amt 0 = 0"
  by (simp add: zero_amount_def)

lemma amt_plus: "amt (a + b) = min (amt a + amt b) (2 ^ 64 - 1)"
  by (simp add: plus_amount_def amt_amount_add)

lemma amt_minus [simp]: "amt (a - b) = amt a - amt b"
  by (simp add: minus_amount_def amt_amount_sub)

lemmas amt_simps = amt_plus amt_minus amt_zero

subsection \<open>Units\<close>

lemma amt_sat: "unat n * 1000 < 2 ^ 64 \<Longrightarrow> amt (amount_sat n) = unat n * 1000"
  by (simp add: amount_sat_def unat_word_ariths)

lemma unat_to_sat: "amt a + 999 < 2 ^ 64 \<Longrightarrow> unat (to_sat a) = (amt a + 999) div 1000"
  by (simp add: to_sat_def unat_word_ariths unat_div)

lemma to_sat_sat: "unat n * 1000 + 999 < 2 ^ 64 \<Longrightarrow> to_sat (amount_sat n) = n"
  by (rule word_unat_eq_iff [THEN iffD2]) (simp add: unat_to_sat amt_sat)

lemma sat_to_sat:
  "amt a + 999 < 2 ^ 64 \<Longrightarrow> 1000 dvd amt a \<Longrightarrow> amount_sat (to_sat a) = a"
  by (auto simp: amount_eq_iff amt_sat unat_to_sat elim!: dvdE)

subsection \<open>Strings\<close>

lemma amount_valid_string_printed:
  "amount_valid_string (string_of_amount a) \<longleftrightarrow> amt a < 10 ^ 13"
proof -
  have "length (dec (amt a)) > 13 \<longleftrightarrow> \<not> amt a < 10 ^ 13"
    using dec_length_le [of "amt a" 13] dec_length_gt [of 13 "amt a"] by linarith
  moreover have "list_all digit_char (dec (amt a))" using dec_digits by (simp add: list_all_iff)
  moreover have "0 < length (dec (amt a))" by simp
  ultimately show ?thesis by (auto simp: amount_valid_string_def string_of_amount_def)
qed

lemma amount_of_string_printed:
  "amount_of_string (string_of_amount a) =
     (if amt a < 10 ^ 13 then Inr a else Inl (InvalidArgument ''Ln::Amount string invalid.''))"
  using amount_valid_string_printed [of a]
  by (simp add: amount_of_string_def) (simp add: string_of_amount_def)

subsection \<open>Scaling\<close>

lemma double_of_u64_small: "unat v < 2 ^ 53 \<Longrightarrow> double_of_u64 v = of_nat (unat v)"
  unfolding double_of_u64_def by (rule fl_nat)

lemma double_of_u64_max: "double_of_u64 (- 1) = 2 ^ 64"
proof -
  have "fl 18446744073709551615 = 18446744073709551616" by code_simp
  then show ?thesis unfolding double_of_u64_def unat_max_u64 by simp
qed

lemma nat_half_le: "n < 2 ^ 64 \<Longrightarrow> \<not> (of_nat n / 2 > (2 ^ 64 :: rat))"
proof -
  assume "n < 2 ^ 64"
  then have "(of_nat n :: rat) < of_nat (2 ^ 64)" by (simp only: of_nat_less_iff)
  then show ?thesis by simp
qed

lemma amt_half: "amt a < 2 ^ 53 \<Longrightarrow> amt (amount_div a 2) = amt a div 2"
proof -
  assume s: "amt a < 2 ^ 53"
  define x :: rat where "x = of_nat (amt a) / 2"
  have x: "fl (double_of_u64 (to_msat a) / 2) = x"
    unfolding double_of_u64_small [OF s] x_def by (rule fl_nat_half [OF s])
  have x0: "\<not> x < 0" unfolding x_def
    by (simp only: not_less divide_nonneg_nonneg of_nat_0_le_iff zero_le_numeral)
  have x1: "\<not> x > 2 ^ 64" unfolding x_def by (rule nat_half_le [OF amt_bound])
  have fx: "\<lfloor>x\<rfloor> = int (amt a div 2)" unfolding x_def
    by (metis floor_divide_of_nat_eq of_nat_numeral)
  have "amount_div a 2 = Amount (of_int (int (amt a div 2)))"
    using x0 x1 by (simp add: amount_div_def x amount_of_scaled_def double_of_u64_max fx)
  then show ?thesis using s by (simp add: unat_of_nat take_bit_nat_eq_self_iff)
qed

lemma amt_scaled_nat:
  assumes "m < 2 ^ 53" "k * m < 2 ^ 53"
  shows "amt (amount_of_scaled (fl (of_nat k * of_nat m))) = k * m"
proof -
  have f: "fl (of_nat k * of_nat m) = of_nat (k * m)" using fl_nat [OF assms(2)] by simp
  have "(of_nat (k * m) :: rat) < of_nat (2 ^ 53)" using assms(2) by (simp only: of_nat_less_iff)
  then have "\<not> (of_nat (k * m) :: rat) > 2 ^ 64" by simp
  moreover have "\<not> (of_nat (k * m) :: rat) < 0" by (simp only: not_less of_nat_0_le_iff)
  moreover have "\<lfloor>of_nat (k * m) :: rat\<rfloor> = int (k * m)" by (rule floor_of_nat)
  ultimately have "amount_of_scaled (of_nat (k * m)) = Amount (of_int (int (k * m)))"
    unfolding amount_of_scaled_def double_of_u64_max by (simp only: if_False)
  then show ?thesis unfolding f using assms(2)
    by (simp only: amount.sel of_int_of_nat_eq unat_of_nat take_bit_nat_eq_self_iff) simp
qed

lemma amt_mul_nat:
  "amt a < 2 ^ 53 \<Longrightarrow> k * amt a < 2 ^ 53 \<Longrightarrow> amt (amount_mul a (of_nat k)) = k * amt a"
  unfolding amount_mul_def using amt_scaled_nat [of "amt a" k]
  by (simp only: double_of_u64_small mult.commute)

lemma amt_double: "2 * amt a < 2 ^ 53 \<Longrightarrow> amt (amount_mul a 2) = 2 * amt a"
  using amt_mul_nat [of a 2] by simp

subsection \<open>Properties\<close>

text \<open>Adding amounts saturates at the largest 64-bit value instead of wrapping, and subtracting
  stops at zero.\<close>

theorem amount_saturates:
  "amt (amount_add a b) = min (amt a + amt b) (2 ^ 64 - 1) \<and> amt (amount_sub a b) = amt a - amt b"
  using amt_amount_add amt_amount_sub by blast

text \<open>A printed amount reads back exactly when it has at most 13 digits; from 100 BTC up the
  program refuses its own output.\<close>

theorem amount_string_roundtrip:
  "amount_of_string (string_of_amount a) =
     (if amt a < 10 ^ 13 then Inr a else Inl (InvalidArgument ''Ln::Amount string invalid.''))"
  by (rule amount_of_string_printed)

end
