(* ===== verification/Bitcoin_Codec.thy ===== *)
theory Bitcoin_Codec
  imports Ln_Amount
begin

unbundle bit_operations_syntax

text \<open>
  \<open>src/Bitcoin/le.cpp\<close> and \<open>src/Bitcoin/varint.cpp\<close>: little-endian integers, amounts in
  satoshis, and Bitcoin's \<open>CompactSize\<close>. Each is an interpretation of \<open>codec\<close>; the
  fixed-width ones are exact, while the reader of \<open>CompactSize\<close> also takes encodings that are
  longer than needed.
\<close>

subsection \<open>Definitions\<close>

definition put_le16 :: "u16 \<Rightarrow> bytes" where
  "put_le16 v = [ucast (drop_bit 0 v AND 0xFF), ucast (drop_bit 8 v AND 0xFF)]"

definition get_le16 :: "u16 reader" where
  "get_le16 bs =
     (case bs of c0 # c1 # r \<Rightarrow> Some (push_bit 0 (ucast c0) OR push_bit 8 (ucast c1), r) | _ \<Rightarrow> None)"

definition put_le32 :: "u32 \<Rightarrow> bytes" where
  "put_le32 v =
     [ucast (drop_bit 0 v AND 0xFF), ucast (drop_bit 8 v AND 0xFF),
      ucast (drop_bit 16 v AND 0xFF), ucast (drop_bit 24 v AND 0xFF)]"

definition get_le32 :: "u32 reader" where
  "get_le32 bs =
     (case bs of
        c0 # c1 # c2 # c3 # r \<Rightarrow>
          Some (push_bit 0 (ucast c0) OR push_bit 8 (ucast c1) OR push_bit 16 (ucast c2)
                OR push_bit 24 (ucast c3), r)
      | _ \<Rightarrow> None)"

definition put_le64 :: "u64 \<Rightarrow> bytes" where
  "put_le64 v =
     [ucast (drop_bit 0 v AND 0xFF), ucast (drop_bit 8 v AND 0xFF),
      ucast (drop_bit 16 v AND 0xFF), ucast (drop_bit 24 v AND 0xFF),
      ucast (drop_bit 32 v AND 0xFF), ucast (drop_bit 40 v AND 0xFF),
      ucast (drop_bit 48 v AND 0xFF), ucast (drop_bit 56 v AND 0xFF)]"

definition get_le64 :: "u64 reader" where
  "get_le64 bs =
     (case bs of
        c0 # c1 # c2 # c3 # c4 # c5 # c6 # c7 # r \<Rightarrow>
          Some (push_bit 0 (ucast c0) OR push_bit 8 (ucast c1) OR push_bit 16 (ucast c2)
                OR push_bit 24 (ucast c3) OR push_bit 32 (ucast c4) OR push_bit 40 (ucast c5)
                OR push_bit 48 (ucast c6) OR push_bit 56 (ucast c7), r)
      | _ \<Rightarrow> None)"

definition put_le_amount :: "amount \<Rightarrow> bytes" where
  "put_le_amount a = put_le64 (to_sat a)"

definition get_le_amount :: "amount reader" where
  "get_le_amount bs =
     (case get_le64 bs of None \<Rightarrow> None | Some (sats, r) \<Rightarrow> Some (amount_sat sats, r))"

definition put_varint :: "u64 \<Rightarrow> bytes" where
  "put_varint v =
     (if v < 0xFD then [ucast v]
      else if v \<le> 0xFFFF then
        [0xFD, ucast (drop_bit 0 v AND 0xFF), ucast (drop_bit 8 v AND 0xFF)]
      else if v \<le> 0xFFFFFFFF then
        [0xFE, ucast (drop_bit 0 v AND 0xFF), ucast (drop_bit 8 v AND 0xFF),
         ucast (drop_bit 16 v AND 0xFF), ucast (drop_bit 24 v AND 0xFF)]
      else
        [0xFF, ucast (drop_bit 0 v AND 0xFF), ucast (drop_bit 8 v AND 0xFF),
         ucast (drop_bit 16 v AND 0xFF), ucast (drop_bit 24 v AND 0xFF),
         ucast (drop_bit 32 v AND 0xFF), ucast (drop_bit 40 v AND 0xFF),
         ucast (drop_bit 48 v AND 0xFF), ucast (drop_bit 56 v AND 0xFF)])"

definition get_varint :: "u64 reader" where
  "get_varint bs =
     (case bs of
        [] \<Rightarrow> None
      | t # bs' \<Rightarrow>
          if t < 0xFD then Some (ucast t, bs')
          else if t = 0xFD then
            (case bs' of
               c0 # c1 # r \<Rightarrow> Some (push_bit 0 (ucast c0) OR push_bit 8 (ucast c1), r)
             | _ \<Rightarrow> None)
          else if t = 0xFE then
            (case bs' of
               c0 # c1 # c2 # c3 # r \<Rightarrow>
                 Some (push_bit 0 (ucast c0) OR push_bit 8 (ucast c1) OR push_bit 16 (ucast c2)
                       OR push_bit 24 (ucast c3), r)
             | _ \<Rightarrow> None)
          else
            (case bs' of
               c0 # c1 # c2 # c3 # c4 # c5 # c6 # c7 # r \<Rightarrow>
                 Some (push_bit 0 (ucast c0) OR push_bit 8 (ucast c1) OR push_bit 16 (ucast c2)
                       OR push_bit 24 (ucast c3) OR push_bit 32 (ucast c4) OR push_bit 40 (ucast c5)
                       OR push_bit 48 (ucast c6) OR push_bit 56 (ucast c7), r)
             | _ \<Rightarrow> None))"

subsection \<open>Byte-level facts\<close>

lemma ff_mask: "(0xFF :: 'a::len word) = mask 8"
  by (simp add: mask_eq_exp_minus_1)

text \<open>
  The reference: the low byte first, recursively. Every fixed-width routine above is an unrolled
  instance of it.
\<close>

fun le_bytes :: "nat \<Rightarrow> 'a::len word \<Rightarrow> bytes" where
  "le_bytes 0 v = []"
| "le_bytes (Suc k) v = ucast v # le_bytes k (drop_bit 8 v)"

fun le_val :: "bytes \<Rightarrow> 'a::len word" where
  "le_val [] = 0"
| "le_val (b # bs) = ucast b OR push_bit 8 (le_val bs)"

lemma length_le_bytes [simp]: "length (le_bytes k v) = k"
  by (induction k arbitrary: v) simp_all

lemma le_val_le_bytes: "le_val (le_bytes k v) = take_bit (8 * k) v"
proof (induction k arbitrary: v)
  case (Suc k)
  have "bit (le_val (le_bytes (Suc k) v) :: 'a word) n = bit (take_bit (8 * Suc k) v) n"
    if l: "n < LENGTH('a)" for n
    by (cases "n < 8") (use l in \<open>auto simp: Suc bit_simps\<close>)
  then show ?case by (rule bit_word_eqI)
qed simp

lemma bit_le_val: "bit (le_val bs :: 'a::len word) n \<Longrightarrow> n < 8 * length bs"
proof (induction bs arbitrary: n)
  case (Cons b bs)
  show ?case
  proof (cases "n < 8")
    case False
    with Cons.prems have "bit (le_val bs :: 'a word) (n - 8)"
      by (auto simp: bit_simps dest: bit_imp_le_length)
    from Cons.IH [OF this] show ?thesis by simp
  qed simp
qed simp

lemma le_bytes_le_val:
  "8 * length bs \<le> LENGTH('a) \<Longrightarrow> le_bytes (length bs) (le_val bs :: 'a::len word) = bs"
proof (induction bs)
  case (Cons b bs)
  have lo: "ucast (ucast b OR push_bit 8 (le_val bs :: 'a word)) = b"
    by (rule bit_word_eqI) (use Cons.prems in \<open>auto simp: bit_simps\<close>)
  have hi: "drop_bit 8 (ucast b OR push_bit 8 (le_val bs :: 'a word)) = le_val bs"
    by (rule bit_word_eqI)
       (use Cons.prems in \<open>auto simp: bit_simps dest: bit_imp_le_length bit_le_val\<close>)
  have "le_bytes (length bs) (le_val bs :: 'a word) = bs" using Cons by simp
  then show ?case by (simp only: list.size le_val.simps le_bytes.simps add_0_right add_Suc_right lo hi)
qed simp

lemma ucast_and_ff: "(ucast (v AND mask 8) :: u8) = ucast v"
  by (rule bit_word_eqI) (auto simp: bit_simps dest: bit_imp_le_length)

lemma le_bytes_numeral:
  "le_bytes (numeral k) v = ucast v # le_bytes (pred_numeral k) (drop_bit 8 v)"
  by (simp add: numeral_eq_Suc)

lemmas le_unroll [byte_simps] = ff_mask ucast_and_ff le_bytes_numeral

lemma put_le_eq [byte_simps]:
  "put_le16 v = le_bytes 2 v" "put_le32 v' = le_bytes 4 v'" "put_le64 v'' = le_bytes 8 v''"
  by (simp_all add: put_le16_def put_le32_def put_le64_def le_unroll)

lemma get_le_spec:
  "get_le16 bs = map_option (map_prod le_val id) (get_bytes 2 bs)"
  "get_le32 bs = map_option (map_prod le_val id) (get_bytes 4 bs)"
  "get_le64 bs = map_option (map_prod le_val id) (get_bytes 8 bs)"
  by (auto simp: get_le16_def get_le32_def get_le64_def get_bytes_eq push_bit_or
      Suc_le_length_iff split: list.splits)

subsection \<open>Round trips\<close>

lemma get_bytes_le_bytes [simp]: "get_bytes k (le_bytes k v @ rest) = Some (le_bytes k v, rest)"
  using get_bytes_append [of "le_bytes k v" rest] by simp

lemma get_le_exact:
  assumes "map_option (map_prod le_val id) (get_bytes k bs) = Some (x :: 'a::len word, rest)"
    and "8 * k \<le> LENGTH('a)"
  shows "bs = le_bytes k x @ rest"
proof -
  obtain xs where "get_bytes k bs = Some (xs, rest)" and x: "x = le_val xs"
    using assms(1) by auto
  then have "length xs = k" "bs = xs @ rest" using get_bytes_length by blast+
  then show ?thesis using le_bytes_le_val [of xs, where 'a = 'a] assms(2) x by simp
qed

interpretation le16: exact_codec put_le16 get_le16 "\<lambda>_. True"
proof
  fix x rest bs
  show "get_le16 (put_le16 x @ rest) = Some (x, rest)"
    by (simp add: put_le_eq get_le_spec le_val_le_bytes take_bit_word_eq_self)
  assume "get_le16 bs = Some (x, rest)"
  then show "bs = put_le16 x @ rest"
    unfolding put_le_eq get_le_spec by (rule get_le_exact) simp
qed

interpretation le32: exact_codec put_le32 get_le32 "\<lambda>_. True"
proof
  fix x rest bs
  show "get_le32 (put_le32 x @ rest) = Some (x, rest)"
    by (simp add: put_le_eq get_le_spec le_val_le_bytes take_bit_word_eq_self)
  assume "get_le32 bs = Some (x, rest)"
  then show "bs = put_le32 x @ rest"
    unfolding put_le_eq get_le_spec by (rule get_le_exact) simp
qed

interpretation le64: exact_codec put_le64 get_le64 "\<lambda>_. True"
proof
  fix x rest bs
  show "get_le64 (put_le64 x @ rest) = Some (x, rest)"
    by (simp add: put_le_eq get_le_spec le_val_le_bytes take_bit_word_eq_self)
  assume "get_le64 bs = Some (x, rest)"
  then show "bs = put_le64 x @ rest"
    unfolding put_le_eq get_le_spec by (rule get_le_exact) simp
qed

definition whole_sats :: "amount \<Rightarrow> bool" where
  "whole_sats a = (amt a mod 1000 = 0 \<and> amt a + 999 < 2 ^ 64)"

interpretation le_amount: codec put_le_amount get_le_amount whole_sats
proof
  fix x rest
  assume "whole_sats x"
  then show "get_le_amount (put_le_amount x @ rest) = Some (x, rest)"
    by (simp add: put_le_amount_def get_le_amount_def le64.get_put whole_sats_def
        sat_to_sat mod_eq_0_iff_dvd)
qed

lemma put_varint_eq:
  "put_varint v =
     (if v < 0xFD then [ucast v]
      else if v \<le> 0xFFFF then 0xFD # le_bytes 2 v
      else if v \<le> 0xFFFFFFFF then 0xFE # le_bytes 4 v
      else 0xFF # le_bytes 8 v)"
  by (simp add: put_varint_def le_unroll)

lemma get_varint_eq:
  "get_varint (t # bs) =
     (if t < 0xFD then Some (ucast t, bs)
      else map_option (map_prod le_val id)
             (get_bytes (if t = 0xFD then 2 else if t = 0xFE then 4 else 8) bs))"
  by (auto simp: get_varint_def get_bytes_eq push_bit_or Suc_le_length_iff split: list.splits)

lemma take_bit_small: "unat v < 2 ^ k \<Longrightarrow> take_bit k v = (v :: 'a::len word)"
  by (simp add: word_unat_eq_iff unsigned_take_bit_eq take_bit_nat_eq_self)

interpretation varint: codec put_varint get_varint "\<lambda>_. True"
proof
  fix v rest
  have "(ucast (ucast v :: u8) :: u64) = v" "(ucast v :: u8) < 0xFD" if "v < 0xFD"
  proof -
    have u: "unat v < 253" using that by (simp add: word_less_nat_alt)
    then have "unat (ucast (ucast v :: u8) :: u64) = unat v"
      by (simp add: unsigned_ucast_eq unsigned_take_bit_eq take_bit_nat_eq_self)
    then show "(ucast (ucast v :: u8) :: u64) = v" by (simp only: word_unat_eq_iff)
    show "(ucast v :: u8) < 0xFD"
      using u by (simp add: word_less_nat_alt unsigned_ucast_eq unsigned_take_bit_eq take_bit_nat_eq_self)
  qed
  moreover have "take_bit 16 v = v" if "v \<le> 0xFFFF"
    by (rule take_bit_small) (use that in \<open>simp add: word_le_nat_alt\<close>)
  moreover have "take_bit 32 v = v" if "v \<le> 0xFFFFFFFF"
    by (rule take_bit_small) (use that in \<open>simp add: word_le_nat_alt\<close>)
  moreover have "take_bit 64 v = v" by (simp add: take_bit_word_eq_self)
  ultimately show "get_varint (put_varint v @ rest) = Some (v, rest)"
    by (simp add: put_varint_eq get_varint_eq le_val_le_bytes)
qed

lemmas codec_laws [codec_simps] =
  le16.get_put le32.get_put le64.get_put le_amount.get_put varint.get_put

lemma length_put_varint:
  "length (put_varint v) =
     (if v < 0xFD then 1 else if v \<le> 0xFFFF then 3 else if v \<le> 0xFFFFFFFF then 5 else 9)"
  by (simp add: put_varint_eq)

subsection \<open>Properties\<close>

text \<open>What the little-endian and variable-length integer writers write, the readers read back,
  leaving the rest of the stream untouched.\<close>

theorem integer_codecs_roundtrip:
  "get_le16 (put_le16 a @ rest) = Some (a, rest) \<and> get_le32 (put_le32 b @ rest) = Some (b, rest)
   \<and> get_le64 (put_le64 c @ rest) = Some (c, rest) \<and> get_varint (put_varint c @ rest) = Some (c, rest)"
  by (simp add: codec_laws)

end
