(* ===== verification/Util_Str.thy ===== *)
theory Util_Str
  imports Clboss_Prelude
begin

unbundle bit_operations_syntax

text \<open>
  \<open>src/Util/Str.cpp\<close>: hexadecimal dumping and reading of byte strings, the check for a
  hexadecimal string, trimming, and digit grouping. Reading back a dump gives the bytes again,
  \<open>ishex\<close> accepts exactly what \<open>hexread\<close> reads, and grouping only inserts underscores.
\<close>

subsection \<open>Definitions\<close>

definition hex_digit :: "nat \<Rightarrow> char" where
  "hex_digit d = (if d < 10 then char_of (48 + d) else char_of (87 + d))"

definition hexbyte :: "u8 \<Rightarrow> string" where
  "hexbyte v = [hex_digit (unat v div 16), hex_digit (unat v mod 16)]"

definition hexdump :: "bytes \<Rightarrow> string" where
  "hexdump p = concat (map hexbyte p)"

definition char_between :: "char \<Rightarrow> char \<Rightarrow> char \<Rightarrow> bool" where
  "char_between lo c hi = (of_char lo \<le> (of_char c :: nat) \<and> (of_char c :: nat) \<le> of_char hi)"

definition parse_hex :: "char \<Rightarrow> u8 result" where
  "parse_hex c =
     (if char_between CHR ''0'' c CHR ''9'' then Inr (byte_of_char c AND 0xF)
      else if char_between CHR ''a'' c CHR ''f'' \<or> char_between CHR ''A'' c CHR ''F''
        then Inr ((byte_of_char c + 9) AND 0xF)
      else Inl (HexParseFailure (''Non-hex character: '' @ [c])))"

definition parse_hex_byte :: "char \<Rightarrow> char \<Rightarrow> u8 result" where
  "parse_hex_byte c0 c1 =
     (case parse_hex c0 of
        Inl e \<Rightarrow> Inl e
      | Inr h \<Rightarrow> (case parse_hex c1 of Inl e \<Rightarrow> Inl e | Inr l \<Rightarrow> Inr (push_bit 4 h OR l)))"

fun hexread_loop :: "string \<Rightarrow> bytes result" where
  "hexread_loop (c0 # c1 # s) =
     (case parse_hex_byte c0 c1 of
        Inl e \<Rightarrow> Inl e
      | Inr b \<Rightarrow> (case hexread_loop s of Inl e \<Rightarrow> Inl e | Inr bs \<Rightarrow> Inr (b # bs)))"
| "hexread_loop _ = Inr []"

definition hexread :: "string \<Rightarrow> bytes result" where
  "hexread s =
     (if length s mod 2 \<noteq> 0 then Inl (HexParseFailure ''String length must be even.'')
      else hexread_loop s)"

definition hex_char :: "char \<Rightarrow> bool" where
  "hex_char c =
     (char_between CHR ''0'' c CHR ''9'' \<or> char_between CHR ''a'' c CHR ''f''
      \<or> char_between CHR ''A'' c CHR ''F'')"

definition ishex :: "string \<Rightarrow> bool" where
  "ishex s = (if length s mod 2 \<noteq> 0 then False else list_all hex_char s)"

definition isspace :: "char \<Rightarrow> bool" where
  "isspace c = (of_char c = (32::nat) \<or> (9 \<le> (of_char c :: nat) \<and> (of_char c :: nat) \<le> 13))"

definition trim :: "string \<Rightarrow> string" where
  "trim s =
     (let start = length (takeWhile isspace s) in
      if start = length s then []
      else (let end = length s - length (takeWhile isspace (rev s))
            in drop start (take end s)))"

definition group_digits :: "u64 \<Rightarrow> string" where
  "group_digits v =
     (let s = dec (unat v); n = length s
      in concat (map (\<lambda>i. (if i \<noteq> 0 \<and> (n - i) mod 3 = 0 then ''_'' else []) @ [s ! i]) [0..<n]))"

definition group_digits_signed :: "64 word \<Rightarrow> string" where
  "group_digits_signed v =
     (if sint v < 0 then ''-'' @ group_digits (- (v + 1) + 1) else group_digits v)"

subsection \<open>Hexadecimal\<close>

lemma hex_digit_cases:
  fixes d :: nat
  assumes "d < 16"
  shows "d \<in> {0,1,2,3,4,5,6,7,8,9,10,11,12,13,14,15}"
  unfolding insert_iff empty_iff using assms by presburger

lemma parse_hex_hex_digit: "d < 16 \<Longrightarrow> parse_hex (hex_digit d) = Inr (of_nat d)"
  by (drule hex_digit_cases)
     (elim insertE, simp_all add: parse_hex_def hex_digit_def char_between_def byte_of_char_def)

lemma nibbles_combine:
  fixes v :: u8
  shows "push_bit 4 (of_nat (unat v div 16)) OR of_nat (unat v mod 16) = v"
proof -
  have hi: "of_nat (unat v div 16) = drop_bit 4 v"
    by (simp add: drop_bit_eq_div word_arith_nat_div)
  have lo: "of_nat (unat v mod 16) = take_bit 4 v"
    by (simp add: take_bit_eq_mod word_arith_nat_mod)
  show ?thesis unfolding hi lo
    by (rule bit_word_eqI) (auto simp: bit_simps)
qed

lemma parse_hex_byte_hexbyte:
  "parse_hex_byte (hex_digit (unat v div 16)) (hex_digit (unat v mod 16)) = Inr v"
proof -
  have "unat v < 256" using unsigned_less [of v] by simp
  then have "unat v div 16 < 16" by simp
  then show ?thesis by (simp add: parse_hex_byte_def parse_hex_hex_digit nibbles_combine)
qed

lemma hexread_loop_hexdump: "hexread_loop (hexdump p) = Inr p"
  by (induction p) (simp_all add: hexdump_def hexbyte_def parse_hex_byte_hexbyte)

lemma length_hexdump [simp]: "length (hexdump p) = 2 * length p"
  by (induction p) (simp_all add: hexdump_def hexbyte_def)

lemma parse_hex_ok_iff: "is_ok (parse_hex c) \<longleftrightarrow> hex_char c"
  by (auto simp: parse_hex_def hex_char_def)

lemma parse_hex_byte_ok_iff: "is_ok (parse_hex_byte a b) \<longleftrightarrow> hex_char a \<and> hex_char b"
  by (auto simp: parse_hex_byte_def parse_hex_ok_iff [symmetric] split: sum.splits)

lemma hexread_loop_ok_Cons:
  "is_ok (hexread_loop (c0 # c1 # s)) \<longleftrightarrow> is_ok (parse_hex_byte c0 c1) \<and> is_ok (hexread_loop s)"
  by (auto split: sum.splits)

lemma hexread_loop_ok_iff: "even (length s) \<Longrightarrow> is_ok (hexread_loop s) \<longleftrightarrow> list_all hex_char s"
proof (induction s rule: hexread_loop.induct)
  case (1 c0 c1 s)
  show ?case
  proof (cases "is_ok (parse_hex_byte c0 c1)")
    case True
    then obtain b where "parse_hex_byte c0 c1 = Inr b" by (auto simp: is_ok_iff)
    then have "is_ok (hexread_loop s) \<longleftrightarrow> list_all hex_char s" using 1 by simp
    then show ?thesis unfolding hexread_loop_ok_Cons parse_hex_byte_ok_iff by simp
  next
    case False
    then have "\<not> (hex_char c0 \<and> hex_char c1)" unfolding parse_hex_byte_ok_iff .
    then show ?thesis unfolding hexread_loop_ok_Cons parse_hex_byte_ok_iff by auto
  qed
qed simp_all

lemma hexread_loop_length: "hexread_loop s = Inr bs \<Longrightarrow> even (length s) \<Longrightarrow> 2 * length bs = length s"
  by (induction s arbitrary: bs rule: hexread_loop.induct) (auto split: sum.splits)

lemma hexread_hexdump [simp]: "hexread (hexdump p) = Inr p"
  by (simp add: hexread_def hexread_loop_hexdump)

lemma hexread_ok_iff_ishex: "is_ok (hexread s) \<longleftrightarrow> ishex s"
  by (auto simp: hexread_def ishex_def hexread_loop_ok_iff even_iff_mod_2_eq_zero)

lemma hexread_length: "hexread s = Inr bs \<Longrightarrow> 2 * length bs = length s"
  by (auto simp: hexread_def even_iff_mod_2_eq_zero hexread_loop_length split: if_splits)

lemma ishex_hexdump [simp]: "ishex (hexdump p)"
  using hexread_ok_iff_ishex [of "hexdump p"] by simp

subsection \<open>Trimming\<close>

lemma trim_reference: "trim s = rev (dropWhile isspace (rev (dropWhile isspace s)))"
proof (cases "length (takeWhile isspace s) = length s")
  case True
  then have d: "dropWhile isspace s = []"
    by (metis append_eq_conv_conj drop_all le_refl takeWhile_dropWhile_id)
  have "trim s = []" using True by (simp add: trim_def)
  then show ?thesis by (simp only: d rev.simps dropWhile.simps)
next
  case False
  define d where "d = dropWhile isspace s"
  then obtain y ys where y: "d = y # ys" "\<not> isspace y"
    using False by (metis hd_dropWhile list.collapse self_append_conv takeWhile_dropWhile_id)
  have s: "s = takeWhile isspace s @ y # ys"
    using y(1) unfolding d_def by (metis takeWhile_dropWhile_id)
  let ?t = "takeWhile isspace (rev ys)"
  have tw: "takeWhile isspace (rev s) = ?t"
    by (subst s) (simp add: takeWhile_tail [where P = isspace and x = y, OF y(2)])
  have le: "length ?t \<le> length ys" by (metis length_rev length_takeWhile_le)
  have ls: "length s = length (takeWhile isspace s) + Suc (length ys)" by (subst s) simp
  have "trim s = drop (length (takeWhile isspace s)) (take (length s - length ?t) s)"
    using False by (simp add: trim_def tw)
  also have "\<dots> = take (Suc (length ys) - length ?t) (y # ys)"
  proof -
    have "drop (length (takeWhile isspace s)) s = y # ys"
      using y(1) unfolding d_def by (simp add: dropWhile_eq_drop)
    moreover have "length s - length ?t - length (takeWhile isspace s) = Suc (length ys) - length ?t"
      using ls by simp
    ultimately show ?thesis by (simp only: drop_take)
  qed
  also have "\<dots> = rev (drop (length ?t) (rev (y # ys)))"
    using le by (simp add: rev_drop Suc_diff_le)
  also have "\<dots> = rev (dropWhile isspace (rev (y # ys)))"
  proof -
    have "dropWhile isspace (rev ys @ [y]) = drop (length ?t) (rev ys @ [y])"
      by (metis dropWhile_eq_drop takeWhile_tail y(2))
    then show ?thesis by simp
  qed
  finally show ?thesis using y(1) by (simp add: d_def)
qed

lemma trim_idem: "trim (trim s) = trim s"
proof -
  have *: "dropWhile isspace (trim s) = trim s"
  proof (cases "trim s")
    case (Cons c cs)
    have "c = hd (trim s)" "trim s \<noteq> []" using Cons by auto
    then have "\<not> isspace c"
      unfolding trim_reference
      by (metis dropWhile_eq_self_iff dropWhile_idem hd_append2 hd_dropWhile rev_is_Nil_conv rev_rev_ident takeWhile_dropWhile_id rev_append)
    then show ?thesis using Cons by simp
  qed simp
  show ?thesis
    by (subst trim_reference) (simp add: * , simp add: trim_reference dropWhile_idem)
qed

subsection \<open>Digit grouping\<close>

lemma dec_no_underscore: "CHR ''_'' \<notin> set (dec n)"
  using dec_digits [of n] by (auto simp: digit_char_def)

lemma filter_group_digits: "filter (\<lambda>c. c \<noteq> CHR ''_'') (group_digits v) = dec (unat v)"
proof -
  have "filter (\<lambda>c. c \<noteq> CHR ''_'') (group_digits v)
      = concat (map (\<lambda>i. [dec (unat v) ! i]) [0..<length (dec (unat v))])"
    unfolding group_digits_def Let_def filter_concat map_map
  proof (rule arg_cong [of _ _ concat], rule map_cong [OF refl])
    fix i
    assume "i \<in> set [0..<length (dec (unat v))]"
    then have "dec (unat v) ! i \<in> set (dec (unat v))" by simp
    then have "dec (unat v) ! i \<noteq> CHR ''_''" using dec_no_underscore by metis
    then show "(filter (\<lambda>c. c \<noteq> CHR ''_'') \<circ>
        (\<lambda>i. (if i \<noteq> 0 \<and> (length (dec (unat v)) - i) mod 3 = 0 then ''_'' else []) @ [dec (unat v) ! i])) i
        = [dec (unat v) ! i]" by simp
  qed
  then show ?thesis by (simp add: map_nth concat_map_singleton)
qed

lemma group_digits_signed_neg:
  "sint v < 0 \<Longrightarrow> group_digits_signed v = ''-'' @ group_digits (of_nat (nat (- sint v)))"
proof -
  assume neg: "sint v < 0"
  have "of_nat (nat (- sint v)) = (of_int (- sint v) :: 64 word)"
    using neg by (metis int_nat_eq nat_0_le neg_le_0_iff_le neg_0_le_iff_le less_imp_le of_int_of_nat_eq)
  also have "\<dots> = - v" by simp
  finally show ?thesis using neg by (simp add: group_digits_signed_def)
qed

subsection \<open>Properties\<close>

text \<open>Reading back a hex dump gives the bytes that were dumped, and \<open>hexread\<close> succeeds on exactly
  the strings \<open>ishex\<close> accepts.\<close>

theorem hex_roundtrip: "hexread (hexdump p) = Inr p \<and> (is_ok (hexread s) \<longleftrightarrow> ishex s)"
  using hexread_ok_iff_ishex by simp

text \<open>Trimming removes the leading and the trailing spaces and nothing else, so trimming twice is
  trimming once.\<close>

theorem trim_strips_both_ends:
  "trim s = rev (dropWhile isspace (rev (dropWhile isspace s))) \<and> trim (trim s) = trim s"
  using trim_reference trim_idem by blast

text \<open>Grouping digits keeps the number: without the separators the text is the decimal number, and
  a negative number is its magnitude with a sign, the smallest one included.\<close>

theorem group_digits_faithful:
  "filter (\<lambda>c. c \<noteq> CHR ''_'') (group_digits u) = dec (unat u)
   \<and> group_digits_signed v
     = (if sint v < 0 then ''-'' @ group_digits (of_nat (nat (- sint v))) else group_digits v)"
  using filter_group_digits group_digits_signed_neg [of v]
  by (simp add: group_digits_signed_def word_sless_alt)

end
