(* ===== verification/Ln_Ids.thy ===== *)
theory Ln_Ids
  imports Util_Str
begin

unbundle bit_operations_syntax

text \<open>
  The identifiers of the node: \<open>src/Ln/NodeId.cpp\<close> (33-byte public keys with a null value),
  \<open>src/Ln/Scid.cpp\<close> (short channel ids, three numbers packed in 64 bits), and the fixed-size
  byte blobs \<open>src/Sha256/Hash.cpp\<close>, \<open>src/Ripemd160/Hash.cpp\<close>, \<open>src/Uuid.cpp\<close> and
  \<open>src/Ln/Preimage.cpp\<close>. The locale \<open>hex_blob\<close> states what a fixed-size blob with a hexadecimal
  form promises and is interpreted on all four.
\<close>

subsection \<open>Fixed-size blobs\<close>

datatype sha256_hash = Sha256Hash (hash_impl: "bytes option")

definition hash_to_buffer :: "sha256_hash \<Rightarrow> bytes" where
  "hash_to_buffer h = (case hash_impl h of Some d \<Rightarrow> d | None \<Rightarrow> replicate 32 0)"

definition hash_from_buffer :: "bytes \<Rightarrow> sha256_hash" where
  "hash_from_buffer d = Sha256Hash (Some d)"

definition hash_valid_string :: "string \<Rightarrow> bool" where
  "hash_valid_string s = (length s = 64 \<and> ishex s)"

definition hash_of_string :: "string \<Rightarrow> sha256_hash result" where
  "hash_of_string s =
     (case hexread s of
        Inl e \<Rightarrow> Inl e
      | Inr b \<Rightarrow> if length b \<noteq> 32 then Inl (InvalidArgument ''Hashes must be 32 bytes.'')
                 else Inr (Sha256Hash (Some b)))"

definition string_of_hash :: "sha256_hash \<Rightarrow> string" where
  "string_of_hash h =
     (case hash_impl h of None \<Rightarrow> replicate 64 CHR ''0'' | Some d \<Rightarrow> hexdump d)"

definition hash_bool :: "sha256_hash \<Rightarrow> bool" where
  "hash_bool h = (case hash_impl h of None \<Rightarrow> False | Some d \<Rightarrow> \<not> (replicate 32 0 = d))"

definition hash_eq :: "sha256_hash \<Rightarrow> sha256_hash \<Rightarrow> bool" where
  "hash_eq a b = (hash_to_buffer a = hash_to_buffer b)"

definition hash_wf :: "sha256_hash \<Rightarrow> bool" where
  "hash_wf h = (case hash_impl h of None \<Rightarrow> True | Some d \<Rightarrow> length d = 32)"

datatype ripemd160_hash = Ripemd160Hash (ripemd_impl: "bytes option")

definition ripemd_to_buffer :: "ripemd160_hash \<Rightarrow> bytes" where
  "ripemd_to_buffer h = (case ripemd_impl h of Some d \<Rightarrow> d | None \<Rightarrow> replicate 20 0)"

definition ripemd_valid_string :: "string \<Rightarrow> bool" where
  "ripemd_valid_string s = (length s = 40 \<and> ishex s)"

definition ripemd_of_string :: "string \<Rightarrow> ripemd160_hash result" where
  "ripemd_of_string s =
     (case hexread s of
        Inl e \<Rightarrow> Inl e
      | Inr b \<Rightarrow> if length b \<noteq> 20 then Inl (InvalidArgument ''Ripemd160::Hash: incorrect size.'')
                 else Inr (Ripemd160Hash (Some b)))"

definition string_of_ripemd :: "ripemd160_hash \<Rightarrow> string" where
  "string_of_ripemd h =
     (case ripemd_impl h of None \<Rightarrow> replicate 40 CHR ''0'' | Some d \<Rightarrow> hexdump d)"

definition ripemd_wf :: "ripemd160_hash \<Rightarrow> bool" where
  "ripemd_wf h = (case ripemd_impl h of None \<Rightarrow> True | Some d \<Rightarrow> length d = 20)"

datatype uuid = Uuid (uuid_impl: "bytes option")

definition uuid_to_buffer :: "uuid \<Rightarrow> bytes" where
  "uuid_to_buffer u = (case uuid_impl u of Some d \<Rightarrow> d | None \<Rightarrow> replicate 16 0)"

definition uuid_valid_string :: "string \<Rightarrow> bool" where
  "uuid_valid_string s = (ishex s \<and> length s = 32)"

definition uuid_of_string :: "string \<Rightarrow> uuid result" where
  "uuid_of_string s =
     (case hexread s of
        Inl e \<Rightarrow> Inl e
      | Inr b \<Rightarrow> if length b \<noteq> 16 then Inl (InvalidArgument ''Uuid: invalid input string.'')
                 else Inr (Uuid (Some b)))"

definition string_of_uuid :: "uuid \<Rightarrow> string" where
  "string_of_uuid u =
     (case uuid_impl u of None \<Rightarrow> replicate 32 CHR ''0'' | Some d \<Rightarrow> hexdump d)"

definition uuid_wf :: "uuid \<Rightarrow> bool" where
  "uuid_wf u = (case uuid_impl u of None \<Rightarrow> True | Some d \<Rightarrow> length d = 16)"

datatype preimage = Preimage (preimage_impl: "bytes option")

definition preimage_to_buffer :: "preimage \<Rightarrow> bytes" where
  "preimage_to_buffer p = (case preimage_impl p of Some d \<Rightarrow> d | None \<Rightarrow> replicate 32 0)"

definition preimage_from_buffer :: "bytes \<Rightarrow> preimage" where
  "preimage_from_buffer d = Preimage (Some d)"

definition preimage_valid_string :: "string \<Rightarrow> bool" where
  "preimage_valid_string s = (length s = 64 \<and> ishex s)"

definition preimage_of_string :: "string \<Rightarrow> preimage result" where
  "preimage_of_string s =
     (case hexread s of
        Inl e \<Rightarrow> Inl e
      | Inr b \<Rightarrow> if length b \<noteq> 32 then Inl (InvalidArgument ''Ln::Preimage: wrong size.'')
                 else Inr (Preimage (Some b)))"

text \<open>The null preimage prints as the literal of the source, which has 53 zeros.\<close>

definition string_of_preimage :: "preimage \<Rightarrow> string" where
  "string_of_preimage p =
     (case preimage_impl p of
        None \<Rightarrow> ''00000000000000000000000000000000000000000000000000000''
      | Some d \<Rightarrow> hexdump d)"

definition preimage_wf :: "preimage \<Rightarrow> bool" where
  "preimage_wf p = (case preimage_impl p of None \<Rightarrow> True | Some d \<Rightarrow> length d = 32)"

locale hex_blob =
  fixes n :: nat
    and to_buf :: "'a \<Rightarrow> bytes"
    and of_buf :: "bytes \<Rightarrow> 'a"
    and valid :: "string \<Rightarrow> bool"
    and parse :: "string \<Rightarrow> 'a result"
    and show_blob :: "'a \<Rightarrow> string"
    and wf :: "'a \<Rightarrow> bool"
    and err :: string
  assumes buf_of_buf: "length d = n \<Longrightarrow> to_buf (of_buf d) = d \<and> wf (of_buf d)"
    and buf_length: "wf x \<Longrightarrow> length (to_buf x) = n"
    and valid_iff: "valid s \<longleftrightarrow> length s = 2 * n \<and> ishex s"
    and parse_eq: "parse s = (case hexread s of Inl e \<Rightarrow> Inl e
        | Inr b \<Rightarrow> if length b \<noteq> n then Inl (InvalidArgument err) else Inr (of_buf b))"
    and show_eq: "wf x \<Longrightarrow> show_blob x = hexdump (to_buf x)"
begin

lemma valid_iff_parse: "valid s \<longleftrightarrow> is_ok (parse s)"
proof (cases "hexread s")
  case (Inl e)
  then show ?thesis using hexread_ok_iff_ishex [of s] by (simp add: valid_iff parse_eq)
next
  case (Inr b)
  then have "ishex s" "length s = 2 * length b"
    using hexread_ok_iff_ishex [of s] hexread_length [OF Inr] by simp_all
  then show ?thesis using Inr by (simp add: valid_iff parse_eq)
qed

lemma parse_show: "wf x \<Longrightarrow> \<exists>y. parse (show_blob x) = Inr y \<and> wf y \<and> to_buf y = to_buf x"
  by (simp add: show_eq parse_eq buf_length buf_of_buf)

lemma valid_show: "wf x \<Longrightarrow> valid (show_blob x)"
  by (simp add: valid_iff show_eq buf_length)

lemma parse_wf: "parse s = Inr x \<Longrightarrow> wf x"
  by (auto simp: parse_eq buf_of_buf split: sum.splits if_splits)

end

lemma hexdump_zeros: "hexdump (replicate k 0) = replicate (2 * k) CHR ''0''"
proof (induction k)
  case (Suc k)
  have "hex_digit 0 = CHR ''0''" by code_simp
  with Suc show ?case by (simp add: hexdump_def hexbyte_def)
qed (simp add: hexdump_def)

interpretation sha256: hex_blob 32 hash_to_buffer hash_from_buffer hash_valid_string hash_of_string
  string_of_hash hash_wf "''Hashes must be 32 bytes.''"
  by unfold_locales
     (auto simp: hash_to_buffer_def hash_from_buffer_def hash_wf_def hash_valid_string_def
       hash_of_string_def string_of_hash_def hexdump_zeros [of 32, simplified] split: option.splits sum.splits)

interpretation ripemd160: hex_blob 20 ripemd_to_buffer "Ripemd160Hash \<circ> Some" ripemd_valid_string
  ripemd_of_string string_of_ripemd ripemd_wf "''Ripemd160::Hash: incorrect size.''"
  by unfold_locales
     (auto simp: ripemd_to_buffer_def ripemd_wf_def ripemd_valid_string_def ripemd_of_string_def
       string_of_ripemd_def hexdump_zeros [of 20, simplified] split: option.splits sum.splits)

interpretation uuid: hex_blob 16 uuid_to_buffer "Uuid \<circ> Some" uuid_valid_string
  uuid_of_string string_of_uuid uuid_wf "''Uuid: invalid input string.''"
  by unfold_locales
     (auto simp: uuid_to_buffer_def uuid_wf_def uuid_valid_string_def uuid_of_string_def
       string_of_uuid_def hexdump_zeros [of 16, simplified] split: option.splits sum.splits)

text \<open>A preimage keeps the contract only when it is not null.\<close>

interpretation preimage: hex_blob 32 preimage_to_buffer preimage_from_buffer preimage_valid_string
  preimage_of_string string_of_preimage "\<lambda>p. preimage_impl p \<noteq> None \<and> preimage_wf p"
  "''Ln::Preimage: wrong size.''"
  by unfold_locales
     (auto simp: preimage_to_buffer_def preimage_from_buffer_def preimage_wf_def
       preimage_valid_string_def preimage_of_string_def string_of_preimage_def
       split: option.splits sum.splits)

subsection \<open>Node identifiers\<close>

datatype node_id = NodeId (node_impl: "bytes option")

definition all_zeros :: "string \<Rightarrow> bool" where
  "all_zeros s = list_all (\<lambda>c. c = CHR ''0'') s"

definition node_valid_string :: "string \<Rightarrow> bool" where
  "node_valid_string s =
     (if length s \<noteq> 66 then False
      else if \<not> ishex s then False
      else if s ! 0 \<noteq> CHR ''0'' then False
      else if s ! 1 \<noteq> CHR ''2'' \<and> s ! 1 \<noteq> CHR ''3'' \<and> \<not> all_zeros s then False
      else True)"

definition node_of_string :: "string \<Rightarrow> node_id result" where
  "node_of_string s =
     (if \<not> node_valid_string s then Inl (RangeError (''Ln::NodeId: not node ID: '' @ s))
      else if all_zeros s then Inr (NodeId None)
      else (case hexread s of Inl e \<Rightarrow> Inl e | Inr v \<Rightarrow> Inr (NodeId (Some v))))"

definition string_of_node :: "node_id \<Rightarrow> string" where
  "string_of_node n =
     (case node_impl n of
        None \<Rightarrow> ''000000000000000000000000000000000000000000000000000000000000000000''
      | Some raw \<Rightarrow> hexdump raw)"

text \<open>\<open>memcmp(a, b, 33) < 0\<close>: the first differing byte decides.\<close>

fun memcmp_less :: "bytes \<Rightarrow> bytes \<Rightarrow> bool" where
  "memcmp_less (a # as) (b # bs) = (if a = b then memcmp_less as bs else a < b)"
| "memcmp_less [] (b # bs) = True"
| "memcmp_less _ [] = False"

definition node_less_check :: "node_id \<Rightarrow> node_id \<Rightarrow> bool" where
  "node_less_check n o' =
     (case (node_impl n, node_impl o') of
        (None, Some _) \<Rightarrow> True
      | (Some _, None) \<Rightarrow> False
      | (Some a, Some b) \<Rightarrow> memcmp_less a b
      | (None, None) \<Rightarrow> False)"

definition node_less :: "node_id \<Rightarrow> node_id \<Rightarrow> bool" where
  "node_less n o' = (if node_impl o' = node_impl n then False else node_less_check n o')"

definition node_le :: "node_id \<Rightarrow> node_id \<Rightarrow> bool" where
  "node_le n o' = (\<not> node_less o' n)"

definition node_wf :: "node_id \<Rightarrow> bool" where
  "node_wf n =
     (case node_impl n of None \<Rightarrow> True | Some raw \<Rightarrow> length raw = 33 \<and> (hd raw = 2 \<or> hd raw = 3))"

lemma memcmp_less_irrefl [simp]: "\<not> memcmp_less a a"
  by (induction a) auto

lemma memcmp_less_trans: "memcmp_less a b \<Longrightarrow> memcmp_less b c \<Longrightarrow> memcmp_less a c"
proof (induction a b arbitrary: c rule: memcmp_less.induct)
  case (1 a as b bs)
  then show ?case by (cases c) (auto split: if_splits)
next
  case (2 b bs)
  then show ?case by (cases c) auto
qed auto

lemma memcmp_less_total: "a \<noteq> b \<Longrightarrow> memcmp_less a b \<or> memcmp_less b a"
  by (induction a b rule: memcmp_less.induct) (auto simp: neq_Nil_conv)

lemma node_less_trans: "node_less a b \<Longrightarrow> node_less b c \<Longrightarrow> node_less a c"
  by (auto simp: node_less_def node_less_check_def dest: memcmp_less_trans
      split: option.splits if_splits)

lemma node_less_irrefl [simp]: "\<not> node_less a a"
  by (simp add: node_less_def)

lemma node_less_total: "a \<noteq> b \<Longrightarrow> node_less a b \<or> node_less b a"
  using memcmp_less_total
  by (cases a; cases b; cases "node_impl a"; cases "node_impl b")
     (auto simp: node_less_def node_less_check_def)

instantiation node_id :: linorder
begin

definition less_node_id :: "node_id \<Rightarrow> node_id \<Rightarrow> bool" where
  "less_node_id = node_less"

definition less_eq_node_id :: "node_id \<Rightarrow> node_id \<Rightarrow> bool" where
  "less_eq_node_id = node_le"

instance
proof
  fix x y z :: node_id
  show "x < y \<longleftrightarrow> x \<le> y \<and> \<not> y \<le> x"
    unfolding less_node_id_def less_eq_node_id_def node_le_def
    using node_less_trans node_less_irrefl by blast
  show "x \<le> x" by (simp add: less_eq_node_id_def node_le_def)
  show "x \<le> y \<Longrightarrow> y \<le> z \<Longrightarrow> x \<le> z"
    unfolding less_eq_node_id_def node_le_def by (metis node_less_total node_less_trans)
  show "x \<le> y \<Longrightarrow> y \<le> x \<Longrightarrow> x = y"
    unfolding less_eq_node_id_def node_le_def using node_less_total by blast
  show "x \<le> y \<or> y \<le> x"
    unfolding less_eq_node_id_def node_le_def using node_less_trans node_less_irrefl by blast
qed

end

lemma hexbyte_2_3: "hexbyte 2 = ''02''" "hexbyte 3 = ''03''"
  by code_simp+

lemma hexdump_Cons: "hexdump (b # bs) = hexbyte b @ hexdump bs"
  by (simp add: hexdump_def)

lemma string_of_node_valid: "node_wf n \<Longrightarrow> node_valid_string (string_of_node n)"
proof (cases "node_impl n")
  case None
  then have "string_of_node n = hexdump (replicate 33 0)"
    unfolding hexdump_zeros by (simp add: string_of_node_def numeral_eq_Suc)
  moreover have "ishex (hexdump (replicate 33 0))" by simp
  moreover have "all_zeros (hexdump (replicate 33 0))"
    unfolding hexdump_zeros by (simp add: all_zeros_def list_all_iff)
  moreover have "length (hexdump (replicate 33 0)) = 66" by simp
  moreover have "hexdump (replicate 33 0) ! 0 = CHR ''0''" unfolding hexdump_zeros by simp
  ultimately show ?thesis unfolding node_valid_string_def by simp
next
  case (Some raw)
  assume wf: "node_wf n"
  then obtain b bs where raw: "raw = b # bs" "length bs = 32" "b = 2 \<or> b = 3"
    using Some by (cases raw) (auto simp: node_wf_def)
  have "hexdump raw ! 0 = CHR ''0''" "hexdump raw ! 1 = CHR ''2'' \<or> hexdump raw ! 1 = CHR ''3''"
    using raw by (auto simp: hexdump_Cons hexbyte_2_3)
  moreover have "length (hexdump raw) = 66" "ishex (hexdump raw)" using raw by simp_all
  ultimately show ?thesis using Some by (auto simp: node_valid_string_def string_of_node_def)
qed

lemma node_of_string_printed: "node_wf n \<Longrightarrow> node_of_string (string_of_node n) = Inr n"
proof (cases "node_impl n")
  case None
  moreover assume "node_wf n"
  moreover have "all_zeros (string_of_node n)"
    using None by (simp add: string_of_node_def all_zeros_def)
  ultimately show ?thesis
    using string_of_node_valid [of n] by (cases n) (simp add: node_of_string_def)
next
  case (Some raw)
  assume wf: "node_wf n"
  then obtain b bs where raw: "raw = b # bs" "b = 2 \<or> b = 3"
    using Some by (cases raw) (auto simp: node_wf_def)
  have "\<not> all_zeros (hexdump raw)"
    using raw by (auto simp: all_zeros_def hexdump_Cons hexbyte_2_3)
  then show ?thesis
    using string_of_node_valid [OF wf] Some by (cases n) (simp add: node_of_string_def string_of_node_def)
qed

subsection \<open>Short channel ids\<close>

fun parse_number :: "string \<Rightarrow> u64 \<Rightarrow> u64 \<Rightarrow> u64 option" where
  "parse_number [] val mask' = Some val"
| "parse_number (c # s) val mask' =
     (if \<not> digit_char c then None
      else (let new_val = (val * 10 + of_nat (of_char c - 48)) AND mask'
            in if new_val < val then None else parse_number s new_val mask'))"

definition validate_and_parse :: "string \<Rightarrow> (u64 \<times> u64 \<times> u64) option" where
  "validate_and_parse s =
     (let p1 = takeWhile (\<lambda>c. c \<noteq> CHR ''x'') s; r1 = dropWhile (\<lambda>c. c \<noteq> CHR ''x'') s in
      if r1 = [] then None
      else (let p2 = takeWhile (\<lambda>c. c \<noteq> CHR ''x'') (tl r1);
                r2 = dropWhile (\<lambda>c. c \<noteq> CHR ''x'') (tl r1) in
      if r2 = [] then None
      else if p1 = [] then None
      else if p2 = [] then None
      else if tl r2 = [] then None
      else (case parse_number p1 0 0xFFFFFF of None \<Rightarrow> None | Some b \<Rightarrow>
           (case parse_number p2 0 0xFFFFFF of None \<Rightarrow> None | Some t \<Rightarrow>
           (case parse_number (tl r2) 0 0xFFFF of None \<Rightarrow> None | Some o' \<Rightarrow> Some (b, t, o'))))))"

datatype scid = Scid (scid_val: u64)

definition scid_valid_string :: "string \<Rightarrow> bool" where
  "scid_valid_string s = (validate_and_parse s \<noteq> None)"

definition scid_of_string :: "string \<Rightarrow> scid result" where
  "scid_of_string s =
     (case validate_and_parse s of
        None \<Rightarrow> Inl (InvalidArgument (''Not an SCID: '' @ s))
      | Some (b, t, o') \<Rightarrow> Inr (Scid (push_bit 40 b OR push_bit 16 t OR push_bit 0 o')))"

definition string_of_scid :: "scid \<Rightarrow> string" where
  "string_of_scid s =
     (let val = scid_val s;
          b = drop_bit 40 val AND 0xFFFFFF;
          t = drop_bit 16 val AND 0xFFFFFF;
          o' = drop_bit 0 val AND 0xFFFF
      in dec (unat b) @ ''x'' @ dec (unat t) @ ''x'' @ dec (unat o'))"

lemma foldl_digits_ge: "x \<le> foldl (\<lambda>v c. v * 10 + digit_val c) (x::nat) s"
proof (induction s arbitrary: x)
  case (Cons c s)
  have "x \<le> x * 10 + digit_val c" by simp
  also have "\<dots> \<le> foldl (\<lambda>v c. v * 10 + digit_val c) (x * 10 + digit_val c) s" by (rule Cons.IH)
  finally show ?case by simp
qed simp

lemma parse_number_small:
  assumes "k \<le> 32" "\<forall>c \<in> set s. digit_char c"
    and "foldl (\<lambda>v c. v * 10 + digit_val c) (unat v) s < 2 ^ k"
  shows "parse_number s v (mask k) = Some (of_nat (foldl (\<lambda>v c. v * 10 + digit_val c) (unat v) s))"
  using assms(2,3)
proof (induction s arbitrary: v)
  case Nil
  then show ?case by simp
next
  case (Cons c s)
  define w where "w = unat v * 10 + digit_val c"
  have fw: "foldl (\<lambda>v c. v * 10 + digit_val c) w s < 2 ^ k" using Cons.prems(2) by (simp add: w_def)
  then have wk: "w < 2 ^ k" using foldl_digits_ge [of w s] by linarith
  have "(2::nat) ^ k \<le> 2 ^ 32" using assms(1) by (simp only: power_increasing)
  then have w64: "w < 2 ^ 64" using wk by simp
  have "v * 10 + of_nat (of_char c - 48) = of_nat w"
    by (simp add: w_def digit_val_def)
  moreover have "of_nat w AND mask k = (of_nat w :: u64)"
    using wk by (simp flip: take_bit_eq_mask of_nat_take_bit add: take_bit_of_nat take_bit_nat_eq_self)
  moreover have uw: "unat (of_nat w :: u64) = w" using w64 by (simp add: unat_of_nat take_bit_nat_eq_self)
  moreover have "\<not> (of_nat w < v)" using uw by (simp add: word_less_nat_alt w_def)
  ultimately show ?case
    using Cons.prems(1) Cons.IH [of "of_nat w"] fw by (simp add: w_def)
qed

lemma scid_masks: "(0xFFFFFF :: u64) = mask 24" "(0xFFFF :: u64) = mask 16"
  by (simp_all add: mask_eq_exp_minus_1)

lemma parse_number_dec:
  assumes "k \<le> 32" "n < 2 ^ k"
  shows "parse_number (dec n) 0 (mask k) = Some (of_nat n)"
  using parse_number_small [OF assms(1), of "dec n" 0] dec_digits [of n] undec_dec [of n] assms(2)
  by (simp add: undec_def)

lemma dec_no_x: "CHR ''x'' \<notin> set (dec n)"
  using dec_digits [of n] by (auto simp: digit_char_def)

lemma takeWhile_dec_x:
  "takeWhile (\<lambda>c. c \<noteq> CHR ''x'') (dec n @ CHR ''x'' # r) = dec n"
  "dropWhile (\<lambda>c. c \<noteq> CHR ''x'') (dec n @ CHR ''x'' # r) = CHR ''x'' # r"
  using dec_no_x [of n] by (subst takeWhile_append2 dropWhile_append2; auto)+

lemma unat_and_mask: "unat (w AND mask k :: u64) < 2 ^ k"
  by (simp flip: take_bit_eq_mask add: unsigned_take_bit_eq)

lemma scid_reassemble:
  "push_bit 40 (drop_bit 40 v AND mask 24) OR push_bit 16 (drop_bit 16 v AND mask 24) OR (v AND mask 16)
     = (v :: u64)"
proof (rule bit_word_eqI)
  fix n
  assume "n < LENGTH(64)"
  then have "n < 16 \<or> 16 \<le> n \<and> n < 40 \<or> 40 \<le> n \<and> n - 40 < 24" by auto
  then show "bit (push_bit 40 (drop_bit 40 v AND mask 24) OR push_bit 16 (drop_bit 16 v AND mask 24)
      OR (v AND mask 16)) n = bit v n"
    by (elim disjE) (auto simp: bit_simps)
qed

lemma scid_of_string_printed: "scid_of_string (string_of_scid s) = Inr s"
proof -
  define v where "v = scid_val s"
  define b t o' where "b = drop_bit 40 v AND mask 24" and "t = drop_bit 16 v AND mask 24"
    and "o' = v AND mask 16"
  have str: "string_of_scid s = dec (unat b) @ CHR ''x'' # dec (unat t) @ CHR ''x'' # dec (unat o')"
    by (simp add: string_of_scid_def Let_def scid_masks b_def t_def o'_def v_def)
  have "parse_number (dec (unat b)) 0 (mask 24) = Some b"
    "parse_number (dec (unat t)) 0 (mask 24) = Some t"
    "parse_number (dec (unat o')) 0 (mask 16) = Some o'"
    using parse_number_dec [of 24 "unat b"] parse_number_dec [of 24 "unat t"]
      parse_number_dec [of 16 "unat o'"] unat_and_mask [of "drop_bit 40 v" 24]
      unat_and_mask [of "drop_bit 16 v" 24] unat_and_mask [of v 16]
    by (simp_all add: b_def t_def o'_def)
  then have "validate_and_parse (string_of_scid s) = Some (b, t, o')"
    unfolding str validate_and_parse_def Let_def takeWhile_dec_x list.sel scid_masks by simp
  moreover have "push_bit 40 b OR push_bit 16 t OR o' = v"
    unfolding b_def t_def o'_def by (rule scid_reassemble)
  ultimately show ?thesis by (simp add: scid_of_string_def v_def)
qed

subsection \<open>Properties\<close>

text \<open>For hashes, payment preimages and identifiers, the validity check accepts exactly the
  strings the constructor accepts.\<close>

theorem id_valid_string_exact:
  "(hash_valid_string s \<longleftrightarrow> is_ok (hash_of_string s)) \<and> (ripemd_valid_string s \<longleftrightarrow> is_ok (ripemd_of_string s))
   \<and> (uuid_valid_string s \<longleftrightarrow> is_ok (uuid_of_string s)) \<and> (preimage_valid_string s \<longleftrightarrow> is_ok (preimage_of_string s))"
  using sha256.valid_iff_parse ripemd160.valid_iff_parse uuid.valid_iff_parse preimage.valid_iff_parse
  by blast

text \<open>A printed node identifier, the null one included, reads back as itself.\<close>

theorem node_id_roundtrip:
  assumes "node_wf n"
  shows "node_of_string (string_of_node n) = Inr n"
  using assms by (rule node_of_string_printed)

theorem node_id_roundtrip_witness: "node_of_string (string_of_node (NodeId None)) = Inr (NodeId None)"
  by (rule node_id_roundtrip) (simp add: node_wf_def)

text \<open>A printed short channel identifier reads back as itself, for every 64-bit value.\<close>

theorem scid_roundtrip: "scid_of_string (string_of_scid s) = Inr s"
  by (rule scid_of_string_printed)

text \<open>The other direction fails: a block number that does not fit 24 bits may pass, since the
  overflow test compares after masking.\<close>

lemma scid_overflow_accepted: "scid_of_string ''20000000x1x0'' = scid_of_string ''3222784x1x0''"
  by (simp add: scid_of_string_def validate_and_parse_def Let_def digit_char_def)

text \<open>The null preimage prints with the wrong number of digits and cannot be read back.\<close>

lemma null_preimage_unreadable: "\<not> is_ok (preimage_of_string (string_of_preimage (Preimage None)))"
proof -
  have "\<not> preimage_valid_string (string_of_preimage (Preimage None))"
    by (simp add: preimage_valid_string_def string_of_preimage_def)
  then show ?thesis using preimage.valid_iff_parse by blast
qed

end
