(* ===== verification/Bitcoin_Tx.thy ===== *)
theory Bitcoin_Tx
  imports Bitcoin_Codec Ln_Ids "HOL-Library.Monad_Syntax"
begin

text \<open>
  \<open>src/Bitcoin/TxId.cpp\<close>, \<open>TxIn.cpp\<close>, \<open>TxOut.cpp\<close>, \<open>WitnessField.cpp\<close> and \<open>Tx.cpp\<close>:
  transactions and their wire form. A reader gives \<open>None\<close> where the C++ stream ends up failed
  (end of input, or the explicit \<open>failbit\<close> for a bad segwit marker). SHA-256 is the vendored
  implementation under \<open>src/external\<close> and is a parameter \<open>sha\<close> of the definitions.
\<close>

subsection \<open>Transaction ids\<close>

datatype txid = TxId (txid_hash: sha256_hash)

definition put_txid :: "txid \<Rightarrow> bytes" where
  "put_txid i = rev (hash_to_buffer (txid_hash i))"

definition get_txid_field :: "txid reader" where
  "get_txid_field bs =
     do { (h, r) \<leftarrow> get_bytes 32 bs; Some (TxId (hash_from_buffer (rev h)), r) }"

definition txid_of_hash :: "sha256_hash \<Rightarrow> txid" where
  "txid_of_hash h = TxId (hash_from_buffer (rev (hash_to_buffer h)))"

definition txid_of_string :: "string \<Rightarrow> txid result" where
  "txid_of_string s = (case hash_of_string s of Inl e \<Rightarrow> Inl e | Inr h \<Rightarrow> Inr (TxId h))"

definition string_of_txid :: "txid \<Rightarrow> string" where
  "string_of_txid i = string_of_hash (txid_hash i)"

definition txid_ok :: "txid \<Rightarrow> bool" where
  "txid_ok i = (case hash_impl (txid_hash i) of None \<Rightarrow> False | Some d \<Rightarrow> length d = 32)"

subsection \<open>Length-prefixed byte strings, inputs, outputs and witnesses\<close>

definition put_var_bytes :: "bytes \<Rightarrow> bytes" where
  "put_var_bytes b = put_varint (of_nat (length b)) @ b"

definition get_var_bytes :: "bytes reader" where
  "get_var_bytes bs = do { (len, r) \<leftarrow> get_varint bs; get_bytes (unat len) r }"

record tx_in =
  prevTxid :: txid
  prevOut :: u32
  scriptSig :: bytes
  nSequence :: u32
  witness :: "bytes list"

definition default_tx_in :: tx_in where
  "default_tx_in =
     \<lparr>prevTxid = TxId (Sha256Hash None), prevOut = 0xFFFFFFFF, scriptSig = [],
      nSequence = 0xFFFFFFFF, witness = []\<rparr>"

definition put_tx_in :: "tx_in \<Rightarrow> bytes" where
  "put_tx_in v =
     put_txid (prevTxid v) @ put_le32 (prevOut v) @ put_varint (of_nat (length (scriptSig v)))
     @ scriptSig v @ put_le32 (nSequence v)"

definition get_tx_in :: "tx_in reader" where
  "get_tx_in bs =
     do { (i, r1) \<leftarrow> get_txid_field bs;
          (n, r2) \<leftarrow> get_le32 r1;
          (scriptSigLen, r3) \<leftarrow> get_varint r2;
          (sc, r4) \<leftarrow> get_bytes (unat scriptSigLen) r3;
          (sq, r5) \<leftarrow> get_le32 r4;
          Some (\<lparr>prevTxid = i, prevOut = n, scriptSig = sc, nSequence = sq, witness = []\<rparr>, r5) }"

record tx_out =
  tx_amount :: amount
  scriptPubKey :: bytes

definition put_tx_out :: "tx_out \<Rightarrow> bytes" where
  "put_tx_out v =
     put_le_amount (tx_amount v) @ put_varint (of_nat (length (scriptPubKey v))) @ scriptPubKey v"

definition get_tx_out :: "tx_out reader" where
  "get_tx_out bs =
     do { (a, r1) \<leftarrow> get_le_amount bs;
          (len, r2) \<leftarrow> get_varint r1;
          (sc, r3) \<leftarrow> get_bytes (unat len) r2;
          Some (\<lparr>tx_amount = a, scriptPubKey = sc\<rparr>, r3) }"

definition put_witness :: "bytes list \<Rightarrow> bytes" where
  "put_witness ws = put_varint (of_nat (length ws)) @ concat (map put_var_bytes ws)"

definition get_witness :: "bytes list reader" where
  "get_witness bs = do { (len, r) \<leftarrow> get_varint bs; get_many get_var_bytes (unat len) r }"

subsection \<open>Transactions\<close>

record tx =
  nVersion :: u32
  inputs :: "tx_in list"
  outputs :: "tx_out list"
  nLockTime :: u32

definition default_tx :: tx where
  "default_tx = \<lparr>nVersion = 2, inputs = [], outputs = [], nLockTime = 0\<rparr>"

definition segwit :: "tx \<Rightarrow> bool" where
  "segwit v = list_ex (\<lambda>i. witness i \<noteq> []) (inputs v)"

definition put_tx :: "tx \<Rightarrow> bytes" where
  "put_tx v =
     put_le32 (nVersion v)
     @ (if segwit v then [0x00, 0x01] else [])
     @ put_varint (of_nat (length (inputs v))) @ concat (map put_tx_in (inputs v))
     @ put_varint (of_nat (length (outputs v))) @ concat (map put_tx_out (outputs v))
     @ (if segwit v then concat (map (\<lambda>i. put_witness (witness i)) (inputs v)) else [])
     @ put_le32 (nLockTime v)"

definition get_tx_body :: "u32 \<Rightarrow> bool \<Rightarrow> u64 \<Rightarrow> tx reader" where
  "get_tx_body ver is_segwit len bs =
     do { (ins, r3) \<leftarrow> get_many get_tx_in (unat len) bs;
          (olen, r4) \<leftarrow> get_varint r3;
          (outs, r5) \<leftarrow> get_many get_tx_out (unat olen) r4;
          (ins', r6) \<leftarrow>
            (if is_segwit then
               do { (ws, r) \<leftarrow> get_many get_witness (length ins) r5;
                    Some (map2 (\<lambda>i w. i\<lparr>witness := w\<rparr>) ins ws, r) }
             else Some (map (\<lambda>i. i\<lparr>witness := []\<rparr>) ins, r5));
          (lt, r7) \<leftarrow> get_le32 r6;
          Some (\<lparr>nVersion = ver, inputs = ins', outputs = outs, nLockTime = lt\<rparr>, r7) }"

definition get_tx :: "tx reader" where
  "get_tx bs =
     do { (ver, r1) \<leftarrow> get_le32 bs;
          (len, r2) \<leftarrow> get_varint r1;
          if len = 0 then
            do { (m, r3) \<leftarrow> get_byte r2;
                 if m \<noteq> 0x01 then None
                 else do { (len', r4) \<leftarrow> get_varint r3; get_tx_body ver True len' r4 } }
          else get_tx_body ver False len r2 }"

definition tx_of_string :: "string \<Rightarrow> tx result" where
  "tx_of_string s =
     (case hexread s of
        Inl e \<Rightarrow> Inl e
      | Inr buf \<Rightarrow>
          (case get_tx buf of
             None \<Rightarrow> Inl (InvalidArgument ''Bitcoin::Tx: invalid hex string input.'')
           | Some (t, r) \<Rightarrow>
               if r \<noteq> [] then Inl (InvalidArgument ''Bitcoin::Tx: input string too long.'')
               else Inr t))"

definition string_of_tx :: "tx \<Rightarrow> string" where
  "string_of_tx t = hexdump (put_tx t)"

definition get_txid :: "(bytes \<Rightarrow> bytes) \<Rightarrow> tx \<Rightarrow> txid" where
  "get_txid sha t =
     (let tmp = t\<lparr>inputs := map (\<lambda>i. i\<lparr>witness := []\<rparr>) (inputs t)\<rparr>
      in txid_of_hash (hash_from_buffer (sha (sha (put_tx tmp)))))"

subsection \<open>Well-formed transactions\<close>

definition small_bytes :: "bytes \<Rightarrow> bool" where
  "small_bytes b = (length b < 2 ^ 64)"

definition tx_in_ok :: "tx_in \<Rightarrow> bool" where
  "tx_in_ok i = (txid_ok (prevTxid i) \<and> small_bytes (scriptSig i))"

definition tx_out_ok :: "tx_out \<Rightarrow> bool" where
  "tx_out_ok v = (whole_sats (tx_amount v) \<and> small_bytes (scriptPubKey v))"

definition witness_ok :: "bytes list \<Rightarrow> bool" where
  "witness_ok ws = (length ws < 2 ^ 64 \<and> list_all small_bytes ws)"

definition tx_ok :: "tx \<Rightarrow> bool" where
  "tx_ok t =
     (inputs t \<noteq> [] \<and> length (inputs t) < 2 ^ 64 \<and> length (outputs t) < 2 ^ 64
      \<and> list_all (\<lambda>i. tx_in_ok i \<and> witness_ok (witness i)) (inputs t)
      \<and> list_all tx_out_ok (outputs t))"

subsection \<open>Round trips\<close>

lemma unat_of_nat_small: "n < 2 ^ 64 \<Longrightarrow> unat (of_nat n :: u64) = n"
  by (simp add: unat_of_nat take_bit_nat_eq_self)

interpretation txid: exact_codec put_txid get_txid_field txid_ok
proof
  fix x rest bs
  assume "txid_ok x"
  then obtain d where x: "x = TxId (Sha256Hash (Some d))" "length d = 32"
    by (cases x; cases "txid_hash x") (auto simp: txid_ok_def split: option.splits)
  then show "get_txid_field (put_txid x @ rest) = Some (x, rest)"
    using get_bytes_append [of "rev d" rest]
    by (simp add: get_txid_field_def put_txid_def hash_to_buffer_def hash_from_buffer_def)
next
  fix bs x rest
  assume "get_txid_field bs = Some (x, rest)"
  then obtain h where "get_bytes 32 bs = Some (h, rest)" "x = TxId (hash_from_buffer (rev h))"
    by (auto simp: get_txid_field_def bind_eq_Some_conv)
  then show "bs = put_txid x @ rest"
    using get_bytes_length by (simp add: put_txid_def hash_to_buffer_def hash_from_buffer_def)
qed

interpretation var_bytes: codec put_var_bytes get_var_bytes small_bytes
  by unfold_locales
     (simp add: put_var_bytes_def get_var_bytes_def small_bytes_def varint.get_put unat_of_nat_small)

interpretation tx_in: codec put_tx_in get_tx_in "\<lambda>i. tx_in_ok i \<and> witness i = []"
  by unfold_locales
     (simp add: put_tx_in_def get_tx_in_def tx_in_ok_def small_bytes_def txid.get_put codec_laws
       unat_of_nat_small)

interpretation tx_out: codec put_tx_out get_tx_out tx_out_ok
  by unfold_locales
     (simp add: put_tx_out_def get_tx_out_def tx_out_ok_def small_bytes_def codec_laws
       unat_of_nat_small)

interpretation witness_field: codec put_witness get_witness witness_ok
  by unfold_locales
     (simp add: put_witness_def get_witness_def witness_ok_def codec_laws unat_of_nat_small
       var_bytes.get_many_put)

abbreviation strip_witness :: "tx_in \<Rightarrow> tx_in" where
  "strip_witness i \<equiv> i\<lparr>witness := []\<rparr>"

lemma put_tx_in_strip [simp]: "put_tx_in (i\<lparr>witness := w\<rparr>) = put_tx_in i"
  by (simp add: put_tx_in_def)

lemma get_many_tx_in:
  assumes "list_all (\<lambda>i. tx_in_ok i \<and> witness_ok (witness i)) ins"
  shows "get_many get_tx_in (length ins) (concat (map put_tx_in ins) @ rest)
      = Some (map strip_witness ins, rest)"
proof -
  have "list_all (\<lambda>i. tx_in_ok i \<and> witness i = []) (map strip_witness ins)"
    using assms by (simp add: list_all_iff tx_in_ok_def)
  from tx_in.get_many_put [OF this, of rest] show ?thesis by (simp add: comp_def)
qed

lemma get_many_witness:
  assumes "list_all (\<lambda>i. tx_in_ok i \<and> witness_ok (witness i)) ins"
  shows "get_many get_witness (length ins) (concat (map (\<lambda>i. put_witness (witness i)) ins) @ rest)
      = Some (map witness ins, rest)"
proof -
  have "list_all witness_ok (map witness ins)" using assms by (simp add: list_all_iff)
  from witness_field.get_many_put [OF this, of rest] show ?thesis by (simp add: comp_def)
qed

lemma map2_restore_witness:
  "map2 (\<lambda>i w. i\<lparr>witness := w\<rparr>) (map strip_witness ins) (map witness ins) = ins"
  by (induction ins) simp_all

lemma not_segwit_strip: "\<not> segwit t \<Longrightarrow> map strip_witness (inputs t) = inputs t"
  by (induction "inputs t") (auto simp: segwit_def list_ex_iff intro!: map_idI)

lemma get_tx_body_put:
  assumes ok: "tx_ok t"
  shows "get_tx_body (nVersion t) (segwit t) (of_nat (length (inputs t)))
     (concat (map put_tx_in (inputs t)) @ put_varint (of_nat (length (outputs t)))
      @ concat (map put_tx_out (outputs t))
      @ (if segwit t then concat (map (\<lambda>i. put_witness (witness i)) (inputs t)) else [])
      @ put_le32 (nLockTime t) @ rest) = Some (t, rest)"
proof -
  have ins: "list_all (\<lambda>i. tx_in_ok i \<and> witness_ok (witness i)) (inputs t)"
    and outs: "list_all tx_out_ok (outputs t)"
    and len: "length (inputs t) < 2 ^ 64" "length (outputs t) < 2 ^ 64"
    using ok by (simp_all add: tx_ok_def)
  show ?thesis
  proof (cases "segwit t")
    case True
    then show ?thesis
      using get_many_tx_in [OF ins] get_many_witness [OF ins] tx_out.get_many_put [OF outs] len
      by (simp add: get_tx_body_def unat_of_nat_small codec_laws map2_restore_witness)
  next
    case False
    then show ?thesis
      using get_many_tx_in [OF ins] tx_out.get_many_put [OF outs] len not_segwit_strip [OF False]
      by (simp add: get_tx_body_def unat_of_nat_small codec_laws comp_def)
  qed
qed

lemma of_nat_length_neq_0: "xs \<noteq> [] \<Longrightarrow> length xs < 2 ^ 64 \<Longrightarrow> (of_nat (length xs) :: u64) \<noteq> 0"
  using unat_of_nat_small [of "length xs"] by auto

interpretation tx: codec put_tx get_tx tx_ok
proof
  fix t rest
  assume ok: "tx_ok t"
  then have n0: "(of_nat (length (inputs t)) :: u64) \<noteq> 0"
    by (simp add: tx_ok_def of_nat_length_neq_0)
  show "get_tx (put_tx t @ rest) = Some (t, rest)"
  proof (cases "segwit t")
    case True
    then show ?thesis
      using get_tx_body_put [OF ok, of rest]
      by (simp add: put_tx_def get_tx_def codec_laws get_varint_eq get_byte_def)
  next
    case False
    then show ?thesis
      using get_tx_body_put [OF ok, of rest] n0 by (simp add: put_tx_def get_tx_def codec_laws)
  qed
qed

lemmas tx_round_trip [codec_simps] = tx.get_put

lemma tx_of_string_printed: "tx_ok t \<Longrightarrow> tx_of_string (string_of_tx t) = Inr t"
  by (simp add: tx_of_string_def string_of_tx_def tx.get_put_whole)

lemma get_txid_strip:
  "get_txid sha (t\<lparr>inputs := map2 (\<lambda>i w. i\<lparr>witness := w\<rparr>) (inputs t) ws\<rparr>) = get_txid sha t"
  if "length ws = length (inputs t)"
proof -
  have "map strip_witness (map2 (\<lambda>i w. i\<lparr>witness := w\<rparr>) ins ws) = map strip_witness ins"
    if "length ws = length ins" for ins
    using that by (induction ws ins rule: list_induct2) simp_all
  then show ?thesis using that by (simp add: get_txid_def Let_def)
qed

subsection \<open>Properties\<close>

text \<open>C38: A transaction with at least one input, with or without witnesses, reads back as itself
  from its serialisation inside a longer stream and from its hex form. The transaction is taken to be
  well-formed: its txids are set, its amounts are whole satoshis and its lengths fit 64 bits.\<close>

theorem tx_roundtrip:
  assumes "tx_ok t"
  shows "get_tx (put_tx t @ rest) = Some (t, rest) \<and> tx_of_string (string_of_tx t) = Inr t"
  using tx.get_put [OF assms] tx_of_string_printed [OF assms] by blast

theorem tx_roundtrip_witness:
  "tx_of_string (string_of_tx
       (default_tx\<lparr>inputs := [default_tx_in\<lparr>prevTxid := TxId (Sha256Hash (Some (replicate 32 5))),
          witness := [[1, 2], []]\<rparr>]\<rparr>))
     = Inr (default_tx\<lparr>inputs := [default_tx_in\<lparr>prevTxid := TxId (Sha256Hash (Some (replicate 32 5))),
          witness := [[1, 2], []]\<rparr>]\<rparr>)"
proof -
  have "tx_ok (default_tx\<lparr>inputs := [default_tx_in\<lparr>
      prevTxid := TxId (Sha256Hash (Some (replicate 32 5))), witness := [[1, 2], []]\<rparr>]\<rparr>)"
    by (simp add: tx_ok_def default_tx_def default_tx_in_def tx_in_ok_def txid_ok_def witness_ok_def
        small_bytes_def)
  from tx_roundtrip [OF this] show ?thesis by blast
qed

text \<open>The transaction identifier does not depend on the witnesses.\<close>

theorem txid_ignores_witness:
  assumes "length ws = length (inputs t)"
  shows "get_txid sha (t\<lparr>inputs := map2 (\<lambda>i w. i\<lparr>witness := w\<rparr>) (inputs t) ws\<rparr>) = get_txid sha t"
  using assms by (rule get_txid_strip)

theorem txid_ignores_witness_witness:
  "get_txid (\<lambda>_. replicate 32 0) (default_tx\<lparr>inputs := [default_tx_in\<lparr>witness := [[1]]\<rparr>]\<rparr>)
     = get_txid (\<lambda>_. replicate 32 0) (default_tx\<lparr>inputs := [default_tx_in]\<rparr>)"
  using txid_ignores_witness
    [of "[[[1]]]" "default_tx\<lparr>inputs := [default_tx_in]\<rparr>" "\<lambda>_. replicate 32 0"] by simp

end
