(* ===== verification/Boltz_Script.thy ===== *)
theory Boltz_Script
  imports Bitcoin_Tx
begin

unbundle bit_operations_syntax

text \<open>
  \<open>src/Boltz/Detail/match_lockscript.cpp\<close> and \<open>find_lockup_outnum.cpp\<close>: recognising the hash
  and timelock script of a swap, and finding the output that pays to it. Whether 33 bytes are a
  public key is decided by libsecp256k1, a parameter \<open>valid_pubkey\<close>. Matching is exactly
  membership in the script template.
\<close>

subsection \<open>Definitions\<close>

definition expect :: "u8 \<Rightarrow> bytes \<Rightarrow> bytes option" where
  "expect v bs = (case bs of [] \<Rightarrow> None | b # r \<Rightarrow> if b \<noteq> v then None else Some r)"

definition expect_end :: "bytes \<Rightarrow> unit option" where
  "expect_end bs = (if bs \<noteq> [] then None else Some ())"

definition get_pubkey :: "(bytes \<Rightarrow> bool) \<Rightarrow> bytes reader" where
  "get_pubkey valid_pubkey bs =
     do { (k, r) \<leftarrow> get_bytes 33 bs; if valid_pubkey k then Some (k, r) else None }"

definition match_lockscript ::
  "(bytes \<Rightarrow> bool) \<Rightarrow> bytes \<Rightarrow> (bytes \<times> bytes \<times> u32 \<times> bytes) option" where
  "match_lockscript valid_pubkey script =
     do { r \<leftarrow> expect 0x82 script;
          r \<leftarrow> expect 0x01 r; r \<leftarrow> expect 0x20 r;
          r \<leftarrow> expect 0x87 r;
          r \<leftarrow> expect 0x63 r;
          r \<leftarrow> expect 0xa9 r;
          r \<leftarrow> expect 0x14 r;
          (hash, r) \<leftarrow> get_bytes 20 r;
          r \<leftarrow> expect 0x88 r;
          r \<leftarrow> expect 0x21 r;
          (pubkey_hash, r) \<leftarrow> get_pubkey valid_pubkey r;
          r \<leftarrow> expect 0x67 r;
          r \<leftarrow> expect 0x75 r;
          r \<leftarrow> expect 0x03 r;
          (buf, r) \<leftarrow> get_bytes 3 r;
          r \<leftarrow> expect 0xb1 r;
          r \<leftarrow> expect 0x75 r;
          r \<leftarrow> expect 0x21 r;
          (pubkey_locktime, r) \<leftarrow> get_pubkey valid_pubkey r;
          r \<leftarrow> expect 0x68 r;
          r \<leftarrow> expect 0xac r;
          _ \<leftarrow> expect_end r;
          Some (hash, pubkey_hash,
                push_bit 0 (ucast (buf ! 0)) OR push_bit 8 (ucast (buf ! 1)) OR push_bit 16 (ucast (buf ! 2)),
                pubkey_locktime) }"

definition p2wsh_script :: "(bytes \<Rightarrow> bytes) \<Rightarrow> bytes \<Rightarrow> bytes" where
  "p2wsh_script sha redeemScript = [0x00, 0x20] @ sha redeemScript"

fun find_if :: "('a \<Rightarrow> bool) \<Rightarrow> 'a list \<Rightarrow> nat option" where
  "find_if P [] = None"
| "find_if P (x # xs) = (if P x then Some 0 else map_option Suc (find_if P xs))"

definition find_lockup_outnum :: "(bytes \<Rightarrow> bytes) \<Rightarrow> tx \<Rightarrow> bytes \<Rightarrow> int" where
  "find_lockup_outnum sha t redeemScript =
     (case find_if (\<lambda>out. scriptPubKey out = p2wsh_script sha redeemScript) (outputs t) of
        None \<Rightarrow> - 1
      | Some i \<Rightarrow> int i)"

subsection \<open>The template\<close>

definition lockscript :: "bytes \<Rightarrow> bytes \<Rightarrow> u32 \<Rightarrow> bytes \<Rightarrow> bytes" where
  "lockscript hash pubkey_hash locktime pubkey_locktime =
     [0x82, 0x01, 0x20, 0x87, 0x63, 0xa9, 0x14] @ hash @ [0x88, 0x21] @ pubkey_hash
     @ [0x67, 0x75, 0x03] @ le_bytes 3 locktime @ [0xb1, 0x75, 0x21] @ pubkey_locktime
     @ [0x68, 0xac]"

lemma expect_eq_Some: "expect v bs = Some r \<longleftrightarrow> bs = v # r"
  by (auto simp: expect_def split: list.splits)

lemma expect_end_eq_Some: "expect_end bs = Some u \<longleftrightarrow> bs = []"
  by (auto simp: expect_end_def)

lemma get_bytes_eq_Some: "get_bytes n bs = Some (x, r) \<longleftrightarrow> bs = x @ r \<and> length x = n"
  by (auto simp: get_bytes_eq dest: sym)

lemma get_pubkey_eq_Some:
  "get_pubkey vp bs = Some (k, r) \<longleftrightarrow> bs = k @ r \<and> length k = 33 \<and> vp k"
  by (auto simp: get_pubkey_def bind_eq_Some_conv get_bytes_eq_Some)

lemmas match_steps =
  expect_eq_Some expect_end_eq_Some get_bytes_eq_Some get_pubkey_eq_Some bind_eq_Some_conv

lemma locktime_bytes:
  "length buf = 3 \<Longrightarrow>
     push_bit 0 (ucast (buf ! 0)) OR push_bit 8 (ucast (buf ! 1)) OR push_bit 16 (ucast (buf ! 2))
     = (le_val buf :: u32)"
  by (cases buf; cases "tl buf"; cases "tl (tl buf)") (auto simp: push_bit_or)

lemma le_val_3_bound: "length buf = 3 \<Longrightarrow> unat (le_val buf :: u32) < 2 ^ 24"
proof -
  assume l: "length buf = 3"
  have "take_bit 24 (le_val buf :: u32) = le_val buf"
    by (rule bit_word_eqI) (auto simp: bit_simps l dest: bit_le_val)
  then have "unat (take_bit 24 (le_val buf :: u32)) = unat (le_val buf :: u32)" by simp
  then show ?thesis by (metis take_bit_nat_less_exp unsigned_take_bit_eq)
qed

lemma match_lockscript_iff:
  "match_lockscript vp script = Some (h, k1, lt, k2) \<longleftrightarrow>
     script = lockscript h k1 lt k2 \<and> length h = 20 \<and> length k1 = 33 \<and> length k2 = 33
     \<and> vp k1 \<and> vp k2 \<and> unat lt < 2 ^ 24"
  (is "?l \<longleftrightarrow> ?r")
proof
  assume ?l
  then obtain buf where buf: "length buf = 3" "lt = le_val buf"
    and s: "script = [0x82, 0x01, 0x20, 0x87, 0x63, 0xa9, 0x14] @ h @ [0x88, 0x21] @ k1
      @ [0x67, 0x75, 0x03] @ buf @ [0xb1, 0x75, 0x21] @ k2 @ [0x68, 0xac]"
      "length h = 20" "length k1 = 33" "vp k1" "length k2 = 33" "vp k2"
    by (auto simp: match_lockscript_def match_steps locktime_bytes [simplified])
  have "le_bytes 3 lt = buf" using le_bytes_le_val [of buf, where 'a = 32] buf by simp
  then show ?r using s buf le_val_3_bound [of buf] by (simp add: lockscript_def)
next
  assume r: ?r
  let ?buf = "le_bytes 3 lt"
  have "le_val ?buf = lt" using r by (simp add: le_val_le_bytes take_bit_small)
  moreover have "length ?buf = 3" by simp
  ultimately show ?l
    using r locktime_bytes [of ?buf]
    by (fastforce simp: match_lockscript_def match_steps lockscript_def)
qed

lemma length_lockscript:
  "length h = 20 \<Longrightarrow> length k1 = 33 \<Longrightarrow> length k2 = 33 \<Longrightarrow> length (lockscript h k1 lt k2) = 106"
  by (simp add: lockscript_def)

lemma lockscript_inj:
  assumes "lockscript h k1 lt k2 = lockscript h' k1' lt' k2'"
    and "length h = 20" "length h' = 20" "length k1 = 33" "length k1' = 33"
    and "unat lt < 2 ^ 24" "unat lt' < 2 ^ 24"
  shows "h = h' \<and> k1 = k1' \<and> lt = lt' \<and> k2 = k2'"
proof -
  have "h = h' \<and> k1 = k1' \<and> le_bytes 3 lt = le_bytes 3 lt' \<and> k2 = k2'"
    using assms by (simp add: lockscript_def)
  moreover have "le_val (le_bytes 3 lt) = lt" "le_val (le_bytes 3 lt') = lt'"
    using assms(6,7) by (simp_all add: le_val_le_bytes take_bit_small)
  ultimately show ?thesis by metis
qed

subsection \<open>Finding the output\<close>

lemma find_if_Some:
  "find_if P xs = Some i \<longleftrightarrow> i < length xs \<and> P (xs ! i) \<and> (\<forall>j < i. \<not> P (xs ! j))"
proof (induction xs arbitrary: i)
  case (Cons x xs)
  show ?case
  proof (cases i)
    case (Suc k)
    then show ?thesis using Cons.IH [of k] by (auto simp: less_Suc_eq_0_disj)
  qed (auto)
qed simp

lemma find_if_None: "find_if P xs = None \<longleftrightarrow> (\<forall>x \<in> set xs. \<not> P x)"
  by (induction xs) auto

lemma find_lockup_outnum_neg:
  "find_lockup_outnum sha t rs < 0 \<longleftrightarrow>
     (\<forall>out \<in> set (outputs t). scriptPubKey out \<noteq> p2wsh_script sha rs)"
proof (cases "find_if (\<lambda>out. scriptPubKey out = p2wsh_script sha rs) (outputs t)")
  case None
  then show ?thesis by (simp add: find_lockup_outnum_def) (simp add: find_if_None)
next
  case (Some i)
  then have "outputs t ! i \<in> set (outputs t)" "scriptPubKey (outputs t ! i) = p2wsh_script sha rs"
    by (simp_all add: find_if_Some)
  then show ?thesis using Some by (auto simp: find_lockup_outnum_def)
qed

lemma find_lockup_outnum_nonneg:
  assumes "find_lockup_outnum sha t rs = int i"
  shows "i < length (outputs t)" "scriptPubKey (outputs t ! i) = p2wsh_script sha rs"
    "\<forall>j < i. scriptPubKey (outputs t ! j) \<noteq> p2wsh_script sha rs"
  using assms by (auto simp: find_lockup_outnum_def find_if_Some split: option.splits)

subsection \<open>Properties\<close>

text \<open>C40: The recogniser accepts exactly the lock scripts of the template, with two valid public keys
  and a locktime of at most 24 bits, and extracts exactly the parts the script was made from.\<close>

theorem lockscript_recognised_exactly:
  "match_lockscript vp script = Some (h, k1, lt, k2) \<longleftrightarrow>
     script = lockscript h k1 lt k2 \<and> length h = 20 \<and> length k1 = 33 \<and> length k2 = 33
     \<and> vp k1 \<and> vp k2 \<and> unat lt < 2 ^ 24"
  by (rule match_lockscript_iff)

text \<open>The output found in a lockup transaction is the first one that pays to the hash of the
  redeem script; there is none exactly when the result is negative.\<close>

theorem lockup_output_is_first:
  "(find_lockup_outnum sha t rs < 0 \<longleftrightarrow> (\<forall>out \<in> set (outputs t). scriptPubKey out \<noteq> p2wsh_script sha rs))
   \<and> (find_lockup_outnum sha t rs = int i \<longrightarrow> i < length (outputs t)
        \<and> scriptPubKey (outputs t ! i) = p2wsh_script sha rs
        \<and> (\<forall>j < i. scriptPubKey (outputs t ! j) \<noteq> p2wsh_script sha rs))"
  using find_lockup_outnum_neg find_lockup_outnum_nonneg by blast

theorem lockup_output_is_first_witness:
  "scriptPubKey (outputs (default_tx\<lparr>outputs := [\<lparr>tx_amount = 0, scriptPubKey = [1]\<rparr>,
      \<lparr>tx_amount = 0, scriptPubKey = [0, 0x20]\<rparr>]\<rparr>) ! 1) = p2wsh_script (\<lambda>_. []) []"
proof -
  let ?t = "default_tx\<lparr>outputs := [\<lparr>tx_amount = 0, scriptPubKey = [1]\<rparr>, \<lparr>tx_amount = 0, scriptPubKey = [0, 0x20]\<rparr>]\<rparr>"
  have "find_lockup_outnum (\<lambda>_. []) ?t [] = int 1" by (simp add: find_lockup_outnum_def p2wsh_script_def)
  then show ?thesis using lockup_output_is_first [of "\<lambda>_. []" ?t "[]" 1] by blast
qed

end
