(* ===== verification/Bitcoin_Sighash.thy ===== *)
theory Bitcoin_Sighash
  imports Bitcoin_Tx
begin

unbundle bit_operations_syntax

text \<open>
  \<open>src/Bitcoin/sighash.cpp\<close>: the segwit signature hash, and the buffered stream of
  \<open>src/Sha256/HasherStream.cpp\<close> it feeds. The stream is modelled over the locale
  \<open>stream_hash\<close>, which states what it relies on of the vendored hasher: feeding in pieces is
  feeding the concatenation.
\<close>

subsection \<open>The hasher stream\<close>

record 'h hasher_stream =
  hs_hasher :: 'h
  hs_buf :: bytes

definition hs_new :: "'h \<Rightarrow> 'h hasher_stream" where
  "hs_new h = \<lparr>hs_hasher = h, hs_buf = []\<rparr>"

text \<open>\<open>overflow\<close> with the character that did not fit, or \<open>None\<close> for end of file.\<close>

definition hs_overflow ::
  "('h \<Rightarrow> bytes \<Rightarrow> 'h) \<Rightarrow> u8 option \<Rightarrow> 'h hasher_stream \<Rightarrow> 'h hasher_stream" where
  "hs_overflow feed ch s =
     (let s1 = s\<lparr>hs_hasher := feed (hs_hasher s) (hs_buf s), hs_buf := []\<rparr>
      in case ch of None \<Rightarrow> s1 | Some c \<Rightarrow> s1\<lparr>hs_buf := [c]\<rparr>)"

text \<open>\<open>std::streambuf::sputc\<close> over a put area of 64 characters.\<close>

definition hs_put :: "('h \<Rightarrow> bytes \<Rightarrow> 'h) \<Rightarrow> u8 \<Rightarrow> 'h hasher_stream \<Rightarrow> 'h hasher_stream" where
  "hs_put feed c s =
     (if length (hs_buf s) < 64 then s\<lparr>hs_buf := hs_buf s @ [c]\<rparr>
      else hs_overflow feed (Some c) s)"

fun hs_write :: "('h \<Rightarrow> bytes \<Rightarrow> 'h) \<Rightarrow> bytes \<Rightarrow> 'h hasher_stream \<Rightarrow> 'h hasher_stream" where
  "hs_write feed [] s = s"
| "hs_write feed (c # cs) s = hs_write feed cs (hs_put feed c s)"

definition hs_finalize :: "('h \<Rightarrow> bytes \<Rightarrow> 'h) \<Rightarrow> ('h \<Rightarrow> bytes) \<Rightarrow> 'h hasher_stream \<Rightarrow> bytes" where
  "hs_finalize feed fin s = fin (hs_hasher (hs_overflow feed None s))"

definition hs_get_hash :: "('h \<Rightarrow> bytes \<Rightarrow> 'h) \<Rightarrow> ('h \<Rightarrow> bytes) \<Rightarrow> 'h hasher_stream \<Rightarrow> bytes" where
  "hs_get_hash feed fin s = fin (feed (hs_hasher s) (hs_buf s))"

locale stream_hash =
  fixes init :: 'h
    and feed :: "'h \<Rightarrow> bytes \<Rightarrow> 'h"
    and fin :: "'h \<Rightarrow> bytes"
    and sha :: "bytes \<Rightarrow> bytes"
  assumes feed_feed: "feed (feed h a) b = feed h (a @ b)"
    and feed_nil: "feed h [] = h"
    and fin_feed: "fin (feed init a) = sha a"
begin

lemma hs_put_feed:
  "feed (hs_hasher (hs_put feed c s)) (hs_buf (hs_put feed c s)) = feed (hs_hasher s) (hs_buf s @ [c])"
  by (simp add: hs_put_def hs_overflow_def feed_feed)

lemma hs_write_feed:
  "feed (hs_hasher (hs_write feed cs s)) (hs_buf (hs_write feed cs s)) = feed (hs_hasher s) (hs_buf s @ cs)"
proof (induction cs arbitrary: s)
  case (Cons c cs)
  have "feed (hs_hasher (hs_put feed c s)) (hs_buf (hs_put feed c s) @ cs)
      = feed (feed (hs_hasher (hs_put feed c s)) (hs_buf (hs_put feed c s))) cs"
    by (simp add: feed_feed)
  then show ?case by (simp add: Cons.IH hs_put_feed feed_feed)
qed simp

lemma hs_finalize_write: "hs_finalize feed fin (hs_write feed cs (hs_new init)) = sha cs"
  using hs_write_feed [of cs "hs_new init"]
  by (simp add: hs_finalize_def hs_overflow_def hs_new_def fin_feed)

lemma hs_get_hash_finalize: "hs_get_hash feed fin s = hs_finalize feed fin s"
  by (simp add: hs_get_hash_def hs_finalize_def hs_overflow_def)

end

lemma hs_put_buf_bound: "length (hs_buf s) \<le> 64 \<Longrightarrow> length (hs_buf (hs_put feed c s)) \<le> 64"
  by (simp add: hs_put_def hs_overflow_def)

text \<open>
  The vendored hasher as it is documented: it accumulates what it is fed and hashes the whole.
\<close>

interpretation sha_stream: stream_hash "[]" "(@)" "sha" sha for sha
  by unfold_locales simp_all

subsection \<open>The signature hash\<close>

definition SIGHASH_ALL :: u32 where "SIGHASH_ALL = 1"
definition SIGHASH_NONE :: u32 where "SIGHASH_NONE = 2"
definition SIGHASH_SINGLE :: u32 where "SIGHASH_SINGLE = 3"
definition SIGHASH_ANYONECANPAY :: u32 where "SIGHASH_ANYONECANPAY = 0x80"

lemmas sighash_flags = SIGHASH_ALL_def SIGHASH_NONE_def SIGHASH_SINGLE_def SIGHASH_ANYONECANPAY_def

definition sighash_core ::
  "(bytes \<Rightarrow> bytes) \<Rightarrow> tx \<Rightarrow> u32 \<Rightarrow> nat \<Rightarrow> amount \<Rightarrow> bytes \<Rightarrow> bytes result" where
  "sighash_core sha t flags nIn a scriptCode =
     (let loflags = flags AND 0x1F; hiflags = flags AND 0xE0 in
      if \<not> (loflags = SIGHASH_ALL \<or> loflags = SIGHASH_NONE \<or> loflags = SIGHASH_SINGLE)
        then Inl (InvalidSighash ''Invalid SIGHASH flag'')
      else if \<not> (hiflags = 0 \<or> hiflags = SIGHASH_ANYONECANPAY)
        then Inl (InvalidSighash ''Invalid SIGHASH flag'')
      else if nIn \<ge> length (inputs t) then Inl (InvalidSighash ''nIn out of range'')
      else
       (let zero = replicate 32 0;
            hashPrevouts =
              (if hiflags AND SIGHASH_ANYONECANPAY = 0
               then sha (sha (concat (map (\<lambda>i. put_txid (prevTxid i) @ put_le32 (prevOut i)) (inputs t))))
               else zero);
            hashSequence =
              (if hiflags AND SIGHASH_ANYONECANPAY = 0 \<and> loflags \<noteq> SIGHASH_SINGLE \<and> loflags \<noteq> SIGHASH_NONE
               then sha (sha (concat (map (\<lambda>i. put_le32 (nSequence i)) (inputs t))))
               else zero);
            hashOutputs =
              (if loflags \<noteq> SIGHASH_SINGLE \<and> loflags \<noteq> SIGHASH_NONE
               then sha (sha (concat (map put_tx_out (outputs t))))
               else if loflags = SIGHASH_SINGLE \<and> nIn < length (outputs t)
               then sha (sha (put_tx_out (outputs t ! nIn)))
               else zero);
            inp = inputs t ! nIn
        in Inr (put_le32 (nVersion t) @ hashPrevouts @ hashSequence
                @ put_txid (prevTxid inp) @ put_le32 (prevOut inp)
                @ scriptCode
                @ put_le_amount a @ put_le32 (nSequence inp)
                @ hashOutputs @ put_le32 (nLockTime t) @ put_le32 flags)))"

definition sighash ::
  "(bytes \<Rightarrow> bytes) \<Rightarrow> tx \<Rightarrow> u32 \<Rightarrow> nat \<Rightarrow> amount \<Rightarrow> bytes \<Rightarrow> sha256_hash result" where
  "sighash sha t flags nIn a scriptCode =
     (case sighash_core sha t flags nIn a scriptCode of
        Inl e \<Rightarrow> Inl e
      | Inr m \<Rightarrow> Inr (hash_from_buffer (sha (sha m))))"

lemma sighash_all_ok:
  "inputs t \<noteq> [] \<Longrightarrow> \<exists>h. sighash sha t SIGHASH_ALL 0 a sc = Inr h"
  by (simp add: sighash_def sighash_core_def sighash_flags Let_def)

text \<open>Two transactions that differ in their witnesses only.\<close>

definition same_but_witness :: "tx \<Rightarrow> tx \<Rightarrow> bool" where
  "same_but_witness t u =
     (nVersion t = nVersion u \<and> nLockTime t = nLockTime u \<and> outputs t = outputs u
      \<and> map strip_witness (inputs t) = map strip_witness (inputs u))"

lemma map_strip_cong:
  assumes "map strip_witness xs = map strip_witness ys" and f: "\<And>i. f (strip_witness i) = f i"
  shows "map f xs = map f ys"
proof -
  have "map f zs = map f (map strip_witness zs)" for zs by (simp add: f)
  then show ?thesis using assms(1) by metis
qed

lemma same_strip_maps:
  assumes "map strip_witness xs = map strip_witness ys"
  shows "length xs = length ys"
    and "map (\<lambda>i. put_txid (prevTxid i) @ put_le32 (prevOut i)) xs
       = map (\<lambda>i. put_txid (prevTxid i) @ put_le32 (prevOut i)) ys"
    and "map (\<lambda>i. put_le32 (nSequence i)) xs = map (\<lambda>i. put_le32 (nSequence i)) ys"
    and "n < length xs \<Longrightarrow> strip_witness (xs ! n) = strip_witness (ys ! n)"
proof -
  show l: "length xs = length ys" using assms by (rule map_eq_imp_length_eq)
  show "n < length xs \<Longrightarrow> strip_witness (xs ! n) = strip_witness (ys ! n)"
    using assms l by (metis nth_map)
qed (rule map_strip_cong [OF assms], simp)+

lemma sighash_core_same:
  assumes "same_but_witness t u"
  shows "sighash_core sha t flags nIn a sc = sighash_core sha u flags nIn a sc"
proof -
  have st: "map strip_witness (inputs t) = map strip_witness (inputs u)"
    and eq: "nVersion t = nVersion u" "nLockTime t = nLockTime u" "outputs t = outputs u"
    using assms by (simp_all add: same_but_witness_def)
  have inp: "nIn < length (inputs u) \<Longrightarrow>
      prevTxid (inputs t ! nIn) = prevTxid (inputs u ! nIn)
      \<and> prevOut (inputs t ! nIn) = prevOut (inputs u ! nIn)
      \<and> nSequence (inputs t ! nIn) = nSequence (inputs u ! nIn)"
    using same_strip_maps(4) [OF st, of nIn] same_strip_maps(1) [OF st]
    by (cases "inputs t ! nIn"; cases "inputs u ! nIn") simp
  show ?thesis
    unfolding sighash_core_def Let_def same_strip_maps(1-3) [OF st] eq
    using inp by auto
qed

lemma sighash_same: "same_but_witness t u \<Longrightarrow> sighash sha t flags nIn a sc = sighash sha u flags nIn a sc"
  by (simp add: sighash_def sighash_core_same)

subsection \<open>Properties\<close>

text \<open>The signature hash does not depend on the witnesses, so a transaction can be signed before
  its witnesses are filled in.\<close>

theorem sighash_ignores_witness:
  assumes "same_but_witness t u"
  shows "sighash sha t flags nIn a sc = sighash sha u flags nIn a sc"
  using assms by (rule sighash_same)

theorem sighash_ignores_witness_witness:
  "sighash (\<lambda>_. []) (default_tx\<lparr>inputs := [default_tx_in\<lparr>witness := [[1]]\<rparr>]\<rparr>) SIGHASH_ALL 0 0 []
     = sighash (\<lambda>_. []) (default_tx\<lparr>inputs := [default_tx_in]\<rparr>) SIGHASH_ALL 0 0 []"
  by (rule sighash_ignores_witness) (simp add: same_but_witness_def default_tx_in_def default_tx_def)

end
