(* ===== verification/Bitcoin_Addr.thy ===== *)
theory Bitcoin_Addr
  imports Clboss_Prelude
begin

unbundle bit_operations_syntax

text \<open>
  \<open>src/Util/Bech32.cpp\<close>, \<open>src/Util/Bech32.hpp\<close> and \<open>src/Bitcoin/addr_to_scriptPubKey.cpp\<close>:
  decoding a segwit address to the script that pays to it. The checksum is dropped unread, as
  the sources say. An encoder is given as the specification, and decoding what it writes gives
  the script back.
\<close>

subsection \<open>Bech32\<close>

definition bech32_chars :: string where
  "bech32_chars = ''qpzry9x8gf2tvdw0s3jn54khce6mua7l''"

definition tolower :: "char \<Rightarrow> char" where
  "tolower c =
     (if 65 \<le> (of_char c :: nat) \<and> (of_char c :: nat) \<le> 90 then char_of ((of_char c :: nat) + 32) else c)"

fun find_index :: "'a \<Rightarrow> 'a list \<Rightarrow> nat option" where
  "find_index x [] = None"
| "find_index x (y # ys) = (if y = x then Some 0 else map_option Suc (find_index x ys))"

definition decode_char :: "char \<Rightarrow> nat option" where
  "decode_char c = find_index (tolower c) bech32_chars"

definition binary :: "nat \<Rightarrow> bool list" where
  "binary v = map (\<lambda>k. odd (v div 2 ^ k)) [4, 3, 2, 1, 0]"

fun decode_data :: "string \<Rightarrow> bool list option" where
  "decode_data [] = Some []"
| "decode_data (c # s) =
     (case decode_char c of
        None \<Rightarrow> None
      | Some v \<Rightarrow> (case decode_data s of None \<Rightarrow> None | Some d \<Rightarrow> Some (binary v @ d)))"

definition bech32_decode :: "string \<Rightarrow> (string \<times> bool list) option" where
  "bech32_decode s =
     (let post = rev (takeWhile (\<lambda>c. c \<noteq> CHR ''1'') (rev s));
          rpre = dropWhile (\<lambda>c. c \<noteq> CHR ''1'') (rev s)
      in if rpre = [] then None
         else if length post \<le> 6 then None
         else (case decode_data (take (length post - 6) post) of
                 None \<Rightarrow> None
               | Some d \<Rightarrow> Some (map tolower (rev (tl rpre)), d)))"

text \<open>
  \<open>bitstream_to_bytes\<close>: the bit counter and the byte being built are the loop's locals; a
  last partial byte is shifted up until it has 8 bits.
\<close>

fun bitstream_loop :: "bool list \<Rightarrow> nat \<Rightarrow> u8 \<Rightarrow> bytes" where
  "bitstream_loop [] bitctr byte = (if bitctr \<noteq> 0 then [push_bit (8 - bitctr) byte] else [])"
| "bitstream_loop (b # bs) bitctr byte =
     (let byte' = push_bit 1 byte OR (if b then 1 else 0); bitctr' = bitctr + 1
      in if bitctr' = 8 then byte' # bitstream_loop bs 0 0 else bitstream_loop bs bitctr' byte')"

definition bitstream_to_bytes :: "bool list \<Rightarrow> bytes" where
  "bitstream_to_bytes bs = bitstream_loop bs 0 0"

subsection \<open>Addresses\<close>

definition addr_to_scriptPubKey :: "string \<Rightarrow> bytes result" where
  "addr_to_scriptPubKey addr =
     (case bech32_decode addr of
        None \<Rightarrow> Inl UnknownAddrType
      | Some (hrp, d) \<Rightarrow>
          if hrp \<noteq> ''bc'' \<and> hrp \<noteq> ''tb'' \<and> hrp \<noteq> ''bcrt'' then Inl UnknownAddrType
          else if length d < 5 then Inl UnknownAddrType
          else
           (let ver = drop_bit 3 (hd (bitstream_to_bytes (take 5 d)));
                ok = (ver = 0 \<and> (length d = 5 + 160 \<or> length d = 5 + 260))
                     \<or> (ver = 1 \<and> length d = 5 + 260)
                     \<or> (2 \<le> ver \<and> ver \<le> 16)
            in if \<not> ok then Inl UnknownAddrType
            else
             (let size = (length d - 5) div 8 in
              if \<not> (2 \<le> size \<and> size \<le> 40) then Inl UnknownAddrType
              else
               (let padding = drop (5 + 8 * size) d in
                if list_ex id padding then Inl UnknownAddrType
                else if length padding \<ge> 5 then Inl UnknownAddrType
                else Inr ((if ver = 0 then 0 else 0x50 + ver) # of_nat size
                          # bitstream_to_bytes (take (8 * size) (drop 5 d)))))))"

subsection \<open>The encoder, as a specification\<close>

definition byte_bits :: "u8 \<Rightarrow> bool list" where
  "byte_bits b = map (bit b) [7, 6, 5, 4, 3, 2, 1, 0]"

definition bits_val :: "bool list \<Rightarrow> nat" where
  "bits_val = foldl (\<lambda>v b. 2 * v + (if b then 1 else 0)) 0"

fun encode_data :: "bool list \<Rightarrow> string" where
  "encode_data (a # b # c # d # e # r) = bech32_chars ! bits_val [a, b, c, d, e] # encode_data r"
| "encode_data _ = []"

definition pad5 :: "bool list \<Rightarrow> bool list" where
  "pad5 bs = bs @ replicate ((5 - length bs mod 5) mod 5) False"

definition encode_addr :: "string \<Rightarrow> nat \<Rightarrow> bytes \<Rightarrow> string \<Rightarrow> string" where
  "encode_addr hrp ver prog checksum =
     hrp @ ''1'' @ encode_data (binary ver @ pad5 (concat (map byte_bits prog))) @ checksum"

definition valid_program :: "nat \<Rightarrow> bytes \<Rightarrow> bool" where
  "valid_program ver prog =
     (if ver = 0 then length prog = 20 \<or> length prog = 32
      else if ver = 1 then length prog = 32
      else ver \<le> 16 \<and> 2 \<le> length prog \<and> length prog \<le> 40)"

subsection \<open>Bits and bytes\<close>

lemma length_byte_bits [simp]: "length (byte_bits b) = 8"
  by (simp add: byte_bits_def)

lemma length_concat_byte_bits [simp]: "length (concat (map byte_bits p)) = 8 * length p"
  by (induction p) simp_all

definition push_bool :: "u8 \<Rightarrow> bool \<Rightarrow> u8" where
  "push_bool v x = push_bit 1 v OR (if x then 1 else 0)"

lemma bit_push_bool: "n < 8 \<Longrightarrow> bit (push_bool v x) n \<longleftrightarrow> (if n = 0 then x else bit v (n - 1))"
proof -
  assume "n < 8"
  then have "bit (push_bit 1 v) n \<longleftrightarrow> 1 \<le> n \<and> bit v (n - 1)"
    by (simp only: bit_push_bit_iff possible_bit_word) simp
  then show ?thesis unfolding push_bool_def bit_or_iff by (auto simp: bit_1_iff)
qed

lemma bit_foldl_push:
  "n < 8 \<Longrightarrow> bit (foldl push_bool 0 bs) n \<longleftrightarrow> n < length bs \<and> rev bs ! n"
proof (induction bs arbitrary: n rule: rev_induct)
  case (snoc x bs)
  then show ?case by (cases n) (auto simp: bit_push_bool)
qed simp

lemma foldl_byte_bits: "foldl push_bool 0 (byte_bits b) = b"
proof (rule bit_word_eqI)
  fix n
  assume n: "n < LENGTH(8)"
  have "rev (byte_bits b) = map (bit b) [0, 1, 2, 3, 4, 5, 6, 7]" by (simp add: byte_bits_def)
  also have "\<dots> = map (bit b) [0..<8]"
  proof -
    have "[0, 1, 2, 3, 4, 5, 6, 7] = [0..<8::nat]" by code_simp
    then show ?thesis by (simp only:)
  qed
  finally show "bit (foldl push_bool 0 (byte_bits b)) n = bit b n"
    using n by (simp add: bit_foldl_push)
qed

lemma bitstream_byte: "bitstream_loop (byte_bits b @ r) 0 0 = b # bitstream_loop r 0 0"
proof -
  have "bitstream_loop (byte_bits b @ r) 0 0 = foldl push_bool 0 (byte_bits b) # bitstream_loop r 0 0"
    by (simp add: byte_bits_def push_bool_def Let_def)
  then show ?thesis by (simp only: foldl_byte_bits)
qed

lemma bitstream_byte_bits [simp]: "bitstream_to_bytes (concat (map byte_bits p)) = p"
  unfolding bitstream_to_bytes_def by (induction p) (simp_all add: bitstream_byte)

lemma length_bitstream_loop:
  "bitctr < 8 \<Longrightarrow> length (bitstream_loop bs bitctr byte) = (bitctr + length bs + 7) div 8"
  by (induction bs bitctr byte rule: bitstream_loop.induct) (auto simp: Let_def)

lemma length_bitstream_to_bytes: "length (bitstream_to_bytes bs) = (length bs + 7) div 8"
  by (simp add: bitstream_to_bytes_def length_bitstream_loop)

lemma find_index_nth: "distinct xs \<Longrightarrow> n < length xs \<Longrightarrow> find_index (xs ! n) xs = Some n"
  by (induction xs arbitrary: n) (auto simp: nth_Cons split: nat.splits)

lemma bech32_chars_facts:
  "distinct bech32_chars" "length bech32_chars = 32" "map tolower bech32_chars = bech32_chars"
  "CHR ''1'' \<notin> set bech32_chars"
  by (code_simp, code_simp, code_simp, code_simp)

lemma bits_val_less: "bits_val [a, b, c, d, e] < 32"
  by (simp add: bits_val_def)

lemma decode_char_encode:
  "decode_char (bech32_chars ! bits_val [a, b, c, d, e]) = Some (bits_val [a, b, c, d, e])"
proof -
  have "tolower (bech32_chars ! bits_val [a, b, c, d, e]) = bech32_chars ! bits_val [a, b, c, d, e]"
    using bits_val_less bech32_chars_facts(2,3) by (metis nth_map)
  then show ?thesis
    using bits_val_less bech32_chars_facts(1,2) by (simp add: decode_char_def find_index_nth)
qed

lemma mod5_step: "Suc (Suc (Suc (Suc (Suc n)))) mod 5 = n mod 5"
  by presburger

lemma binary_bits_val: "binary (bits_val [a, b, c, d, e]) = [a, b, c, d, e]"
  by (cases a; cases b; cases c; cases d; cases e) (simp_all add: binary_def bits_val_def)

lemma decode_encode_data: "length bs mod 5 = 0 \<Longrightarrow> decode_data (encode_data bs) = Some bs"
  by (induction bs rule: encode_data.induct)
     (auto simp: decode_char_encode binary_bits_val mod5_step)

lemma length_pad5_mod [simp]: "length (pad5 bs) mod 5 = 0"
proof -
  have "(n + (5 - n mod 5) mod 5) mod 5 = 0" for n :: nat
  proof -
    have "(n mod 5 + (5 - n mod 5)) mod 5 = 0"
      by (metis le_add_diff_inverse mod_le_divisor mod_self zero_less_numeral)
    then show ?thesis by (metis mod_add_left_eq mod_add_right_eq)
  qed
  then show ?thesis by (simp add: pad5_def)
qed

lemma encode_data_no_1: "CHR ''1'' \<notin> set (encode_data bs)"
proof -
  have "CHR ''1'' \<noteq> bech32_chars ! bits_val [a, b, c, d, e]" for a b c d e
    using bits_val_less bech32_chars_facts(2,4) nth_mem by metis
  then show ?thesis by (induction bs rule: encode_data.induct) simp_all
qed

lemma length_encode_data: "length bs mod 5 = 0 \<Longrightarrow> length (encode_data bs) = length bs div 5"
  by (induction bs rule: encode_data.induct) (auto simp: mod5_step)

lemma version_of_binary: "ver \<le> 16 \<Longrightarrow> drop_bit 3 (hd (bitstream_to_bytes (binary ver))) = of_nat ver"
proof -
  assume "ver \<le> 16"
  then have "ver \<in> {0,1,2,3,4,5,6,7,8,9,10,11,12,13,14,15,16}"
    unfolding insert_iff empty_iff by presburger
  then show ?thesis by (elim insertE; simp; code_simp)
qed

subsection \<open>Decoding what the encoder writes\<close>

lemma tolower_hrp: "hrp \<in> {''bc'', ''tb'', ''bcrt''} \<Longrightarrow> map tolower hrp = hrp"
  by (elim insertE) (simp_all add: tolower_def)

lemma bech32_decode_encode:
  assumes hrp: "hrp \<in> {''bc'', ''tb'', ''bcrt''}"
    and bits: "length bits mod 5 = 0" "bits \<noteq> []"
    and cs: "length checksum = 6" "CHR ''1'' \<notin> set checksum"
  shows "bech32_decode (hrp @ ''1'' @ encode_data bits @ checksum) = Some (hrp, bits)"
proof -
  let ?e = "encode_data bits"
  have no1: "\<forall>c \<in> set (rev (?e @ checksum)). c \<noteq> CHR ''1''"
    using encode_data_no_1 cs(2) by auto
  have r: "rev (hrp @ ''1'' @ ?e @ checksum) = rev (?e @ checksum) @ CHR ''1'' # rev hrp" by simp
  have tw: "takeWhile (\<lambda>c. c \<noteq> CHR ''1'') (rev (hrp @ ''1'' @ ?e @ checksum)) = rev (?e @ checksum)"
    unfolding r by (subst takeWhile_append2) (use no1 in auto)
  have dw: "dropWhile (\<lambda>c. c \<noteq> CHR ''1'') (rev (hrp @ ''1'' @ ?e @ checksum)) = CHR ''1'' # rev hrp"
    unfolding r by (subst dropWhile_append2) (use no1 in auto)
  have "length bits \<ge> 5" using bits by (metis length_0_conv linorder_not_less mod_less)
  then have "0 < length ?e" by (simp add: length_encode_data bits)
  then show ?thesis
    unfolding bech32_decode_def Let_def tw dw
    by (simp add: cs(1) decode_encode_data bits(1) tolower_hrp [OF hrp])
qed

lemma length_pad5: "length (pad5 bs) = length bs + (5 - length bs mod 5) mod 5"
  by (simp add: pad5_def)

lemma length_binary [simp]: "length (binary v) = 5"
  by (simp add: binary_def)

lemma pad5_div8:
  assumes "length bs = 8 * n"
  shows "length (pad5 bs) div 8 = n" "length (pad5 bs) - 8 * n < 5"
  using assms unfolding length_pad5 by simp_all

lemma addr_to_scriptPubKey_encode:
  assumes hrp: "hrp \<in> {''bc'', ''tb'', ''bcrt''}"
    and prog: "valid_program ver prog"
    and cs: "length checksum = 6" "CHR ''1'' \<notin> set checksum"
  shows "addr_to_scriptPubKey (encode_addr hrp ver prog checksum)
       = Inr ((if ver = 0 then 0 else 0x50 + of_nat ver) # of_nat (length prog) # prog)"
proof -
  let ?pb = "concat (map byte_bits prog)"
  let ?d = "binary ver @ pad5 ?pb"
  have ver: "ver \<le> 16" and size: "2 \<le> length prog" "length prog \<le> 40"
    using prog by (auto simp: valid_program_def split: if_splits)
  have "length ?d mod 5 = 0" by (simp add: mod_add_right_eq [of 5 _ 5, symmetric] mod_add_eq)
  then have dec: "bech32_decode (encode_addr hrp ver prog checksum) = Some (hrp, ?d)"
    unfolding encode_addr_def by (intro bech32_decode_encode hrp cs) (auto simp: binary_def)
  have v: "drop_bit 3 (hd (bitstream_to_bytes (take 5 ?d))) = of_nat ver"
    by (simp add: version_of_binary ver)
  have uv: "unat (of_nat ver :: u8) = ver" using ver by (simp add: unat_of_nat take_bit_nat_eq_self)
  have v0: "(of_nat ver :: u8) = 0 \<longleftrightarrow> ver = 0" "(of_nat ver :: u8) = 1 \<longleftrightarrow> ver = 1"
    unfolding word_unat_eq_iff uv by simp_all
  have vr: "(2 \<le> (of_nat ver :: u8) \<and> (of_nat ver :: u8) \<le> 16) \<longleftrightarrow> 2 \<le> ver"
    using uv ver by (simp add: word_le_nat_alt)
  have l20: "length prog = 20 \<Longrightarrow> length ?d = 165" and l32: "length prog = 32 \<Longrightarrow> length ?d = 265"
    by (simp_all add: length_pad5)
  have ok: "((of_nat ver :: u8) = 0 \<and> (length ?d = 5 + 160 \<or> length ?d = 5 + 260))
      \<or> ((of_nat ver :: u8) = 1 \<and> length ?d = 5 + 260)
      \<or> (2 \<le> (of_nat ver :: u8) \<and> (of_nat ver :: u8) \<le> 16)"
    unfolding vr v0 using prog l20 l32 by (auto simp: valid_program_def split: if_splits)
  have sz: "(length ?d - 5) div 8 = length prog" using pad5_div8(1) [of ?pb "length prog"] by simp
  have pad: "drop (5 + 8 * length prog) ?d = replicate ((5 - 8 * length prog mod 5) mod 5) False"
    by (simp add: pad5_def)
  have "take (8 * length prog) (drop 5 ?d) = ?pb" by (simp add: pad5_def)
  then have prog': "bitstream_to_bytes (take (8 * length prog) (drop 5 ?d)) = prog" by simp
  have np: "\<not> list_ex id (drop (5 + 8 * length prog) ?d)" "\<not> length (drop (5 + 8 * length prog) ?d) \<ge> 5"
    unfolding pad by (auto simp: list_ex_iff)
  have h: "\<not> (hrp \<noteq> ''bc'' \<and> hrp \<noteq> ''tb'' \<and> hrp \<noteq> ''bcrt'')" using hrp by blast
  have l5: "\<not> length ?d < 5" by simp
  show ?thesis
    unfolding addr_to_scriptPubKey_def dec option.case prod.case if_not_P [OF h] if_not_P [OF l5]
      Let_def v sz prog'
    using ok size np by (simp only: v0 if_False if_True not_not simp_thms)
qed

lemma addr_to_scriptPubKey_shape:
  assumes "addr_to_scriptPubKey addr = Inr s"
  shows "\<exists>ver prog. s = (if ver = 0 then 0 else 0x50 + ver) # of_nat (length prog) # prog
      \<and> ver \<le> 16 \<and> 2 \<le> length prog \<and> length prog \<le> 40
      \<and> (ver = 0 \<longrightarrow> length prog = 20 \<or> length prog = 32)"
proof -
  obtain hrp d where d: "bech32_decode addr = Some (hrp, d)"
    using assms by (cases "bech32_decode addr") (auto simp: addr_to_scriptPubKey_def)
  define ver where "ver = drop_bit 3 (hd (bitstream_to_bytes (take 5 d)))"
  define size where "size = (length d - 5) div 8"
  define prog where "prog = bitstream_to_bytes (take (8 * size) (drop 5 d))"
  have g: "5 \<le> length d" "(ver = 0 \<and> (length d = 165 \<or> length d = 265)) \<or> (ver = 1 \<and> length d = 265)
      \<or> (2 \<le> ver \<and> ver \<le> 16)" "2 \<le> size" "size \<le> 40"
    and s: "s = (if ver = 0 then 0 else 0x50 + ver) # of_nat size # prog"
    using assms by (auto simp: addr_to_scriptPubKey_def d Let_def ver_def size_def prog_def split: if_splits)
  have "8 * size \<le> length d - 5" by (simp add: size_def)
  then have lp: "length prog = size" by (simp add: prog_def length_bitstream_to_bytes)
  have "ver = 0 \<Longrightarrow> size = 20 \<or> size = 32" using g(2) by (auto simp: size_def)
  moreover have "ver \<le> 16" using g(2) by auto
  ultimately show ?thesis using g(3,4) s lp by metis
qed

subsection \<open>Properties\<close>

text \<open>C39: The address of any valid witness program, on any of the three networks, decodes to the
  script that pays to that program.\<close>

theorem addr_decodes_to_program:
  assumes "hrp \<in> {''bc'', ''tb'', ''bcrt''}" "valid_program ver prog"
    and "length checksum = 6" "CHR ''1'' \<notin> set checksum"
  shows "addr_to_scriptPubKey (encode_addr hrp ver prog checksum)
       = Inr ((if ver = 0 then 0 else 0x50 + of_nat ver) # of_nat (length prog) # prog)"
  using assms by (rule addr_to_scriptPubKey_encode)

theorem addr_decodes_to_program_witness:
  "addr_to_scriptPubKey (encode_addr ''tb'' 1 (replicate 32 7) ''qqqqqq'') = Inr (0x51 # 32 # replicate 32 7)"
proof -
  have "valid_program 1 (replicate 32 7)" by (simp add: valid_program_def)
  from addr_decodes_to_program [OF _ this, of "''tb''" "''qqqqqq''"] show ?thesis by simp
qed

text \<open>Whatever string is given, an address that is accepted gives a well-formed witness script:
  a version of at most 16 and a program of 2 to 40 bytes, 20 or 32 for version 0.\<close>

theorem addr_script_well_formed:
  assumes "addr_to_scriptPubKey addr = Inr s"
  shows "\<exists>ver prog. s = (if ver = 0 then 0 else 0x50 + ver) # of_nat (length prog) # prog
      \<and> ver \<le> 16 \<and> 2 \<le> length prog \<and> length prog \<le> 40
      \<and> (ver = 0 \<longrightarrow> length prog = 20 \<or> length prog = 32)"
  using assms by (rule addr_to_scriptPubKey_shape)

theorem addr_script_well_formed_witness:
  "\<exists>ver prog. 0 # 20 # replicate 20 0 = (if ver = 0 then 0 else 0x50 + ver) # of_nat (length prog) # prog
      \<and> ver \<le> (16 :: u8) \<and> length (prog :: bytes) \<le> 40"
proof -
  have "addr_to_scriptPubKey (encode_addr ''bc'' 0 (replicate 20 0) ''qqqqqq'') = Inr (0 # 20 # replicate 20 0)"
    by (subst addr_to_scriptPubKey_encode) (simp_all add: valid_program_def)
  from addr_script_well_formed [OF this] show ?thesis by blast
qed

end
