(* ===== verification/Boltz_Claim.thy ===== *)
theory Boltz_Claim
  imports Boltz_Script Bitcoin_Sighash Bitcoin_Addr
begin

unbundle bit_operations_syntax

text \<open>
  \<open>src/Boltz/Detail/initial_claim_tx.cpp\<close> and \<open>compute_preimage.cpp\<close>: building and signing the
  transaction that claims a swap. The signer is behind \<open>src/Secp256k1/SignerIF.hpp\<close> and
  libsecp256k1: \<open>sign\<close> stands for the DER encoding of \<open>get_signature_tweak(tweak, h)\<close>.
\<close>

subsection \<open>Definitions\<close>

definition vec_resize :: "nat \<Rightarrow> 'a \<Rightarrow> 'a list \<Rightarrow> 'a list" where
  "vec_resize n d xs = take n xs @ replicate (n - length xs) d"

definition get_nonwitness_weight :: "tx \<Rightarrow> u64" where
  "get_nonwitness_weight t = of_nat (length (put_tx t)) * 4"

definition dust_limit :: amount where
  "dust_limit = amount_sat 547"

definition default_tx_out :: tx_out where
  "default_tx_out = \<lparr>tx_amount = Amount 0, scriptPubKey = []\<rparr>"

text \<open>The claim transaction before its amount and signature: one input, one output.\<close>

definition claim_skeleton :: "tx \<Rightarrow> u32 \<Rightarrow> txid \<Rightarrow> u32 \<Rightarrow> bytes \<Rightarrow> tx" where
  "claim_skeleton claim_tx blockheight lockup_txid lockup_outnum spk =
     (let ins = vec_resize 1 default_tx_in (inputs claim_tx);
          outs = vec_resize 1 default_tx_out (outputs claim_tx);
          in0 = hd ins;
          in1 = in0\<lparr>nSequence := 0xFFFFFFFF, prevTxid := lockup_txid, prevOut := lockup_outnum,
                    scriptSig := [], witness := vec_resize 3 [] (witness in0)\<rparr>
      in claim_tx\<lparr>inputs := [in1], outputs := [(hd outs)\<lparr>scriptPubKey := spk\<rparr>],
                  nLockTime := blockheight + 1\<rparr>)"

definition claim_weight :: "tx \<Rightarrow> bytes \<Rightarrow> u64" where
  "claim_weight t witnessScript =
     (let nonwitness_weight = get_nonwitness_weight t;
          witness_weight = 1 + 73 + 1 + 32 + 1 + of_nat (length witnessScript) + 2
      in nonwitness_weight + witness_weight + 12)"

definition claim_amounts :: "tx \<Rightarrow> amount \<Rightarrow> amount \<Rightarrow> tx \<times> amount" where
  "claim_amounts t fees lockup_amount =
     (let o0 = hd (outputs t) in
      if fees + dust_limit > lockup_amount then
        (t\<lparr>outputs := [o0\<lparr>scriptPubKey := 0x6a # 0x14 # replicate 20 0, tx_amount := amount_sat 0\<rparr>]\<rparr>,
         lockup_amount)
      else (t\<lparr>outputs := [o0\<lparr>tx_amount := lockup_amount - fees\<rparr>]\<rparr>, fees))"

definition script_code :: "bytes \<Rightarrow> bytes" where
  "script_code witnessScript = of_nat (length witnessScript) # witnessScript"

definition initial_claim_tx ::
  "(bytes \<Rightarrow> bytes) \<Rightarrow> (sha256_hash \<Rightarrow> bytes) \<Rightarrow> tx \<Rightarrow> u32 \<Rightarrow> u32 \<Rightarrow> txid \<Rightarrow> u32 \<Rightarrow> amount \<Rightarrow> preimage
   \<Rightarrow> bytes \<Rightarrow> string \<Rightarrow> (tx \<times> amount) result" where
  "initial_claim_tx sha sign claim_tx feerate_perkw blockheight lockup_txid lockup_outnum
     lockup_amount preim witnessScript output_addr =
     (case addr_to_scriptPubKey output_addr of
        Inl e \<Rightarrow> Inl e
      | Inr spk \<Rightarrow>
         (let t1 = claim_skeleton claim_tx blockheight lockup_txid lockup_outnum spk;
              weight = claim_weight t1 witnessScript;
              (t2, fees) = claim_amounts t1 (amount_sat ((weight * ucast feerate_perkw) div 1000)) lockup_amount
          in case sighash sha t2 SIGHASH_ALL 0 lockup_amount (script_code witnessScript) of
               Inl e \<Rightarrow> Inl e
             | Inr h \<Rightarrow>
                 Inr (t2\<lparr>inputs := [(hd (inputs t2))\<lparr>witness :=
                        [sign h @ [ucast SIGHASH_ALL], preimage_to_buffer preim, witnessScript]\<rparr>]\<rparr>,
                      fees)))"

definition compute_preimage :: "(bytes \<Rightarrow> sha256_hash) \<Rightarrow> preimage \<Rightarrow> preimage" where
  "compute_preimage get_privkey_salted_hash base_preimage =
     preimage_from_buffer (hash_to_buffer (get_privkey_salted_hash (preimage_to_buffer base_preimage)))"

subsection \<open>The skeleton on a fresh transaction\<close>

lemma claim_skeleton_default:
  "claim_skeleton default_tx bh i n spk =
     \<lparr>nVersion = 2,
      inputs = [\<lparr>prevTxid = i, prevOut = n, scriptSig = [], nSequence = 0xFFFFFFFF, witness = [[], [], []]\<rparr>],
      outputs = [\<lparr>tx_amount = Amount 0, scriptPubKey = spk\<rparr>], nLockTime = bh + 1\<rparr>"
  by (simp add: claim_skeleton_def vec_resize_def default_tx_def default_tx_in_def default_tx_out_def
      numeral_3_eq_3)

lemma claim_amounts_cases:
  "claim_amounts t fees lockup =
     (if lockup < fees + dust_limit
      then (t\<lparr>outputs := [(hd (outputs t))\<lparr>scriptPubKey := 0x6a # 0x14 # replicate 20 0, tx_amount := 0\<rparr>]\<rparr>, lockup)
      else (t\<lparr>outputs := [(hd (outputs t))\<lparr>tx_amount := lockup - fees\<rparr>]\<rparr>, fees))"
  by (simp add: claim_amounts_def Let_def amount_sat_def zero_amount_def)

lemma claim_amounts_inputs: "inputs (fst (claim_amounts t fees lockup)) = inputs t"
  by (simp add: claim_amounts_cases)

text \<open>What a run on a fresh transaction gives, with the intermediate values named.\<close>

lemma initial_claim_tx_default:
  assumes "initial_claim_tx sha sign default_tx fr bh i n lockup pre ws addr = Inr (t, fees)"
  obtains spk t1 t2 h where
    "addr_to_scriptPubKey addr = Inr spk"
    "t1 = claim_skeleton default_tx bh i n spk"
    "claim_amounts t1 (amount_sat ((claim_weight t1 ws * ucast fr) div 1000)) lockup = (t2, fees)"
    "sighash sha t2 SIGHASH_ALL 0 lockup (script_code ws) = Inr h"
    "t = t2\<lparr>inputs := [(hd (inputs t1))\<lparr>witness := [sign h @ [1], preimage_to_buffer pre, ws]\<rparr>]\<rparr>"
proof -
  from assms obtain spk where spk: "addr_to_scriptPubKey addr = Inr spk"
    by (auto simp: initial_claim_tx_def split: sum.splits)
  define t1 where "t1 = claim_skeleton default_tx bh i n spk"
  obtain t2 f where t2: "claim_amounts t1 (amount_sat ((claim_weight t1 ws * ucast fr) div 1000)) lockup = (t2, f)"
    by (cases "claim_amounts t1 (amount_sat ((claim_weight t1 ws * ucast fr) div 1000)) lockup")
  have ins: "inputs t2 = inputs t1"
    using claim_amounts_inputs [of t1 "amount_sat ((claim_weight t1 ws * ucast fr) div 1000)" lockup] t2
    by simp
  have one: "(ucast SIGHASH_ALL :: u8) = 1" by (simp add: SIGHASH_ALL_def)
  from assms obtain h where h: "sighash sha t2 SIGHASH_ALL 0 lockup (script_code ws) = Inr h"
    and t: "t = t2\<lparr>inputs := [(hd (inputs t1))\<lparr>witness := [sign h @ [1], preimage_to_buffer pre, ws]\<rparr>]\<rparr>"
    and f: "f = fees"
    by (auto simp: initial_claim_tx_def spk Let_def t1_def [symmetric] t2 ins one split: sum.splits)
  show ?thesis by (rule that [OF spk t1_def _ h t]) (simp add: t2 f)
qed

lemma initial_claim_tx_total:
  "addr_to_scriptPubKey addr = Inr spk \<Longrightarrow>
     \<exists>r. initial_claim_tx sha sign default_tx fr bh i n lockup pre ws addr = Inr r"
proof -
  assume spk: "addr_to_scriptPubKey addr = Inr spk"
  define t1 where "t1 = claim_skeleton default_tx bh i n spk"
  obtain t2 f where t2: "claim_amounts t1 (amount_sat ((claim_weight t1 ws * ucast fr) div 1000)) lockup = (t2, f)"
    by (cases "claim_amounts t1 (amount_sat ((claim_weight t1 ws * ucast fr) div 1000)) lockup")
  have "inputs t2 \<noteq> []"
    using claim_amounts_inputs [of t1 "amount_sat ((claim_weight t1 ws * ucast fr) div 1000)" lockup] t2
    by (simp add: t1_def claim_skeleton_default)
  then obtain h where "sighash sha t2 SIGHASH_ALL 0 lockup (script_code ws) = Inr h"
    using sighash_all_ok by blast
  then show ?thesis by (simp add: initial_claim_tx_def spk Let_def t1_def [symmetric] t2)
qed

subsection \<open>Sizes\<close>

definition strip_tx :: "tx \<Rightarrow> tx" where
  "strip_tx t = t\<lparr>inputs := map strip_witness (inputs t)\<rparr>"

text \<open>Transaction weight as BIP-141 defines it.\<close>

definition tx_weight :: "tx \<Rightarrow> nat" where
  "tx_weight t = 3 * length (put_tx (strip_tx t)) + length (put_tx t)"

lemma length_put_le [simp]:
  "length (put_le32 v) = 4" "length (put_le64 w) = 8" "length (put_le_amount a) = 8"
  by (simp_all add: put_le_eq put_le_amount_def)

lemma length_put_txid: "txid_ok i \<Longrightarrow> length (put_txid i) = 32"
  by (auto simp: put_txid_def txid_ok_def hash_to_buffer_def split: option.splits)

lemma length_varint_small: "n < 253 \<Longrightarrow> length (put_varint (of_nat n)) = 1"
  by (simp add: length_put_varint word_less_nat_alt unat_of_nat_small)

lemma length_varint_le: "length (put_varint v) \<le> 9"
  by (simp add: length_put_varint)

lemma length_put_tx_single:
  assumes "inputs t = [i]" "scriptSig i = []" "txid_ok (prevTxid i)"
    and "outputs t = [out]" "length (scriptPubKey out) < 253"
  shows "length (put_tx t) =
     60 + length (scriptPubKey out) + (if witness i = [] then 0 else 2 + length (put_witness (witness i)))"
  using assms length_varint_small [of 0] length_varint_small [of 1]
    length_varint_small [of "length (scriptPubKey out)"]
  by (simp add: put_tx_def segwit_def put_tx_in_def put_tx_out_def length_put_txid)

lemma length_put_witness_3:
  assumes "length a < 253" "length b < 253" "length c < 253"
  shows "length (put_witness [a, b, c]) = 4 + length a + length b + length c"
  using assms length_varint_small [of 3]
  by (simp add: put_witness_def put_var_bytes_def length_varint_small)

lemma claim_weight_default:
  assumes i: "txid_ok i" and spk: "length spk \<le> 42" and ws: "length ws < 253"
  shows "unat (claim_weight (claim_skeleton default_tx bh i n spk) ws) = 4 * length spk + length ws + 386"
proof -
  let ?t = "claim_skeleton default_tx bh i n spk"
  have "length (put_tx ?t) = 66 + length spk"
    using length_put_tx_single [of ?t] i spk length_put_witness_3 [of "[]" "[]" "[]"]
    by (simp add: claim_skeleton_default)
  then have "claim_weight ?t ws = of_nat (4 * length spk + length ws + 386)"
    by (simp add: claim_weight_def get_nonwitness_weight_def)
  moreover have "4 * length spk + length ws + 386 < 2 ^ 64" using spk ws by simp
  ultimately show ?thesis by (simp only: unat_of_nat_small)
qed

lemma claim_fee_value:
  assumes w: "unat w < 2 ^ 32"
  shows "amt (amount_sat ((w * ucast (fr :: u32)) div 1000)) = unat w * unat fr div 1000 * 1000"
    and "amt (amount_sat ((w * ucast fr) div 1000)) \<le> unat w * unat fr"
proof -
  have frb: "unat fr < 2 ^ 32" using unsigned_less [of fr] by simp
  then have fr: "unat (ucast fr :: u64) = unat fr" "unat fr < 2 ^ 32"
    by (simp_all add: unsigned_ucast_eq take_bit_nat_eq_self)
  have p: "unat w * unat fr < 2 ^ 64"
  proof -
    have "unat w * unat fr \<le> (2 ^ 32 - 1) * (2 ^ 32 - 1)" using w fr(2) by (intro mult_le_mono) auto
    also have "\<dots> < (2::nat) ^ 64" by simp
    finally show ?thesis .
  qed
  then have u: "unat (w * ucast fr :: u64) = unat w * unat fr"
    by (simp add: unat_word_ariths fr(1))
  have d: "unat ((w * ucast fr :: u64) div 1000) = unat w * unat fr div 1000" by (simp add: unat_div u)
  have "unat w * unat fr div 1000 * 1000 \<le> unat w * unat fr" by simp
  moreover from this have "unat w * unat fr div 1000 * 1000 < 2 ^ 64" using p by linarith
  ultimately show "amt (amount_sat ((w * ucast fr) div 1000)) = unat w * unat fr div 1000 * 1000"
    and "amt (amount_sat ((w * ucast fr) div 1000)) \<le> unat w * unat fr"
    using amt_sat [of "(w * ucast fr) div 1000"] by (simp_all only: d)
qed

lemma amt_dust_limit: "amt dust_limit = 547000"
  by (simp add: dust_limit_def amount_sat_def)

subsection \<open>Properties of the claim transaction\<close>

lemma length_spk: "addr_to_scriptPubKey addr = Inr spk \<Longrightarrow> length spk \<le> 42"
  using addr_to_scriptPubKey_shape by fastforce

definition op_return_script :: bytes where
  "op_return_script = 0x6a # 0x14 # replicate 20 0"

lemma claim_outputs:
  assumes run: "initial_claim_tx sha sign default_tx fr bh i n lockup pre ws addr = Inr (t, fees)"
  obtains spk f where
    "addr_to_scriptPubKey addr = Inr spk"
    "f = amount_sat ((claim_weight (claim_skeleton default_tx bh i n spk) ws * ucast fr) div 1000)"
    "lockup < f + dust_limit \<and> fees = lockup \<and> outputs t = [\<lparr>tx_amount = 0, scriptPubKey = op_return_script\<rparr>]
     \<or> f + dust_limit \<le> lockup \<and> fees = f \<and> outputs t = [\<lparr>tx_amount = lockup - f, scriptPubKey = spk\<rparr>]"
proof -
  from run obtain spk t1 t2 h where *: "addr_to_scriptPubKey addr = Inr spk"
    "t1 = claim_skeleton default_tx bh i n spk"
    "claim_amounts t1 (amount_sat ((claim_weight t1 ws * ucast fr) div 1000)) lockup = (t2, fees)"
    "t = t2\<lparr>inputs := [(hd (inputs t1))\<lparr>witness := [sign h @ [1], preimage_to_buffer pre, ws]\<rparr>]\<rparr>"
    by (rule initial_claim_tx_default)
  show ?thesis
    by (rule that [OF *(1) refl])
       (use *(2-4) in \<open>auto simp: claim_amounts_cases claim_skeleton_default op_return_script_def split: if_splits\<close>)
qed

lemma claim_no_saturation:
  assumes "txid_ok i" "length ws < 253" "addr_to_scriptPubKey addr = Inr spk"
    and f: "f = amount_sat ((claim_weight (claim_skeleton default_tx bh i n spk) ws * ucast (fr :: u32)) div 1000)"
  shows "amt (f + dust_limit) = amt f + 547000"
    and "amt f = (4 * length spk + length ws + 386) * unat fr div 1000 * 1000"
proof -
  let ?w = "claim_weight (claim_skeleton default_tx bh i n spk) ws"
  have w: "unat ?w = 4 * length spk + length ws + 386"
    using assms length_spk by (intro claim_weight_default) auto
  then have b: "unat ?w \<le> 1000" using length_spk [OF assms(3)] assms(2) by simp
  then have "unat ?w < 2 ^ 32" by simp
  note fee = claim_fee_value [OF this, of fr, folded f]
  show "amt f = (4 * length spk + length ws + 386) * unat fr div 1000 * 1000" using fee(1) w by simp
  have "unat fr < 2 ^ 32" using unsigned_less [of fr] by simp
  then have "unat ?w * unat fr \<le> 1000 * 2 ^ 32" using b by (intro mult_le_mono) auto
  then have "amt f \<le> 1000 * 2 ^ 32" using fee(2) by linarith
  then show "amt (f + dust_limit) = amt f + 547000" by (simp add: amt_plus amt_dust_limit)
qed

lemma claim_signed:
  assumes run: "initial_claim_tx sha sign default_tx fr bh i n lockup pre ws addr = Inr (t, fees)"
  obtains h where "sighash sha t SIGHASH_ALL 0 lockup (script_code ws) = Inr h"
    "inputs t = [\<lparr>prevTxid = i, prevOut = n, scriptSig = [], nSequence = 0xFFFFFFFF,
                  witness = [sign h @ [1], preimage_to_buffer pre, ws]\<rparr>]"
    "nVersion t = 2" "nLockTime t = bh + 1"
proof -
  from run obtain spk t1 t2 h where *: "t1 = claim_skeleton default_tx bh i n spk"
    "claim_amounts t1 (amount_sat ((claim_weight t1 ws * ucast fr) div 1000)) lockup = (t2, fees)"
    "sighash sha t2 SIGHASH_ALL 0 lockup (script_code ws) = Inr h"
    "t = t2\<lparr>inputs := [(hd (inputs t1))\<lparr>witness := [sign h @ [1], preimage_to_buffer pre, ws]\<rparr>]\<rparr>"
    by (rule initial_claim_tx_default)
  have t2: "inputs t2 = inputs t1" "nVersion t2 = 2" "nLockTime t2 = bh + 1"
    using *(1,2) by (auto simp: claim_amounts_cases claim_skeleton_default split: if_splits)
  then have "same_but_witness t t2"
    using *(1,4) by (simp add: same_but_witness_def claim_skeleton_default)
  then have "sighash sha t SIGHASH_ALL 0 lockup (script_code ws) = Inr h"
    using *(3) sighash_same by metis
  then show ?thesis
    by (rule that) (use * t2 in \<open>simp_all add: claim_skeleton_default\<close>)
qed

text \<open>C31: The claim transaction spends the whole lockup amount: its one output and the fee add up
  to it. Either the output pays the destination address and is at least the dust limit, or the
  fee takes everything and the output is a worthless \<open>OP_RETURN\<close>.\<close>

theorem claim_tx_conserves_value:
  assumes run: "initial_claim_tx sha sign default_tx fr bh i n lockup pre ws addr = Inr (t, fees)"
    and "txid_ok i" "length ws < 253"
  shows "\<exists>out. outputs t = [out] \<and> amt (tx_amount out) + amt fees = amt lockup
    \<and> (tx_amount out = 0 \<and> fees = lockup \<and> scriptPubKey out = op_return_script
       \<or> dust_limit \<le> tx_amount out \<and> addr_to_scriptPubKey addr = Inr (scriptPubKey out))"
proof -
  from run obtain spk f where spk: "addr_to_scriptPubKey addr = Inr spk"
    and f: "f = amount_sat ((claim_weight (claim_skeleton default_tx bh i n spk) ws * ucast fr) div 1000)"
    and out: "lockup < f + dust_limit \<and> fees = lockup \<and> outputs t = [\<lparr>tx_amount = 0, scriptPubKey = op_return_script\<rparr>]
     \<or> f + dust_limit \<le> lockup \<and> fees = f \<and> outputs t = [\<lparr>tx_amount = lockup - f, scriptPubKey = spk\<rparr>]"
    by (rule claim_outputs)
  have s: "amt (f + dust_limit) = amt f + 547000"
    using claim_no_saturation(1) [OF assms(2,3) spk f] .
  show ?thesis using out
  proof
    assume "f + dust_limit \<le> lockup \<and> fees = f \<and> outputs t = [\<lparr>tx_amount = lockup - f, scriptPubKey = spk\<rparr>]"
    then show ?thesis using s spk by (auto simp: amount_order amt_dust_limit)
  qed simp
qed

text \<open>C33: The signature in the claim transaction's witness is made over the signature hash of the
  very transaction that is broadcast (filling in the witness does not change it), and the input
  is final and spends the lockup output with the preimage and the redeem script.\<close>

theorem claim_tx_signs_itself:
  assumes "initial_claim_tx sha sign default_tx fr bh i n lockup pre ws addr = Inr (t, fees)"
  shows "\<exists>h. sighash sha t SIGHASH_ALL 0 lockup (script_code ws) = Inr h
    \<and> inputs t = [\<lparr>prevTxid = i, prevOut = n, scriptSig = [], nSequence = 0xFFFFFFFF,
                  witness = [sign h @ [1], preimage_to_buffer pre, ws]\<rparr>]"
  using assms by (rule claim_signed) blast

text \<open>With a DER signature of at most 72 bytes and a 32-byte preimage, the estimated weight is an
  upper bound of the weight of the transaction that is broadcast, so the fee pays at least the
  requested rate (or the whole amount went to fees).\<close>

theorem claim_tx_pays_feerate:
  assumes run: "initial_claim_tx sha sign default_tx fr bh i n lockup pre ws addr = Inr (t, fees)"
    and i: "txid_ok i" and ws: "length ws < 253"
    and sig: "\<And>h. length (sign h) \<le> 72" and pre: "preimage_wf pre"
  shows "fees = lockup \<or> tx_weight t * unat fr div 1000 * 1000 \<le> amt fees"
proof -
  from run obtain spk f where spk: "addr_to_scriptPubKey addr = Inr spk"
    and f: "f = amount_sat ((claim_weight (claim_skeleton default_tx bh i n spk) ws * ucast fr) div 1000)"
    and out: "lockup < f + dust_limit \<and> fees = lockup \<and> outputs t = [\<lparr>tx_amount = 0, scriptPubKey = op_return_script\<rparr>]
     \<or> f + dust_limit \<le> lockup \<and> fees = f \<and> outputs t = [\<lparr>tx_amount = lockup - f, scriptPubKey = spk\<rparr>]"
    by (rule claim_outputs)
  from run obtain h where ins: "inputs t = [\<lparr>prevTxid = i, prevOut = n, scriptSig = [],
      nSequence = 0xFFFFFFFF, witness = [sign h @ [1], preimage_to_buffer pre, ws]\<rparr>]"
    by (rule claim_signed)
  show ?thesis
  proof (cases "fees = lockup")
    case False
    then have o1: "outputs t = [\<lparr>tx_amount = lockup - f, scriptPubKey = spk\<rparr>]" and ff: "fees = f"
      using out by auto
    have spk42: "length spk \<le> 42" by (rule length_spk [OF spk])
    have p32: "length (preimage_to_buffer pre) = 32"
      using pre by (auto simp: preimage_to_buffer_def preimage_wf_def split: option.splits)
    have wl: "length (put_witness [sign h @ [1], preimage_to_buffer pre, ws]) = 37 + length (sign h) + length ws"
      using length_put_witness_3 [of "sign h @ [1]" "preimage_to_buffer pre" ws] sig [of h] p32 ws by simp
    have full: "length (put_tx t) = 60 + length spk + 2 + (37 + length (sign h) + length ws)"
      using length_put_tx_single [OF ins _ _ o1] i spk42 wl by simp
    have "inputs (strip_tx t) = [\<lparr>prevTxid = i, prevOut = n, scriptSig = [], nSequence = 0xFFFFFFFF, witness = []\<rparr>]"
      "outputs (strip_tx t) = outputs t"
      by (simp_all add: strip_tx_def ins)
    then have base: "length (put_tx (strip_tx t)) = 60 + length spk"
      using length_put_tx_single [of "strip_tx t"] o1 i spk42 by simp
    have "tx_weight t \<le> 4 * length spk + length ws + 386"
      using full base sig [of h] by (simp add: tx_weight_def)
    then have "tx_weight t * unat fr div 1000 * 1000 \<le> (4 * length spk + length ws + 386) * unat fr div 1000 * 1000"
      by (intro mult_le_mono div_le_mono) auto
    then show ?thesis using claim_no_saturation(2) [OF i ws spk f] ff by simp
  qed simp
qed

subsection \<open>A claim\<close>

abbreviation ex_claim_run :: "(tx \<times> amount) result" where
  "ex_claim_run \<equiv> initial_claim_tx (\<lambda>_. replicate 32 0) (\<lambda>_. [0x30]) default_tx 253 700010
     (TxId (hash_from_buffer (replicate 32 0))) 0 (amount_sat 100000) (Preimage (Some (replicate 32 1)))
     (replicate 106 0) (encode_addr ''bc'' 0 (replicate 20 0) ''qqqqqq'')"

lemma ex_claim_run_ok: "\<exists>t fees. ex_claim_run = Inr (t, fees)"
proof -
  have "addr_to_scriptPubKey (encode_addr ''bc'' 0 (replicate 20 0) ''qqqqqq'') = Inr (0 # 20 # replicate 20 0)"
    by (subst addr_to_scriptPubKey_encode) (simp_all add: valid_program_def)
  from initial_claim_tx_total [OF this] show ?thesis by (metis surj_pair)
qed

lemma ex_claim_txid: "txid_ok (TxId (hash_from_buffer (replicate 32 0)))"
  by (simp add: txid_ok_def hash_from_buffer_def)

theorem claim_tx_conserves_value_witness:
  "\<exists>t fees out. ex_claim_run = Inr (t, fees) \<and> outputs t = [out]
     \<and> amt (tx_amount out) + amt fees = amt (amount_sat 100000)"
proof -
  obtain t fees where r: "ex_claim_run = Inr (t, fees)" using ex_claim_run_ok by blast
  from claim_tx_conserves_value [OF r ex_claim_txid] show ?thesis using r by auto
qed

theorem claim_tx_signs_itself_witness:
  "\<exists>t fees h. ex_claim_run = Inr (t, fees)
     \<and> sighash (\<lambda>_. replicate 32 0) t SIGHASH_ALL 0 (amount_sat 100000) (script_code (replicate 106 0)) = Inr h"
proof -
  obtain t fees where r: "ex_claim_run = Inr (t, fees)" using ex_claim_run_ok by blast
  from claim_tx_signs_itself [OF r] show ?thesis using r by blast
qed

theorem claim_tx_pays_feerate_witness:
  "\<exists>t fees. ex_claim_run = Inr (t, fees)
     \<and> (fees = amount_sat 100000 \<or> tx_weight t * 253 div 1000 * 1000 \<le> amt fees)"
proof -
  obtain t fees where r: "ex_claim_run = Inr (t, fees)" using ex_claim_run_ok by blast
  from claim_tx_pays_feerate [OF r ex_claim_txid] show ?thesis
    using r by (auto simp: preimage_wf_def)
qed

end
