(* ===== verification/Jsmn_Object.thy ===== *)
theory Jsmn_Object
  imports Util_Str Cxx_Double
begin

text \<open>
  \<open>src/Jsmn/Object.cpp\<close> and \<open>src/Jsmn/Detail/Str.cpp\<close>: typed access to a parsed JSON value, its
  equality, and the escaping of strings. The tokeniser is the vendored jsmn, so a value is the tree
  its tokens describe; the absent value and the token \<open>null\<close> behave alike in the accessors
  and are one constructor; only iteration tells them apart, and there the lookup \<open>json_find\<close> keeps them
  apart as \<open>None\<close> and a value. Numbers are the doubles the C++ stream reads from their text. A plain
  \<open>char\<close> is signed, as on the platforms the program is built for.
\<close>

subsection \<open>Values and accessors\<close>

datatype json =
    JNull
  | JBool bool
  | JNum double
  | JStr string
  | JArr "json list"
  | JObj "(string \<times> json) list"

definition json_bool :: "json \<Rightarrow> bool result" where
  "json_bool j = (case j of JNull \<Rightarrow> Inr False | JBool b \<Rightarrow> Inr b | _ \<Rightarrow> Inl JsonTypeError)"

definition json_string :: "json \<Rightarrow> string result" where
  "json_string j = (case j of JStr s \<Rightarrow> Inr s | _ \<Rightarrow> Inl JsonTypeError)"

definition json_double :: "json \<Rightarrow> double result" where
  "json_double j = (case j of JNum d \<Rightarrow> Inr d | _ \<Rightarrow> Inl JsonTypeError)"

definition json_size :: "json \<Rightarrow> nat result" where
  "json_size j =
     (case j of JArr xs \<Rightarrow> Inr (length xs) | JObj kvs \<Rightarrow> Inr (length kvs) | _ \<Rightarrow> Inl JsonTypeError)"

definition json_keys :: "json \<Rightarrow> string list result" where
  "json_keys j = (case j of JObj kvs \<Rightarrow> Inr (map fst kvs) | _ \<Rightarrow> Inl JsonTypeError)"

definition json_has :: "json \<Rightarrow> string \<Rightarrow> bool result" where
  "json_has j k = (case j of JObj kvs \<Rightarrow> Inr (map_of kvs k \<noteq> None) | _ \<Rightarrow> Inl JsonTypeError)"

definition json_get :: "json \<Rightarrow> string \<Rightarrow> json result" where
  "json_get j k =
     (case j of JObj kvs \<Rightarrow> Inr (case map_of kvs k of Some v \<Rightarrow> v | None \<Rightarrow> JNull)
      | _ \<Rightarrow> Inl JsonTypeError)"

definition json_at :: "json \<Rightarrow> nat \<Rightarrow> json result" where
  "json_at j i =
     (case j of JArr xs \<Rightarrow> Inr (if i \<ge> length xs then JNull else xs ! i) | _ \<Rightarrow> Inl JsonTypeError)"

text \<open>Looking a member up without reading it, and the elements a range-based \<open>for\<close> visits: none for
  anything but an array, and an exception for an absent member.\<close>

definition json_find :: "json \<Rightarrow> string \<Rightarrow> json option result" where
  "json_find j k = (case j of JObj kvs \<Rightarrow> Inr (map_of kvs k) | _ \<Rightarrow> Inl JsonTypeError)"

definition json_elems :: "json option \<Rightarrow> json list result" where
  "json_elems j = (case j of None \<Rightarrow> Inl JsonTypeError | Some (JArr xs) \<Rightarrow> Inr xs | Some _ \<Rightarrow> Inr [])"

lemma size_map_of:
  assumes "k \<in> fst ` set kvs"
  shows "size (the (map_of kvs k)) < Suc (size_list (size_prod (\<lambda>_. 0) size) kvs)"
proof -
  obtain v where v: "map_of kvs k = Some v" using assms by (metis map_of_eq_None_iff not_None_eq)
  then have "(k, v) \<in> set kvs" by (rule map_of_SomeD)
  from size_list_estimation' [OF this, of "size v" "size_prod (\<lambda>_. 0) size"] v
  show ?thesis by simp
qed

text \<open>\<open>operator==\<close>: an object equals another when it has as many entries and each of its keys
  is in the other with an equal value.\<close>

function (sequential) json_eq :: "json \<Rightarrow> json \<Rightarrow> bool" where
  "json_eq JNull JNull = True"
| "json_eq (JBool a) (JBool b) = (a = b)"
| "json_eq (JStr a) (JStr b) = (a = b)"
| "json_eq (JNum a) (JNum b) = (a = b)"
| "json_eq (JObj a) (JObj b) =
     (length a = length b \<and>
      list_all (\<lambda>k. map_of b k \<noteq> None \<and> json_eq (the (map_of a k)) (the (map_of b k))) (map fst a))"
| "json_eq (JArr a) (JArr b) =
     (length a = length b \<and> list_all (\<lambda>i. json_eq (a ! i) (b ! i)) [0 ..< length a])"
| "json_eq _ _ = False"
  by pat_completeness auto
termination
proof (relation "measure (size \<circ> fst)")
  fix a b k
  assume "k \<in> set (map fst (a :: (string \<times> json) list))"
  then show "((the (map_of a k), the (map_of b k)), JObj a, JObj b) \<in> measure (size \<circ> fst)"
    using size_map_of [of k a] by simp
next
  fix a b :: "json list" and i
  assume "i \<in> set [0 ..< length a]"
  then have "a ! i \<in> set a" by simp
  from size_list_estimation' [OF this order.refl, of size]
  show "((a ! i, b ! i), JArr a, JArr b) \<in> measure (size \<circ> fst)" by simp
qed simp

subsection \<open>Escaping\<close>

text \<open>The character reached as an \<open>unsigned int\<close> and printed with \<open>std::hex\<close>: eight digits when
  the signed character is negative.\<close>

definition control_escape :: "char \<Rightarrow> string" where
  "control_escape c =
     CHR 0x5C # ''u00'' @ (if of_char c \<ge> (128 :: nat) then ''ffffff'' else []) @ hexbyte (byte_of_char c)"

definition escape_char :: "char \<Rightarrow> string" where
  "escape_char c =
     (if c = CHR 0x22 then [CHR 0x5C, CHR 0x22]
      else if c = CHR 0x5C then [CHR 0x5C, CHR 0x5C]
      else if c = CHR 0x08 then [CHR 0x5C, CHR ''b'']
      else if c = CHR 0x0C then [CHR 0x5C, CHR ''f'']
      else if c = CHR 0x0A then [CHR 0x5C, CHR ''n'']
      else if c = CHR 0x0D then [CHR 0x5C, CHR ''r'']
      else if c = CHR 0x09 then [CHR 0x5C, CHR ''t'']
      else if of_char c < (32 :: nat) \<or> of_char c \<ge> (128 :: nat) then control_escape c
      else [c])"

definition to_escaped :: "string \<Rightarrow> string" where
  "to_escaped s = concat (map escape_char s)"

definition jsonify_string :: "string \<Rightarrow> string" where
  "jsonify_string s = [CHR 0x22] @ to_escaped s @ [CHR 0x22]"

definition simple_escape :: "char \<Rightarrow> char option" where
  "simple_escape c =
     (if c = CHR 0x22 then Some (CHR 0x22) else if c = CHR 0x5C then Some (CHR 0x5C)
      else if c = CHR ''b'' then Some (CHR 0x08) else if c = CHR ''f'' then Some (CHR 0x0C)
      else if c = CHR ''n'' then Some (CHR 0x0A) else if c = CHR ''r'' then Some (CHR 0x0D)
      else if c = CHR ''t'' then Some (CHR 0x09) else None)"

text \<open>The re-encoding of a code point. The parts of a multi-byte sequence are \<open>int\<close>s, since
  \<open>char(x) | 0xC0\<close> promotes, so the stream prints them as decimal numbers.\<close>

definition put_code_point :: "nat \<Rightarrow> string" where
  "put_code_point cp =
     (if cp < 0x80 then [char_of cp]
      else if cp < 0x800 then dec (cp div 64 mod 32 + 0xC0) @ dec (cp mod 64 + 0x80)
      else dec (cp div 4096 mod 16 + 0xE0) @ dec (cp div 64 mod 64 + 0x80) @ dec (cp mod 64 + 0x80))"

text \<open>The tokeniser only lets complete escapes through; the model makes the cases it excludes
  (a lone backslash, an unknown escape, too few hex digits) the failed assertion.\<close>

fun from_escaped :: "string \<Rightarrow> string result" where
  "from_escaped [] = Inr []"
| "from_escaped (c # s) =
     (if c \<noteq> CHR 0x5C then rbind (from_escaped s) (\<lambda>r. Inr (c # r))
      else case s of
        [] \<Rightarrow> Inl AssertFailed
      | e # s' \<Rightarrow>
          (case simple_escape e of
             Some x \<Rightarrow> rbind (from_escaped s') (\<lambda>r. Inr (x # r))
           | None \<Rightarrow>
               if e = CHR ''u'' then
                 rbind (hexread (take 4 s')) (\<lambda>hex.
                   if length hex \<noteq> 2 then Inl AssertFailed
                   else rbind (from_escaped (drop 4 s')) (\<lambda>r.
                          Inr (put_code_point (unat (hex ! 0) * 256 + unat (hex ! 1)) @ r)))
               else Inl AssertFailed))"

subsection \<open>Reading back\<close>

lemma hex_digit_0: "hex_digit 0 = CHR ''0''"
  by code_simp

lemma hexread_u00: "hexread (take 4 (CHR ''0'' # CHR ''0'' # hexbyte b @ s)) = Inr [0, b]"
proof -
  have "take 4 (CHR ''0'' # CHR ''0'' # hexbyte b @ s) = hexdump [0, b]"
    by (simp add: hexdump_def hexbyte_def hex_digit_0)
  then show ?thesis by simp
qed

lemma from_escaped_unicode:
  assumes "hexread (take 4 s') = Inr [0, b]" "drop 4 s' = s"
  shows "from_escaped (CHR 0x5C # CHR ''u'' # s') =
    rbind (from_escaped s) (\<lambda>r. Inr (put_code_point (unat b) @ r))"
  using assms by (simp add: simple_escape_def)

lemma from_escaped_u00:
  "from_escaped (CHR 0x5C # CHR ''u'' # CHR ''0'' # CHR ''0'' # hexbyte b @ s) =
     rbind (from_escaped s) (\<lambda>r. Inr (put_code_point (unat b) @ r))"
  by (rule from_escaped_unicode [OF hexread_u00]) (simp add: hexbyte_def)

lemma from_escaped_escape_char:
  assumes "of_char c < (128 :: nat)"
  shows "from_escaped (escape_char c @ s) = rbind (from_escaped s) (\<lambda>r. Inr (c # r))"
proof (cases "of_char c < (32 :: nat) \<and> escape_char c = control_escape c")
  case True
  have "escape_char c @ s = CHR 0x5C # CHR ''u'' # CHR ''0'' # CHR ''0'' # hexbyte (byte_of_char c) @ s"
    using True assms by (simp add: control_escape_def)
  moreover have "put_code_point (of_char c) = [c]" using assms by (simp add: put_code_point_def)
  ultimately show ?thesis by (simp only: from_escaped_u00 unat_byte_of_char append.simps)
next
  case False
  then show ?thesis using assms by (auto simp: escape_char_def simple_escape_def)
qed

lemma hex_digit_plain: "d < 16 \<Longrightarrow> hex_digit d \<noteq> CHR 0x5C"
proof -
  have "list_all (\<lambda>d. hex_digit d \<noteq> CHR 0x5C) [0 ..< 16]" by code_simp
  then show "d < 16 \<Longrightarrow> hex_digit d \<noteq> CHR 0x5C" by (simp add: list_all_iff)
qed

lemma from_escaped_hexbyte: "from_escaped (hexbyte b) = Inr (hexbyte b)"
proof -
  have "unat b < 256" using unsigned_less [of b] by simp
  then show ?thesis by (simp add: hexbyte_def hex_digit_plain)
qed

lemma from_escaped_to_escaped:
  "list_all (\<lambda>c. of_char c < (128 :: nat)) s \<Longrightarrow> from_escaped (to_escaped s) = Inr s"
  by (induction s) (simp_all add: to_escaped_def from_escaped_escape_char)

text \<open>Every ASCII string, control characters, quotes and backslashes included, survives being
  escaped into JSON and read back.\<close>

theorem json_string_roundtrip:
  assumes "list_all (\<lambda>c. of_char c < (128 :: nat)) s"
  shows "from_escaped (to_escaped s) = Inr s"
  using assms by (rule from_escaped_to_escaped)

theorem json_string_roundtrip_witness:
  "from_escaped (to_escaped [CHR ''a'', CHR 0x22, CHR 0x01, CHR 0x5C, CHR 0x0A])
     = Inr [CHR ''a'', CHR 0x22, CHR 0x01, CHR 0x5C, CHR 0x0A]"
  by (rule json_string_roundtrip) code_simp

text \<open>A character outside ASCII does not survive: it is escaped with eight hex digits after
  \<open>\u00\<close>, the reader takes the first two, and prints the resulting UTF-8 bytes as numbers.\<close>

theorem json_string_non_ascii:
  assumes "of_char c \<ge> (128 :: nat)"
  shows "from_escaped (to_escaped [c]) = Inr (''195191ffff'' @ hexbyte (byte_of_char c))"
proof -
  have ne: "c \<noteq> d" if "of_char d < (128 :: nat)" for d using that assms by auto
  have x: "escape_char c = control_escape c" using assms by (simp add: escape_char_def ne)
  have ff: "hexbyte 255 = ''ff''" by code_simp
  have e: "to_escaped [c] = CHR 0x5C # CHR ''u'' # CHR ''0'' # CHR ''0'' # hexbyte 255 @ ''ffff'' @ hexbyte (byte_of_char c)"
    by (simp add: to_escaped_def x control_escape_def ff assms)
  have "put_code_point 255 = ''195191''" by code_simp
  then show ?thesis
    unfolding e from_escaped_u00 by (simp add: from_escaped_hexbyte)
qed

theorem json_string_non_ascii_witness:
  "from_escaped (to_escaped [CHR 0xE9]) = Inr ''195191ffffe9''"
proof -
  have "''195191ffff'' @ hexbyte (byte_of_char (CHR 0xE9)) = ''195191ffffe9''" by code_simp
  then show ?thesis using json_string_non_ascii [of "CHR 0xE9"] by simp
qed

subsection \<open>Equality\<close>

text \<open>Values without repeated keys, as an encoder produces them.\<close>

fun json_wf :: "json \<Rightarrow> bool" where
  "json_wf (JArr xs) = list_all json_wf xs"
| "json_wf (JObj kvs) = (distinct (map fst kvs) \<and> list_all (\<lambda>kv. json_wf (snd kv)) kvs)"
| "json_wf _ = True"

lemma json_eq_refl: "json_eq j j"
proof (induction j)
  case (JObj kvs)
  have "json_eq (the (map_of kvs k)) (the (map_of kvs k)) \<and> map_of kvs k \<noteq> None"
    if k: "k \<in> fst ` set kvs" for k
  proof -
    obtain v where v: "map_of kvs k = Some v" using k by (metis map_of_eq_None_iff not_None_eq)
    then have "(k, v) \<in> set kvs" by (rule map_of_SomeD)
    then show ?thesis using JObj [of "(k, v)" v] v by (simp add: snds.intros)
  qed
  then show ?case by (auto simp: list_all_iff)
qed (auto simp: list_all_iff)

lemma map_of_mem: "k \<in> fst ` set kvs \<Longrightarrow> (k, the (map_of kvs k)) \<in> set kvs"
  by (metis map_of_SomeD map_of_eq_None_iff option.exhaust_sel)

lemma json_wf_entry: "json_wf (JObj kvs) \<Longrightarrow> k \<in> fst ` set kvs \<Longrightarrow> json_wf (the (map_of kvs k))"
  using map_of_mem by (fastforce simp: list_all_iff)

lemma same_keys:
  assumes "length a = length b" "distinct (map fst a)" "distinct (map fst b)"
    and "\<forall>k \<in> fst ` set a. map_of b k \<noteq> None"
  shows "fst ` set b = fst ` set a"
proof -
  have "card (fst ` set a) = card (fst ` set b)"
    using assms(1-3) by (metis distinct_card length_map list.set_map)
  moreover have "fst ` set a \<subseteq> fst ` set b" using assms(4) by (metis map_of_eq_None_iff subsetI)
  ultimately show ?thesis by (metis card_subset_eq finite_imageI finite_set)
qed

lemma json_eq_obj:
  "json_eq (JObj a) (JObj b) \<longleftrightarrow> length a = length b \<and>
     (\<forall>k \<in> fst ` set a. k \<in> fst ` set b \<and> json_eq (the (map_of a k)) (the (map_of b k)))"
  by (auto simp: list_all_iff map_of_eq_None_iff simp del: not_None_eq)

lemma json_eq_sym: "json_eq a b \<Longrightarrow> json_wf a \<Longrightarrow> json_wf b \<Longrightarrow> json_eq b a"
proof (induction a b rule: json_eq.induct)
  case (5 a b)
  then have "fst ` set b = fst ` set a"
    by (intro same_keys) (auto simp: list_all_iff)
  then show ?case
    using 5 json_wf_entry [of a] json_wf_entry [of b] by (auto simp: list_all_iff map_of_eq_None_iff)
next
  case (6 a b)
  then show ?case by (auto simp: list_all_iff)
qed auto

lemma json_eq_trans: "json_eq a b \<Longrightarrow> json_eq b c \<Longrightarrow> json_eq a c"
proof (induction a b arbitrary: c rule: json_eq.induct)
  case (5 a b)
  then obtain m where m: "c = JObj m" by (cases c) auto
  have ab: "length a = length b" "\<And>k. k \<in> fst ` set a \<Longrightarrow> k \<in> fst ` set b"
    "\<And>k. k \<in> fst ` set a \<Longrightarrow> json_eq (the (map_of a k)) (the (map_of b k))"
    and bm: "length b = length m" "\<And>k. k \<in> fst ` set b \<Longrightarrow> k \<in> fst ` set m"
    "\<And>k. k \<in> fst ` set b \<Longrightarrow> json_eq (the (map_of b k)) (the (map_of m k))"
    using 5(2,3) unfolding m json_eq_obj by blast+
  have "json_eq (the (map_of a k)) (the (map_of m k))" if "k \<in> fst ` set a" for k
    using 5(1) [of k] ab bm that by simp
  then show ?case unfolding m json_eq_obj using ab bm by simp
next
  case (6 a b)
  then obtain m where "c = JArr m" by (cases c) auto
  then show ?case using 6 by (auto simp: list_all_iff)
next
  case (3 a b) then show ?case by (cases c) auto
next
  case (4 a b) then show ?case by (cases c) auto
next
  case (2 a b) then show ?case by (cases c) auto
qed auto

text \<open>Comparison of JSON values is an equivalence on values without repeated keys: reflexive
  and transitive on all values, symmetric on those (with a repeated key it need not be).\<close>

theorem json_eq_equivalence:
  assumes "json_wf a" "json_wf b"
  shows "json_eq a a \<and> (json_eq a b \<longleftrightarrow> json_eq b a) \<and> (json_eq a b \<and> json_eq b c \<longrightarrow> json_eq a c)"
  using json_eq_refl json_eq_sym [OF _ assms] json_eq_sym [OF _ assms(2,1)] json_eq_trans by blast

theorem json_eq_equivalence_witness:
  "json_eq (JObj [(''a'', JNum 1), (''b'', JNull)]) (JObj [(''b'', JNull), (''a'', JNum 1)])
   \<and> \<not> json_eq (JObj [(''b'', JNull), (''c'', JNull)]) (JObj [(''b'', JNull), (''b'', JNull)])
   \<and> json_eq (JObj [(''b'', JNull), (''a'', JNum 1)]) (JObj [(''a'', JNum 1), (''b'', JNull)])"
proof -
  let ?x = "JObj [(''a'', JNum 1), (''b'', JNull)]" and ?y = "JObj [(''b'', JNull), (''a'', JNum 1)]"
  have "json_wf ?x" "json_wf ?y" by simp_all
  from json_eq_equivalence [OF this, of JNull]
  have "json_eq ?x ?y \<longleftrightarrow> json_eq ?y ?x" by blast
  moreover have "json_eq ?x ?y" by simp
  moreover have "\<not> json_eq (JObj [(''b'', JNull), (''c'', JNull)]) (JObj [(''b'', JNull), (''b'', JNull)])" by simp
  ultimately show ?thesis by blast
qed

end
