(* ===== verification/Boltz_Service.thy ===== *)
theory Boltz_Service
  imports Boltz_Claim Jsmn_Object
begin

text \<open>
  \<open>src/Boltz/Detail/SwapSetupHandler.cpp\<close>, \<open>ClaimTxHandler.cpp\<close> and \<open>ServiceImpl.cpp\<close>: setting up
  reverse submarine swaps, claiming their lockup transactions and keeping the table
  \<open>BoltzServiceFactory_rsub\<close>. A table is the list of its rows. What lies outside the sources is a
  parameter: the hash functions and the validity checks of libsecp256k1 (record \<open>crypto\<close>), the
  signer behind \<open>Secp256k1::SignerIF\<close> (record \<open>signer\<close>), the replies of the server and the
  environment's fee rate and broadcast result.
\<close>

subsection \<open>Parameters and the table\<close>

record crypto =
  c_sha :: "bytes \<Rightarrow> bytes"
  c_ripemd :: "bytes \<Rightarrow> bytes"
  c_pubkey_ok :: "bytes \<Rightarrow> bool"
  c_seckey_ok :: "bytes \<Rightarrow> bool"

record signer =
  s_pubkey_tweak :: "bytes \<Rightarrow> bytes"
  s_signature_tweak :: "bytes \<Rightarrow> sha256_hash \<Rightarrow> bytes"
  s_salted_hash :: "bytes \<Rightarrow> sha256_hash"

record rsub =
  r_apiAccess :: string
  r_tweak :: string
  r_preimage :: string
  r_destinationAddress :: string
  r_swapId :: string
  r_redeemScript :: string
  r_timeoutBlockheight :: u32
  r_onchainAmount :: u64
  r_lockedUp :: bool
  r_lockupTxid :: "string option"
  r_lockupOut :: "nat option"
  r_lockupConfirmedHeight :: "u32 option"
  r_lockupClaimFees :: "u64 option"
  r_comment :: string

definition is_swap :: "string \<Rightarrow> string \<Rightarrow> rsub \<Rightarrow> bool" where
  "is_swap label swapId r = (r_apiAccess r = label \<and> r_swapId r = swapId)"

definition privkey_of_string :: "crypto \<Rightarrow> string \<Rightarrow> bytes result" where
  "privkey_of_string C s =
     rbind (hexread s) (\<lambda>buf.
       if length buf \<noteq> 32 then Inl InvalidPrivKey
       else if \<not> c_seckey_ok C buf then Inl InvalidPrivKey else Inr buf)"

definition string_of_privkey :: "bytes \<Rightarrow> string" where
  "string_of_privkey k = hexdump k"

definition hash160 :: "crypto \<Rightarrow> bytes \<Rightarrow> ripemd160_hash \<times> sha256_hash" where
  "hash160 C p =
     (let sha = hash_from_buffer (c_sha C p)
      in (Ripemd160Hash (Some (c_ripemd C (hash_to_buffer sha))), sha))"

subsection \<open>Setting up a swap\<close>

datatype setup_failure =
    UnexpectedResult
  | BadScriptHex
  | BadRedeemScript
  | LowOnchainAmount
  | BadTimeout
  | DuplicateId
  | ApiUnreachable

record swap_setup =
  su_label :: string
  su_destinationAddress :: string
  su_offchainAmount :: amount
  su_current_blockheight :: u32
  su_tweak :: bytes
  su_preimage :: preimage

record created =
  cr_swapId :: string
  cr_redeemScript :: bytes
  cr_timeoutBlockheight :: u32
  cr_onchainAmount :: amount
  cr_invoice :: string

record swap_info =
  si_invoice :: string
  si_hash :: sha256_hash
  si_timeout :: u32

definition min_timeout :: u32 where "min_timeout = 12"
definition max_timeout :: u32 where "max_timeout = 288"

definition real_preimage :: "signer \<Rightarrow> preimage \<Rightarrow> preimage" where
  "real_preimage S p = compute_preimage (s_salted_hash S) p"

definition setup_hash160 :: "crypto \<Rightarrow> signer \<Rightarrow> swap_setup \<Rightarrow> ripemd160_hash \<times> sha256_hash" where
  "setup_hash160 C S su = hash160 C (preimage_to_buffer (real_preimage S (su_preimage su)))"

definition parse_createswap :: "json \<Rightarrow> (string \<times> string \<times> string \<times> u32 \<times> u64) result" where
  "parse_createswap res =
     rbind (rbind (json_get res ''id'') json_string) (\<lambda>swapId.
     rbind (rbind (json_get res ''redeemScript'') json_string) (\<lambda>s_redeemScript.
     rbind (rbind (json_get res ''invoice'') json_string) (\<lambda>invoice.
     rbind (rbind (json_get res ''timeoutBlockHeight'') json_double) (\<lambda>timeout.
     rbind (rbind (json_get res ''onchainAmount'') json_double) (\<lambda>onchain.
     Inr (swapId, s_redeemScript, invoice, of_int (trunc_double timeout), of_int (trunc_double onchain)))))))"

text \<open>\<open>onchain / offchain < 0.90\<close> on doubles: a zero divisor gives infinity or not-a-number,
  neither of which is below anything.\<close>

definition amount_ratio_below :: "amount \<Rightarrow> amount \<Rightarrow> double \<Rightarrow> bool" where
  "amount_ratio_below a b r = (to_msat b \<noteq> 0 \<and> amount_ratio a b < r)"

definition validate_createswap ::
  "crypto \<Rightarrow> signer \<Rightarrow> swap_setup \<Rightarrow> json \<Rightarrow> setup_failure + created" where
  "validate_createswap C S su res =
     (case parse_createswap res of
        Inl _ \<Rightarrow> Inl UnexpectedResult
      | Inr (swapId, s_redeemScript, invoice, timeout, onchain) \<Rightarrow>
          if \<not> ishex s_redeemScript then Inl BadScriptHex
          else case hexread s_redeemScript of
            Inl _ \<Rightarrow> Inl BadScriptHex
          | Inr redeemScript \<Rightarrow>
              if \<not> (case match_lockscript (c_pubkey_ok C) redeemScript of
                     None \<Rightarrow> False
                   | Some (script_hash160, script_mypubkey, script_locktime, _) \<Rightarrow>
                       script_hash160 = ripemd_to_buffer (fst (setup_hash160 C S su))
                       \<and> script_mypubkey = s_pubkey_tweak S (su_tweak su)
                       \<and> script_locktime = timeout)
              then Inl BadRedeemScript
              else if amount_ratio_below (amount_sat onchain) (su_offchainAmount su) (fl (9 / 10))
              then Inl LowOnchainAmount
              else if su_current_blockheight su + min_timeout > timeout
                    \<or> su_current_blockheight su + max_timeout < timeout
              then Inl BadTimeout
              else Inr \<lparr>cr_swapId = swapId, cr_redeemScript = redeemScript,
                        cr_timeoutBlockheight = timeout, cr_onchainAmount = amount_sat onchain,
                        cr_invoice = invoice\<rparr>)"

definition setup_row :: "swap_setup \<Rightarrow> created \<Rightarrow> rsub" where
  "setup_row su cr =
     \<lparr>r_apiAccess = su_label su, r_tweak = string_of_privkey (su_tweak su),
      r_preimage = string_of_preimage (su_preimage su),
      r_destinationAddress = su_destinationAddress su, r_swapId = cr_swapId cr,
      r_redeemScript = hexdump (cr_redeemScript cr),
      r_timeoutBlockheight = cr_timeoutBlockheight cr,
      r_onchainAmount = to_sat (cr_onchainAmount cr), r_lockedUp = False,
      r_lockupTxid = None, r_lockupOut = None, r_lockupConfirmedHeight = None,
      r_lockupClaimFees = None, r_comment = []\<rparr>"

definition setup_save :: "swap_setup \<Rightarrow> created \<Rightarrow> rsub list \<Rightarrow> setup_failure + rsub list" where
  "setup_save su cr db =
     (if list_ex (is_swap (su_label su) (cr_swapId cr)) db then Inl DuplicateId
      else Inr (db @ [setup_row su cr]))"

definition setup_core_run ::
  "crypto \<Rightarrow> signer \<Rightarrow> swap_setup \<Rightarrow> json option \<Rightarrow> rsub list \<Rightarrow> rsub list \<times> setup_failure option \<times> swap_info" where
  "setup_core_run C S su reply db =
     (let preimageHash = snd (setup_hash160 C S su);
          run = (case reply of
                   None \<Rightarrow> Inl ApiUnreachable
                 | Some res \<Rightarrow>
                     (case validate_createswap C S su res of
                        Inl f \<Rightarrow> Inl f
                      | Inr cr \<Rightarrow> (case setup_save su cr db of Inl f \<Rightarrow> Inl f | Inr db' \<Rightarrow> Inr (cr, db'))))
      in case run of
           Inl f \<Rightarrow> (db, Some f, \<lparr>si_invoice = [], si_hash = preimageHash, si_timeout = 0\<rparr>)
         | Inr (cr, db') \<Rightarrow>
             (db', None, \<lparr>si_invoice = cr_invoice cr, si_hash = preimageHash,
                          si_timeout = cr_timeoutBlockheight cr\<rparr>))"

subsection \<open>Claiming a lockup\<close>

datatype claim_end =
    NotInTable
  | AlreadyBroadcast
  | EmptyDestination
  | TimeoutTooNear
  | NotPayingLockscript
  | WrongAmount
  | BroadcastFailed
  | Threw exn

record claim_row =
  cl_tweak :: bytes
  cl_preimage :: preimage
  cl_destinationAddress :: string
  cl_redeemScript :: bytes
  cl_timeoutBlockheight :: u32
  cl_onchainAmount :: amount

definition fetch_row :: "crypto \<Rightarrow> rsub \<Rightarrow> claim_row result" where
  "fetch_row C r =
     rbind (privkey_of_string C (r_tweak r)) (\<lambda>tweak.
     rbind (preimage_of_string (r_preimage r)) (\<lambda>preimage.
     rbind (hexread (r_redeemScript r)) (\<lambda>script.
     Inr \<lparr>cl_tweak = tweak, cl_preimage = preimage, cl_destinationAddress = r_destinationAddress r,
          cl_redeemScript = script, cl_timeoutBlockheight = r_timeoutBlockheight r,
          cl_onchainAmount = amount_sat (r_onchainAmount r)\<rparr>)))"

fun fetch_rows :: "crypto \<Rightarrow> rsub \<Rightarrow> rsub list \<Rightarrow> claim_row result" where
  "fetch_rows C r [] = fetch_row C r"
| "fetch_rows C r (r' # rs) = rbind (fetch_row C r) (\<lambda>_. fetch_rows C r' rs)"

text \<open>The first transaction of \<open>core_run\<close>: read the row and check the lockup transaction.\<close>

definition claim_fetch ::
  "crypto \<Rightarrow> string \<Rightarrow> string \<Rightarrow> u32 \<Rightarrow> tx \<Rightarrow> rsub list \<Rightarrow> claim_end + claim_row \<times> nat" where
  "claim_fetch C label swapId blockheight lockup_tx db =
     (case filter (is_swap label swapId) db of
        [] \<Rightarrow> Inl NotInTable
      | r # rs \<Rightarrow>
          if r_lockedUp r then Inl AlreadyBroadcast
          else if r_destinationAddress r = [] then Inl EmptyDestination
          else case fetch_rows C r rs of
            Inl e \<Rightarrow> Inl (Threw e)
          | Inr d \<Rightarrow>
              if cl_timeoutBlockheight d \<le> blockheight + 10 then Inl TimeoutTooNear
              else let outnum = find_lockup_outnum (c_sha C) lockup_tx (cl_redeemScript d) in
                if outnum < 0 then Inl NotPayingLockscript
                else if tx_amount (outputs lockup_tx ! nat outnum) \<noteq> cl_onchainAmount d
                then Inl WrongAmount
                else Inr (d, nat outnum))"

definition claim_build ::
  "crypto \<Rightarrow> signer \<Rightarrow> u32 \<Rightarrow> u32 \<Rightarrow> tx \<Rightarrow> claim_row \<times> nat \<Rightarrow> (tx \<times> amount) result" where
  "claim_build C S feerate blockheight lockup_tx p =
     (let (d, lockupOut) = p in
      initial_claim_tx (c_sha C) (s_signature_tweak S (cl_tweak d)) default_tx feerate blockheight
        (get_txid (c_sha C) lockup_tx) (of_nat lockupOut) (cl_onchainAmount d)
        (real_preimage S (cl_preimage d)) (cl_redeemScript d) (cl_destinationAddress d))"

text \<open>The second transaction: record the claim.\<close>

definition claim_record ::
  "crypto \<Rightarrow> string \<Rightarrow> string \<Rightarrow> u32 \<Rightarrow> tx \<Rightarrow> nat \<Rightarrow> amount \<Rightarrow> rsub list \<Rightarrow> rsub list" where
  "claim_record C label swapId blockheight lockup_tx lockupOut fees db =
     map (\<lambda>r. if is_swap label swapId r
              then r\<lparr>r_lockedUp := True,
                     r_lockupTxid := Some (string_of_txid (get_txid (c_sha C) lockup_tx)),
                     r_lockupOut := Some lockupOut, r_lockupConfirmedHeight := Some blockheight,
                     r_lockupClaimFees := Some (to_sat fees)\<rparr>
              else r) db"

text \<open>The whole handler, run without interruption. The result is the table, the transaction
  given to \<open>broadcast_tx\<close> if any, and the early end if there was one.\<close>

definition claim_core_run ::
  "crypto \<Rightarrow> signer \<Rightarrow> string \<Rightarrow> string \<Rightarrow> u32 \<Rightarrow> tx \<Rightarrow> u32 \<Rightarrow> (tx \<Rightarrow> bool) \<Rightarrow> rsub list
   \<Rightarrow> rsub list \<times> tx option \<times> claim_end option" where
  "claim_core_run C S label swapId blockheight lockup_tx feerate broadcast_tx db =
     (case claim_fetch C label swapId blockheight lockup_tx db of
        Inl e \<Rightarrow> (db, None, Some e)
      | Inr (d, lockupOut) \<Rightarrow>
          (case claim_build C S feerate blockheight lockup_tx (d, lockupOut) of
             Inl e \<Rightarrow> (db, None, Some (Threw e))
           | Inr (claim_tx, fees) \<Rightarrow>
               if \<not> broadcast_tx claim_tx then (db, Some claim_tx, Some BroadcastFailed)
               else (claim_record C label swapId blockheight lockup_tx lockupOut fees db,
                     Some claim_tx, None)))"

subsection \<open>Service operations\<close>

definition delete_swap :: "string \<Rightarrow> string \<Rightarrow> rsub list \<Rightarrow> rsub list" where
  "delete_swap label swapId db = filter (\<lambda>r. \<not> is_swap label swapId r) db"

definition on_block_table :: "string \<Rightarrow> u32 \<Rightarrow> rsub list \<Rightarrow> rsub list \<times> string list" where
  "on_block_table label blockheight db =
     (let db' = filter (\<lambda>r. \<not> (r_apiAccess r = label \<and> r_timeoutBlockheight r \<le> blockheight)) db
      in (db', map r_swapId (filter (\<lambda>r. r_apiAccess r = label) db')))"

datatype swap_action =
    NoAction
  | LogOnly
  | SwapErrored
  | SwapFinished
  | SwapOnchain tx
  | ActionThrows exn

definition status_core :: "json \<Rightarrow> swap_action result" where
  "status_core sres =
     rbind (json_has sres ''error'') (\<lambda>err.
       if err then rbind (rbind (json_get sres ''error'') json_string) (\<lambda>_. Inr SwapErrored)
       else rbind (rbind (json_get sres ''status'') json_string) (\<lambda>status.
         if status = ''swap.created'' \<or> status = ''transaction.mempool'' then Inr NoAction
         else if status = ''transaction.failed'' \<or> status = ''transaction.refunded''
                 \<or> status = ''swap.expired'' then Inr SwapErrored
         else if status = ''invoice.settled'' then Inr SwapFinished
         else if status = ''transaction.confirmed'' then
           rbind (rbind (rbind (json_get sres ''transaction'') (\<lambda>t. json_get t ''hex'')) json_string) (\<lambda>txhex.
             rbind (tx_of_string txhex) (\<lambda>t. Inr (SwapOnchain t)))
         else Inr NoAction))"

definition status_action :: "json option \<Rightarrow> swap_action" where
  "status_action reply =
     (case reply of
        None \<Rightarrow> LogOnly
      | Some sres \<Rightarrow>
          (case status_core sres of
             Inr a \<Rightarrow> a
           | Inl JsonTypeError \<Rightarrow> LogOnly
           | Inl e \<Rightarrow> ActionThrows e))"

definition swap_on_block ::
  "crypto \<Rightarrow> signer \<Rightarrow> string \<Rightarrow> u32 \<Rightarrow> u32 \<Rightarrow> (tx \<Rightarrow> bool) \<Rightarrow> string \<Rightarrow> json option \<Rightarrow> rsub list
   \<Rightarrow> rsub list \<times> tx option" where
  "swap_on_block C S label blockheight feerate broadcast_tx swapId reply db =
     (case status_action reply of
        SwapErrored \<Rightarrow> (delete_swap label swapId db, None)
      | SwapFinished \<Rightarrow> (delete_swap label swapId db, None)
      | SwapOnchain t \<Rightarrow>
          (let (db', out, _) = claim_core_run C S label swapId blockheight t feerate broadcast_tx db
           in (db', out))
      | _ \<Rightarrow> (db, None))"

subsection \<open>Quotation\<close>

fun scan_strings :: "json \<Rightarrow> string \<Rightarrow> nat list \<Rightarrow> bool result" where
  "scan_strings arr needle [] = Inr False"
| "scan_strings arr needle (i # is) =
     rbind (json_at arr i) (\<lambda>x. if x = JStr needle then Inr True else scan_strings arr needle is)"

definition json_mentions :: "json \<Rightarrow> string \<Rightarrow> bool result" where
  "json_mentions arr needle = rbind (json_size arr) (\<lambda>n. scan_strings arr needle [0 ..< n])"

record pair_terms =
  pt_rate :: double
  pt_minimal :: amount
  pt_maximal :: amount
  pt_fee_percent :: double
  pt_fee_lockup :: amount

definition parse_pair :: "json \<Rightarrow> pair_terms result" where
  "parse_pair res =
     rbind (rbind (json_get res ''pairs'') (\<lambda>p. json_get p ''BTC/BTC'')) (\<lambda>pair.
     rbind (rbind (json_get pair ''rate'') json_double) (\<lambda>rate.
     rbind (rbind (rbind (json_get pair ''limits'') (\<lambda>l. json_get l ''minimal'')) json_double) (\<lambda>minimal.
     rbind (rbind (rbind (json_get pair ''limits'') (\<lambda>l. json_get l ''maximal'')) json_double) (\<lambda>maximal.
     rbind (rbind (rbind (json_get pair ''fees'') (\<lambda>f. json_get f ''percentage'')) json_double) (\<lambda>fee_percent.
     rbind (rbind (rbind (rbind (rbind (rbind (json_get pair ''fees'') (\<lambda>f. json_get f ''minerFees''))
              (\<lambda>f. json_get f ''baseAsset'')) (\<lambda>f. json_get f ''reverse'')) (\<lambda>f. json_get f ''lockup''))
              json_double) (\<lambda>fee_lockup.
     Inr \<lparr>pt_rate = rate, pt_minimal = amount_sat (of_int (trunc_double minimal)),
          pt_maximal = amount_sat (of_int (trunc_double maximal)), pt_fee_percent = fee_percent,
          pt_fee_lockup = amount_sat (of_int (trunc_double fee_lockup))\<rparr>))))))"

definition quote_fee :: "amount \<Rightarrow> pair_terms \<Rightarrow> amount" where
  "quote_fee offchainAmount pt =
     (let onchain0 = amount_div (amount_mul (amount_mul offchainAmount (pt_rate pt)) 100)
                       (fl (100 + pt_fee_percent pt));
          onchain1 = (if onchain0 > offchainAmount then offchainAmount else onchain0);
          onchain2 = (if onchain1 > pt_fee_lockup pt then onchain1 - pt_fee_lockup pt else amount_sat 0)
      in offchainAmount - onchain2)"

definition get_quotation :: "amount \<Rightarrow> json option \<Rightarrow> amount option" where
  "get_quotation offchainAmount reply =
     (case reply of
        None \<Rightarrow> None
      | Some res \<Rightarrow>
          (case rbind (json_get res ''info'') (\<lambda>i. json_mentions i ''prepay.minerfee'') of
             Inl _ \<Rightarrow> None
           | Inr True \<Rightarrow> None
           | Inr False \<Rightarrow>
               (case rbind (json_get res ''warnings'') (\<lambda>w. json_mentions w ''reverse.swaps.disabled'') of
                  Inl _ \<Rightarrow> None
                | Inr True \<Rightarrow> None
                | Inr False \<Rightarrow>
                    (case parse_pair res of
                       Inl _ \<Rightarrow> None
                     | Inr pt \<Rightarrow>
                         if pt_minimal pt > offchainAmount \<or> pt_maximal pt < offchainAmount then None
                         else Some (quote_fee offchainAmount pt)))))"

subsection \<open>What each operation does\<close>

lemma setup_core_run_failed:
  "setup_core_run C S su reply db = (db', Some f, info) \<Longrightarrow>
     db' = db \<and> si_invoice info = [] \<and> si_timeout info = 0"
  by (auto simp: setup_core_run_def Let_def split: sum.splits option.splits)

lemma setup_core_run_ok:
  assumes "setup_core_run C S su reply db = (db', None, info)"
  obtains res cr where "reply = Some res" "validate_createswap C S su res = Inr cr"
    "\<not> list_ex (is_swap (su_label su) (cr_swapId cr)) db" "db' = db @ [setup_row su cr]"
    "info = \<lparr>si_invoice = cr_invoice cr, si_hash = snd (setup_hash160 C S su),
             si_timeout = cr_timeoutBlockheight cr\<rparr>"
  using assms
  by (auto simp: setup_core_run_def Let_def setup_save_def split: sum.splits option.splits if_splits)

text \<open>The 20-byte hash that locks a swap with the stored preimage \<open>p\<close>.\<close>

definition lock_hash :: "crypto \<Rightarrow> signer \<Rightarrow> preimage \<Rightarrow> bytes" where
  "lock_hash C S p = c_ripemd C (c_sha C (preimage_to_buffer (real_preimage S p)))"

lemma setup_hash160_lock: "ripemd_to_buffer (fst (setup_hash160 C S su)) = lock_hash C S (su_preimage su)"
  by (simp add: setup_hash160_def hash160_def Let_def ripemd_to_buffer_def hash_to_buffer_def
      hash_from_buffer_def lock_hash_def)

definition swap_script_ok :: "crypto \<Rightarrow> signer \<Rightarrow> bytes \<Rightarrow> preimage \<Rightarrow> u32 \<Rightarrow> bytes \<Rightarrow> bool" where
  "swap_script_ok C S tweak p timeout script =
     (\<exists>theirs. script = lockscript (lock_hash C S p) (s_pubkey_tweak S tweak) timeout theirs
        \<and> length (lock_hash C S p) = 20 \<and> length (s_pubkey_tweak S tweak) = 33 \<and> length theirs = 33
        \<and> unat timeout < 2 ^ 24)"

lemma validate_createswap_ok:
  assumes "validate_createswap C S su res = Inr cr"
  shows "swap_script_ok C S (su_tweak su) (su_preimage su) (cr_timeoutBlockheight cr) (cr_redeemScript cr)"
    and "su_current_blockheight su + 12 \<le> cr_timeoutBlockheight cr"
    and "cr_timeoutBlockheight cr \<le> su_current_blockheight su + 288"
    and "\<not> amount_ratio_below (cr_onchainAmount cr) (su_offchainAmount su) (fl (9 / 10))"
  using assms
  by (auto simp: validate_createswap_def setup_hash160_lock match_lockscript_iff swap_script_ok_def
      min_timeout_def max_timeout_def not_less split: sum.splits if_splits option.splits) blast

lemma swap_script_length: "swap_script_ok C S tw p t script \<Longrightarrow> length script = 106"
  by (auto simp: swap_script_ok_def length_lockscript)

text \<open>A quotation, when one is given, deducts at least the lockup fee (or everything, if the
  amount does not cover it) and never more than the amount.\<close>

theorem quotation_bounds:
  assumes "get_quotation offchain (Some res) = Some fee" "parse_pair res = Inr pt"
  shows "min (pt_fee_lockup pt) offchain \<le> fee \<and> fee \<le> offchain
    \<and> pt_minimal pt \<le> offchain \<and> offchain \<le> pt_maximal pt"
proof -
  have fee: "fee = quote_fee offchain pt" "\<not> pt_minimal pt > offchain" "\<not> pt_maximal pt < offchain"
    using assms by (auto simp: get_quotation_def split: sum.splits bool.splits if_splits)
  have "min (pt_fee_lockup pt) offchain \<le> quote_fee offchain pt \<and> quote_fee offchain pt \<le> offchain"
    by (auto simp: quote_fee_def Let_def amount_order amount_sat_def min_def)
  with fee show ?thesis by (simp add: not_less)
qed

definition ex_pairs :: json where
  "ex_pairs = JObj [(''info'', JArr []), (''warnings'', JArr []),
     (''pairs'', JObj [(''BTC/BTC'', JObj [(''rate'', JNum 1),
        (''limits'', JObj [(''minimal'', JNum 10000), (''maximal'', JNum 10000000)]),
        (''fees'', JObj [(''percentage'', JNum 1), (''minerFees'', JObj [(''baseAsset'',
           JObj [(''reverse'', JObj [(''lockup'', JNum 500)])])])])])])]"

lemma ex_pairs_parse: "parse_pair ex_pairs = Inr \<lparr>pt_rate = 1, pt_minimal = amount_sat 10000,
    pt_maximal = amount_sat 10000000, pt_fee_percent = 1, pt_fee_lockup = amount_sat 500\<rparr>"
  by (simp add: parse_pair_def ex_pairs_def json_get_def json_double_def trunc_double_def)

lemma ex_pairs_quote: "\<exists>fee. get_quotation (amount_sat 100000) (Some ex_pairs) = Some fee"
proof -
  have "rbind (json_get ex_pairs ''info'') (\<lambda>i. json_mentions i ''prepay.minerfee'') = Inr False"
    "rbind (json_get ex_pairs ''warnings'') (\<lambda>w. json_mentions w ''reverse.swaps.disabled'') = Inr False"
    by (simp_all add: ex_pairs_def json_get_def json_mentions_def json_size_def)
  then show ?thesis
    by (simp add: get_quotation_def ex_pairs_parse amount_less_iff amount_sat_def)
qed

theorem quotation_bounds_witness:
  "\<exists>fee. get_quotation (amount_sat 100000) (Some ex_pairs) = Some fee
     \<and> amount_sat 500 \<le> fee \<and> fee \<le> amount_sat 100000"
proof -
  obtain fee where f: "get_quotation (amount_sat 100000) (Some ex_pairs) = Some fee"
    using ex_pairs_quote by blast
  have "min (amount_sat 500) (amount_sat 100000) = amount_sat 500"
    by (simp add: min_def amount_order amount_sat_def)
  with f quotation_bounds [OF f ex_pairs_parse] show ?thesis by simp
qed

end
