(* ===== verification/Boltz_Swaps.thy ===== *)
theory Boltz_Swaps
  imports Boltz_Service
begin

text \<open>
  The Boltz service as a state machine. Handlers of several swaps run as green threads, so the
  claim handler is cut where the source waits: reading the table, broadcasting, and recording the
  claim are separate steps with anything in between. The server's replies are arbitrary. The
  invariant follows the table's rows, the claims in flight and the transactions sent.
\<close>

record pending_claim =
  pc_label :: string
  pc_swapId :: string
  pc_blockheight :: u32
  pc_lockup :: tx
  pc_data :: claim_row
  pc_out :: nat

record svc =
  sv_db :: "rsub list"
  sv_pending :: "pending_claim list"
  sv_unrecorded :: "(pending_claim \<times> amount) list"
  sv_sent :: "(pending_claim \<times> tx) list"

definition svc_init :: svc where
  "svc_init = \<lparr>sv_db = [], sv_pending = [], sv_unrecorded = [], sv_sent = []\<rparr>"

definition setup_fresh :: "crypto \<Rightarrow> swap_setup \<Rightarrow> bool" where
  "setup_fresh C su =
     (length (su_tweak su) = 32 \<and> c_seckey_ok C (su_tweak su)
      \<and> preimage_impl (su_preimage su) \<noteq> None \<and> preimage_wf (su_preimage su))"

inductive svc_step :: "crypto \<Rightarrow> signer \<Rightarrow> svc \<Rightarrow> svc \<Rightarrow> bool" for C S where
  swap: "setup_fresh C su \<Longrightarrow> setup_core_run C S su reply (sv_db s) = (db', f, info) \<Longrightarrow>
    svc_step C S s (s\<lparr>sv_db := db'\<rparr>)"
| block: "on_block_table label blockheight (sv_db s) = (db', ids) \<Longrightarrow>
    svc_step C S s (s\<lparr>sv_db := db'\<rparr>)"
| dropped: "status_action reply = SwapErrored \<or> status_action reply = SwapFinished \<Longrightarrow>
    svc_step C S s (s\<lparr>sv_db := delete_swap label swapId (sv_db s)\<rparr>)"
| fetched: "status_action reply = SwapOnchain lockup \<Longrightarrow>
    claim_fetch C label swapId blockheight lockup (sv_db s) = Inr (d, n) \<Longrightarrow>
    svc_step C S s (s\<lparr>sv_pending := \<lparr>pc_label = label, pc_swapId = swapId, pc_blockheight = blockheight,
      pc_lockup = lockup, pc_data = d, pc_out = n\<rparr> # sv_pending s\<rparr>)"
| broadcast: "p \<in> set (sv_pending s) \<Longrightarrow>
    claim_build C S feerate (pc_blockheight p) (pc_lockup p) (pc_data p, pc_out p) = Inr (t, fees) \<Longrightarrow>
    svc_step C S s (s\<lparr>sv_pending := remove1 p (sv_pending s), sv_sent := (p, t) # sv_sent s,
      sv_unrecorded := (if ok then (p, fees) # sv_unrecorded s else sv_unrecorded s)\<rparr>)"
| recorded: "(p, fees) \<in> set (sv_unrecorded s) \<Longrightarrow>
    svc_step C S s (s\<lparr>sv_unrecorded := remove1 (p, fees) (sv_unrecorded s),
      sv_db := claim_record C (pc_label p) (pc_swapId p) (pc_blockheight p) (pc_lockup p) (pc_out p)
                 fees (sv_db s)\<rparr>)"

inductive_cases svc_step_cases: "svc_step C S s s'"

definition svc_reachable :: "crypto \<Rightarrow> signer \<Rightarrow> svc \<Rightarrow> bool" where
  "svc_reachable C S s = (svc_step C S)\<^sup>*\<^sup>* svc_init s"

subsection \<open>The invariant\<close>

definition swap_key :: "rsub \<Rightarrow> string \<times> string" where
  "swap_key r = (r_apiAccess r, r_swapId r)"

definition row_ok :: "crypto \<Rightarrow> signer \<Rightarrow> rsub \<Rightarrow> bool" where
  "row_ok C S r =
     (\<exists>tw p script. privkey_of_string C (r_tweak r) = Inr tw \<and> preimage_of_string (r_preimage r) = Inr p
        \<and> hexread (r_redeemScript r) = Inr script
        \<and> swap_script_ok C S tw p (r_timeoutBlockheight r) script)"

definition table_ok :: "crypto \<Rightarrow> signer \<Rightarrow> rsub list \<Rightarrow> bool" where
  "table_ok C S db = (distinct (map swap_key db) \<and> (\<forall>r \<in> set db. row_ok C S r))"

definition claim_sound :: "crypto \<Rightarrow> signer \<Rightarrow> pending_claim \<Rightarrow> bool" where
  "claim_sound C S p =
     (let d = pc_data p; out = outputs (pc_lockup p) ! pc_out p in
      swap_script_ok C S (cl_tweak d) (cl_preimage d) (cl_timeoutBlockheight d) (cl_redeemScript d)
      \<and> pc_blockheight p + 10 < cl_timeoutBlockheight d
      \<and> pc_out p < length (outputs (pc_lockup p))
      \<and> scriptPubKey out = p2wsh_script (c_sha C) (cl_redeemScript d)
      \<and> tx_amount out = cl_onchainAmount d)"

definition sent_sound :: "crypto \<Rightarrow> signer \<Rightarrow> pending_claim \<times> tx \<Rightarrow> bool" where
  "sent_sound C S pt =
     (claim_sound C S (fst pt) \<and>
      (\<exists>feerate fees. claim_build C S feerate (pc_blockheight (fst pt)) (pc_lockup (fst pt))
          (pc_data (fst pt), pc_out (fst pt)) = Inr (snd pt, fees)))"

definition svc_inv :: "crypto \<Rightarrow> signer \<Rightarrow> svc \<Rightarrow> bool" where
  "svc_inv C S s =
     (table_ok C S (sv_db s) \<and> list_all (claim_sound C S) (sv_pending s)
      \<and> list_all (sent_sound C S) (sv_sent s))"

lemma is_swap_key: "is_swap label swapId r \<longleftrightarrow> swap_key r = (label, swapId)"
  by (auto simp: is_swap_def swap_key_def)

lemma table_ok_filter: "table_ok C S db \<Longrightarrow> table_ok C S (filter P db)"
  by (auto simp: table_ok_def distinct_map_filter)

lemma setup_row_ok:
  assumes fresh: "setup_fresh C su" and v: "validate_createswap C S su res = Inr cr"
  shows "row_ok C S (setup_row su cr)"
proof -
  have tw: "privkey_of_string C (string_of_privkey (su_tweak su)) = Inr (su_tweak su)"
    using fresh by (simp add: privkey_of_string_def string_of_privkey_def setup_fresh_def)
  obtain p where p: "preimage_of_string (string_of_preimage (su_preimage su)) = Inr p"
    "preimage_to_buffer p = preimage_to_buffer (su_preimage su)"
    using fresh preimage.parse_show [of "su_preimage su"] by (auto simp: setup_fresh_def)
  have "lock_hash C S p = lock_hash C S (su_preimage su)"
    by (simp add: lock_hash_def real_preimage_def compute_preimage_def p(2))
  then show ?thesis
    using tw p(1) validate_createswap_ok(1) [OF v]
    by (auto simp: row_ok_def setup_row_def swap_script_ok_def)
qed

lemma setup_table_ok:
  assumes "table_ok C S db" "setup_fresh C su" "setup_core_run C S su reply db = (db', f, info)"
  shows "table_ok C S db'"
proof (cases f)
  case None
  with assms obtain res cr where v: "validate_createswap C S su res = Inr cr"
    and n: "\<not> list_ex (is_swap (su_label su) (cr_swapId cr)) db" and db': "db' = db @ [setup_row su cr]"
    by (auto elim: setup_core_run_ok)
  have "swap_key (setup_row su cr) \<notin> swap_key ` set db"
    using n by (auto simp: list_ex_iff is_swap_key swap_key_def setup_row_def)
  then show ?thesis using assms(1,2) setup_row_ok [OF assms(2) v] by (simp add: table_ok_def db')
qed (use assms setup_core_run_failed in blast)

lemma row_ok_claimed:
  "row_ok C S (r\<lparr>r_lockedUp := a, r_lockupTxid := b, r_lockupOut := c,
      r_lockupConfirmedHeight := d, r_lockupClaimFees := e\<rparr>) = row_ok C S r"
  by (simp add: row_ok_def)

lemma claim_record_keys: "map swap_key (claim_record C l i bh t n fees db) = map swap_key db"
  by (simp add: claim_record_def swap_key_def)

lemma claim_record_table_ok:
  assumes "table_ok C S db"
  shows "table_ok C S (claim_record C' l i bh t n fees db)"
proof -
  have "\<forall>r \<in> set (claim_record C' l i bh t n fees db). row_ok C S r"
    using assms by (auto simp: table_ok_def claim_record_def row_ok_claimed)
  then show ?thesis using assms by (simp only: table_ok_def claim_record_keys)
qed

lemma unique_row:
  assumes "distinct (map swap_key db)" "filter (is_swap label swapId) db = r # rs"
  shows "rs = []"
proof (rule ccontr)
  assume "rs \<noteq> []"
  then obtain r' rs' where rs: "rs = r' # rs'" by (cases rs) auto
  have "distinct (map swap_key (r # rs))"
    using distinct_map_filter [OF assms(1), of "is_swap label swapId"] assms(2) by simp
  moreover have "set (r # rs) \<subseteq> {x. is_swap label swapId x}"
    using arg_cong [OF assms(2), of set] by auto
  ultimately show False using rs by (auto simp: is_swap_key)
qed

lemma claim_fetch_sound:
  assumes t: "table_ok C S db"
    and f: "claim_fetch C label swapId bh lockup db = Inr (d, n)"
  shows "claim_sound C S \<lparr>pc_label = label, pc_swapId = swapId, pc_blockheight = bh,
      pc_lockup = lockup, pc_data = d, pc_out = n\<rparr>"
proof -
  obtain r rs where r: "filter (is_swap label swapId) db = r # rs"
    using f by (cases "filter (is_swap label swapId) db") (auto simp: claim_fetch_def)
  have "rs = []" using unique_row [OF _ r] t by (simp add: table_ok_def)
  with f r have fr: "fetch_row C r = Inr d" and h: "bh + 10 < cl_timeoutBlockheight d"
    and o: "\<not> find_lockup_outnum (c_sha C) lockup (cl_redeemScript d) < 0"
      "n = nat (find_lockup_outnum (c_sha C) lockup (cl_redeemScript d))"
      "tx_amount (outputs lockup ! n) = cl_onchainAmount d"
    by (auto simp: claim_fetch_def Let_def not_le split: if_splits sum.splits)
  have "r \<in> set db" using arg_cong [OF r, of set] by auto
  then have "row_ok C S r" using t by (simp add: table_ok_def)
  then have "swap_script_ok C S (cl_tweak d) (cl_preimage d) (cl_timeoutBlockheight d) (cl_redeemScript d)"
    using fr by (auto simp: row_ok_def fetch_row_def)
  then show ?thesis
    using h o find_lockup_outnum_nonneg [of "c_sha C" lockup "cl_redeemScript d" n]
    by (simp add: claim_sound_def Let_def)
qed

lemma svc_inv_init: "svc_inv C S svc_init"
  by (simp add: svc_inv_def svc_init_def table_ok_def)

lemma svc_inv_step: "svc_step C S s s' \<Longrightarrow> svc_inv C S s \<Longrightarrow> svc_inv C S s'"
proof (induction rule: svc_step.induct)
  case (swap su reply s db' f info)
  then show ?case using setup_table_ok [of C S "sv_db s" su] by (simp add: svc_inv_def)
next
  case (block label blockheight s db' ids)
  then show ?case by (auto simp: svc_inv_def on_block_table_def Let_def table_ok_filter)
next
  case (dropped reply s label swapId)
  then show ?case by (simp add: svc_inv_def delete_swap_def table_ok_filter)
next
  case (fetched reply lockup label swapId blockheight s d n)
  then show ?case using claim_fetch_sound [of C S "sv_db s"] by (simp add: svc_inv_def)
next
  case (broadcast p s feerate t fees ok)
  then have "claim_sound C S p" by (auto simp: svc_inv_def list_all_iff)
  then have "sent_sound C S (p, t)" using broadcast by (auto simp: sent_sound_def)
  then show ?case
    using broadcast by (auto simp: svc_inv_def list_all_iff dest: notin_set_remove1 set_remove1_subset [THEN subsetD])
next
  case (recorded p fees s)
  then show ?case by (simp add: svc_inv_def claim_record_table_ok)
qed

lemma svc_inv_reachable: "svc_reachable C S s \<Longrightarrow> svc_inv C S s"
  unfolding svc_reachable_def
  by (induction rule: rtranclp_induct) (auto intro: svc_inv_init svc_inv_step)

subsection \<open>Properties\<close>

text \<open>C32: Setting up a swap only succeeds on a redeem script that is the lock script for our
  hash, our key and the announced timeout, with the timeout 12 to 288 blocks ahead and at least
  90% of the amount paid out; then exactly one new row is added. In every other case the table is
  unchanged and no invoice is returned.\<close>

theorem swap_setup_validates:
  "case setup_core_run C S su reply db of
     (db', Some f, info) \<Rightarrow> db' = db \<and> si_invoice info = [] \<and> si_timeout info = 0
   | (db', None, info) \<Rightarrow>
       (\<exists>cr. db' = db @ [setup_row su cr] \<and> si_invoice info = cr_invoice cr
          \<and> si_timeout info = cr_timeoutBlockheight cr
          \<and> swap_script_ok C S (su_tweak su) (su_preimage su) (cr_timeoutBlockheight cr) (cr_redeemScript cr)
          \<and> su_current_blockheight su + 12 \<le> cr_timeoutBlockheight cr
          \<and> cr_timeoutBlockheight cr \<le> su_current_blockheight su + 288
          \<and> \<not> amount_ratio_below (cr_onchainAmount cr) (su_offchainAmount su) (fl (9 / 10))
          \<and> \<not> list_ex (is_swap (su_label su) (cr_swapId cr)) db)"
proof -
  obtain db' f info where run: "setup_core_run C S su reply db = (db', f, info)" by (metis prod_cases3)
  show ?thesis
  proof (cases f)
    case None
    with run have "setup_core_run C S su reply db = (db', None, info)" by simp
    then obtain res cr where *: "reply = Some res" "validate_createswap C S su res = Inr cr"
      "\<not> list_ex (is_swap (su_label su) (cr_swapId cr)) db" "db' = db @ [setup_row su cr]"
      "info = \<lparr>si_invoice = cr_invoice cr, si_hash = snd (setup_hash160 C S su),
               si_timeout = cr_timeoutBlockheight cr\<rparr>"
      by (rule setup_core_run_ok)
    show ?thesis unfolding run None using *(3-5) validate_createswap_ok [OF *(2)] by auto
  qed (use run setup_core_run_failed in fastforce)
qed

lemma claim_core_run_claimed:
  assumes "claim_core_run C S label swapId bh lockup fr bc db = (db', Some t, None)"
  obtains d n fees where "claim_fetch C label swapId bh lockup db = Inr (d, n)"
    "db' = claim_record C label swapId bh lockup n fees db"
  using assms by (auto simp: claim_core_run_def split: sum.splits if_splits)

text \<open>C34: Once the claim of a swap has been broadcast and recorded, running the claim handler on it
  again, for any block and lockup transaction, broadcasts nothing and changes nothing.\<close>

theorem claim_broadcast_once:
  assumes "claim_core_run C S label swapId bh lockup fr bc db = (db', Some t, None)"
  shows "claim_core_run C S label swapId bh' lockup' fr' bc' db' = (db', None, Some AlreadyBroadcast)"
proof -
  obtain d n fees where f: "claim_fetch C label swapId bh lockup db = Inr (d, n)"
    and db': "db' = claim_record C label swapId bh lockup n fees db"
    using assms by (rule claim_core_run_claimed)
  let ?g = "\<lambda>r. r\<lparr>r_lockedUp := True,
      r_lockupTxid := Some (string_of_txid (get_txid (c_sha C) lockup)),
      r_lockupOut := Some n, r_lockupConfirmedHeight := Some bh, r_lockupClaimFees := Some (to_sat fees)\<rparr>"
  have "filter (is_swap label swapId) db' = map ?g (filter (is_swap label swapId) db)"
    unfolding db' claim_record_def by (induction db) (auto simp: is_swap_def)
  moreover have "filter (is_swap label swapId) db \<noteq> []" using f by (auto simp: claim_fetch_def)
  ultimately obtain r rs where "filter (is_swap label swapId) db' = r # rs" "r_lockedUp r"
    by (cases "filter (is_swap label swapId) db") auto
  then show ?thesis by (simp add: claim_core_run_def claim_fetch_def)
qed

text \<open>C1: Whatever the server answers and however the handlers of several swaps interleave, every
  transaction the service broadcasts spends an output of the lockup transaction that pays to the
  hash of the lock script for our own key and our own preimage, reveals that preimage and is signed
  for that output's amount. The claim was begun in time: the height at which its row was checked,
  plus ten in the 32-bit arithmetic of the code, was below the timeout after which the server can
  take the output back. The feerate is asked for between that check and the broadcast, and blocks
  that arrive meanwhile are not looked at again.\<close>

theorem swap_claims_safe:
  assumes "svc_reachable C S s" "(p, t) \<in> set (sv_sent s)"
  shows "\<exists>tw pre timeout theirs h n script.
    script = lockscript (c_ripemd C (c_sha C (preimage_to_buffer pre))) (s_pubkey_tweak S tw) timeout theirs
    \<and> n < length (outputs (pc_lockup p))
    \<and> scriptPubKey (outputs (pc_lockup p) ! n) = p2wsh_script (c_sha C) script
    \<and> inputs t = [\<lparr>prevTxid = get_txid (c_sha C) (pc_lockup p), prevOut = of_nat n, scriptSig = [],
                   nSequence = 0xFFFFFFFF,
                   witness = [s_signature_tweak S tw h @ [1], preimage_to_buffer pre, script]\<rparr>]
    \<and> sighash (c_sha C) t SIGHASH_ALL 0 (tx_amount (outputs (pc_lockup p) ! n)) (script_code script) = Inr h
    \<and> pc_blockheight p + 10 < timeout"
proof -
  have "sent_sound C S (p, t)"
    using svc_inv_reachable [OF assms(1)] assms(2) by (auto simp: svc_inv_def list_all_iff)
  then obtain feerate fees where c: "claim_sound C S p"
    and b: "claim_build C S feerate (pc_blockheight p) (pc_lockup p) (pc_data p, pc_out p) = Inr (t, fees)"
    by (auto simp: sent_sound_def)
  let ?d = "pc_data p"
  let ?out = "outputs (pc_lockup p) ! pc_out p"
  from c obtain theirs where
    s: "cl_redeemScript ?d = lockscript (lock_hash C S (cl_preimage ?d)) (s_pubkey_tweak S (cl_tweak ?d))
      (cl_timeoutBlockheight ?d) theirs"
    and o: "pc_out p < length (outputs (pc_lockup p))"
      "scriptPubKey ?out = p2wsh_script (c_sha C) (cl_redeemScript ?d)"
      "tx_amount ?out = cl_onchainAmount ?d" "pc_blockheight p + 10 < cl_timeoutBlockheight ?d"
    by (auto simp: claim_sound_def swap_script_ok_def Let_def)
  from b obtain h where
    h: "sighash (c_sha C) t SIGHASH_ALL 0 (cl_onchainAmount ?d) (script_code (cl_redeemScript ?d)) = Inr h"
    "inputs t = [\<lparr>prevTxid = get_txid (c_sha C) (pc_lockup p), prevOut = of_nat (pc_out p), scriptSig = [],
       nSequence = 0xFFFFFFFF, witness = [s_signature_tweak S (cl_tweak ?d) h @ [1],
         preimage_to_buffer (real_preimage S (cl_preimage ?d)), cl_redeemScript ?d]\<rparr>]"
    by (auto simp: claim_build_def elim: claim_signed)
  show ?thesis
    using s o h unfolding lock_hash_def by metis
qed

text \<open>C36: The table never holds two rows for the same swap of the same service, and each row holds
  a key and a preimage that can be read back and the lock script that goes with them.\<close>

theorem swap_table_invariant:
  assumes "svc_reachable C S s"
  shows "distinct (map swap_key (sv_db s)) \<and> (\<forall>r \<in> set (sv_db s). row_ok C S r)"
  using svc_inv_reachable [OF assms] by (simp add: svc_inv_def table_ok_def)

subsection \<open>A run\<close>

definition ex_crypto :: crypto where
  "ex_crypto = \<lparr>c_sha = (\<lambda>_. replicate 32 0), c_ripemd = (\<lambda>_. replicate 20 0),
     c_pubkey_ok = (\<lambda>_. True), c_seckey_ok = (\<lambda>_. True)\<rparr>"

definition ex_signer :: signer where
  "ex_signer = \<lparr>s_pubkey_tweak = (\<lambda>_. replicate 33 2), s_signature_tweak = (\<lambda>_ _. [0x30]),
     s_salted_hash = (\<lambda>_. hash_from_buffer (replicate 32 0))\<rparr>"

definition ex_script :: bytes where
  "ex_script = lockscript (replicate 20 0) (replicate 33 2) 700100 (replicate 33 3)"

definition ex_addr :: string where
  "ex_addr = encode_addr ''bc'' 0 (replicate 20 0) ''qqqqqq''"

definition ex_setup :: swap_setup where
  "ex_setup = \<lparr>su_label = ''boltz'', su_destinationAddress = ex_addr,
     su_offchainAmount = amount_sat 1000000, su_current_blockheight = 700000,
     su_tweak = replicate 32 1, su_preimage = Preimage (Some (replicate 32 7))\<rparr>"

definition ex_reply :: json where
  "ex_reply = JObj [(''id'', JStr ''swap1''), (''redeemScript'', JStr (hexdump ex_script)),
     (''invoice'', JStr ''lnbc1''), (''timeoutBlockHeight'', JNum 700100), (''onchainAmount'', JNum 990000)]"

definition ex_created :: created where
  "ex_created = \<lparr>cr_swapId = ''swap1'', cr_redeemScript = ex_script, cr_timeoutBlockheight = 700100,
     cr_onchainAmount = amount_sat 990000, cr_invoice = ''lnbc1''\<rparr>"

definition ex_lockup :: tx where
  "ex_lockup = \<lparr>nVersion = 2,
     inputs = [\<lparr>prevTxid = TxId (hash_from_buffer (replicate 32 5)), prevOut = 0, scriptSig = [],
                nSequence = 0, witness = []\<rparr>],
     outputs = [\<lparr>tx_amount = amount_sat 990000, scriptPubKey = p2wsh_script (c_sha ex_crypto) ex_script\<rparr>],
     nLockTime = 0\<rparr>"

definition ex_status :: json where
  "ex_status = JObj [(''status'', JStr ''transaction.confirmed''),
     (''transaction'', JObj [(''hex'', JStr (string_of_tx ex_lockup))])]"

lemma ex_match: "match_lockscript vp ex_script = Some (replicate 20 0, replicate 33 2, 700100, replicate 33 3)
  \<longleftrightarrow> vp (replicate 33 2) \<and> vp (replicate 33 3)"
  by (auto simp: match_lockscript_iff ex_script_def)

lemma ex_parse: "parse_createswap ex_reply = Inr (''swap1'', hexdump ex_script, ''lnbc1'', 700100, 990000)"
  by (simp add: parse_createswap_def ex_reply_def json_get_def json_string_def json_double_def trunc_double_def)

lemma ex_ratio: "\<not> amount_ratio_below (amount_sat 990000) (amount_sat 1000000) (fl (9 / 10))"
proof -
  have "double_of_u64 (to_msat (amount_sat 990000)) = 990000000"
    "double_of_u64 (to_msat (amount_sat 1000000)) = 1000000000"
    by (simp_all add: double_of_u64_small amount_sat_def)
  moreover have "\<not> fl (99 / 100) < fl (9 / 10)" by code_simp
  ultimately show ?thesis by (simp add: amount_ratio_below_def amount_ratio_def)
qed

lemma ex_lock_hash: "lock_hash ex_crypto S p = replicate 20 0"
  by (simp add: lock_hash_def ex_crypto_def)

lemma ex_validate: "validate_createswap ex_crypto ex_signer ex_setup ex_reply = Inr ex_created"
proof -
  have m: "match_lockscript (c_pubkey_ok ex_crypto) ex_script
      = Some (replicate 20 0, replicate 33 2, 700100, replicate 33 3)"
    unfolding ex_match by (simp add: ex_crypto_def)
  have h: "ishex (hexdump ex_script)" using hexread_ok_iff_ishex [of "hexdump ex_script"] by simp
  show ?thesis
    using ex_ratio
    by (simp add: validate_createswap_def ex_parse h m setup_hash160_lock ex_lock_hash ex_created_def
        min_timeout_def max_timeout_def ex_setup_def ex_signer_def)
qed

abbreviation ex_table :: "rsub list" where
  "ex_table \<equiv> [setup_row ex_setup ex_created]"

lemma ex_setup_run: "setup_core_run ex_crypto ex_signer ex_setup (Some ex_reply) [] =
  (ex_table, None, \<lparr>si_invoice = ''lnbc1'', si_hash = snd (setup_hash160 ex_crypto ex_signer ex_setup),
     si_timeout = 700100\<rparr>)"
  by (simp add: setup_core_run_def ex_validate setup_save_def ex_created_def)

lemma ex_tx_ok: "tx_ok ex_lockup"
  by (simp add: tx_ok_def ex_lockup_def tx_in_ok_def txid_ok_def hash_from_buffer_def witness_ok_def
      small_bytes_def tx_out_ok_def whole_sats_def p2wsh_script_def ex_crypto_def amount_sat_def)

lemma ex_status_action: "status_action (Some ex_status) = SwapOnchain ex_lockup"
  by (simp add: status_action_def status_core_def ex_status_def json_has_def json_get_def
      json_string_def tx_of_string_printed ex_tx_ok)

definition ex_row :: claim_row where
  "ex_row = \<lparr>cl_tweak = replicate 32 1, cl_preimage = Preimage (Some (replicate 32 7)),
     cl_destinationAddress = ex_addr, cl_redeemScript = ex_script, cl_timeoutBlockheight = 700100,
     cl_onchainAmount = amount_sat 990000\<rparr>"

lemma ex_fetch_row: "fetch_row ex_crypto (setup_row ex_setup ex_created) = Inr ex_row"
  by (simp add: fetch_row_def setup_row_def ex_setup_def ex_created_def privkey_of_string_def
      string_of_privkey_def ex_crypto_def preimage_of_string_def string_of_preimage_def ex_row_def
      to_sat_sat)

lemma ex_fetch: "claim_fetch ex_crypto ''boltz'' ''swap1'' 700010 ex_lockup ex_table = Inr (ex_row, 0)"
proof -
  have "is_swap ''boltz'' ''swap1'' (setup_row ex_setup ex_created)"
    "\<not> r_lockedUp (setup_row ex_setup ex_created)"
    "r_destinationAddress (setup_row ex_setup ex_created) = ex_addr"
    by (simp_all add: is_swap_def setup_row_def ex_setup_def ex_created_def)
  moreover have "ex_addr \<noteq> []" by (simp add: ex_addr_def encode_addr_def)
  moreover have "find_lockup_outnum (c_sha ex_crypto) ex_lockup ex_script = 0"
    by (simp add: find_lockup_outnum_def ex_lockup_def)
  ultimately show ?thesis
    by (simp add: claim_fetch_def ex_fetch_row Let_def) (simp add: ex_row_def ex_lockup_def)
qed

lemma ex_spk: "addr_to_scriptPubKey ex_addr = Inr (0 # 20 # replicate 20 0)"
  unfolding ex_addr_def
  by (subst addr_to_scriptPubKey_encode) (simp_all add: valid_program_def)

lemma ex_build: "\<exists>t fees. claim_build ex_crypto ex_signer 253 700010 ex_lockup (ex_row, 0) = Inr (t, fees)"
  using initial_claim_tx_total [OF ex_spk]
  by (simp add: claim_build_def ex_row_def)

lemma ex_claim: "\<exists>db' t. claim_core_run ex_crypto ex_signer ''boltz'' ''swap1'' 700010 ex_lockup 253
    (\<lambda>_. True) ex_table = (db', Some t, None)"
  using ex_build by (auto simp: claim_core_run_def ex_fetch)

theorem claim_broadcast_once_witness:
  "\<exists>db'. claim_core_run ex_crypto ex_signer ''boltz'' ''swap1'' 700011 ex_lockup 253 (\<lambda>_. True) db'
     = (db', None, Some AlreadyBroadcast)"
  using ex_claim claim_broadcast_once by blast

definition ex_pending :: pending_claim where
  "ex_pending = \<lparr>pc_label = ''boltz'', pc_swapId = ''swap1'', pc_blockheight = 700010,
     pc_lockup = ex_lockup, pc_data = ex_row, pc_out = 0\<rparr>"

lemma ex_reachable_table: "svc_reachable ex_crypto ex_signer (svc_init\<lparr>sv_db := ex_table\<rparr>)"
proof -
  have "setup_fresh ex_crypto ex_setup"
    by (simp add: setup_fresh_def ex_setup_def ex_crypto_def preimage_wf_def)
  moreover have "setup_core_run ex_crypto ex_signer ex_setup (Some ex_reply) (sv_db svc_init) = (ex_table, None,
      \<lparr>si_invoice = ''lnbc1'', si_hash = snd (setup_hash160 ex_crypto ex_signer ex_setup), si_timeout = 700100\<rparr>)"
    using ex_setup_run by (simp add: svc_init_def)
  ultimately show ?thesis
    unfolding svc_reachable_def by (intro r_into_rtranclp svc_step.swap)
qed

lemma ex_reachable_sent:
  "\<exists>s t. svc_reachable ex_crypto ex_signer s \<and> (ex_pending, t) \<in> set (sv_sent s)"
proof -
  let ?s1 = "svc_init\<lparr>sv_db := ex_table\<rparr>"
  let ?s2 = "?s1\<lparr>sv_pending := ex_pending # sv_pending ?s1\<rparr>"
  obtain t fees where b: "claim_build ex_crypto ex_signer 253 700010 ex_lockup (ex_row, 0) = Inr (t, fees)"
    using ex_build by blast
  have "svc_step ex_crypto ex_signer ?s1 ?s2"
    unfolding ex_pending_def by (rule svc_step.fetched [OF ex_status_action]) (simp add: ex_fetch)
  then have s2: "svc_reachable ex_crypto ex_signer ?s2"
    using ex_reachable_table unfolding svc_reachable_def by (rule rtranclp.rtrancl_into_rtrancl [rotated])
  have "claim_build ex_crypto ex_signer 253 (pc_blockheight ex_pending) (pc_lockup ex_pending)
      (pc_data ex_pending, pc_out ex_pending) = Inr (t, fees)"
    using b by (simp add: ex_pending_def)
  from svc_step.broadcast [OF _ this, of ?s2 True]
  have "\<exists>s3. svc_step ex_crypto ex_signer ?s2 s3 \<and> (ex_pending, t) \<in> set (sv_sent s3)" by fastforce
  then show ?thesis using s2 unfolding svc_reachable_def by (meson rtranclp.rtrancl_into_rtrancl)
qed

theorem swap_claims_safe_witness:
  "\<exists>(t :: tx) tw pre timeout theirs h n script.
    script = lockscript (c_ripemd ex_crypto (c_sha ex_crypto (preimage_to_buffer pre)))
      (s_pubkey_tweak ex_signer tw) timeout theirs
    \<and> inputs t = [\<lparr>prevTxid = get_txid (c_sha ex_crypto) ex_lockup, prevOut = of_nat n, scriptSig = [],
                   nSequence = 0xFFFFFFFF,
                   witness = [s_signature_tweak ex_signer tw h @ [1], preimage_to_buffer pre, script]\<rparr>]
    \<and> 700010 + 10 < timeout"
proof -
  obtain s t where "svc_reachable ex_crypto ex_signer s" "(ex_pending, t) \<in> set (sv_sent s)"
    using ex_reachable_sent by blast
  from swap_claims_safe [OF this] obtain tw pre timeout theirs h n script where
    "script = lockscript (c_ripemd ex_crypto (c_sha ex_crypto (preimage_to_buffer pre)))
      (s_pubkey_tweak ex_signer tw) timeout theirs"
    "inputs t = [\<lparr>prevTxid = get_txid (c_sha ex_crypto) ex_lockup, prevOut = of_nat n, scriptSig = [],
       nSequence = 0xFFFFFFFF,
       witness = [s_signature_tweak ex_signer tw h @ [1], preimage_to_buffer pre, script]\<rparr>]"
    "700010 + 10 < timeout"
    unfolding ex_pending_def pending_claim.select_convs by (elim exE conjE)
  then show ?thesis by blast
qed

theorem swap_table_invariant_witness:
  "row_ok ex_crypto ex_signer (setup_row ex_setup ex_created)"
  using swap_table_invariant [OF ex_reachable_table] by simp

end
