(* ===== verification/Net_Address.thy ===== *)
theory Net_Address
  imports Ln_Ids Jsmn_Object
begin

unbundle bit_operations_syntax

text \<open>
  Node addresses and the bins the channel creator sorts nodes into: \<open>src/Net/IPAddrOrOnion.cpp\<close>,
  \<open>src/Net/IPBinnerBySubnet.cpp\<close>, \<open>src/Net/get_bin_of_onion.cpp\<close>,
  \<open>src/Boss/Mod/ChannelCreator/NodeAddress.cpp\<close>, \<open>Manager::get_node_addr\<close> and
  \<open>Reprioritizer::Run::get_bin_of\<close>. The system's \<open>inet_pton\<close> for the two address families is the
  parameters \<open>pton4\<close> and \<open>pton6\<close>; SHA-256 and the signer's salted hash are parameters too.
\<close>

subsection \<open>Addresses\<close>

datatype net_addr = IPv4 bytes | IPv6 bytes | Onion string

type_synonym pton = "string \<Rightarrow> bytes option"

definition is_dot_onion :: "string \<Rightarrow> bool" where
  "is_dot_onion s = (if length s < 6 then False else drop (length s - 6) s = ''.onion'')"

definition addr_of_string :: "pton \<Rightarrow> pton \<Rightarrow> string \<Rightarrow> net_addr result" where
  "addr_of_string pton4 pton6 s =
     (if is_dot_onion s then Inr (Onion s)
      else case pton4 s of
        Some d \<Rightarrow> Inr (IPv4 d)
      | None \<Rightarrow> (case pton6 s of Some d \<Rightarrow> Inr (IPv6 d) | None \<Rightarrow> Inl (IPAddrInvalid s)))"

text \<open>The first entry of a type that can be binned; the entries before it are skipped.\<close>

fun address_loop :: "pton \<Rightarrow> pton \<Rightarrow> json list \<Rightarrow> net_addr option result" where
  "address_loop pton4 pton6 [] = Inr None"
| "address_loop pton4 pton6 (addr_j # js) =
     rbind (rbind (json_get addr_j ''type'') json_string) (\<lambda>ty.
       if ty \<noteq> ''ipv4'' \<and> ty \<noteq> ''ipv6'' \<and> ty \<noteq> ''torv2'' \<and> ty \<noteq> ''torv3''
       then address_loop pton4 pton6 js
       else rbind (json_has addr_j ''address'') (\<lambda>h.
         if \<not> h then Inl (RuntimeError ''listnodes: address missing'')
         else rbind (rbind (json_get addr_j ''address'') json_string) (\<lambda>s.
              rbind (addr_of_string pton4 pton6 s) (\<lambda>a. Inr (Some a)))))"

definition node_address :: "pton \<Rightarrow> pton \<Rightarrow> json \<Rightarrow> net_addr option result" where
  "node_address pton4 pton6 res =
     rbind (json_get res ''nodes'') (\<lambda>nodes.
       case nodes of
         JArr [] \<Rightarrow> Inr None
       | JArr (node # _) \<Rightarrow>
           rbind (json_has node ''addresses'') (\<lambda>h.
             if \<not> h then Inr None
             else rbind (json_get node ''addresses'') (\<lambda>addrs.
               case addrs of
                 JArr js \<Rightarrow> address_loop pton4 pton6 js
               | _ \<Rightarrow> Inl (RuntimeError ''listnodes: addresses is not an array'')))
       | _ \<Rightarrow> Inl (RuntimeError ''listnodes: nodes is not an array''))"

text \<open>A reply of the wrong shape is logged and counts as no address; an RPC error (\<open>None\<close>) is
  thrown on. The first argument is whether the pointer to the RPC interface is set.\<close>

definition get_node_addr :: "bool \<Rightarrow> pton \<Rightarrow> pton \<Rightarrow> json option \<Rightarrow> net_addr option result" where
  "get_node_addr rpc pton4 pton6 reply =
     (if \<not> rpc then Inl AssertFailed
      else case reply of
        None \<Rightarrow> Inl RpcError
      | Some res \<Rightarrow> (case node_address pton4 pton6 res of Inr a \<Rightarrow> Inr a | Inl _ \<Rightarrow> Inr None))"

subsection \<open>Bins\<close>

fun subnet_bin :: "bytes \<Rightarrow> nat \<Rightarrow> u64 \<Rightarrow> u64" where
  "subnet_bin data 0 rv = rv"
| "subnet_bin data (Suc k) rv =
     (case data of
        [] \<Rightarrow> subnet_bin [] k (push_bit 8 rv)
      | b # r \<Rightarrow> subnet_bin r k (push_bit 8 rv + ucast b))"

definition ip_bin :: "net_addr \<Rightarrow> u64" where
  "ip_bin a = (case a of IPv4 data \<Rightarrow> subnet_bin data 2 0 | IPv6 data \<Rightarrow> subnet_bin data 3 0 | Onion _ \<Rightarrow> 0)"

definition get_bin_of_onion :: "(bytes \<Rightarrow> bytes) \<Rightarrow> (bytes \<Rightarrow> bytes) \<Rightarrow> string \<Rightarrow> u64" where
  "get_bin_of_onion sha tweak_hash onion =
     0xFFFFFFFFFFFFFFFC + ucast ((tweak_hash (sha (map byte_of_char onion)) ! 0) AND 3)"

definition get_bin_of ::
  "(bytes \<Rightarrow> bytes) \<Rightarrow> (bytes \<Rightarrow> sha256_hash) \<Rightarrow> net_addr option \<Rightarrow> u64" where
  "get_bin_of sha salted_hash paddr =
     (case paddr of
        None \<Rightarrow> 0
      | Some (Onion s) \<Rightarrow> get_bin_of_onion sha (\<lambda>d. hash_to_buffer (salted_hash d)) s
      | Some a \<Rightarrow> ip_bin a)"

subsection \<open>Lemmas\<close>

lemma unat_byte_less: "unat (b :: u8) < 256"
  using unsigned_less [of b] by simp

lemma unat_ucast_byte: "unat (ucast (b :: u8) :: u64) = unat b"
  using unat_byte_less [of b] by (simp add: unsigned_ucast_eq take_bit_nat_eq_self)

text \<open>The bytes are read as a big-endian number, as long as they fit the 64 bits.\<close>

lemma unat_shift_byte:
  assumes "unat (w :: u64) < 2 ^ 40"
  shows "unat (push_bit 8 w + ucast (b :: u8)) = 256 * unat w + unat b"
proof -
  have "unat (push_bit 8 w) = 256 * unat w"
    using assms by (simp add: unat_word_ariths push_bit_eq_mult)
  then show ?thesis
    using assms unat_byte_less [of b] by (simp add: unat_word_ariths unat_ucast_byte)
qed

lemma unat_two_bytes: "unat (push_bit 8 (ucast b) + ucast c :: u64) = 256 * unat (b :: u8) + unat (c :: u8)"
proof -
  have "unat (ucast b :: u64) < 2 ^ 40" using unat_byte_less [of b] by (simp add: unat_ucast_byte)
  from unat_shift_byte [OF this, of c] show ?thesis by (simp add: unat_ucast_byte)
qed

lemma unat_subnet_bin_4: "unat (subnet_bin (b # c # r) 2 0) = 256 * unat b + unat c"
proof -
  have "subnet_bin (b # c # r) 2 0 = push_bit 8 (ucast b) + ucast c" by (simp add: numeral_2_eq_2)
  then show ?thesis by (simp only: unat_two_bytes)
qed

lemma unat_subnet_bin_6: "unat (subnet_bin (b # c # d # r) 3 0) = 65536 * unat b + 256 * unat c + unat d"
proof -
  have "unat (push_bit 8 (ucast b) + ucast c :: u64) < 2 ^ 40"
    using unat_byte_less [of b] unat_byte_less [of c] by (simp add: unat_two_bytes)
  moreover have "subnet_bin (b # c # d # r) 3 0 = push_bit 8 (push_bit 8 (ucast b) + ucast c) + ucast d"
    by (simp add: numeral_3_eq_3)
  ultimately show ?thesis by (simp add: unat_shift_byte unat_two_bytes)
qed

lemma get_bin_of_onion_high: "2 ^ 64 - 4 \<le> unat (get_bin_of_onion sha tweak s)"
proof -
  define w where "w = tweak (sha (map byte_of_char s)) ! 0"
  have "w AND 3 = w mod 4" using take_bit_eq_mask [of 2 w] by (simp add: take_bit_eq_mod mask_eq_exp_minus_1)
  then have "unat (w AND 3) = unat w mod 4" by (simp only: unat_mod) simp
  then have "unat (w AND 3) < 4" by simp
  then have "unat (0xFFFFFFFFFFFFFFFC + ucast (w AND 3) :: u64) = 0xFFFFFFFFFFFFFFFC + unat (w AND 3)"
    by (simp add: unat_word_ariths unat_ucast_byte)
  then show ?thesis by (simp add: get_bin_of_onion_def w_def)
qed

lemma base_256: "y < 256 \<Longrightarrow> y' < 256 \<Longrightarrow> 256 * x + y = 256 * x' + y' \<longleftrightarrow> x = x' \<and> y = y'"
  for x y x' y' :: nat
proof
  assume lt: "y < 256" "y' < 256" and eq: "256 * x + y = 256 * x' + y'"
  from arg_cong [OF eq, of "\<lambda>n. n div 256"] arg_cong [OF eq, of "\<lambda>n. n mod 256"] lt
  show "x = x' \<and> y = y'" by simp
qed simp

lemma ip_bin_eqs:
  "unat (ip_bin (IPv4 (b # c # r))) = 256 * unat b + unat c"
  "unat (ip_bin (IPv6 (b # c # d # r'))) = 65536 * unat b + 256 * unat c + unat d"
  by (simp_all add: ip_bin_def unat_subnet_bin_4 unat_subnet_bin_6)

subsection \<open>Properties\<close>

text \<open>Two IPv4 addresses share a bin exactly when they agree on their first two bytes, two IPv6
  addresses when they agree on their first three, and an onion service never shares a bin with
  an IP address or with a node without an address.\<close>

theorem address_bins:
  assumes "length d4 = 4" "length e4 = 4" "length d6 = 16" "length e6 = 16"
  shows "(get_bin_of sha salted (Some (IPv4 d4)) = get_bin_of sha salted (Some (IPv4 e4)) \<longleftrightarrow> take 2 d4 = take 2 e4)
    \<and> (get_bin_of sha salted (Some (IPv6 d6)) = get_bin_of sha salted (Some (IPv6 e6)) \<longleftrightarrow> take 3 d6 = take 3 e6)
    \<and> get_bin_of sha salted (Some (Onion s))
        \<notin> get_bin_of sha salted ` {None, Some (IPv4 d4), Some (IPv6 d6)}"
proof -
  obtain b c r b' c' r' where d4: "d4 = b # c # r" and e4: "e4 = b' # c' # r'"
    using assms(1,2) by (auto simp: numeral_eq_Suc length_Suc_conv)
  obtain x y z t x' y' z' t' where d6: "d6 = x # y # z # t" and e6: "e6 = x' # y' # z' # t'"
    using assms(3,4) by (auto simp: numeral_eq_Suc length_Suc_conv)
  note lt = unat_byte_less [of b] unat_byte_less [of c] unat_byte_less [of b'] unat_byte_less [of c']
    unat_byte_less [of x] unat_byte_less [of y] unat_byte_less [of z]
    unat_byte_less [of x'] unat_byte_less [of y'] unat_byte_less [of z']
  have v4: "ip_bin (IPv4 d4) = ip_bin (IPv4 e4) \<longleftrightarrow> take 2 d4 = take 2 e4"
  proof -
    show ?thesis
      using lt by (simp add: d4 e4 word_unat_eq_iff ip_bin_eqs numeral_2_eq_2 base_256)
  qed
  have v6: "ip_bin (IPv6 d6) = ip_bin (IPv6 e6) \<longleftrightarrow> take 3 d6 = take 3 e6"
  proof -
    have "65536 * u + 256 * v + w = 256 * (256 * u + v) + w" for u v w :: nat by simp
    then have "65536 * unat x + 256 * unat y + unat z = 65536 * unat x' + 256 * unat y' + unat z'
        \<longleftrightarrow> unat x = unat x' \<and> unat y = unat y' \<and> unat z = unat z'"
      using lt by (simp only: base_256 conj_assoc)
    then show ?thesis
      by (simp add: d6 e6 word_unat_eq_iff ip_bin_eqs numeral_3_eq_3)
  qed
  have hi: "2 ^ 64 - 4 \<le> unat (get_bin_of sha salted (Some (Onion s)))"
    using get_bin_of_onion_high by (simp add: get_bin_of_def)
  have lo: "unat (get_bin_of sha salted a) < 2 ^ 24" if "a \<in> {None, Some (IPv4 d4), Some (IPv6 d6)}" for a
    using that lt by (elim insertE emptyE) (simp_all add: get_bin_of_def ip_bin_eqs d4 d6)
  have "get_bin_of sha salted (Some (Onion s)) \<noteq> get_bin_of sha salted a"
    if "a \<in> {None, Some (IPv4 d4), Some (IPv6 d6)}" for a
    using hi lo [OF that] by auto
  then have "get_bin_of sha salted (Some (Onion s)) \<notin> get_bin_of sha salted ` {None, Some (IPv4 d4), Some (IPv6 d6)}"
    by blast
  moreover have "get_bin_of sha salted (Some (IPv4 d)) = ip_bin (IPv4 d)"
    "get_bin_of sha salted (Some (IPv6 d)) = ip_bin (IPv6 d)" for d
    by (simp_all add: get_bin_of_def)
  ultimately show ?thesis using v4 v6 by (simp only: simp_thms)
qed

theorem address_bins_witness:
  "get_bin_of id hash_from_buffer (Some (IPv4 [10, 1, 2, 3])) = get_bin_of id hash_from_buffer (Some (IPv4 [10, 1, 9, 9]))"
  using address_bins [of "[10, 1, 2, 3]" "[10, 1, 9, 9]" "replicate 16 0" "replicate 16 1" id hash_from_buffer] by simp

end
