(* ===== verification/Cxx_Map.thy ===== *)
theory Cxx_Map
  imports Main "HOL-Library.Multiset"
begin

text \<open>
  \<open>std::map\<close> as the list of its entries in key order: the order in which the sources iterate.
  The locale \<open>ordered_map\<close> is what clients rely on; the sorted list implements it.
\<close>

fun map_put :: "'k :: linorder \<Rightarrow> 'v \<Rightarrow> ('k \<times> 'v) list \<Rightarrow> ('k \<times> 'v) list" where
  "map_put k v [] = [(k, v)]"
| "map_put k v ((k', v') # m) =
     (if k < k' then (k, v) # (k', v') # m
      else if k = k' then (k, v) # m
      else (k', v') # map_put k v m)"

definition map_wf :: "('k :: linorder \<times> 'v) list \<Rightarrow> bool" where
  "map_wf m = sorted_wrt (<) (map fst m)"

abbreviation keys :: "('k \<times> 'v) list \<Rightarrow> 'k set" where
  "keys m \<equiv> fst ` set m"

locale ordered_map =
  fixes put :: "'k \<Rightarrow> 'v \<Rightarrow> 'm \<Rightarrow> 'm"
    and get :: "'m \<Rightarrow> 'k \<Rightarrow> 'v option"
    and entries :: "'m \<Rightarrow> ('k \<times> 'v) list"
    and invar :: "'m \<Rightarrow> bool"
  assumes invar_put: "invar m \<Longrightarrow> invar (put k v m)"
    and get_put: "invar m \<Longrightarrow> get (put k v m) = (get m)(k \<mapsto> v)"
    and entries_get: "invar m \<Longrightarrow> (k, v) \<in> set (entries m) \<longleftrightarrow> get m k = Some v"
    and entries_distinct: "invar m \<Longrightarrow> distinct (map fst (entries m))"
begin

lemma keys_dom: "invar m \<Longrightarrow> keys (entries m) = dom (get m)"
  by (auto simp: entries_get dom_def image_iff) (metis entries_get fst_conv)+

lemma distinct_entries: "invar m \<Longrightarrow> distinct (entries m)"
  using entries_distinct by (simp add: distinct_map)

lemma keys_put: "invar m \<Longrightarrow> keys (entries (put k v m)) = insert k (keys (entries m))"
  by (simp add: keys_dom invar_put get_put)

lemma entries_put:
  "invar m \<Longrightarrow> set (entries (put k v m)) = insert (k, v) {e \<in> set (entries m). fst e \<noteq> k}"
  by (auto simp: entries_get invar_put get_put split: if_splits)

lemma mset_put_new:
  assumes m: "invar m" and k: "k \<notin> keys (entries m)"
  shows "mset (entries (put k v m)) = add_mset (k, v) (mset (entries m))"
proof -
  have "set (entries (put k v m)) = insert (k, v) (set (entries m))"
    using k by (auto simp: entries_put [OF m])
  moreover have "distinct (entries (put k v m))" "distinct (entries m)"
    using m by (simp_all add: distinct_entries invar_put)
  moreover have "(k, v) \<notin> set (entries m)" using k by force
  ultimately show ?thesis
    by (metis distinct.simps(2) list.simps(15) mset.simps(2) set_eq_iff_mset_eq_distinct)
qed

lemma mset_put_old:
  assumes m: "invar m" and k: "get m k = Some u"
  shows "add_mset (k, u) (mset (entries (put k v m))) = add_mset (k, v) (mset (entries m))"
proof -
  have ku: "(k, u) \<in> set (entries m)" using k by (simp add: entries_get [OF m])
  have "set (entries (put k v m)) = insert (k, v) (set (remove1 (k, u) (entries m)))"
    using distinct_entries [OF m] entries_get [OF m] k
    by (auto simp: entries_put [OF m])
  moreover have "distinct (entries (put k v m))" "distinct (entries m)"
    using m by (simp_all add: distinct_entries invar_put)
  moreover from this have "(k, v) \<notin> set (remove1 (k, u) (entries m))"
    using entries_get [OF m] k by auto
  ultimately have "mset (entries (put k v m)) = add_mset (k, v) (mset (remove1 (k, u) (entries m)))"
    by (metis distinct.simps(2) distinct_remove1 list.simps(15) mset.simps(2) set_eq_iff_mset_eq_distinct)
  then show ?thesis using ku by (simp add: in_multiset_in_set)
qed

end

lemma keys_map_put: "keys (map_put k v m) = insert k (keys m)"
  by (induction k v m rule: map_put.induct) auto

lemma map_wf_map_put: "map_wf m \<Longrightarrow> map_wf (map_put k v m)"
proof (induction k v m rule: map_put.induct)
  case (2 k v k' v' m)
  then have "\<forall>x \<in> keys m. k' < x" "map_wf m" by (auto simp: map_wf_def)
  with 2 show ?case
    using keys_map_put [of k v m] by (auto simp: map_wf_def)
qed (simp add: map_wf_def)

lemma map_wf_distinct: "map_wf m \<Longrightarrow> distinct (map fst m)"
  by (simp add: map_wf_def strict_sorted_iff)

lemma map_of_map_put: "map_wf m \<Longrightarrow> map_of (map_put k v m) = (map_of m)(k \<mapsto> v)"
proof (induction k v m rule: map_put.induct)
  case (2 k v k' v' m)
  then show ?case by (auto simp: map_wf_def fun_eq_iff)
qed simp

interpretation omap: ordered_map map_put map_of "\<lambda>m. m" map_wf
  by unfold_locales
     (auto simp: map_wf_map_put map_of_map_put map_wf_distinct map_of_eq_Some_iff [OF map_wf_distinct])

end
