(* ===== verification/Channel_Proposals.thy ===== *)
theory Channel_Proposals
  imports Ln_Amount Net_Address Cxx_Map
begin

unbundle bit_operations_syntax

text \<open>
  The stages a list of channel proposals goes through before the planner sees it:
  \<open>src/Boss/Mod/ChanneledPeers.cpp\<close> and \<open>Manager::drop_channeled\<close>, \<open>RearrangerBySize.cpp\<close>,
  \<open>Reprioritizer.cpp\<close> with its IP bins, and \<open>Manager::prioritize_by_track_record\<close>. Each stage keeps
  the contract of the locale \<open>proposal_stage\<close>: it may drop proposals and reorder them, never add or
  repeat one. The dowser, the node addresses, the signer's salted hash and the track records
  come from other parts of the program by message and are arguments.
\<close>

type_synonym proposal = "node_id \<times> node_id"

subsection \<open>Peers with channels\<close>

definition has_prefix :: "string \<Rightarrow> string \<Rightarrow> bool" where
  "has_prefix s p = (take (length p) s = p)"

definition channeled_state :: "string \<Rightarrow> bool" where
  "channeled_state st =
     (has_prefix st ''OPENINGD'' \<or> has_prefix st ''DUALOPEND'' \<or> has_prefix st ''CHANNELD'')"

definition channeled_entry :: "json \<Rightarrow> node_id option" where
  "channeled_entry c =
     (case c of
        JObj kvs \<Rightarrow>
          (case (map_of kvs ''state'', map_of kvs ''peer_id'') of
             (Some (JStr st), Some (JStr peer)) \<Rightarrow>
               if \<not> channeled_state st then None
               else if \<not> node_valid_string peer then None
               else (case node_of_string peer of Inr n \<Rightarrow> Some n | Inl _ \<Rightarrow> None)
           | _ \<Rightarrow> None)
      | _ \<Rightarrow> None)"

definition channeled_peers :: "json \<Rightarrow> node_id set" where
  "channeled_peers j =
     (case j of
        JObj kvs \<Rightarrow>
          (case map_of kvs ''channels'' of
             Some (JArr cs) \<Rightarrow> set (List.map_filter channeled_entry cs)
           | _ \<Rightarrow> {})
      | _ \<Rightarrow> {})"

text \<open>\<open>listpeerchannels\<close> failing (\<open>None\<close>) gives up every proposal of the cycle.\<close>

definition drop_channeled :: "json option \<Rightarrow> proposal list \<Rightarrow> proposal list" where
  "drop_channeled reply ps =
     (case reply of None \<Rightarrow> [] | Some res \<Rightarrow> filter (\<lambda>p. fst p \<notin> channeled_peers res) ps)"

subsection \<open>Rearranging by size\<close>

text \<open>\<open>std::sort\<close> on a group of at most three, largest capacity first.\<close>

definition sort_group :: "(proposal \<times> amount) list \<Rightarrow> (proposal \<times> amount) list" where
  "sort_group g = sort_key (\<lambda>pc. - int (amt (snd pc))) g"

function sort_groups :: "(proposal \<times> amount) list \<Rightarrow> (proposal \<times> amount) list" where
  "sort_groups ps = (if ps = [] then [] else sort_group (take 3 ps) @ sort_groups (drop 3 ps))"
  by pat_completeness auto
termination
  by (relation "measure length") auto

declare sort_groups.simps [simp del]

definition rearrange_by_size :: "(node_id \<Rightarrow> node_id \<Rightarrow> amount) \<Rightarrow> proposal list \<Rightarrow> proposal list" where
  "rearrange_by_size dowser ps = map fst (sort_groups (map (\<lambda>p. (p, dowser (fst p) (snd p))) ps))"

subsection \<open>Spreading over address bins\<close>

definition count_bin :: "u64 \<Rightarrow> (u64 \<times> nat) list \<Rightarrow> (u64 \<times> nat) list" where
  "count_bin bin m = (case map_of m bin of None \<Rightarrow> map_put bin 1 m | Some c \<Rightarrow> map_put bin (Suc c) m)"

definition reprioritize_step ::
  "(node_id \<Rightarrow> u64) \<Rightarrow> proposal \<Rightarrow> (u64 \<times> nat) list \<times> (nat \<times> proposal list) list
   \<Rightarrow> (u64 \<times> nat) list \<times> (nat \<times> proposal list) list" where
  "reprioritize_step bin_of p st =
     (let (nodes_per_bin, nodes_per_binsize) = st; bin = bin_of (fst p);
          binsize = (case map_of nodes_per_bin bin of None \<Rightarrow> 0 | Some c \<Rightarrow> c);
          old = (case map_of nodes_per_binsize binsize of None \<Rightarrow> [] | Some ps \<Rightarrow> ps)
      in (count_bin bin nodes_per_bin, map_put binsize (old @ [p]) nodes_per_binsize))"

definition reprioritize :: "(node_id \<Rightarrow> u64) \<Rightarrow> node_id list \<Rightarrow> proposal list \<Rightarrow> proposal list" where
  "reprioritize bin_of peers ps =
     (let nodes_per_bin = fold (\<lambda>n. count_bin (bin_of n)) peers [];
          (_, nodes_per_binsize) = fold (reprioritize_step bin_of) ps (nodes_per_bin, [])
      in concat (map snd nodes_per_binsize))"

subsection \<open>Track records\<close>

datatype verdict = Keeper | NoRecord | Underperformer

definition feature_bit :: "string \<Rightarrow> nat \<Rightarrow> bool" where
  "feature_bit features_hex b =
     (case hexread features_hex of
        Inl _ \<Rightarrow> False
      | Inr bs \<Rightarrow> if b div 8 \<ge> length bs then False
                  else bit (bs ! (length bs - 1 - b div 8)) (b mod 8))"

text \<open>The flag read from a \<open>listnodes\<close> reply; \<open>None\<close> is an RPC error.\<close>

definition spliceable_reply :: "json option \<Rightarrow> bool" where
  "spliceable_reply reply =
     (case reply of
        None \<Rightarrow> False
      | Some res \<Rightarrow>
          (case rbind (json_get res ''nodes'') (\<lambda>ns. rbind (json_size ns) (\<lambda>k.
                  if k = 0 then Inr False
                  else rbind (json_at ns 0) (\<lambda>n0. rbind (json_has n0 ''features'') (\<lambda>h.
                    if \<not> h then Inr False
                    else rbind (rbind (json_get n0 ''features'') json_string) (\<lambda>f.
                      Inr (feature_bit f 62 \<or> feature_bit f 63)))))) of
             Inr b \<Rightarrow> b | Inl _ \<Rightarrow> False))"

definition verdict_of :: "(node_id \<rightharpoonup> verdict) \<Rightarrow> proposal \<Rightarrow> verdict" where
  "verdict_of records p = (case records (fst p) of None \<Rightarrow> NoRecord | Some v \<Rightarrow> v)"

definition stable_partition :: "('a \<Rightarrow> bool) \<Rightarrow> 'a list \<Rightarrow> 'a list" where
  "stable_partition P xs = filter P xs @ filter (\<lambda>x. \<not> P x) xs"

definition prioritize_by_track_record ::
  "(node_id \<rightharpoonup> verdict) \<Rightarrow> bool \<Rightarrow> (node_id \<Rightarrow> json option) \<Rightarrow> proposal list \<Rightarrow> proposal list" where
  "prioritize_by_track_record records prefer_spliceable listnodes ps =
     (if ps = [] then []
      else let keepers = filter (\<lambda>p. verdict_of records p = Keeper) ps;
               no_records = filter (\<lambda>p. verdict_of records p = NoRecord) ps;
               underperformers = filter (\<lambda>p. verdict_of records p = Underperformer) ps;
               spliceable = (\<lambda>p. prefer_spliceable \<and> spliceable_reply (listnodes (fst p)))
           in keepers @ stable_partition spliceable no_records @ underperformers)"

subsection \<open>The contract of a stage\<close>

locale proposal_stage =
  fixes stage :: "proposal list \<Rightarrow> proposal list"
  assumes stage_subset: "mset (stage ps) \<subseteq># mset ps"
begin

lemma stage_set: "set (stage ps) \<subseteq> set ps"
  using set_mset_mono [OF stage_subset [of ps]] by simp

lemma stage_distinct:
  assumes "distinct (map fst ps)"
  shows "distinct (map fst (stage ps))"
proof -
  have "mset (map fst (stage ps)) \<subseteq># mset (map fst ps)"
    using image_mset_subseteq_mono [OF stage_subset, of fst ps] by simp
  then obtain C where "mset (map fst ps) = mset (map fst (stage ps)) + C"
    by (metis subset_mset.add_diff_inverse)
  moreover obtain zs where "mset zs = C" using ex_mset by blast
  ultimately have "mset (map fst ps) = mset (map fst (stage ps) @ zs)" by simp
  from mset_eq_imp_distinct_iff [OF this] show ?thesis using assms by simp
qed

end

interpretation drop: proposal_stage "drop_channeled reply" for reply
  by unfold_locales (simp add: drop_channeled_def multiset_filter_subset split: option.splits)

lemma mset_sort_groups: "mset (sort_groups ps) = mset ps"
proof (induction ps rule: sort_groups.induct)
  case (1 ps)
  show ?case
  proof (cases "ps = []")
    case False
    then have "mset (sort_groups ps) = mset (take 3 ps) + mset (drop 3 ps)"
      using 1 by (subst sort_groups.simps) (simp add: sort_group_def)
    then show ?thesis by (metis append_take_drop_id mset_append)
  qed (simp add: sort_groups.simps)
qed

lemma mset_rearrange: "mset (rearrange_by_size dowser ps) = mset ps"
  by (simp add: rearrange_by_size_def mset_sort_groups multiset.map_comp comp_def)

interpretation rearrange: proposal_stage "rearrange_by_size dowser" for dowser
  by unfold_locales (simp add: mset_rearrange)

lemma mset_track_record: "mset (prioritize_by_track_record records pref listnodes ps) = mset ps"
proof -
  have "mset ps = filter_mset (\<lambda>p. verdict_of records p = Keeper) (mset ps)
      + (filter_mset (\<lambda>p. verdict_of records p = NoRecord) (mset ps)
      + filter_mset (\<lambda>p. verdict_of records p = Underperformer) (mset ps))"
  proof (induction ps)
    case (Cons p ps)
    then show ?case by (cases "verdict_of records p") auto
  qed simp
  moreover have "mset (stable_partition P xs) = mset xs" for P and xs :: "proposal list"
    by (simp add: stable_partition_def)
  ultimately show ?thesis by (simp add: prioritize_by_track_record_def Let_def)
qed

interpretation track_record: proposal_stage "prioritize_by_track_record records pref listnodes"
  for records pref listnodes
  by unfold_locales (simp add: mset_track_record)

subsection \<open>Reprioritizing is a stable sort by crowding\<close>

text \<open>The reference: each proposal is ranked by how many peers and earlier proposals share its bin,
  and the list is stably sorted by rank.\<close>

fun ranked :: "(node_id \<Rightarrow> u64) \<Rightarrow> node_id list \<Rightarrow> proposal list \<Rightarrow> (nat \<times> proposal) list" where
  "ranked bin_of seen [] = []"
| "ranked bin_of seen (p # ps) =
     (count_list (map bin_of seen) (bin_of (fst p)), p) # ranked bin_of (fst p # seen) ps"

lemma map_snd_ranked: "map snd (ranked bin_of seen ps) = ps"
  by (induction bin_of seen ps rule: ranked.induct) auto

definition counts_ok :: "(u64 \<times> nat) list \<Rightarrow> u64 list \<Rightarrow> bool" where
  "counts_ok m bins =
     (map_wf m \<and> (\<forall>b. map_of m b = (if count_list bins b = 0 then None else Some (count_list bins b))))"

definition buckets_ok :: "(nat \<times> proposal list) list \<Rightarrow> (nat \<times> proposal) list \<Rightarrow> bool" where
  "buckets_ok m acc =
     (map_wf m \<and> (\<forall>k. map_of m k = (let l = map snd (filter (\<lambda>x. fst x = k) acc) in if l = [] then None else Some l)))"

lemma count_bin_ok: "counts_ok m bins \<Longrightarrow> counts_ok (count_bin b m) (b # bins)"
  by (auto simp: counts_ok_def count_bin_def map_wf_map_put map_of_map_put split: option.splits)

lemma count_peers_ok: "counts_ok m bins \<Longrightarrow> counts_ok (fold (\<lambda>n. count_bin (bin_of n)) peers m) (rev (map bin_of peers) @ bins)"
proof (induction peers arbitrary: m bins)
  case (Cons n peers)
  then show ?case using Cons.IH [OF count_bin_ok [OF Cons.prems], of "bin_of n"] by simp
qed simp

lemma reprioritize_steps:
  assumes "counts_ok bins (map bin_of seen)" "buckets_ok sizes acc"
  shows "buckets_ok (snd (fold (reprioritize_step bin_of) ps (bins, sizes))) (acc @ ranked bin_of seen ps)"
  using assms
proof (induction ps arbitrary: bins sizes seen acc)
  case (Cons p ps)
  let ?b = "bin_of (fst p)"
  let ?n = "count_list (map bin_of seen) ?b"
  let ?old = "map snd (filter (\<lambda>x. fst x = ?n) acc)"
  have n: "(case map_of bins ?b of None \<Rightarrow> 0 | Some c \<Rightarrow> c) = ?n"
    using Cons.prems(1) by (simp add: counts_ok_def)
  have o: "(case map_of sizes ?n of None \<Rightarrow> [] | Some q \<Rightarrow> q) = ?old"
    using Cons.prems(2) by (simp add: buckets_ok_def Let_def)
  have st: "reprioritize_step bin_of p (bins, sizes) = (count_bin ?b bins, map_put ?n (?old @ [p]) sizes)"
    unfolding reprioritize_step_def Let_def prod.case n o ..
  have "buckets_ok (map_put ?n (?old @ [p]) sizes) (acc @ [(?n, p)])"
    using Cons.prems(2) by (auto simp: buckets_ok_def map_wf_map_put map_of_map_put Let_def)
  from Cons.IH [OF _ this, of "count_bin ?b bins" "fst p # seen"] count_bin_ok [OF Cons.prems(1), of ?b]
  show ?case by (simp add: st)
qed simp

lemma filter_buckets:
  assumes "distinct ks"
  shows "filter (\<lambda>x. fst x = k) (concat (map (\<lambda>k. filter (\<lambda>x. fst x = k) acc) ks))
    = (if k \<in> set ks then filter (\<lambda>x. fst x = k) acc else [])"
  using assms
proof (induction ks)
  case (Cons a ks)
  have "filter (\<lambda>x. fst x = k) (filter (\<lambda>x. fst x = a) acc) = (if k = a then filter (\<lambda>x. fst x = a) acc else [])"
    by (auto simp: filter_empty_conv filter_id_conv)
  with Cons show ?case by auto
qed simp

lemma sorted_buckets:
  "sorted ks \<Longrightarrow> sorted (map fst (concat (map (\<lambda>k. filter (\<lambda>x. fst x = k) acc) ks)))"
proof (induction ks)
  case (Cons a ks)
  have "map fst (filter (\<lambda>x. fst x = a) acc) = replicate (length (filter (\<lambda>x. fst x = a) acc)) a"
    by (intro replicate_eqI) auto
  then have "sorted (map fst (filter (\<lambda>x. fst x = a) acc))" by (metis sorted_replicate)
  with Cons show ?case by (auto simp: sorted_append)
qed simp

lemma mset_by_key:
  assumes "\<And>k. filter (\<lambda>x. fst x = k) xs = filter (\<lambda>x. fst x = k) ys"
  shows "mset xs = mset ys"
proof (rule multiset_eqI)
  fix x
  have "count (mset zs) x = count (mset (filter (\<lambda>y. fst y = fst x) zs)) x" for zs :: "('a \<times> 'b) list"
    by (simp add: count_mset filter_filter)
  then show "count (mset xs) x = count (mset ys) x" by (metis assms)
qed

lemma buckets_sorted:
  assumes "buckets_ok m acc"
  shows "concat (map snd m) = map snd (sort_key fst acc)"
proof -
  let ?F = "\<lambda>k. filter (\<lambda>x. fst x = k) acc"
  define ks where "ks = map fst m"
  have wf: "map_wf m" and mo: "\<And>k. map_of m k = (let l = map snd (?F k) in if l = [] then None else Some l)"
    using assms by (simp_all add: buckets_ok_def)
  have d: "distinct ks" and s: "sorted ks"
    using wf map_wf_distinct by (auto simp: ks_def map_wf_def strict_sorted_iff)
  have "m = map (\<lambda>k. (k, map snd (?F k))) ks"
  proof -
    have "snd e = map snd (?F (fst e))" if "e \<in> set m" for e
    proof -
      have "map_of m (fst e) = Some (snd e)" using that omap.entries_get [OF wf, of "fst e" "snd e"] by simp
      then show ?thesis using mo [of "fst e"] by (simp add: Let_def split: if_splits)
    qed
    then show ?thesis unfolding ks_def map_map by (intro map_idI [symmetric]) (auto simp: prod_eq_iff)
  qed
  then have c: "concat (map snd m) = map snd (concat (map ?F ks))"
    by (subst \<open>m = _\<close>) (simp add: map_concat comp_def)
  have key: "filter (\<lambda>x. fst x = k) (concat (map ?F ks)) = filter (\<lambda>x. fst x = k) acc" for k
  proof (cases "k \<in> set ks")
    case False
    then have "map_of m k = None" by (simp add: ks_def map_of_eq_None_iff)
    then have "?F k = []" using mo [of k] by (simp add: Let_def split: if_splits)
    then show ?thesis using False by (simp add: filter_buckets [OF d])
  qed (simp add: filter_buckets [OF d])
  have "sort_key fst acc = concat (map ?F ks)"
  proof (rule properties_for_sort_key)
    show "mset (concat (map ?F ks)) = mset acc" by (rule mset_by_key) (rule key)
    show "filter (\<lambda>x. fst k = fst x) (concat (map ?F ks)) = filter (\<lambda>x. fst k = fst x) acc" for k
      using key [of "fst k"] by (simp add: eq_commute)
    show "sorted (map fst (concat (map ?F ks)))" by (rule sorted_buckets [OF s])
  qed
  then show ?thesis using c by simp
qed

lemma count_list_rev: "count_list (rev xs) x = count_list xs x"
  by (simp add: count_list_eq_length_filter flip: rev_filter)

lemma reprioritize_eq: "reprioritize bin_of peers ps = map snd (sort_key fst (ranked bin_of peers ps))"
proof -
  let ?bins = "fold (\<lambda>n. count_bin (bin_of n)) peers []"
  have "counts_ok [] []" by (simp add: counts_ok_def map_wf_def)
  from count_peers_ok [OF this, of bin_of peers]
  have "counts_ok ?bins (map bin_of peers)" by (simp add: counts_ok_def count_list_rev)
  from reprioritize_steps [OF this, of "[]" "[]" ps]
  have "buckets_ok (snd (fold (reprioritize_step bin_of) ps (?bins, []))) (ranked bin_of peers ps)"
    by (simp add: buckets_ok_def map_wf_def)
  from buckets_sorted [OF this] show ?thesis
    by (simp add: reprioritize_def Let_def case_prod_beta)
qed

lemma mset_reprioritize: "mset (reprioritize bin_of peers ps) = mset ps"
proof -
  have "mset (reprioritize bin_of peers ps) = image_mset snd (mset (ranked bin_of peers ps))"
    by (simp add: reprioritize_eq)
  also have "\<dots> = mset ps" using arg_cong [OF map_snd_ranked [of bin_of peers ps], of mset] by simp
  finally show ?thesis .
qed

interpretation reprioritize: proposal_stage "reprioritize bin_of peers" for bin_of peers
  by unfold_locales (simp add: mset_reprioritize)

text \<open>C37: Reprioritizing implements its purpose exactly: it is the stable sort of the proposals by
  the number of peers and earlier proposals in the same address bin.\<close>

theorem reprioritize_is_stable_sort:
  "reprioritize bin_of peers ps = map snd (sort_key fst (ranked bin_of peers ps))"
  by (rule reprioritize_eq)

subsection \<open>Rearranging stays within groups of three\<close>

lemma take_sort_groups: "mset (take (3 * k) (sort_groups ps)) = mset (take (3 * k) ps)"
proof (induction k arbitrary: ps)
  case (Suc k)
  show ?case
  proof (cases "ps = []")
    case False
    have l: "length (sort_group (take 3 ps)) = length (take 3 ps)" by (simp add: sort_group_def)
    have "take (3 * Suc k) (sort_groups ps)
        = take (3 * Suc k) (sort_group (take 3 ps) @ sort_groups (drop 3 ps))"
      using False by (subst sort_groups.simps) simp
    also have "\<dots> = sort_group (take 3 ps) @ take (3 * Suc k - length (take 3 ps)) (sort_groups (drop 3 ps))"
      using l by simp
    also have "take (3 * Suc k - length (take 3 ps)) (sort_groups (drop 3 ps)) = take (3 * k) (sort_groups (drop 3 ps))"
    proof (cases "3 \<le> length ps")
      case False
      then show ?thesis by (simp add: sort_groups.simps)
    qed (simp add: min_def)
    finally have "mset (take (3 * Suc k) (sort_groups ps)) = mset (take 3 ps) + mset (take (3 * k) (drop 3 ps))"
      using Suc.IH [of "drop 3 ps"] by (simp add: sort_group_def)
    moreover have "take (3 * Suc k) ps = take 3 ps @ take (3 * k) (drop 3 ps)"
      using take_add [of 3 "3 * k" ps] by (simp add: algebra_simps)
    ultimately show ?thesis by simp
  qed (simp add: sort_groups.simps)
qed simp

lemma sort_groups_sorted:
  "\<forall>i < length ps. \<forall>j < length ps. i < j \<longrightarrow> i div 3 = j div 3 \<longrightarrow>
     amt (snd (sort_groups ps ! j)) \<le> amt (snd (sort_groups ps ! i))"
proof (induction ps rule: sort_groups.induct)
  case (1 ps)
  show ?case
  proof (intro allI impI)
    fix i j assume ij: "i < length ps" "j < length ps" "i < j" "i div 3 = j div 3"
    let ?g = "sort_group (take 3 ps)"
    have e: "sort_groups ps = ?g @ sort_groups (drop 3 ps)" using ij(1) by (subst sort_groups.simps) auto
    have lg: "length ?g = min 3 (length ps)" by (simp add: sort_group_def min_def)
    have len: "length (sort_groups xs) = length xs" for xs
      using arg_cong [OF mset_sort_groups [of xs], of size] by simp
    show "amt (snd (sort_groups ps ! j)) \<le> amt (snd (sort_groups ps ! i))"
    proof (cases "i < 3")
      case True
      then have "j < 3" using ij(4) by (metis div_less div_eq_0_iff zero_neq_numeral)
      have "sorted (map (\<lambda>pc. - int (amt (snd pc))) ?g)" by (simp add: sort_group_def)
      then have "- int (amt (snd (?g ! i))) \<le> - int (amt (snd (?g ! j)))"
        using sorted_nth_mono [of "map (\<lambda>pc. - int (amt (snd pc))) ?g" i j] ij True \<open>j < 3\<close> lg by simp
      then have "amt (snd (?g ! j)) \<le> amt (snd (?g ! i))"
        by (simp only: neg_le_iff_le of_nat_le_iff)
      then show ?thesis using e True \<open>j < 3\<close> lg ij by (simp add: nth_append)
    next
      case False
      then have "(i - 3) div 3 = (j - 3) div 3" 
        using ij(3,4) le_div_geq [of 3 i] le_div_geq [of 3 j] by simp
      moreover have "ps \<noteq> []" "i - 3 < length (drop 3 ps)" "j - 3 < length (drop 3 ps)" "i - 3 < j - 3"
        using ij False by auto
      ultimately have "amt (snd (sort_groups (drop 3 ps) ! (j - 3))) \<le> amt (snd (sort_groups (drop 3 ps) ! (i - 3)))"
        using 1 by blast
      then show ?thesis using ij False e lg by (auto simp: nth_append min_def)
    qed
  qed
qed

text \<open>Rearranging by size moves proposals only inside consecutive groups of three, and within a
  group puts the larger capacity first.\<close>

theorem rearrange_groups_of_three:
  "mset (take (3 * k) (rearrange_by_size dowser ps)) = mset (take (3 * k) ps)
   \<and> (\<forall>i < length ps. \<forall>j < length ps. i < j \<and> i div 3 = j div 3 \<longrightarrow>
        dowser (fst (rearrange_by_size dowser ps ! j)) (snd (rearrange_by_size dowser ps ! j))
        \<le> dowser (fst (rearrange_by_size dowser ps ! i)) (snd (rearrange_by_size dowser ps ! i)))"
proof -
  let ?pc = "map (\<lambda>p. (p, dowser (fst p) (snd p))) ps"
  have len: "length (sort_groups ?pc) = length ps"
    using arg_cong [OF mset_sort_groups [of ?pc], of size] by simp
  have own: "snd x = dowser (fst (fst x)) (snd (fst x))" if "x \<in> set (sort_groups ?pc)" for x
    using that mset_eq_setD [OF mset_sort_groups [of ?pc]] by auto
  have "mset (take (3 * k) (rearrange_by_size dowser ps)) = image_mset fst (mset (take (3 * k) ?pc))"
    unfolding rearrange_by_size_def take_map [symmetric]
    by (simp only: take_map mset_map take_sort_groups)
  also have "\<dots> = mset (take (3 * k) ps)" by (simp add: take_map multiset.map_comp comp_def)
  finally show ?thesis
    using sort_groups_sorted [of ?pc] own len
    by (auto simp: rearrange_by_size_def amount_le_iff)
qed

theorem rearrange_groups_of_three_witness:
  "let f = (\<lambda>n _. if n = NodeId None then amount_sat 1 else amount_sat 2);
       ps = [(NodeId None, NodeId None), (NodeId (Some [2]), NodeId None)]
   in f (fst (rearrange_by_size f ps ! 1)) (snd (rearrange_by_size f ps ! 1))
      \<le> f (fst (rearrange_by_size f ps ! 0)) (snd (rearrange_by_size f ps ! 0))"
proof -
  let ?f = "\<lambda>n _. if n = NodeId None then amount_sat 1 else amount_sat 2"
  let ?ps = "[(NodeId None, NodeId None), (NodeId (Some [2]), NodeId None)]"
  have "0 < length ?ps" "1 < length ?ps" "(0::nat) < 1 \<and> (0::nat) div 3 = 1 div 3" by simp_all
  with rearrange_groups_of_three [of 1 ?f ?ps] show ?thesis unfolding Let_def by blast
qed

text \<open>The track-record stage ranks proven earners before nodes without a record and those before
  underperformers, keeps every proposal exactly once, and keeps the earlier order inside each of
  the two ranked tiers.\<close>

theorem track_record_tiers:
  "mset (prioritize_by_track_record records pref listnodes ps) = mset ps
   \<and> (\<forall>v \<in> {Keeper, Underperformer}.
        filter (\<lambda>p. verdict_of records p = v) (prioritize_by_track_record records pref listnodes ps)
        = filter (\<lambda>p. verdict_of records p = v) ps)
   \<and> (\<exists>ks ns us. prioritize_by_track_record records pref listnodes ps = ks @ ns @ us
        \<and> (\<forall>p \<in> set ks. verdict_of records p = Keeper) \<and> (\<forall>p \<in> set ns. verdict_of records p = NoRecord)
        \<and> (\<forall>p \<in> set us. verdict_of records p = Underperformer))"
proof -
  let ?k = "filter (\<lambda>p. verdict_of records p = Keeper) ps"
  let ?u = "filter (\<lambda>p. verdict_of records p = Underperformer) ps"
  let ?n = "stable_partition (\<lambda>p. pref \<and> spliceable_reply (listnodes (fst p)))
    (filter (\<lambda>p. verdict_of records p = NoRecord) ps)"
  have e: "prioritize_by_track_record records pref listnodes ps = ?k @ ?n @ ?u"
    by (simp add: prioritize_by_track_record_def Let_def stable_partition_def)
  have f: "filter (\<lambda>p. verdict_of records p = v) (?k @ ?n @ ?u) = filter (\<lambda>p. verdict_of records p = v) ps"
    if "v \<in> {Keeper, Underperformer}" for v
    using that by (auto simp: stable_partition_def filter_empty_conv)
  have t: "\<forall>p \<in> set ?n. verdict_of records p = NoRecord" "\<forall>p \<in> set ?k. verdict_of records p = Keeper"
    "\<forall>p \<in> set ?u. verdict_of records p = Underperformer"
    by (auto simp: stable_partition_def)
  show ?thesis
  proof (intro conjI ballI)
    show "\<exists>ks ns us. prioritize_by_track_record records pref listnodes ps = ks @ ns @ us
        \<and> (\<forall>p \<in> set ks. verdict_of records p = Keeper) \<and> (\<forall>p \<in> set ns. verdict_of records p = NoRecord)
        \<and> (\<forall>p \<in> set us. verdict_of records p = Underperformer)"
      by (rule exI [of _ ?k], rule exI [of _ ?n], rule exI [of _ ?u], intro conjI e t)
  next
    show "mset (prioritize_by_track_record records pref listnodes ps) = mset ps" by (rule mset_track_record)
  qed (simp only: e f)
qed

theorem track_record_tiers_witness:
  "let records = [NodeId None \<mapsto> Underperformer]; ps = [(NodeId None, NodeId None), (NodeId (Some [2]), NodeId None)]
   in filter (\<lambda>p. verdict_of records p = Underperformer) (prioritize_by_track_record records True (\<lambda>_. None) ps)
      = [(NodeId None, NodeId None)]"
proof -
  let ?r = "[NodeId None \<mapsto> Underperformer]" and ?ps = "[(NodeId None, NodeId None), (NodeId (Some [2]), NodeId None)]"
  have "filter (\<lambda>p. verdict_of ?r p = Underperformer) (prioritize_by_track_record ?r True (\<lambda>_. None) ?ps)
      = filter (\<lambda>p. verdict_of ?r p = Underperformer) ?ps"
    by (rule track_record_tiers [THEN conjunct2, THEN conjunct1, THEN bspec]) simp
  then show ?thesis by (simp add: Let_def verdict_of_def)
qed

end
