(* ===== verification/Channel_Planner.thy ===== *)
theory Channel_Planner
  imports Channel_Proposals
begin

text \<open>
  \<open>src/Boss/Mod/ChannelCreator/Planner.cpp\<close>: dividing an amount among the proposed nodes. The
  dowser, which asks the network how much a channel could carry, is a function parameter (the
  caller memoises it); \<open>draw b\<close> is the draw of \<open>std::uniform_int_distribution(0, b)\<close>. A failed
  \<open>assert\<close> is the exception \<open>AssertFailed\<close>.
\<close>

type_synonym plan = "(node_id \<times> amount) list"

record plan_cfg =
  pl_total :: amount
  pl_at_least_2 :: bool
  pl_min :: amount
  pl_max :: amount
  pl_min_remaining :: amount

record plan_state =
  ps_remaining :: amount
  ps_proposals :: "proposal list"
  ps_result :: plan
  ps_rejected :: "node_id list"

subsection \<open>Definitions\<close>

definition planner_new ::
  "amount \<Rightarrow> nat \<Rightarrow> amount \<Rightarrow> amount \<Rightarrow> amount \<Rightarrow> plan_cfg result" where
  "planner_new total_amount existing_channels min_amount max_amount min_remaining =
     (if \<not> amount_mul min_amount 2 \<le> total_amount then Inl AssertFailed
      else if \<not> min_amount + min_remaining \<le> max_amount then Inl AssertFailed
      else Inr \<lparr>pl_total = total_amount, pl_at_least_2 = (existing_channels < 2), pl_min = min_amount,
                pl_max = max_amount, pl_min_remaining = min_remaining\<rparr>)"

text \<open>What a proposal gets, once the dowser has answered with at least the minimum.\<close>

definition plan_share :: "plan_cfg \<Rightarrow> amount \<Rightarrow> plan \<Rightarrow> amount \<Rightarrow> amount" where
  "plan_share cfg remaining res a =
     (let a1 = (if a > pl_max cfg then pl_max cfg else a);
          a2 = (if a1 > remaining then remaining else a1)
      in if pl_at_least_2 cfg \<and> length res = 0 \<and> a2 > amount_div remaining 2
         then amount_div remaining 2 else a2)"

fun plan_core_run ::
  "plan_cfg \<Rightarrow> (node_id \<Rightarrow> node_id \<Rightarrow> amount) \<Rightarrow> amount \<Rightarrow> plan \<Rightarrow> node_id list \<Rightarrow> proposal list \<Rightarrow> plan_state" where
  "plan_core_run cfg dowser remaining res rejected [] =
     \<lparr>ps_remaining = remaining, ps_proposals = [], ps_result = res, ps_rejected = rejected\<rparr>"
| "plan_core_run cfg dowser remaining res rejected ((node, patron) # proposals) =
     (if remaining < pl_min cfg then
        \<lparr>ps_remaining = remaining, ps_proposals = (node, patron) # proposals, ps_result = res,
         ps_rejected = rejected\<rparr>
      else let a = dowser node patron in
        if a < pl_min cfg then plan_core_run cfg dowser remaining res (node # rejected) proposals
        else let share = plan_share cfg remaining res a in
          plan_core_run cfg dowser (remaining - share) (map_put node share res) rejected proposals)"

fun divide_loop :: "amount \<Rightarrow> u64 \<Rightarrow> u64 \<Rightarrow> nat \<Rightarrow> plan \<Rightarrow> plan option" where
  "divide_loop max_amount divided_ms remainder_ms i [] = Some []"
| "divide_loop max_amount divided_ms remainder_ms i ((n, a) # m) =
     (let divided = amount_msat divided_ms;
          divided' = (if i < unat remainder_ms then divided + amount_msat 1 else divided);
          a' = a + divided'
      in if a' > max_amount then None
         else map_option (Cons (n, a')) (divide_loop max_amount divided_ms remainder_ms (Suc i) m))"

definition plan_divide :: "plan_cfg \<Rightarrow> plan_state \<Rightarrow> plan option" where
  "plan_divide cfg s =
     (let remaining_ms = to_msat (ps_remaining s); n = of_nat (length (ps_result s))
      in divide_loop (pl_max cfg) (remaining_ms div n) (remaining_ms mod n) 0 (ps_result s))"

text \<open>Taking the missing part from one of the channels that can spare it.\<close>

definition plan_deduct :: "plan_cfg \<Rightarrow> (nat \<Rightarrow> nat) \<Rightarrow> plan_state \<Rightarrow> plan_state result" where
  "plan_deduct cfg draw s =
     (let target = (if ps_proposals s \<noteq> [] then pl_min cfg else pl_min_remaining cfg);
          needed = target - ps_remaining s;
          for_deduct = map fst (filter (\<lambda>r. pl_min cfg + needed \<le> snd r) (ps_result s))
      in if for_deduct = [] then Inl AssertFailed
         else let to_deduct = for_deduct ! draw (length for_deduct - 1);
                  old = (case map_of (ps_result s) to_deduct of Some v \<Rightarrow> v | None \<Rightarrow> Amount 0);
                  res' = map_put to_deduct (old - needed) (ps_result s)
              in case ps_proposals s of
                   [] \<Rightarrow> Inr (s\<lparr>ps_result := res', ps_remaining := target\<rparr>)
                 | p # ps \<Rightarrow> Inr (s\<lparr>ps_result := map_put (fst p) target res', ps_proposals := ps,
                                    ps_remaining := amount_sat 0\<rparr>))"

definition check_results :: "plan_cfg \<Rightarrow> (nat \<Rightarrow> nat) \<Rightarrow> plan_state \<Rightarrow> plan_state result" where
  "check_results cfg draw s =
     (if pl_at_least_2 cfg \<and> length (ps_result s) < 2 then Inr (s\<lparr>ps_result := []\<rparr>)
      else if ps_remaining s > amount_sat 0 then
        if ps_result s = [] then Inr s
        else if ps_remaining s \<ge> pl_min_remaining cfg then Inr s
        else case plan_divide cfg s of
          Some res' \<Rightarrow> Inr (s\<lparr>ps_result := res'\<rparr>)
        | None \<Rightarrow> plan_deduct cfg draw s
      else Inr s)"

definition add_rejected :: "plan_state \<Rightarrow> plan" where
  "add_rejected s = fold (\<lambda>n m. map_put n (amount_sat 0) m) (ps_rejected s) (ps_result s)"

definition planner_run ::
  "(node_id \<Rightarrow> node_id \<Rightarrow> amount) \<Rightarrow> (nat \<Rightarrow> nat) \<Rightarrow> plan_cfg \<Rightarrow> proposal list \<Rightarrow> plan result" where
  "planner_run dowser draw cfg proposals =
     rbind (check_results cfg draw (plan_core_run cfg dowser (pl_total cfg) [] [] proposals))
       (\<lambda>s. Inr (add_rejected s))"

subsection \<open>Totals and bounds\<close>

definition plan_sum :: "plan \<Rightarrow> nat" where
  "plan_sum m = sum_list (map (amt \<circ> snd) m)"

lemma plan_sum_mset: "plan_sum m = \<Sum>\<^sub># (image_mset (amt \<circ> snd) (mset m))"
  unfolding plan_sum_def by (simp flip: sum_mset_sum_list)

lemma plan_sum_new:
  "map_wf m \<Longrightarrow> n \<notin> keys m \<Longrightarrow> plan_sum (map_put n a m) = plan_sum m + amt a"
  by (simp add: plan_sum_mset omap.mset_put_new)

lemma plan_sum_old:
  assumes "map_wf m" "map_of m n = Some b"
  shows "plan_sum (map_put n a m) + amt b = plan_sum m + amt a"
  using arg_cong [OF omap.mset_put_old [OF assms, of a], of "\<lambda>M. \<Sum>\<^sub># (image_mset (amt \<circ> snd) M)"]
  by (simp add: plan_sum_mset)

lemma plan_sum_ge: "(n, a) \<in> set m \<Longrightarrow> amt a \<le> plan_sum m"
  by (induction m) (auto simp: plan_sum_def)

lemma set_map_put: "map_wf m \<Longrightarrow> set (map_put n a m) = insert (n, a) {e \<in> set m. fst e \<noteq> n}"
  by (rule omap.entries_put)

text \<open>Limits under which no amount saturates and halving is exact: all amounts are below
  \<open>2 ^ 53\<close> millisatoshis, more than 90,000 bitcoin.\<close>

definition cfg_ok :: "plan_cfg \<Rightarrow> bool" where
  "cfg_ok cfg =
     (amt (pl_total cfg) < 2 ^ 53 \<and> amt (pl_max cfg) < 2 ^ 53 \<and> 0 < amt (pl_min cfg)
      \<and> 2 * amt (pl_min cfg) \<le> amt (pl_total cfg)
      \<and> amt (pl_min cfg) + amt (pl_min_remaining cfg) \<le> amt (pl_max cfg)
      \<and> amt (pl_min cfg) \<le> amt (pl_min_remaining cfg))"

definition in_bounds :: "plan_cfg \<Rightarrow> plan \<Rightarrow> bool" where
  "in_bounds cfg m = (\<forall>(n, a) \<in> set m. pl_min cfg \<le> a \<and> a \<le> pl_max cfg)"

text \<open>The loop invariant: the budget is split between the result and what remains, every share
  is within bounds, and no node occurs twice.\<close>

definition plan_inv :: "plan_cfg \<Rightarrow> plan_state \<Rightarrow> bool" where
  "plan_inv cfg s =
     (map_wf (ps_result s) \<and> in_bounds cfg (ps_result s)
      \<and> plan_sum (ps_result s) + amt (ps_remaining s) = amt (pl_total cfg)
      \<and> distinct (map fst (ps_proposals s))
      \<and> keys (ps_proposals s) \<inter> (keys (ps_result s) \<union> set (ps_rejected s)) = {}
      \<and> keys (ps_result s) \<inter> set (ps_rejected s) = {})"

lemma in_bounds_put:
  "map_wf m \<Longrightarrow> in_bounds cfg m \<Longrightarrow> pl_min cfg \<le> a \<Longrightarrow> a \<le> pl_max cfg \<Longrightarrow> in_bounds cfg (map_put n a m)"
  by (auto simp: in_bounds_def set_map_put)

subsection \<open>The proposal loop\<close>

lemma plan_share_bounds:
  assumes cfg: "cfg_ok cfg" and a: "pl_min cfg \<le> a" and rem: "pl_min cfg \<le> remaining"
    and t: "amt remaining \<le> amt (pl_total cfg)" and first: "res = [] \<Longrightarrow> remaining = pl_total cfg"
  shows "pl_min cfg \<le> plan_share cfg remaining res a" "plan_share cfg remaining res a \<le> pl_max cfg"
    "plan_share cfg remaining res a \<le> remaining"
    "pl_at_least_2 cfg \<Longrightarrow> res = [] \<Longrightarrow> 2 * amt (plan_share cfg remaining res a) \<le> amt remaining"
proof -
  have h: "amt (amount_div remaining 2) = amt remaining div 2"
    using t cfg by (intro amt_half) (simp add: cfg_ok_def)
  show "pl_min cfg \<le> plan_share cfg remaining res a" "plan_share cfg remaining res a \<le> pl_max cfg"
    "plan_share cfg remaining res a \<le> remaining"
    "pl_at_least_2 cfg \<Longrightarrow> res = [] \<Longrightarrow> 2 * amt (plan_share cfg remaining res a) \<le> amt remaining"
    using assms h by (auto simp: plan_share_def Let_def amount_order cfg_ok_def)
qed

lemma plan_core_run_inv:
  assumes cfg: "cfg_ok cfg"
    and "plan_inv cfg \<lparr>ps_remaining = remaining, ps_proposals = proposals, ps_result = res, ps_rejected = rejected\<rparr>"
    and "res = [] \<Longrightarrow> remaining = pl_total cfg"
  shows "plan_inv cfg (plan_core_run cfg dowser remaining res rejected proposals)
    \<and> (ps_remaining (plan_core_run cfg dowser remaining res rejected proposals) < pl_min cfg
       \<or> ps_proposals (plan_core_run cfg dowser remaining res rejected proposals) = [])"
  using assms(2,3)
proof (induction proposals arbitrary: remaining res rejected)
  case (Cons p proposals)
  obtain node patron where p: "p = (node, patron)" by (cases p)
  let ?a = "dowser node patron"
  let ?sh = "plan_share cfg remaining res ?a"
  consider "remaining < pl_min cfg" | "pl_min cfg \<le> remaining" "?a < pl_min cfg"
    | "pl_min cfg \<le> remaining" "pl_min cfg \<le> ?a"
    by (meson not_le)
  then show ?case
  proof cases
    case 2
    have "plan_inv cfg \<lparr>ps_remaining = remaining, ps_proposals = proposals, ps_result = res,
        ps_rejected = node # rejected\<rparr>"
      using Cons.prems(1) by (auto simp: plan_inv_def p)
    from Cons.IH [OF this Cons.prems(2)] show ?thesis using 2 leD [OF 2(1)] by (simp add: p)
  next
    case 3
    have t: "amt remaining \<le> amt (pl_total cfg)" using Cons.prems(1) by (simp add: plan_inv_def)
    note sh = plan_share_bounds [OF cfg 3(2) 3(1) t Cons.prems(2)]
    have n: "node \<notin> keys res" "map_wf res" using Cons.prems(1) by (auto simp: plan_inv_def p)
    have "plan_inv cfg \<lparr>ps_remaining = remaining - ?sh, ps_proposals = proposals,
        ps_result = map_put node ?sh res, ps_rejected = rejected\<rparr>"
      using Cons.prems(1) sh(1-3) plan_sum_new [OF n(2,1), of ?sh]
      by (auto simp: plan_inv_def p in_bounds_put map_wf_map_put keys_map_put amount_le_iff)
    moreover have "map_put node ?sh res = [] \<Longrightarrow> remaining - ?sh = pl_total cfg"
      using keys_map_put [of node ?sh res] by simp
    ultimately show ?thesis using Cons.IH leD [OF 3(1)] leD [OF 3(2)] by (simp add: p Let_def)
  qed (use Cons.prems in \<open>simp add: p\<close>)
qed simp

subsection \<open>Dividing the remainder\<close>

lemma amt_plus_small: "amt a + amt b < 2 ^ 64 \<Longrightarrow> amt (a + b) = amt a + amt b"
  by (simp add: amt_plus)

text \<open>The share of the \<open>i\<close>-th entry.\<close>

abbreviation share_of :: "u64 \<Rightarrow> u64 \<Rightarrow> nat \<Rightarrow> nat" where
  "share_of d r i \<equiv> unat d + (if i < unat r then 1 else 0)"

lemma amt_divided:
  "unat d < 2 ^ 53 \<Longrightarrow>
     amt (if i < unat r then amount_msat d + amount_msat 1 else amount_msat d) = share_of d r i"
  by (simp add: amount_msat_def amt_plus)

lemma divide_loop_Some:
  assumes "unat d < 2 ^ 53" "\<forall>(n, a) \<in> set m. amt a < 2 ^ 53"
    and "divide_loop mx d r i m = Some m'"
  shows "map fst m' = map fst m
    \<and> plan_sum m' = plan_sum m + (\<Sum>j \<in> {i ..< i + length m}. share_of d r j)
    \<and> (\<forall>(n, a') \<in> set m'. a' \<le> mx \<and> (\<exists>a. (n, a) \<in> set m \<and> a \<le> a'))"
  using assms(2,3)
proof (induction m arbitrary: i m')
  case Nil
  then show ?case by (simp add: plan_sum_def)
next
  case (Cons e m)
  obtain n a where e: "e = (n, a)" by (cases e)
  let ?s = "if i < unat r then amount_msat d + amount_msat 1 else amount_msat d"
  from Cons.prems(2) obtain m1 where m1: "divide_loop mx d r (Suc i) m = Some m1"
    and m': "m' = (n, a + ?s) # m1" and le: "a + ?s \<le> mx"
    by (auto simp: e Let_def split: if_splits)
  have "amt (a + ?s) = amt a + share_of d r i"
    using Cons.prems(1) assms(1) amt_divided [OF assms(1), of i r] by (subst amt_plus_small) (auto simp: e)
  moreover have "(\<Sum>j \<in> {i ..< i + length (e # m)}. share_of d r j)
      = share_of d r i + (\<Sum>j \<in> {Suc i ..< Suc i + length m}. share_of d r j)"
    by (simp add: sum.atLeast_Suc_lessThan)
  moreover have "map fst m1 = map fst m
    \<and> plan_sum m1 = plan_sum m + (\<Sum>j \<in> {Suc i ..< Suc i + length m}. share_of d r j)
    \<and> (\<forall>(n, a') \<in> set m1. a' \<le> mx \<and> (\<exists>a. (n, a) \<in> set m \<and> a \<le> a'))"
    using Cons.IH [OF _ m1] Cons.prems(1) by simp
  ultimately show ?case
    using le by (auto simp: m' e plan_sum_def amount_le_iff)
qed

lemma divide_loop_None:
  assumes "unat d < 2 ^ 53" "\<forall>(n, a) \<in> set m. amt a < 2 ^ 53"
    and "divide_loop mx d r i m = None"
  shows "\<exists>n a j. (n, a) \<in> set m \<and> amt mx < amt a + share_of d r j"
  using assms(2,3)
proof (induction m arbitrary: i)
  case (Cons e m)
  obtain n a where e: "e = (n, a)" by (cases e)
  let ?s = "if i < unat r then amount_msat d + amount_msat 1 else amount_msat d"
  have s: "amt (a + ?s) = amt a + share_of d r i"
    using Cons.prems(1) assms(1) amt_divided [OF assms(1), of i r] by (subst amt_plus_small) (auto simp: e)
  show ?case
  proof (cases "a + ?s > mx")
    case True
    then have "amt mx < amt a + share_of d r i" using s by (simp add: amount_less_iff)
    moreover have "(n, a) \<in> set (e # m)" by (simp add: e)
    ultimately show ?thesis by blast
  next
    case False
    then have "divide_loop mx d r (Suc i) m = None" using Cons.prems(2) by (simp add: e Let_def)
    then have "\<exists>n a j. (n, a) \<in> set m \<and> amt mx < amt a + share_of d r j"
      using Cons.IH [of "Suc i"] Cons.prems(1) by simp
    then show ?thesis by (meson list.set_intros(2))
  qed
qed simp

lemma sum_shares:
  assumes "0 < n" "unat R = n" "unat rem = v"
  shows "(\<Sum>j \<in> {0 ..< n}. share_of (rem div R) (rem mod R) j) = v"
proof -
  have d: "unat (rem div R) = v div n" "unat (rem mod R) = v mod n"
    unfolding unat_div unat_mod assms(2,3) by simp_all
  have "{j \<in> {0 ..< n}. j < v mod n} = {0 ..< v mod n}"
    using mod_less_divisor [OF assms(1), of v] by auto
  then have "(\<Sum>j \<in> {0 ..< n}. (if j < v mod n then 1 else 0 :: nat)) = v mod n"
    by (simp flip: sum.inter_filter)
  then show ?thesis unfolding d sum.distrib by simp
qed

lemma share_le:
  assumes "0 < n" "unat R = n" "unat rem = v"
  shows "share_of (rem div R) (rem mod R) j \<le> v"
proof -
  have d: "unat (rem div R) = v div n" "unat (rem mod R) = v mod n"
    unfolding unat_div unat_mod assms(2,3) by simp_all
  have "v = n * (v div n) + v mod n" by simp
  moreover have "v div n \<le> n * (v div n)" using assms(1) by simp
  ultimately have "v div n + v mod n \<le> v" by linarith
  then show ?thesis unfolding d by (auto split: if_splits)
qed

lemma length_le_sum: "0 < amt (pl_min cfg) \<Longrightarrow> in_bounds cfg m \<Longrightarrow> length m \<le> plan_sum m"
proof (induction m)
  case (Cons e m)
  then have "length m \<le> plan_sum m" "pl_min cfg \<le> snd e" by (auto simp: in_bounds_def)
  then show ?case using Cons.prems(1) by (simp add: plan_sum_def amount_le_iff)
qed simp

lemma inv_small:
  assumes "cfg_ok cfg" "plan_inv cfg s"
  shows "amt (ps_remaining s) < 2 ^ 53" "\<forall>(n, a) \<in> set (ps_result s). amt a < 2 ^ 53"
    "unat (of_nat (length (ps_result s)) :: u64) = length (ps_result s)"
proof -
  have sum: "plan_sum (ps_result s) + amt (ps_remaining s) < 2 ^ 53"
    using assms by (simp add: plan_inv_def cfg_ok_def)
  then show "amt (ps_remaining s) < 2 ^ 53" by simp
  show "\<forall>(n, a) \<in> set (ps_result s). amt a < 2 ^ 53"
  proof clarify
    fix n a assume "(n, a) \<in> set (ps_result s)"
    from plan_sum_ge [OF this] show "amt a < 2 ^ 53" using sum by simp
  qed
  have "length (ps_result s) \<le> plan_sum (ps_result s)"
    using length_le_sum [of cfg] assms by (simp add: plan_inv_def cfg_ok_def)
  then show "unat (of_nat (length (ps_result s)) :: u64) = length (ps_result s)"
    using sum by (simp add: unat_of_nat take_bit_nat_eq_self)
qed

lemma plan_divide_Some:
  assumes cfg: "cfg_ok cfg" and inv: "plan_inv cfg s" and ne: "ps_result s \<noteq> []"
    and d: "plan_divide cfg s = Some res'"
  shows "map_wf res' \<and> in_bounds cfg res' \<and> plan_sum res' = amt (pl_total cfg)
    \<and> map fst res' = map fst (ps_result s)"
proof -
  let ?R = "of_nat (length (ps_result s)) :: u64" and ?v = "to_msat (ps_remaining s)"
  note small = inv_small [OF cfg inv]
  have n: "0 < length (ps_result s)" using ne by simp
  have "unat (?v div ?R) \<le> unat ?v" by (simp add: unat_div)
  then have dd: "unat (?v div ?R) < 2 ^ 53" using small(1) by (rule le_less_trans)
  from divide_loop_Some [OF dd small(2) d [unfolded plan_divide_def Let_def]]
  have r: "map fst res' = map fst (ps_result s)"
    "plan_sum res' = plan_sum (ps_result s) + amt (ps_remaining s)"
    "\<forall>(n, a') \<in> set res'. a' \<le> pl_max cfg \<and> (\<exists>a. (n, a) \<in> set (ps_result s) \<and> a \<le> a')"
    using sum_shares [OF n small(3) refl, of ?v] unfolding add_0 by (auto simp only:)
  have "in_bounds cfg res'"
    using r(3) inv by (fastforce simp: in_bounds_def plan_inv_def)
  then show ?thesis using r inv by (simp add: plan_inv_def map_wf_def)
qed

lemma plan_divide_None:
  assumes cfg: "cfg_ok cfg" and inv: "plan_inv cfg s" and ne: "ps_result s \<noteq> []"
    and d: "plan_divide cfg s = None"
  shows "\<exists>n a. (n, a) \<in> set (ps_result s) \<and> amt (pl_max cfg) < amt a + amt (ps_remaining s)"
proof -
  let ?R = "of_nat (length (ps_result s)) :: u64" and ?v = "to_msat (ps_remaining s)"
  note small = inv_small [OF cfg inv]
  have n: "0 < length (ps_result s)" using ne by simp
  have "unat (?v div ?R) \<le> unat ?v" by (simp add: unat_div)
  then have dd: "unat (?v div ?R) < 2 ^ 53" using small(1) by (rule le_less_trans)
  from divide_loop_None [OF dd small(2) d [unfolded plan_divide_def Let_def]] obtain m a j where
    "(m, a) \<in> set (ps_result s)" "amt (pl_max cfg) < amt a + share_of (?v div ?R) (?v mod ?R) j"
    by blast
  moreover note share_le [OF n small(3) refl, of ?v j]
  ultimately show ?thesis by (meson add_left_mono less_le_trans)
qed

subsection \<open>Settling the plan\<close>

definition plan_settled :: "plan_cfg \<Rightarrow> plan_state \<Rightarrow> bool" where
  "plan_settled cfg s =
     (map_wf (ps_result s) \<and> in_bounds cfg (ps_result s)
      \<and> plan_sum (ps_result s) \<le> amt (pl_total cfg)
      \<and> (ps_result s = [] \<or> plan_sum (ps_result s) = amt (pl_total cfg)
         \<or> plan_sum (ps_result s) + amt (pl_min_remaining cfg) \<le> amt (pl_total cfg))
      \<and> (pl_at_least_2 cfg \<longrightarrow> length (ps_result s) \<noteq> 1)
      \<and> keys (ps_result s) \<inter> set (ps_rejected s) = {})"

lemma length_map_put: "length (map_put k v m) \<ge> length m"
  by (induction k v m rule: map_put.induct) auto

lemma plan_deduct_settled:
  assumes cfg: "cfg_ok cfg" and inv: "plan_inv cfg s"
    and stop: "ps_remaining s < pl_min cfg \<or> ps_proposals s = []"
    and low: "ps_remaining s < pl_min_remaining cfg"
    and two: "pl_at_least_2 cfg \<Longrightarrow> 2 \<le> length (ps_result s)"
    and big: "(n0, a0) \<in> set (ps_result s)" "amt (pl_max cfg) < amt a0 + amt (ps_remaining s)"
    and draw: "\<And>b. draw b \<le> b"
  shows "\<exists>s'. plan_deduct cfg draw s = Inr s' \<and> plan_settled cfg s' \<and> ps_rejected s' = ps_rejected s
     \<and> keys (ps_result s') \<subseteq> keys (ps_result s) \<union> keys (ps_proposals s)"
proof -
  define target where "target = (if ps_proposals s \<noteq> [] then pl_min cfg else pl_min_remaining cfg)"
  define needed where "needed = target - ps_remaining s"
  define for_deduct where
    "for_deduct = map fst (filter (\<lambda>r. pl_min cfg + needed \<le> snd r) (ps_result s))"
  have tgt: "amt (ps_remaining s) < amt target" "amt target \<le> amt (pl_min_remaining cfg)"
    "pl_min cfg \<le> target" "target \<le> pl_max cfg"
    using stop low cfg by (auto simp: target_def amount_order cfg_ok_def)
  then have nd: "amt needed = amt target - amt (ps_remaining s)" by (simp add: needed_def)
  have "amt (pl_min cfg) + amt (pl_min_remaining cfg) < 2 ^ 53" using cfg by (simp add: cfg_ok_def)
  then have "amt (pl_min cfg) + amt needed < 2 ^ 53" using nd tgt(2) by linarith
  then have mn: "amt (pl_min cfg + needed) = amt (pl_min cfg) + amt needed"
    by (intro amt_plus_small) simp
  have "amt (pl_min cfg) + amt (pl_min_remaining cfg) \<le> amt (pl_max cfg)" using cfg by (simp add: cfg_ok_def)
  then have "amt (pl_min cfg) + amt needed \<le> amt a0" using nd tgt(1,2) big(2) by linarith
  then have "pl_min cfg + needed \<le> a0" using mn by (simp only: amount_le_iff)
  then have ne: "for_deduct \<noteq> []" using big(1) by (force simp: for_deduct_def filter_empty_conv)
  define k where "k = for_deduct ! draw (length for_deduct - 1)"
  have "draw (length for_deduct - 1) < length for_deduct"
    using draw [of "length for_deduct - 1"] ne by (metis diff_less le_less_trans length_greater_0_conv less_one)
  then have "k \<in> set for_deduct" by (simp add: k_def)
  then obtain old where old: "(k, old) \<in> set (ps_result s)" "pl_min cfg + needed \<le> old"
    by (auto simp: for_deduct_def)
  have wf: "map_wf (ps_result s)" and ib: "in_bounds cfg (ps_result s)" using inv by (simp_all add: plan_inv_def)
  have mo: "map_of (ps_result s) k = Some old" using old(1) by (simp add: omap.entries_get [OF wf])
  define res' where "res' = map_put k (old - needed) (ps_result s)"
  have res': "map_wf res'" "in_bounds cfg res'" "keys res' = keys (ps_result s)"
    "plan_sum res' + amt needed = plan_sum (ps_result s)" "length (ps_result s) \<le> length res'" "res' \<noteq> []"
  proof -
    have o: "amt (old - needed) = amt old - amt needed" "amt (pl_min cfg) + amt needed \<le> amt old"
      using old(2) mn by (simp_all add: amount_le_iff)
    have "old \<le> pl_max cfg" using ib old(1) by (auto simp: in_bounds_def)
    then show "in_bounds cfg res'"
      unfolding res'_def using o by (intro in_bounds_put [OF wf ib]) (simp_all add: amount_le_iff)
    show "keys res' = keys (ps_result s)" using old(1) by (force simp: res'_def keys_map_put)
    show "plan_sum res' + amt needed = plan_sum (ps_result s)"
      using plan_sum_old [OF wf mo, of "old - needed"] o by (simp add: res'_def)
    show "map_wf res'" "length (ps_result s) \<le> length res'"
      by (simp_all add: res'_def map_wf_map_put wf length_map_put)
    then show "res' \<noteq> []" using big(1) by auto
  qed
  have tot: "plan_sum (ps_result s) + amt (ps_remaining s) = amt (pl_total cfg)"
    and disj: "keys (ps_result s) \<inter> set (ps_rejected s) = {}" using inv by (simp_all add: plan_inv_def)
  have run: "plan_deduct cfg draw s =
      (case ps_proposals s of
         [] \<Rightarrow> Inr (s\<lparr>ps_result := res', ps_remaining := target\<rparr>)
       | p # ps \<Rightarrow> Inr (s\<lparr>ps_result := map_put (fst p) target res', ps_proposals := ps,
                          ps_remaining := amount_sat 0\<rparr>))"
    unfolding plan_deduct_def Let_def target_def [symmetric] needed_def [symmetric]
      for_deduct_def [symmetric] k_def [symmetric] mo option.case res'_def [symmetric]
    using ne by simp
  show ?thesis
  proof (cases "ps_proposals s")
    case Nil
    then have "amt target = amt (pl_min_remaining cfg)" by (simp add: target_def)
    then show ?thesis
      using run Nil res' tot nd tgt(1) disj two by (auto simp: plan_settled_def)
  next
    case (Cons p ps)
    then have p: "fst p \<notin> keys res'" "fst p \<notin> set (ps_rejected s)"
      using inv res'(3) by (auto simp: plan_inv_def)
    have "plan_sum (map_put (fst p) target res') = amt (pl_total cfg)"
      using plan_sum_new [OF res'(1) p(1), of target] res'(4) nd tgt(1) tot by simp
    moreover have "length (map_put (fst p) target res') \<ge> length (ps_result s)"
      by (rule le_trans [OF res'(5) length_map_put])
    moreover have "in_bounds cfg (map_put (fst p) target res')"
      using in_bounds_put [OF res'(1,2) tgt(3,4)] .
    moreover have "keys (map_put (fst p) target res') \<inter> set (ps_rejected s) = {}"
      using p(2) disj res'(3) by (simp add: keys_map_put)
    ultimately have "plan_settled cfg (s\<lparr>ps_result := map_put (fst p) target res', ps_proposals := ps,
        ps_remaining := amount_sat 0\<rparr>)"
      using two res'(1) by (auto simp: plan_settled_def map_wf_map_put)
    then show ?thesis using run Cons res'(3) by (simp add: keys_map_put) blast
  qed
qed

lemma check_results_settled:
  assumes cfg: "cfg_ok cfg" and inv: "plan_inv cfg s"
    and stop: "ps_remaining s < pl_min cfg \<or> ps_proposals s = []"
    and draw: "\<And>b. draw b \<le> b"
  shows "\<exists>s'. check_results cfg draw s = Inr s' \<and> plan_settled cfg s' \<and> ps_rejected s' = ps_rejected s
     \<and> keys (ps_result s') \<subseteq> keys (ps_result s) \<union> keys (ps_proposals s)"
proof -
  have tot: "plan_sum (ps_result s) + amt (ps_remaining s) = amt (pl_total cfg)"
    and base: "map_wf (ps_result s)" "in_bounds cfg (ps_result s)"
      "keys (ps_result s) \<inter> set (ps_rejected s) = {}"
    using inv by (simp_all add: plan_inv_def)
  consider (few) "pl_at_least_2 cfg" "length (ps_result s) < 2"
    | (none) "\<not> (pl_at_least_2 cfg \<and> length (ps_result s) < 2)"
        "\<not> ps_remaining s > amount_sat 0 \<or> ps_result s = [] \<or> ps_remaining s \<ge> pl_min_remaining cfg"
    | (settle) "\<not> (pl_at_least_2 cfg \<and> length (ps_result s) < 2)"
        "ps_remaining s > amount_sat 0" "ps_result s \<noteq> []" "ps_remaining s < pl_min_remaining cfg"
    by (meson not_le)
  then show ?thesis
  proof cases
    case few
    then show ?thesis by (simp add: check_results_def plan_settled_def plan_sum_def map_wf_def in_bounds_def)
  next
    case none
    then have "check_results cfg draw s = Inr s" by (auto simp: check_results_def)
    moreover have "plan_settled cfg s"
      using none tot base by (auto simp: plan_settled_def amount_order amount_sat_def)
    ultimately show ?thesis by blast
  next
    case settle
    have nl: "\<not> ps_remaining s \<ge> pl_min_remaining cfg" using settle(4) by (simp add: not_le)
    show ?thesis
    proof (cases "plan_divide cfg s")
      case (Some res')
      note r = plan_divide_Some [OF cfg inv settle(3) Some]
      then have "keys res' = keys (ps_result s)" "length res' = length (ps_result s)"
        by (metis list.set_map) (metis r length_map)
      then show ?thesis
        using settle nl Some r base by (auto simp: check_results_def plan_settled_def)
    next
      case None
      obtain n0 a0 where "(n0, a0) \<in> set (ps_result s)" "amt (pl_max cfg) < amt a0 + amt (ps_remaining s)"
        using plan_divide_None [OF cfg inv settle(3) None] by blast
      from plan_deduct_settled [OF cfg inv stop settle(4) _ this draw] settle(1)
      show ?thesis using settle nl None by (auto simp: check_results_def)
    qed
  qed
qed

lemma fold_rejected:
  assumes "map_wf m" "keys m \<inter> set rej = {}"
  shows "let m' = fold (\<lambda>n m. map_put n (amount_sat 0) m) rej m in
    map_wf m' \<and> plan_sum m' = plan_sum m \<and> keys m' = keys m \<union> set rej
    \<and> (\<forall>e \<in> set m'. e \<in> set m \<or> snd e = 0) \<and> set m \<subseteq> set m'"
  using assms
proof -
  have "map_wf (fold (\<lambda>n m. map_put n (amount_sat 0) m) rej r)
    \<and> plan_sum (fold (\<lambda>n m. map_put n (amount_sat 0) m) rej r) = plan_sum m
    \<and> keys (fold (\<lambda>n m. map_put n (amount_sat 0) m) rej r) = keys r \<union> set rej
    \<and> (\<forall>e \<in> set (fold (\<lambda>n m. map_put n (amount_sat 0) m) rej r). e \<in> set m \<or> snd e = 0)
    \<and> set m \<subseteq> set (fold (\<lambda>n m. map_put n (amount_sat 0) m) rej r)"
    if "map_wf r" "plan_sum r = plan_sum m" "\<forall>e \<in> set r. e \<in> set m \<or> snd e = 0" "set m \<subseteq> set r"
      "keys m \<inter> set rej = {}" for r
    using that
  proof (induction rej arbitrary: r)
    case (Cons n rej)
    let ?r = "map_put n (amount_sat 0) r"
    have z: "amount_sat 0 = (0 :: amount)" by (simp add: amount_sat_def zero_amount_def)
    have "plan_sum ?r = plan_sum r"
    proof (cases "n \<in> keys r")
      case True
      then obtain v where v: "(n, v) \<in> set r" by force
      then have "v = 0" using Cons.prems(3,5) by force
      then show ?thesis using plan_sum_old [OF Cons.prems(1), of n v 0] v omap.entries_get [OF Cons.prems(1)]
        by (simp add: z)
    next
      case False
      then show ?thesis using plan_sum_new [OF Cons.prems(1)] by (simp add: z)
    qed
    moreover have "set m \<subseteq> set ?r" using Cons.prems by (force simp: set_map_put)
    ultimately show ?case
      using Cons.IH [of ?r] Cons.prems by (auto simp: map_wf_map_put set_map_put keys_map_put z)
  qed simp
  from this [of m] assms show ?thesis by (simp add: Let_def)
qed

subsection \<open>The planner\<close>

lemma planner_new_ok:
  assumes "planner_new total_amount existing mn mx mr = Inr cfg"
    and "amt total_amount < 2 ^ 53" "amt mx < 2 ^ 53" "0 < amt mn" "mn \<le> mr"
  shows "cfg_ok cfg" "pl_total cfg = total_amount" "pl_min cfg = mn" "pl_max cfg = mx"
    "pl_min_remaining cfg = mr" "pl_at_least_2 cfg \<longleftrightarrow> existing < 2"
proof -
  have a: "amount_mul mn 2 \<le> total_amount" "mn + mr \<le> mx"
    and cfg: "cfg = \<lparr>pl_total = total_amount, pl_at_least_2 = (existing < 2), pl_min = mn,
                pl_max = mx, pl_min_remaining = mr\<rparr>"
    using assms(1) by (auto simp: planner_new_def split: if_splits)
  show "pl_total cfg = total_amount" "pl_min cfg = mn" "pl_max cfg = mx"
    "pl_min_remaining cfg = mr" "pl_at_least_2 cfg \<longleftrightarrow> existing < 2" by (simp_all add: cfg)
  have s: "amt mn + amt mr \<le> amt mx"
  proof -
    have "min (amt mn + amt mr) (2 ^ 64 - 1) \<le> amt mx" using a(2) by (simp only: amount_le_iff amt_plus)
    then show ?thesis using assms(3) by (simp add: min_def split: if_splits)
  qed
  have "amt mn \<le> amt mr" using assms(5) by (simp add: amount_le_iff)
  then have "2 * amt mn < 2 ^ 53" using s assms(3) by linarith
  then have "2 * amt mn \<le> amt total_amount" using a(1) amt_double [of mn] by (simp only: amount_le_iff)
  then show "cfg_ok cfg" using assms s by (simp add: cfg_ok_def cfg amount_le_iff)
qed

lemma subset_via: "A \<union> B \<union> C \<subseteq> P \<Longrightarrow> R \<subseteq> A \<union> B \<Longrightarrow> R \<union> C \<subseteq> P"
  by blast

lemma plan_sum_Nil [simp]: "plan_sum [] = 0"
  by (simp add: plan_sum_def)

lemma plan_core_run_keys:
  "keys (ps_result (plan_core_run cfg dowser rem res rej ps))
   \<union> keys (ps_proposals (plan_core_run cfg dowser rem res rej ps))
   \<union> set (ps_rejected (plan_core_run cfg dowser rem res rej ps)) \<subseteq> keys res \<union> keys ps \<union> set rej"
proof (induction ps arbitrary: rem res rej)
  case (Cons p ps)
  obtain node patron where p: "p = (node, patron)" by (cases p)
  show ?case
    using Cons.IH [of rem res "node # rej"]
      Cons.IH [of "rem - plan_share cfg rem res (dowser node patron)"
        "map_put node (plan_share cfg rem res (dowser node patron)) res" rej]
    by (auto simp: p Let_def keys_map_put)
qed simp

text \<open>What a finished plan promises, for the amount \<open>total_amount\<close> and the limits it was made with.\<close>

definition plan_good :: "amount \<Rightarrow> nat \<Rightarrow> amount \<Rightarrow> amount \<Rightarrow> amount \<Rightarrow> proposal list \<Rightarrow> plan \<Rightarrow> bool" where
  "plan_good total_amount existing mn mx mr proposals plan =
     (map_wf plan \<and> keys plan \<subseteq> keys proposals
      \<and> (\<forall>(n, a) \<in> set plan. a = 0 \<or> mn \<le> a \<and> a \<le> mx)
      \<and> plan_sum plan \<le> amt total_amount
      \<and> (plan_sum plan = 0 \<or> plan_sum plan = amt total_amount
         \<or> plan_sum plan + amt mr \<le> amt total_amount)
      \<and> (existing < 2 \<longrightarrow> length (filter (\<lambda>e. snd e \<noteq> 0) plan) \<noteq> 1))"

lemma planner_run_settled:
  assumes cfg: "cfg_ok cfg" and d: "distinct (map fst proposals)" and draw: "\<And>b. draw b \<le> b"
    and two: "pl_at_least_2 cfg \<longleftrightarrow> existing < 2"
  shows "\<exists>plan. planner_run dowser draw cfg proposals = Inr plan
    \<and> plan_good (pl_total cfg) existing (pl_min cfg) (pl_max cfg) (pl_min_remaining cfg) proposals plan"
proof -
  let ?s = "plan_core_run cfg dowser (pl_total cfg) [] [] proposals"
  have "plan_inv cfg \<lparr>ps_remaining = pl_total cfg, ps_proposals = proposals, ps_result = [], ps_rejected = []\<rparr>"
    using d by (simp add: plan_inv_def map_wf_def in_bounds_def plan_sum_def)
  from plan_core_run_inv [OF cfg this refl]
  have "plan_inv cfg ?s" "ps_remaining ?s < pl_min cfg \<or> ps_proposals ?s = []" by blast+
  from check_results_settled [OF cfg this draw] obtain s'
    where c: "check_results cfg draw ?s = Inr s'" and st: "plan_settled cfg s'"
      and k: "ps_rejected s' = ps_rejected ?s" "keys (ps_result s') \<subseteq> keys (ps_result ?s) \<union> keys (ps_proposals ?s)"
    by blast
  let ?plan = "add_rejected s'"
  have wf: "map_wf (ps_result s')" "keys (ps_result s') \<inter> set (ps_rejected s') = {}"
    using st by (simp_all add: plan_settled_def)
  from fold_rejected [OF this]
  have r: "plan_sum ?plan = plan_sum (ps_result s')" "map_wf ?plan"
    "\<forall>e \<in> set ?plan. e \<in> set (ps_result s') \<or> snd e = 0" "set (ps_result s') \<subseteq> set ?plan"
    "keys ?plan = keys (ps_result s') \<union> set (ps_rejected s')"
    by (simp_all add: add_rejected_def Let_def)
  have b: "\<forall>(n, a) \<in> set (ps_result s'). pl_min cfg \<le> a \<and> a \<le> pl_max cfg \<and> a \<noteq> 0"
    using st cfg by (auto simp: plan_settled_def in_bounds_def cfg_ok_def amount_order)
  then have "set (filter (\<lambda>e. snd e \<noteq> 0) ?plan) = set (ps_result s')" using r(3,4) by auto
  moreover have "distinct (filter (\<lambda>e. snd e \<noteq> 0) ?plan)" "distinct (ps_result s')"
    using omap.distinct_entries [OF r(2)] omap.distinct_entries [OF wf(1)] by simp_all
  ultimately have len: "length (filter (\<lambda>e. snd e \<noteq> 0) ?plan) = length (ps_result s')"
    by (metis distinct_card)
  have bnd: "\<forall>(n, a) \<in> set ?plan. a = 0 \<or> pl_min cfg \<le> a \<and> a \<le> pl_max cfg"
    using r(3) b by fastforce
  have sub: "keys ?plan \<subseteq> keys proposals"
    using subset_via [OF plan_core_run_keys k(2)] unfolding r(5) k(1) by simp
  have st': "plan_sum (ps_result s') \<le> amt (pl_total cfg)"
    "plan_sum (ps_result s') = 0 \<or> plan_sum (ps_result s') = amt (pl_total cfg)
       \<or> plan_sum (ps_result s') + amt (pl_min_remaining cfg) \<le> amt (pl_total cfg)"
    "existing < 2 \<longrightarrow> length (ps_result s') \<noteq> 1"
    using st two by (auto simp: plan_settled_def)
  have "plan_good (pl_total cfg) existing (pl_min cfg) (pl_max cfg) (pl_min_remaining cfg) proposals ?plan"
    unfolding plan_good_def r(1) len by (intro conjI r(2) sub bnd st')
  then show ?thesis by (simp add: planner_run_def c)
qed


definition ex_proposals :: "proposal list" where
  "ex_proposals = [(NodeId (Some (replicate 33 2)), NodeId None), (NodeId (Some (replicate 33 3)), NodeId None)]"


end
