(* ===== verification/Amount_Settings.thy ===== *)
theory Amount_Settings
  imports Ln_Amount Jsmn_Object
begin

text \<open>
  \<open>src/Boss/Mod/AmountSettingsHandler.cpp\<close>: the limits on channel sizes. Values given at startup
  are taken as they are and repaired together when the options end; values set at runtime are
  refused if they would need repair.
\<close>

record amount_settings =
  as_min_channel :: amount
  as_max_channel :: amount
  as_reserve :: amount
  as_min_amount :: amount
  as_min_remaining :: amount

subsection \<open>Definitions\<close>

definition default_min_channel :: amount where "default_min_channel = amount_sat 500000"
definition default_max_channel :: amount where "default_max_channel = amount_sat 100000000"
definition default_reserve :: amount where "default_reserve = amount_sat 100000"
definition min_min_channel :: amount where "min_min_channel = amount_sat 500000"
definition trigger_factor :: double where "trigger_factor = 2"
definition additional_remaining :: amount where "additional_remaining = amount_sat 50000"

definition min_usable_max_channel :: amount where
  "min_usable_max_channel = amount_mul min_min_channel (fl (1 + trigger_factor)) + additional_remaining"

definition min_usable_reserve :: amount where "min_usable_reserve = amount_sat 30000"

text \<open>Reading an unsigned number from a stream: an optional plus sign and the digits. No digits,
  or a number that does not fit, fails.\<close>

definition read_u64 :: "string \<Rightarrow> (u64 \<times> string) option" where
  "read_u64 s =
     (let s1 = (if s \<noteq> [] \<and> hd s = CHR ''+'' then tl s else s);
          ds = takeWhile digit_char s1; r = dropWhile digit_char s1
      in if ds = [] \<or> undec ds \<ge> 2 ^ 64 then None else Some (of_nat (undec ds), r))"

definition parse_sats_string :: "string \<Rightarrow> amount \<times> bool" where
  "parse_sats_string str =
     (let s = dropWhile isspace str in
      if s \<noteq> [] \<and> hd s = CHR ''-'' then (amount_sat 0, False)
      else case read_u64 s of
        None \<Rightarrow> (amount_sat 0, False)
      | Some (sats, r) \<Rightarrow> (amount_sat sats, dropWhile isspace r = []))"

definition parse_sats :: "json \<Rightarrow> (amount \<times> bool) result" where
  "parse_sats value = rbind (json_string value) (\<lambda>s. Inr (parse_sats_string s))"

definition note_sat :: "amount \<Rightarrow> u32" where
  "note_sat a = ucast (to_sat a)"

datatype settings_note =
    MinChannelBelowFloor u32 u32
  | MaxChannelTooLow u32 u32
  | ReserveTooLow u32 u32
  | ChannelLimitsConflict u32 u32 u32 u32

definition derive :: "amount_settings \<Rightarrow> amount_settings" where
  "derive s =
     (let s1 = s\<lparr>as_min_amount := amount_mul (as_min_channel s) trigger_factor\<rparr>
      in s1\<lparr>as_min_remaining := as_min_amount s1 + additional_remaining\<rparr>)"

definition floor_min :: "amount_settings \<Rightarrow> amount_settings \<times> settings_note list" where
  "floor_min s =
     (if as_min_channel s < min_min_channel
      then (s\<lparr>as_min_channel := min_min_channel\<rparr>,
            [MinChannelBelowFloor (note_sat (as_min_channel s)) (note_sat min_min_channel)])
      else (s, []))"

definition floor_max :: "amount_settings \<Rightarrow> amount_settings \<times> settings_note list" where
  "floor_max s =
     (if as_max_channel s < min_usable_max_channel
      then (s\<lparr>as_max_channel := min_usable_max_channel\<rparr>,
            [MaxChannelTooLow (note_sat (as_max_channel s)) (note_sat min_usable_max_channel)])
      else (s, []))"

definition floor_reserve :: "amount_settings \<Rightarrow> amount_settings \<times> settings_note list" where
  "floor_reserve s =
     (if as_reserve s < min_usable_reserve
      then (s\<lparr>as_reserve := min_usable_reserve\<rparr>,
            [ReserveTooLow (note_sat (as_reserve s)) (note_sat min_usable_reserve)])
      else (s, []))"

definition lower_min :: "amount_settings \<Rightarrow> amount_settings \<times> settings_note list" where
  "lower_min s =
     (if as_min_channel s + as_min_remaining s > as_max_channel s
      then let lowered = amount_sat (to_sat (as_max_channel s - additional_remaining)
                           div of_int \<lfloor>fl (1 + trigger_factor)\<rfloor>)
           in (derive (s\<lparr>as_min_channel := lowered\<rparr>),
               [ChannelLimitsConflict (note_sat (as_min_channel s)) (note_sat (as_max_channel s))
                  (note_sat (as_min_channel s + as_min_remaining s)) (note_sat lowered)])
      else (s, []))"

definition validate :: "amount_settings \<Rightarrow> amount_settings \<times> settings_note list" where
  "validate s =
     (let (s1, n1) = floor_min s; (s2, n2) = floor_max s1; (s3, n3) = floor_reserve s2;
          (s4, n4) = lower_min (derive s3)
      in (s4, n1 @ n2 @ n3 @ n4))"

record settings_handler =
  sh_settings :: amount_settings
  sh_options_ended :: bool

datatype settings_event =
    Published amount_settings
  | Rejected "settings_note option"

definition settings_init :: settings_handler where
  "settings_init = \<lparr>sh_settings = \<lparr>as_min_channel = default_min_channel,
     as_max_channel = default_max_channel, as_reserve = default_reserve, as_min_amount = Amount 0,
     as_min_remaining = Amount 0\<rparr>, sh_options_ended = False\<rparr>"

definition put_field :: "string \<Rightarrow> amount \<Rightarrow> amount_settings \<Rightarrow> amount_settings option" where
  "put_field name a s =
     (if name = ''clboss-min-onchain'' then Some (s\<lparr>as_reserve := a\<rparr>)
      else if name = ''clboss-min-channel'' then Some (s\<lparr>as_min_channel := a\<rparr>)
      else if name = ''clboss-max-channel'' then Some (s\<lparr>as_max_channel := a\<rparr>)
      else None)"

definition on_dynamic_option ::
  "string \<Rightarrow> amount \<times> bool \<Rightarrow> settings_handler \<Rightarrow> settings_handler \<times> settings_event list" where
  "on_dynamic_option name parsed h =
     (if \<not> snd parsed then (h, [Rejected None])
      else case put_field name (fst parsed) (sh_settings h) of
        None \<Rightarrow> (h, [])
      | Some candidate \<Rightarrow>
          (let (s', notes) = validate candidate in
           if notes \<noteq> [] then (h, [Rejected (Some (hd notes))])
           else (h\<lparr>sh_settings := s'\<rparr>, [Published s'])))"

definition on_option ::
  "string \<Rightarrow> json \<Rightarrow> settings_handler \<Rightarrow> (settings_handler \<times> settings_event list) result" where
  "on_option name value h =
     (if put_field name (Amount 0) (sh_settings h) = None then Inr (h, [])
      else rbind (parse_sats value) (\<lambda>parsed.
        if sh_options_ended h then Inr (on_dynamic_option name parsed h)
        else case put_field name (fst parsed) (sh_settings h) of
          None \<Rightarrow> Inr (h, [])
        | Some s' \<Rightarrow> Inr (h\<lparr>sh_settings := s'\<rparr>, [])))"

definition on_end_of_options ::
  "settings_handler \<Rightarrow> (settings_handler \<times> settings_event list) result" where
  "on_end_of_options h =
     (if sh_options_ended h then Inl AssertFailed
      else let s' = fst (validate (sh_settings h))
           in Inr (\<lparr>sh_settings = s', sh_options_ended = True\<rparr>, [Published s']))"

subsection \<open>The constants\<close>

lemma three: "fl (1 + trigger_factor) = 3"
  using fl_nat [of 3] by (simp add: trigger_factor_def)

lemma amt_constants:
  "amt min_min_channel = 500000000" "amt additional_remaining = 50000000"
  "amt min_usable_reserve = 30000000" "amt min_usable_max_channel = 1550000000"
proof -
  show a: "amt min_min_channel = 500000000" "amt additional_remaining = 50000000"
    "amt min_usable_reserve = 30000000"
    by (simp_all add: min_min_channel_def additional_remaining_def min_usable_reserve_def amount_sat_def)
  have "amt (amount_mul min_min_channel 3) = 1500000000"
    using amt_mul_nat [of min_min_channel 3] a(1) by simp
  then show "amt min_usable_max_channel = 1550000000"
    using a(2) by (simp add: min_usable_max_channel_def three amt_plus)
qed

lemma amt_derive:
  assumes "amt (as_min_channel s) < 2 ^ 51"
  shows "amt (as_min_amount (derive s)) = 2 * amt (as_min_channel s)"
    "amt (as_min_remaining (derive s)) = 2 * amt (as_min_channel s) + 50000000"
proof -
  show a: "amt (as_min_amount (derive s)) = 2 * amt (as_min_channel s)"
    using assms amt_double [of "as_min_channel s"] by (simp add: derive_def Let_def trigger_factor_def)
  show "amt (as_min_remaining (derive s)) = 2 * amt (as_min_channel s) + 50000000"
    using assms a by (simp add: derive_def Let_def amt_plus amt_constants)
qed

lemma derive_fields [simp]:
  "as_min_channel (derive s) = as_min_channel s" "as_max_channel (derive s) = as_max_channel s"
  "as_reserve (derive s) = as_reserve s"
  by (simp_all add: derive_def Let_def)

subsection \<open>Validation\<close>

text \<open>The settings the options can give: amounts that a double represents exactly, the maximum in
  whole satoshis.\<close>

definition settings_sane :: "amount_settings \<Rightarrow> bool" where
  "settings_sane s =
     (amt (as_min_channel s) < 2 ^ 51 \<and> amt (as_max_channel s) < 2 ^ 51
      \<and> 1000 dvd amt (as_max_channel s))"

definition settings_ok :: "amount_settings \<Rightarrow> bool" where
  "settings_ok s =
     (min_min_channel \<le> as_min_channel s \<and> min_usable_reserve \<le> as_reserve s
      \<and> amt (as_min_amount s) = 2 * amt (as_min_channel s)
      \<and> amt (as_min_remaining s) = 2 * amt (as_min_channel s) + 50000000
      \<and> as_min_channel s + as_min_remaining s \<le> as_max_channel s)"

text \<open>What the validation has done before it looks at the conflict of the limits.\<close>

definition floors :: "amount_settings \<Rightarrow> amount_settings" where
  "floors s = s\<lparr>as_min_channel := max (as_min_channel s) min_min_channel,
     as_max_channel := max (as_max_channel s) min_usable_max_channel,
     as_reserve := max (as_reserve s) min_usable_reserve\<rparr>"

lemma validate_floors: "fst (validate s) = fst (lower_min (derive (floors s)))"
  by (auto simp: validate_def floor_min_def floor_max_def floor_reserve_def floors_def Let_def
      max_def case_prod_beta not_less not_le)

lemma floors_sane:
  assumes "settings_sane s"
  shows "settings_sane (floors s)" "500000000 \<le> amt (as_min_channel (floors s))"
    "1550000000 \<le> amt (as_max_channel (floors s))" "min_usable_reserve \<le> as_reserve (floors s)"
  using assms
  by (auto simp: settings_sane_def floors_def max_def amount_le_iff amt_constants)

lemma lowered_value:
  assumes "1000 dvd amt mx" "1550000000 \<le> amt mx" "amt mx < 2 ^ 51"
  defines "l \<equiv> amount_sat (to_sat (mx - additional_remaining) div of_int \<lfloor>fl (1 + trigger_factor)\<rfloor>)"
  shows "3 * amt l + 50000000 \<le> amt mx" "500000000 \<le> amt l"
proof -
  obtain q where q: "amt mx = 1000 * q" using assms(1) by (elim dvdE)
  have d: "amt (mx - additional_remaining) = 1000 * (q - 50000)"
    by (simp add: amt_constants q diff_mult_distrib2)
  have "amt (mx - additional_remaining) + 999 < 2 ^ 64" using assms(3) by simp
  then have "unat (to_sat (mx - additional_remaining)) = q - 50000"
    by (simp only: unat_to_sat d)
  then have u: "unat (to_sat (mx - additional_remaining) div 3) = (q - 50000) div 3" by (simp add: unat_div)
  have b: "(q - 50000) div 3 * 1000 < 2 ^ 64" using assms(3) q by simp
  have l: "amt l = (q - 50000) div 3 * 1000"
    unfolding l_def three using amt_sat [of "to_sat (mx - additional_remaining) div 3"] u b by simp
  show "3 * amt l + 50000000 \<le> amt mx" using l q assms(2) by simp
  show "500000000 \<le> amt l" using l q assms(2) by simp
qed

lemma validate_ok:
  assumes "settings_sane s"
  shows "settings_ok (fst (validate s))"
    "as_max_channel (fst (validate s)) = max (as_max_channel s) min_usable_max_channel"
    "settings_sane (fst (validate s))"
proof -
  let ?f = "derive (floors s)"
  note f = floors_sane [OF assms]
  have mx: "as_max_channel (floors s) = max (as_max_channel s) min_usable_max_channel" by (simp add: floors_def)
  have small: "amt (as_min_channel (floors s)) < 2 ^ 51" "amt (as_max_channel (floors s)) < 2 ^ 51"
    "1000 dvd amt (as_max_channel (floors s))"
    using f(1) by (simp_all add: settings_sane_def)
  note d = amt_derive [OF small(1)]
  define l where "l = amount_sat (to_sat (as_max_channel ?f - additional_remaining)
      div of_int \<lfloor>fl (1 + trigger_factor)\<rfloor>)"
  have l: "3 * amt l + 50000000 \<le> amt (as_max_channel (floors s))" "500000000 \<le> amt l"
    unfolding l_def using lowered_value [OF small(3) f(3) small(2)] by simp_all
  let ?g = "derive (?f\<lparr>as_min_channel := l\<rparr>)"
  have lb: "amt (as_min_channel (?f\<lparr>as_min_channel := l\<rparr>)) < 2 ^ 51" using l(1) small(2) by simp
  note dl = amt_derive [OF lb]
  have "settings_ok (fst (lower_min ?f)) \<and> as_max_channel (fst (lower_min ?f)) = as_max_channel (floors s)
    \<and> settings_sane (fst (lower_min ?f))"
  proof (cases "as_min_channel ?f + as_min_remaining ?f > as_max_channel ?f")
    case True
    then have e: "fst (lower_min ?f) = ?g" by (simp add: lower_min_def Let_def l_def)
    have "settings_ok ?g"
      using dl l f(4) by (simp add: settings_ok_def amount_le_iff amt_constants amt_plus)
    moreover have "settings_sane ?g" using small lb by (simp add: settings_sane_def)
    ultimately show ?thesis unfolding e by simp
  next
    case False
    then have e: "fst (lower_min ?f) = ?f" by (simp add: lower_min_def)
    have "settings_ok ?f"
      using False d f by (simp add: settings_ok_def amt_constants amount_le_iff amount_less_iff)
    then show ?thesis unfolding e using small by (simp add: settings_sane_def)
  qed
  then show "settings_ok (fst (validate s))"
    "as_max_channel (fst (validate s)) = max (as_max_channel s) min_usable_max_channel"
    "settings_sane (fst (validate s))"
    by (simp_all add: validate_floors mx)
qed

lemma validate_quiet: "snd (validate s) = [] \<Longrightarrow> fst (validate s) = derive s"
  by (auto simp: validate_def floor_min_def floor_max_def floor_reserve_def lower_min_def Let_def
      split: if_splits)

lemma validate_settled:
  assumes "settings_ok s" "settings_sane s"
  shows "validate s = (s, [])"
proof -
  have v: "500000000 \<le> amt (as_min_channel s)" "amt (as_min_channel s) < 2 ^ 51"
    "amt (as_min_amount s) = 2 * amt (as_min_channel s)"
    "amt (as_min_remaining s) = 2 * amt (as_min_channel s) + 50000000"
    "30000000 \<le> amt (as_reserve s)" "as_min_channel s + as_min_remaining s \<le> as_max_channel s"
    using assms by (simp_all add: settings_ok_def settings_sane_def amount_le_iff amt_constants)
  have ds: "derive s = s"
    using amt_derive [OF v(2)] v(3,4)
    by (simp add: derive_def Let_def amount_eq_iff amount_settings.equality)
  have "3 * amt (as_min_channel s) + 50000000 \<le> amt (as_max_channel s)"
    using v(2,4,6) by (simp add: amount_le_iff amt_plus)
  then have "1550000000 \<le> amt (as_max_channel s)" using v(1) by linarith
  then have n: "\<not> as_max_channel s < min_usable_max_channel" "\<not> as_min_channel s < min_min_channel"
    "\<not> as_reserve s < min_usable_reserve" "\<not> as_min_channel s + as_min_remaining s > as_max_channel s"
    using v by (simp_all add: not_less amount_le_iff amt_constants)
  show ?thesis
    using n by (simp add: validate_def floor_min_def floor_max_def floor_reserve_def lower_min_def ds Let_def)
qed

text \<open>Validation repairs any settings into settings the planner accepts: the smallest channel
  plus the amount to leave over fit the largest channel, the limits are at or above their floors,
  the largest channel is only ever raised to the usable floor, and validating again changes
  nothing and has nothing to note.\<close>

theorem settings_validate_repairs:
  assumes "settings_sane s"
  shows "settings_ok (fst (validate s))
    \<and> as_max_channel (fst (validate s)) = max (as_max_channel s) min_usable_max_channel
    \<and> validate (fst (validate s)) = (fst (validate s), [])"
  using validate_ok [OF assms] validate_settled by blast

theorem settings_validate_repairs_witness:
  "settings_ok (fst (validate \<lparr>as_min_channel = amount_sat 4000000, as_max_channel = amount_sat 2000000,
     as_reserve = amount_sat 5, as_min_amount = Amount 0, as_min_remaining = Amount 0\<rparr>))"
  (is "settings_ok (fst (validate ?s))")
proof -
  have "settings_sane ?s" by (simp add: settings_sane_def amount_sat_def)
  from settings_validate_repairs [OF this] show ?thesis by blast
qed

subsection \<open>The handler over a run\<close>

datatype settings_input =
    SetOption string json
  | EndOfOptions

definition settings_step ::
  "settings_input \<Rightarrow> settings_handler \<Rightarrow> (settings_handler \<times> settings_event list) result" where
  "settings_step i h = (case i of SetOption n v \<Rightarrow> on_option n v h | EndOfOptions \<Rightarrow> on_end_of_options h)"

fun settings_run ::
  "settings_input list \<Rightarrow> settings_handler \<Rightarrow> (settings_handler \<times> settings_event list) result" where
  "settings_run [] h = Inr (h, [])"
| "settings_run (i # is) h =
     rbind (settings_step i h) (\<lambda>(h', e). rbind (settings_run is h') (\<lambda>(h'', e'). Inr (h'', e @ e')))"

definition input_sane :: "settings_input \<Rightarrow> bool" where
  "input_sane i =
     (case i of
        SetOption n v \<Rightarrow>
          (case parse_sats v of Inl _ \<Rightarrow> True | Inr (a, _) \<Rightarrow> amt a < 2 ^ 51 \<and> 1000 dvd amt a)
      | EndOfOptions \<Rightarrow> True)"

definition handler_ok :: "settings_handler \<Rightarrow> bool" where
  "handler_ok h = (settings_sane (sh_settings h) \<and> (sh_options_ended h \<longrightarrow> settings_ok (sh_settings h)))"

lemma put_field_sane:
  "put_field n a s = Some s' \<Longrightarrow> settings_sane s \<Longrightarrow> amt a < 2 ^ 51 \<Longrightarrow> 1000 dvd amt a \<Longrightarrow> settings_sane s'"
  by (auto simp: put_field_def settings_sane_def split: if_splits)

lemma on_dynamic_option_ok:
  assumes "on_dynamic_option n (a, c) h = (h', ev)" "handler_ok h" "amt a < 2 ^ 51" "1000 dvd amt a"
  shows "handler_ok h' \<and> (\<forall>s. Published s \<in> set ev \<longrightarrow> settings_ok s)"
proof (cases "put_field n a (sh_settings h)")
  case None
  then show ?thesis using assms by (auto simp: on_dynamic_option_def split: if_splits)
next
  case (Some cand)
  then have "settings_sane cand" using put_field_sane assms(2-4) by (auto simp: handler_ok_def)
  from validate_ok [OF this] show ?thesis
    using Some assms(1,2) by (auto simp: on_dynamic_option_def handler_ok_def Let_def case_prod_beta split: if_splits)
qed

lemma settings_step_ok:
  assumes "settings_step i h = Inr (h', ev)" "handler_ok h" "input_sane i"
  shows "handler_ok h' \<and> (\<forall>s. Published s \<in> set ev \<longrightarrow> settings_ok s)"
proof (cases i)
  case EndOfOptions
  then show ?thesis
    using assms validate_ok [of "sh_settings h"]
    by (auto simp: settings_step_def on_end_of_options_def handler_ok_def Let_def split: if_splits)
next
  case (SetOption n v)
  show ?thesis
  proof (cases "put_field n (Amount 0) (sh_settings h) = None")
    case True
    then show ?thesis using assms SetOption by (auto simp: settings_step_def on_option_def)
  next
    case False
    with assms(1) SetOption obtain a c where p: "parse_sats v = Inr (a, c)"
      by (cases "parse_sats v") (auto simp: settings_step_def on_option_def)
    have a: "amt a < 2 ^ 51" "1000 dvd amt a" using assms(3) SetOption p by (simp_all add: input_sane_def)
    show ?thesis
    proof (cases "sh_options_ended h")
      case True
      then have "on_dynamic_option n (a, c) h = (h', ev)"
        using assms(1) SetOption False p by (simp add: settings_step_def on_option_def)
      from on_dynamic_option_ok [OF this assms(2) a] show ?thesis .
    next
      case notend: False
      then show ?thesis
        using assms(1,2) SetOption False p put_field_sane [OF _ _ a]
        by (auto simp: settings_step_def on_option_def handler_ok_def split: option.splits)
    qed
  qed
qed

lemma settings_run_ok:
  assumes "settings_run is h = Inr (h', ev)" "handler_ok h" "list_all input_sane is"
  shows "handler_ok h' \<and> (\<forall>s. Published s \<in> set ev \<longrightarrow> settings_ok s)"
  using assms
proof (induction "is" arbitrary: h ev)
  case (Cons i "is")
  then obtain h1 e1 e2 where "settings_step i h = Inr (h1, e1)" "settings_run is h1 = Inr (h', e2)" "ev = e1 @ e2"
    by (auto simp: rbind_eq_Inr case_prod_beta)
  then show ?case using Cons.IH settings_step_ok Cons.prems by fastforce
qed simp

lemma settings_init_ok: "handler_ok settings_init"
  by (simp add: handler_ok_def settings_init_def settings_sane_def default_min_channel_def
      default_max_channel_def amount_sat_def)

text \<open>C35: Over any run of the handler from startup, with option values below \<open>2 ^ 51\<close>
  millisatoshis, every published set of limits is one the planner accepts, and so are the limits
  in effect once the options have ended.\<close>

theorem settings_published_ok:
  assumes "settings_run is settings_init = Inr (h, ev)" "list_all input_sane is"
  shows "(\<forall>s. Published s \<in> set ev \<longrightarrow> settings_ok s)
    \<and> (sh_options_ended h \<longrightarrow> settings_ok (sh_settings h))"
  using settings_run_ok [OF assms(1) settings_init_ok assms(2)] by (simp add: handler_ok_def)

text \<open>A value set at runtime is either refused, changing and publishing nothing, or takes effect
  exactly as given: the settings in effect are the old ones with that one field replaced and the
  derived amounts recomputed.\<close>

theorem setconfig_exact:
  assumes "sh_options_ended h" "on_option name (JStr v) h = Inr (h', ev)"
  shows "h' = h \<and> (\<forall>s. Published s \<notin> set ev)
    \<or> (\<exists>cand. put_field name (fst (parse_sats_string v)) (sh_settings h) = Some cand
         \<and> snd (parse_sats_string v) \<and> validate cand = (derive cand, [])
         \<and> h' = h\<lparr>sh_settings := derive cand\<rparr> \<and> ev = [Published (derive cand)])"
proof -
  obtain a c where p: "parse_sats_string v = (a, c)" by (cases "parse_sats_string v")
  have "put_field name (Amount 0) (sh_settings h) = None \<and> h' = h \<and> ev = []
    \<or> on_dynamic_option name (a, c) h = (h', ev)"
    using assms by (auto simp: on_option_def parse_sats_def json_string_def p split: if_splits)
  then show ?thesis
  proof
    assume d: "on_dynamic_option name (a, c) h = (h', ev)"
    show ?thesis
    proof (cases "c \<and> (\<exists>cand. put_field name a (sh_settings h) = Some cand \<and> snd (validate cand) = [])")
      case True
      then obtain cand where c: "put_field name a (sh_settings h) = Some cand" "snd (validate cand) = []" "c"
        by blast
      then have "validate cand = (derive cand, [])" using validate_quiet [OF c(2)] by (metis prod.collapse)
      then show ?thesis using c d p by (auto simp: on_dynamic_option_def)
    next
      case False
      then show ?thesis
        using d by (auto simp: on_dynamic_option_def Let_def case_prod_beta split: if_splits option.splits)
    qed
  qed simp
qed

lemma ex_parse_sats: "parse_sats_string '' +2000000 '' = (amount_sat 2000000, True)"
  by (simp add: parse_sats_string_def read_u64_def isspace_def digit_char_def undec_def digit_val_def)

theorem settings_published_ok_witness:
  "\<exists>h ev. settings_run [SetOption ''clboss-max-channel'' (JStr '' +2000000 ''), EndOfOptions] settings_init
      = Inr (h, ev) \<and> sh_options_ended h \<and> settings_ok (sh_settings h)"
proof -
  let ?is = "[SetOption ''clboss-max-channel'' (JStr '' +2000000 ''), EndOfOptions]"
  have "\<exists>h ev. settings_run ?is settings_init = Inr (h, ev) \<and> sh_options_ended h"
    by (simp add: settings_step_def on_option_def put_field_def parse_sats_def json_string_def
        ex_parse_sats settings_init_def on_end_of_options_def Let_def)
  then obtain h ev where r: "settings_run ?is settings_init = Inr (h, ev)" "sh_options_ended h" by blast
  have "list_all input_sane ?is"
    by (simp add: input_sane_def parse_sats_def json_string_def ex_parse_sats amount_sat_def)
  from settings_published_ok [OF r(1) this] show ?thesis using r by blast
qed

theorem setconfig_exact_witness:
  "\<exists>h' ev. on_option ''clboss-min-onchain'' (JStr '' +2000000 '') (settings_init\<lparr>sh_options_ended := True\<rparr>) = Inr (h', ev)
    \<and> as_reserve (sh_settings h') \<in> {default_reserve, amount_sat 2000000}"
proof -
  let ?h = "settings_init\<lparr>sh_options_ended := True\<rparr>"
  obtain h' ev where r: "on_option ''clboss-min-onchain'' (JStr '' +2000000 '') ?h = Inr (h', ev)"
    by (cases "on_option ''clboss-min-onchain'' (JStr '' +2000000 '') ?h")
       (auto simp: on_option_def put_field_def parse_sats_def json_string_def settings_init_def)
  have d: "as_reserve (sh_settings ?h) = default_reserve" by (simp add: settings_init_def)
  have "sh_options_ended ?h" by simp
  from setconfig_exact [OF this r] have "as_reserve (sh_settings h') \<in> {default_reserve, amount_sat 2000000}"
    using d by (auto simp: put_field_def ex_parse_sats)
  then show ?thesis using r by blast
qed

end
