(* ===== verification/Channel_Creator.thy ===== *)
theory Channel_Creator
  imports Channel_Planner Amount_Settings
begin

text \<open>
  \<open>src/Boss/Mod/ChannelCreator/Manager.cpp\<close> and \<open>Carpenter.cpp\<close>: one cycle of channel creation, from
  the request to the destinations given to \<open>multifundchannel\<close> and the results reported. What
  other modules and the node answer during the cycle is the record \<open>cycle_env\<close>, in which \<open>None\<close> is
  an RPC error. The event loop interleaves a cycle with other messages, so the limits the request
  is checked with, the preference used for ordering and the limits the planner gets are those of
  three states of the manager. Log messages are left out.
\<close>

record manager =
  mg_min_amount :: amount
  mg_max_amount :: amount
  mg_min_remaining :: amount
  mg_prefer_spliceable :: bool
  mg_offline :: bool
  mg_rpc :: bool
  mg_cycle_running :: bool

record cycle_env =
  ce_getinfo :: "json option"
  ce_candidates :: "proposal list"
  ce_listpeerchannels :: "json option"
  ce_dowser :: "node_id \<Rightarrow> node_id \<Rightarrow> amount"
  ce_listpeers :: "json option"
  ce_node_reply :: "node_id \<Rightarrow> json option"
  ce_records :: "node_id \<rightharpoonup> verdict"
  ce_listnodes :: "node_id \<Rightarrow> json option"
  ce_draw :: "nat \<Rightarrow> nat"
  ce_sha :: "bytes \<Rightarrow> bytes"
  ce_salted_hash :: "bytes \<Rightarrow> sha256_hash"
  ce_pton4 :: pton
  ce_pton6 :: pton

datatype cycle =
    CycleOffline
  | CycleTooSmall
  | CycleBadLimits
  | CyclePlanned plan

subsection \<open>The manager\<close>

definition on_amount_settings :: "amount_settings \<Rightarrow> manager \<Rightarrow> manager" where
  "on_amount_settings s m =
     m\<lparr>mg_min_amount := as_min_channel s, mg_max_amount := as_max_channel s,
       mg_min_remaining := as_min_remaining s\<rparr>"

text \<open>The flag is whether the value was refused.\<close>

definition manager_on_option :: "string \<Rightarrow> json \<Rightarrow> manager \<Rightarrow> manager \<times> bool" where
  "manager_on_option name value m =
     (if name \<noteq> ''clboss-candidate-prefer-spliceable'' then (m, False)
      else case value of
        JBool b \<Rightarrow> (m\<lparr>mg_prefer_spliceable := b\<rparr>, False)
      | JStr s \<Rightarrow> if s = ''true'' \<or> s = ''false'' then (m\<lparr>mg_prefer_spliceable := (s = ''true'')\<rparr>, False)
                  else (m, True)
      | _ \<Rightarrow> (m, True))"

definition manager_on_init :: "bool \<Rightarrow> manager \<Rightarrow> manager" where
  "manager_on_init offline m = m\<lparr>mg_rpc := True, mg_offline := offline\<rparr>"

text \<open>A request while a cycle runs is skipped; the flag is cleared when the cycle ends, also by an
  exception.\<close>

definition manager_on_request :: "amount \<Rightarrow> manager \<Rightarrow> manager \<times> amount option" where
  "manager_on_request a m =
     (if \<not> mg_rpc m then (m, None)
      else if mg_cycle_running m then (m, None)
      else (m\<lparr>mg_cycle_running := True\<rparr>, Some a))"

definition manager_cycle_end :: "manager \<Rightarrow> manager" where
  "manager_cycle_end m = m\<lparr>mg_cycle_running := False\<rparr>"

subsection \<open>Ordering the proposals\<close>

text \<open>Reading the \<open>id\<close> of every element; an exception ends the loop, what was read so far stays.\<close>

fun read_ids :: "json list \<Rightarrow> node_id list \<times> exn option" where
  "read_ids [] = ([], None)"
| "read_ids (j # js) =
     (case rbind (rbind (json_get j ''id'') json_string) node_of_string of
        Inl e \<Rightarrow> ([], Some e)
      | Inr n \<Rightarrow> (let (ns, e) = read_ids js in (n # ns, e)))"

text \<open>\<open>rpc\<close> is whether the pointer to the RPC interface is set, which these functions assert.\<close>

definition get_peers :: "bool \<Rightarrow> json option \<Rightarrow> node_id list result" where
  "get_peers rpc reply =
     (if \<not> rpc then Inl AssertFailed
      else case reply of
        None \<Rightarrow> Inl RpcError
      | Some res \<Rightarrow>
          (case rbind (json_find res ''peers'') json_elems of
             Inl _ \<Rightarrow> Inr []
           | Inr js \<Rightarrow> Inr (fst (read_ids js))))"

definition node_addr :: "bool \<Rightarrow> cycle_env \<Rightarrow> node_id \<Rightarrow> net_addr option result" where
  "node_addr rpc e n = get_node_addr rpc (ce_pton4 e) (ce_pton6 e) (ce_node_reply e n)"

definition node_bin :: "bool \<Rightarrow> cycle_env \<Rightarrow> node_id \<Rightarrow> u64" where
  "node_bin rpc e n =
     (case node_addr rpc e n of
        Inl _ \<Rightarrow> 0
      | Inr paddr \<Rightarrow> get_bin_of (ce_sha e) (ce_salted_hash e) paddr)"

text \<open>Every peer and every proposal is looked up, so one failed lookup fails the cycle.\<close>

definition reprioritize_run :: "bool \<Rightarrow> cycle_env \<Rightarrow> proposal list \<Rightarrow> proposal list result" where
  "reprioritize_run rpc e ps =
     rbind (get_peers rpc (ce_listpeers e)) (\<lambda>peers.
       case find (\<lambda>n. \<not> is_ok (node_addr rpc e n)) (peers @ map fst ps) of
         Some n \<Rightarrow> Inl (projl (node_addr rpc e n))
       | None \<Rightarrow> Inr (reprioritize (node_bin rpc e) peers ps))"

definition drop_channeled_run :: "bool \<Rightarrow> json option \<Rightarrow> proposal list \<Rightarrow> proposal list result" where
  "drop_channeled_run rpc reply ps = (if \<not> rpc then Inl AssertFailed else Inr (drop_channeled reply ps))"

text \<open>The nodes without a record, possibly none, are looked up whenever there is a proposal.\<close>

definition track_record_run ::
  "bool \<Rightarrow> (node_id \<rightharpoonup> verdict) \<Rightarrow> bool \<Rightarrow> (node_id \<Rightarrow> json option) \<Rightarrow> proposal list \<Rightarrow> proposal list result" where
  "track_record_run rpc records prefer_spliceable listnodes ps =
     (if ps \<noteq> [] \<and> \<not> rpc then Inl AssertFailed
      else Inr (prioritize_by_track_record records prefer_spliceable listnodes ps))"

definition order_proposals :: "bool \<Rightarrow> bool \<Rightarrow> cycle_env \<Rightarrow> proposal list result" where
  "order_proposals rpc prefer_spliceable e =
     rbind (drop_channeled_run rpc (ce_listpeerchannels e) (ce_candidates e)) (\<lambda>kept.
     rbind (reprioritize_run rpc e (rearrange_by_size (ce_dowser e) kept)) (\<lambda>ps.
       track_record_run rpc (ce_records e) prefer_spliceable (ce_listnodes e) ps))"

subsection \<open>A cycle\<close>

definition num_channels :: "json option \<Rightarrow> nat result" where
  "num_channels reply =
     (case reply of
        None \<Rightarrow> Inl RpcError
      | Some info \<Rightarrow>
          rbind (rbind (json_get info ''num_pending_channels'') json_double) (\<lambda>pending.
          rbind (rbind (json_get info ''num_active_channels'') json_double) (\<lambda>active.
          Inr (nat (trunc_double (fl (pending + active)))))))"

definition plan_is_empty :: "plan \<Rightarrow> bool" where
  "plan_is_empty p = list_all (\<lambda>e. snd e = amount_sat 0) p"

text \<open>The first RPC call goes through the pointer without a check, which is undefined when it is not set. The pointer
  is set once and for all by \<open>Init\<close>, so the state at the start decides.\<close>

definition on_request_channel_creation ::
  "manager \<Rightarrow> manager \<Rightarrow> manager \<Rightarrow> amount \<Rightarrow> cycle_env \<Rightarrow> cycle result" where
  "on_request_channel_creation m m1 m2 a e =
     (if mg_offline m then Inr CycleOffline
      else if a < amount_mul (mg_min_amount m) 2 then Inr CycleTooSmall
      else if mg_min_amount m + mg_min_remaining m > mg_max_amount m then Inr CycleBadLimits
      else if \<not> mg_rpc m then Inl UndefinedBehaviour
      else rbind (num_channels (ce_getinfo e)) (\<lambda>num_chans.
           rbind (order_proposals (mg_rpc m) (mg_prefer_spliceable m1) e) (\<lambda>proposals.
           rbind (planner_new a num_chans (mg_min_amount m2) (mg_max_amount m2) (mg_min_remaining m2)) (\<lambda>cfg.
           rbind (planner_run (ce_dowser e) (ce_draw e) cfg proposals) (\<lambda>p.
           Inr (CyclePlanned p))))))"

subsection \<open>The carpenter\<close>

definition rounddown_to_sat :: "amount \<Rightarrow> amount" where
  "rounddown_to_sat a = amount_msat (to_msat a div 1000 * 1000)"

text \<open>The nodes reported as failures before funding, and the destinations to fund, if any.\<close>

definition construct_fund :: "json option \<Rightarrow> plan \<Rightarrow> (node_id list \<times> plan option) result" where
  "construct_fund listpeerchannels p =
     (if p = [] then Inl AssertFailed
      else let fails = map fst (filter (\<lambda>e. snd e = amount_sat 0) p);
               p1 = filter (\<lambda>e. snd e \<noteq> amount_sat 0) p
           in if p1 = [] then Inr (fails, None)
              else case listpeerchannels of
                None \<Rightarrow> Inr (fails, None)
              | Some res \<Rightarrow>
                  (let channeled = channeled_peers res;
                       fails2 = fails @ map fst (filter (\<lambda>e. fst e \<in> channeled) p1);
                       p2 = filter (\<lambda>e. fst e \<notin> channeled) p1
                   in if p2 = [] then Inr (fails2, None)
                      else Inr (fails2, Some (map (\<lambda>e. (fst e, rounddown_to_sat (snd e))) p2))))"

text \<open>The reply to \<open>multifundchannel\<close>: the nodes that got a channel and the further failures. An
  exception that is a \<open>std::invalid_argument\<close> ends the parsing and is only logged; a bad node id
  throws \<open>std::range_error\<close>, which is not one.\<close>

definition logged_or_thrown :: "exn \<Rightarrow> 'a \<Rightarrow> 'a result" where
  "logged_or_thrown e x = (case e of RangeError s \<Rightarrow> Inl (RangeError s) | _ \<Rightarrow> Inr x)"

definition construct_result :: "json option \<Rightarrow> plan \<Rightarrow> (node_id list \<times> node_id list) result" where
  "construct_result reply dests =
     (case reply of
        None \<Rightarrow> Inr ([], map fst dests)
      | Some res \<Rightarrow>
          (case rbind (json_find res ''channel_ids'') json_elems of
             Inl e \<Rightarrow> logged_or_thrown e ([], [])
           | Inr chans \<Rightarrow>
               (let (passes, thrown) = read_ids chans in
                case thrown of
                  Some e \<Rightarrow> logged_or_thrown e (passes, [])
                | None \<Rightarrow>
                    (case rbind (json_get res ''failed'') (\<lambda>bads.
                            rbind (json_size bads) (\<lambda>_. json_elems (Some bads))) of
                       Inl e \<Rightarrow> logged_or_thrown e (passes, [])
                     | Inr bads \<Rightarrow>
                         (let (fails, thrown') = read_ids bads in
                          case thrown' of
                            Some e \<Rightarrow> logged_or_thrown e (passes, fails)
                          | None \<Rightarrow> Inr (passes, fails))))))"

text \<open>The failures and the successes reported with \<open>ChannelCreateResult\<close>, and what was sent to
  \<open>multifundchannel\<close>, if anything.\<close>

definition construct ::
  "bool \<Rightarrow> json option \<Rightarrow> (plan \<Rightarrow> json option) \<Rightarrow> plan \<Rightarrow> (node_id list \<times> node_id list \<times> plan option) result" where
  "construct rpc listpeerchannels multifundchannel p =
     (if p \<noteq> [] \<and> \<not> rpc then Inr ([], [], None)
      else rbind (construct_fund listpeerchannels p) (\<lambda>(fails, funded).
        case funded of
          None \<Rightarrow> Inr (fails, [], None)
        | Some dests \<Rightarrow>
            rbind (construct_result (multifundchannel dests) dests) (\<lambda>(passes, fails').
              Inr (fails @ fails', passes, Some dests))))"

text \<open>The whole cycle: whether more candidates are solicited, and what the carpenter did. An
  exception is logged and ends it.\<close>

definition run_cycle ::
  "manager \<Rightarrow> manager \<Rightarrow> manager \<Rightarrow> amount \<Rightarrow> cycle_env \<Rightarrow> json option \<Rightarrow> (plan \<Rightarrow> json option)
   \<Rightarrow> (bool \<times> node_id list \<times> node_id list \<times> plan option) result" where
  "run_cycle m m1 m2 a e listpeerchannels multifundchannel =
     rbind (on_request_channel_creation m m1 m2 a e) (\<lambda>c.
       case c of
         CyclePlanned p \<Rightarrow>
           if p = [] then Inr (plan_is_empty p, [], [], None)
           else rbind (construct True listpeerchannels multifundchannel p) (\<lambda>r. Inr (plan_is_empty p, r))
       | _ \<Rightarrow> Inr (False, [], [], None))"

subsection \<open>Lemmas\<close>

lemma reprioritize_run_Inr:
  "reprioritize_run rpc e ps = Inr qs \<Longrightarrow> \<exists>peers. qs = reprioritize (node_bin rpc e) peers ps"
  by (auto simp: reprioritize_run_def rbind_eq_Inr split: option.splits)

lemma order_proposals_stages:
  assumes "order_proposals rpc pref e = Inr ps"
  obtains peers where "ps = prioritize_by_track_record (ce_records e) pref (ce_listnodes e)
    (reprioritize (node_bin rpc e) peers
      (rearrange_by_size (ce_dowser e) (drop_channeled (ce_listpeerchannels e) (ce_candidates e))))"
  using assms
  by (auto simp: order_proposals_def rbind_eq_Inr drop_channeled_run_def track_record_run_def split: if_splits
      dest!: reprioritize_run_Inr)

lemma order_proposals_distinct:
  assumes "order_proposals rpc pref e = Inr ps" "distinct (map fst (ce_candidates e))"
  shows "distinct (map fst ps)"
  using assms(2)
  by (rule_tac order_proposals_stages [OF assms(1)])
     (auto intro!: track_record.stage_distinct reprioritize.stage_distinct rearrange.stage_distinct drop.stage_distinct)

lemma order_proposals_unchanneled:
  assumes "order_proposals rpc pref e = Inr ps" "p \<in> set ps"
  shows "p \<in> set (ce_candidates e)"
    "ce_listpeerchannels e = Some res \<Longrightarrow> fst p \<notin> channeled_peers res"
proof -
  have "set ps \<subseteq> set (drop_channeled (ce_listpeerchannels e) (ce_candidates e))"
    using order_proposals_stages [OF assms(1)] track_record.stage_set reprioritize.stage_set rearrange.stage_set
    by (metis subset_trans)
  then show "p \<in> set (ce_candidates e)"
    "ce_listpeerchannels e = Some res \<Longrightarrow> fst p \<notin> channeled_peers res"
    using assms(2) by (auto simp: drop_channeled_def split: option.splits)
qed

lemma order_proposals_throws:
  assumes "order_proposals True pref e = Inl x"
  shows "x = RpcError"
proof -
  have addr: "node_addr True e n = Inl y \<Longrightarrow> y = RpcError" for n y
    by (auto simp: node_addr_def get_node_addr_def split: option.splits sum.splits)
  have "projl (node_addr True e n) = RpcError" if "find (\<lambda>n. \<not> is_ok (node_addr True e n)) ns = Some n" for n ns
    using that addr by (cases "node_addr True e n") (auto simp: find_Some_iff)
  then show ?thesis using assms
    by (auto simp: order_proposals_def drop_channeled_run_def track_record_run_def reprioritize_run_def get_peers_def
        rbind_def split: sum.splits option.splits)
qed

lemma num_channels_throws: "num_channels r = Inl x \<Longrightarrow> x \<noteq> AssertFailed \<and> x \<noteq> UndefinedBehaviour"
  by (auto simp: num_channels_def rbind_def json_get_def json_double_def
      split: sum.splits option.splits json.splits)

lemma settings_ok_limits:
  assumes "settings_ok s" "settings_sane s"
  shows "0 < amt (as_min_channel s)" "as_min_channel s \<le> as_min_remaining s"
    "amt (as_max_channel s) < 2 ^ 53" "\<not> as_min_channel s + as_min_remaining s > as_max_channel s"
  using assms by (auto simp: settings_ok_def settings_sane_def amount_le_iff amt_constants not_less)

lemma on_amount_settings_simps [simp]:
  "mg_min_amount (on_amount_settings s m) = as_min_channel s"
  "mg_max_amount (on_amount_settings s m) = as_max_channel s"
  "mg_min_remaining (on_amount_settings s m) = as_min_remaining s"
  "mg_rpc (on_amount_settings s m) = mg_rpc m" "mg_offline (on_amount_settings s m) = mg_offline m"
  by (simp_all add: on_amount_settings_def)

text \<open>A planner made with published limits and given ordered proposals makes a good plan.\<close>

lemma planner_on_settings:
  assumes s: "settings_ok s" "settings_sane s" and a: "amt a < 2 ^ 53"
    and d: "distinct (map fst (ce_candidates e))" and draw: "\<And>b. ce_draw e b \<le> b"
    and cfg: "planner_new a k (as_min_channel s) (as_max_channel s) (as_min_remaining s) = Inr cfg"
    and ps: "order_proposals rpc pref e = Inr ps"
  obtains p where "planner_run (ce_dowser e) (ce_draw e) cfg ps = Inr p"
    "plan_good a k (as_min_channel s) (as_max_channel s) (as_min_remaining s) ps p"
proof -
  note lim = settings_ok_limits [OF s]
  note ok = planner_new_ok [OF cfg a lim(3,1,2)]
  from planner_run_settled [OF ok(1) order_proposals_distinct [OF ps d] draw ok(6), of "ce_dowser e"]
  show ?thesis unfolding ok(2-5) using that by blast
qed

lemma cycle_planned_good:
  assumes s: "settings_ok s" "settings_sane s" and a: "amt a < 2 ^ 53"
    and d: "distinct (map fst (ce_candidates e))" and draw: "\<And>b. ce_draw e b \<le> b"
    and cyc: "on_request_channel_creation m m1 (on_amount_settings s m2) a e = Inr (CyclePlanned p)"
  obtains k ps where "num_channels (ce_getinfo e) = Inr k" "order_proposals (mg_rpc m) (mg_prefer_spliceable m1) e = Inr ps"
    "plan_good a k (as_min_channel s) (as_max_channel s) (as_min_remaining s) ps p"
proof -
  from cyc obtain k ps cfg where k: "num_channels (ce_getinfo e) = Inr k"
    and ps: "order_proposals (mg_rpc m) (mg_prefer_spliceable m1) e = Inr ps"
    and cfg: "planner_new a k (as_min_channel s) (as_max_channel s) (as_min_remaining s) = Inr cfg"
    and p: "planner_run (ce_dowser e) (ce_draw e) cfg ps = Inr p"
    by (auto simp: on_request_channel_creation_def rbind_eq_Inr split: if_splits)
  from planner_on_settings [OF s a d draw cfg ps] p
  have "plan_good a k (as_min_channel s) (as_max_channel s) (as_min_remaining s) ps p"
    by (metis sum.inject(2))
  with k ps show ?thesis by (rule that)
qed

lemma planner_new_settings:
  assumes "settings_ok s" "settings_sane s" "amount_mul (as_min_channel s) 2 \<le> a"
  obtains cfg where "planner_new a k (as_min_channel s) (as_max_channel s) (as_min_remaining s) = Inr cfg"
  using assms(3) settings_ok_limits(4) [OF assms(1,2)] by (simp add: planner_new_def not_less)

text \<open>What the gate of the request lets through.\<close>

lemma gate_limits:
  assumes "manager_on_request a (on_amount_settings s m0) = (m, Some b)"
  shows "mg_rpc m" "mg_min_amount m = as_min_channel s" "mg_max_amount m = as_max_channel s"
    "mg_min_remaining m = as_min_remaining s"
  using assms by (auto simp: manager_on_request_def split: if_splits)

lemma cycle_no_assert:
  assumes s: "settings_ok s" "settings_sane s" and s': "settings_ok s'" "settings_sane s'"
    and le: "as_min_channel s' \<le> as_min_channel s"
    and a: "amt a < 2 ^ 53" and d: "distinct (map fst (ce_candidates e))"
    and draw: "\<And>b. ce_draw e b \<le> b"
    and gate: "manager_on_request a (on_amount_settings s m0) = (m, Some a)"
  shows "on_request_channel_creation m m1 (on_amount_settings s' m2) a e
    \<notin> {Inl AssertFailed, Inl UndefinedBehaviour, Inr CycleBadLimits}"
proof (cases "mg_offline m \<or> a < amount_mul (as_min_channel s) 2")
  case True
  then show ?thesis using gate_limits [OF gate] by (auto simp: on_request_channel_creation_def)
next
  case False
  note m = gate_limits [OF gate]
  have "amt (as_min_channel s) < 2 ^ 51" using s(2) by (simp add: settings_sane_def)
  then have "amt (amount_mul (as_min_channel s') 2) \<le> amt (amount_mul (as_min_channel s) 2)"
    using le by (simp add: amt_double amount_le_iff)
  with False have "amount_mul (as_min_channel s') 2 \<le> a" by (simp add: amount_order not_less)
  note cfg = planner_new_settings [OF s' this]
  show ?thesis
  proof (cases "num_channels (ce_getinfo e)")
    case (Inl x)
    then show ?thesis using False settings_ok_limits(4) [OF s] num_channels_throws [OF Inl]
      by (simp add: on_request_channel_creation_def m)
  next
    case k: (Inr k)
    obtain c where c: "planner_new a k (as_min_channel s') (as_max_channel s') (as_min_remaining s') = Inr c"
      using cfg .
    show ?thesis
    proof (cases "order_proposals True (mg_prefer_spliceable m1) e")
      case (Inl x)
      then show ?thesis using False settings_ok_limits(4) [OF s] k order_proposals_throws [OF Inl]
        by (simp add: on_request_channel_creation_def m)
    next
      case (Inr ps)
      obtain p where "planner_run (ce_dowser e) (ce_draw e) c ps = Inr p"
        using planner_on_settings [OF s' a d draw c Inr] .
      then show ?thesis using False settings_ok_limits(4) [OF s] k Inr c
        by (simp add: on_request_channel_creation_def m)
    qed
  qed
qed

lemma amt_rounddown: "amt (rounddown_to_sat a) = amt a div 1000 * 1000"
proof -
  have "amt a div 1000 * 1000 < 2 ^ 64" using amt_bound [of a] by (meson div_times_less_eq_dividend le_less_trans)
  then show ?thesis
    by (simp add: rounddown_to_sat_def amount_msat_def unat_word_ariths unat_div)
qed

lemma construct_fund_funded:
  assumes "construct_fund reply p = Inr (fails, Some dests)" "(n, b) \<in> set dests"
  obtains b0 res where "(n, b0) \<in> set p" "b0 \<noteq> 0" "b = rounddown_to_sat b0" "reply = Some res"
    "n \<notin> channeled_peers res"
  using assms
  by (fastforce simp: construct_fund_def Let_def amount_sat_def zero_amount_def split: if_splits option.splits)

lemma plan_sum_filter: "plan_sum (filter P p) \<le> plan_sum p"
  by (induction p) (auto simp: plan_sum_def)

lemma plan_sum_rounddown: "plan_sum (map (\<lambda>e. (fst e, rounddown_to_sat (snd e))) p) \<le> plan_sum p"
proof (induction p)
  case (Cons e p)
  have "amt (rounddown_to_sat (snd e)) \<le> amt (snd e)" by (simp add: amt_rounddown)
  with Cons show ?case by (simp add: plan_sum_def)
qed simp

lemma construct_fund_sum:
  "construct_fund reply p = Inr (fails, Some dests) \<Longrightarrow> plan_sum dests \<le> plan_sum p"
proof -
  assume "construct_fund reply p = Inr (fails, Some dests)"
  then obtain P Q where "dests = map (\<lambda>e. (fst e, rounddown_to_sat (snd e))) (filter P (filter Q p))"
    by (auto simp: construct_fund_def Let_def split: if_splits option.splits)
  then show ?thesis using plan_sum_rounddown plan_sum_filter by (metis le_trans)
qed

lemma construct_fund_partition:
  assumes "construct_fund reply p = Inr (fails, Some dests)"
  shows "mset (fails @ map fst dests) = mset (map fst p)"
proof -
  have split: "mset (map f (filter P xs)) + mset (map f (filter (\<lambda>x. \<not> P x) xs)) = mset (map f xs)"
    for f :: "node_id \<times> amount \<Rightarrow> node_id" and P xs
    by (induction xs) simp_all
  from assms obtain res where f: "fails = map fst (filter (\<lambda>e. snd e = amount_sat 0) p)
      @ map fst (filter (\<lambda>e. fst e \<in> channeled_peers res) (filter (\<lambda>e. snd e \<noteq> amount_sat 0) p))"
    and d: "map fst dests = map fst (filter (\<lambda>e. fst e \<notin> channeled_peers res) (filter (\<lambda>e. snd e \<noteq> amount_sat 0) p))"
    by (auto simp: construct_fund_def Let_def comp_def split: if_splits option.splits)
  show ?thesis
    unfolding f d mset_append using split [of fst "\<lambda>e. snd e = amount_sat 0" p]
      split [of fst "\<lambda>e. fst e \<in> channeled_peers res" "filter (\<lambda>e. snd e \<noteq> amount_sat 0) p"]
    by (simp only: add.assoc)
qed

text \<open>Elements whose \<open>id\<close> members name the given nodes, whatever else they hold.\<close>

definition id_entries :: "json list \<Rightarrow> node_id list \<Rightarrow> bool" where
  "id_entries = list_all2 (\<lambda>j n. node_wf n \<and> (\<exists>kvs. j = JObj kvs \<and> map_of kvs ''id'' = Some (JStr (string_of_node n))))"

lemma read_ids_entries: "id_entries js ns \<Longrightarrow> read_ids js = (ns, None)"
  unfolding id_entries_def
  by (induction js ns rule: list_all2_induct) (auto simp: json_get_def json_string_def node_of_string_printed)

text \<open>What \<open>multifundchannel\<close> documents of its reply: every destination is in one of the two lists.\<close>

definition funding_reply :: "plan \<Rightarrow> json option \<Rightarrow> bool" where
  "funding_reply dests reply =
     (reply = None \<or> (\<exists>kvs cs bs ps fs. reply = Some (JObj kvs)
        \<and> map_of kvs ''channel_ids'' = Some (JArr cs) \<and> map_of kvs ''failed'' = Some (JArr bs)
        \<and> id_entries cs ps \<and> id_entries bs fs \<and> mset (ps @ fs) = mset (map fst dests)))"

lemma construct_result_reply:
  assumes "funding_reply dests reply"
  shows "\<exists>passes fails. construct_result reply dests = Inr (passes, fails)
    \<and> mset (passes @ fails) = mset (map fst dests)"
proof (cases reply)
  case None
  then show ?thesis by (simp add: construct_result_def)
next
  case (Some j)
  with assms obtain kvs cs bs ps fs where "j = JObj kvs"
    "map_of kvs ''channel_ids'' = Some (JArr cs)" "map_of kvs ''failed'' = Some (JArr bs)"
    and ids: "id_entries cs ps" "id_entries bs fs" and "mset (ps @ fs) = mset (map fst dests)"
    by (auto simp: funding_reply_def)
  with Some show ?thesis
    by (simp add: read_ids_entries [OF ids(1)] read_ids_entries [OF ids(2)] construct_result_def json_find_def json_elems_def json_get_def json_size_def)
qed

subsection \<open>From the settings to the funding request\<close>

text \<open>C2: The funding request of a cycle: what is sent to \<open>multifundchannel\<close> adds up to no more than
  the amount requested, each destination is a candidate with which neither check found a channel,
  and gets a whole number of satoshis within the configured limits.\<close>

theorem cycle_funding_within_limits:
  assumes s: "settings_ok s" "settings_sane s" "1000 dvd amt (as_min_channel s)"
    and a: "amt a < 2 ^ 53" and d: "distinct (map fst (ce_candidates e))"
    and draw: "\<And>b. ce_draw e b \<le> b"
    and cyc: "on_request_channel_creation m m1 (on_amount_settings s m2) a e = Inr (CyclePlanned p)"
    and fund: "construct_fund reply p = Inr (fails, Some dests)"
  shows "plan_sum dests \<le> amt a
    \<and> (\<forall>(n, b) \<in> set dests. n \<in> fst ` set (ce_candidates e) \<and> 1000 dvd amt b
         \<and> as_min_channel s \<le> b \<and> b \<le> as_max_channel s
         \<and> (\<forall>res. reply = Some res \<or> ce_listpeerchannels e = Some res \<longrightarrow> n \<notin> channeled_peers res))"
proof -
  obtain k ps where ps: "order_proposals (mg_rpc m) (mg_prefer_spliceable m1) e = Inr ps"
    and good: "plan_good a k (as_min_channel s) (as_max_channel s) (as_min_remaining s) ps p"
    using cycle_planned_good [OF s(1,2) a d draw cyc] .
  have "plan_sum dests \<le> amt a"
    using construct_fund_sum [OF fund] good by (simp add: plan_good_def)
  moreover have "n \<in> fst ` set (ce_candidates e) \<and> 1000 dvd amt b \<and> as_min_channel s \<le> b \<and> b \<le> as_max_channel s
      \<and> (\<forall>res. reply = Some res \<or> ce_listpeerchannels e = Some res \<longrightarrow> n \<notin> channeled_peers res)"
    if nb: "(n, b) \<in> set dests" for n b
  proof -
    obtain b0 res where b0: "(n, b0) \<in> set p" "b0 \<noteq> 0" "b = rounddown_to_sat b0" "reply = Some res"
      "n \<notin> channeled_peers res"
      using construct_fund_funded [OF fund nb] .
    have lim: "amt (as_min_channel s) \<le> amt b0" "amt b0 \<le> amt (as_max_channel s)"
      using good b0(1,2) by (auto simp: plan_good_def amount_le_iff)
    obtain q where q: "amt (as_min_channel s) = 1000 * q" using s(3) by (elim dvdE)
    have "amt (as_min_channel s) \<le> amt b0 div 1000 * 1000" using lim(1) q by simp
    moreover have "amt b0 div 1000 * 1000 \<le> amt (as_max_channel s)"
      using lim(2) div_times_less_eq_dividend le_trans by blast
    moreover have "n \<in> keys p" using b0(1) by force
    then have "n \<in> keys ps" using good by (auto simp: plan_good_def)
    then obtain pr where pr: "pr \<in> set ps" "fst pr = n" by auto
    note u = order_proposals_unchanneled [OF ps pr(1)]
    ultimately show ?thesis
      using b0(3-5) u pr(2) by (auto simp: amount_le_iff amt_rounddown)
  qed
  ultimately show ?thesis by blast
qed

text \<open>When \<open>multifundchannel\<close> answers as documented, or fails altogether, every node of the plan is
  reported exactly once, as created or as failed: a node the planner rejected, one that turned
  out to have a channel already and one that was funded alike.\<close>

theorem construct_reports_all:
  assumes fund: "construct_fund reply p = Inr (fails0, Some dests)"
    and answer: "funding_reply dests (multifundchannel dests)"
  shows "\<exists>fails passes. construct True reply multifundchannel p = Inr (fails, passes, Some dests)
    \<and> mset (fails @ passes) = mset (map fst p)"
proof -
  obtain passes fails where "construct_result (multifundchannel dests) dests = Inr (passes, fails)"
    and m: "mset (passes @ fails) = mset (map fst dests)"
    using construct_result_reply [OF answer] by blast
  then have "construct True reply multifundchannel p = Inr (fails0 @ fails, passes, Some dests)"
    by (simp add: construct_def fund)
  moreover have "mset ((fails0 @ fails) @ passes) = mset (map fst p)"
    using construct_fund_partition [OF fund] m by (simp add: ac_simps)
  ultimately show ?thesis by blast
qed

subsection \<open>One cycle at a time\<close>

text \<open>The manager with the amounts of the cycles that are running.\<close>

inductive manager_step :: "manager \<times> amount list \<Rightarrow> manager \<times> amount list \<Rightarrow> bool" where
  option: "manager_step (m, cs) (fst (manager_on_option name v m), cs)"
| settings: "manager_step (m, cs) (on_amount_settings s m, cs)"
| init: "manager_step (m, cs) (manager_on_init offline m, cs)"
| request: "manager_on_request a m = (m', started) \<Longrightarrow>
    manager_step (m, cs) (m', (case started of None \<Rightarrow> cs | Some b \<Rightarrow> b # cs))"
| cycle_end: "manager_step (m, c # cs) (manager_cycle_end m, cs)"

inductive_cases manager_step_cases: "manager_step st st'"

lemma manager_step_running:
  assumes "manager_step st st'" "length (snd st) = (if mg_cycle_running (fst st) then 1 else 0)"
  shows "length (snd st') = (if mg_cycle_running (fst st') then 1 else 0)"
  using assms
  by cases (auto simp: manager_on_option_def on_amount_settings_def manager_on_init_def
      manager_on_request_def manager_cycle_end_def split: if_splits json.splits)

text \<open>Whatever messages arrive, at most one cycle of channel creation runs at a time, and the flag
  is set exactly while one does: it is never left set after a cycle has ended.\<close>

theorem one_cycle_at_a_time:
  assumes "manager_step\<^sup>*\<^sup>* (m, []) (m', cs)" "\<not> mg_cycle_running m"
  shows "length cs = (if mg_cycle_running m' then 1 else 0)"
proof -
  have "length (snd st) = (if mg_cycle_running (fst st) then 1 else 0)"
    if "manager_step\<^sup>*\<^sup>* (m, []) st" for st
    using that assms(2) by (induction rule: rtranclp_induct) (simp_all add: manager_step_running)
  from this [OF assms(1)] show ?thesis by simp
qed

subsection \<open>An example\<close>

definition ex_settings :: amount_settings where
  "ex_settings = \<lparr>as_min_channel = amount_sat 500000, as_max_channel = amount_sat 100000000,
     as_reserve = amount_sat 100000, as_min_amount = amount_sat 1000000,
     as_min_remaining = amount_sat 1050000\<rparr>"

definition ex_manager :: manager where
  "ex_manager = \<lparr>mg_min_amount = 0, mg_max_amount = 0, mg_min_remaining = 0, mg_prefer_spliceable = True,
     mg_offline = False, mg_rpc = True, mg_cycle_running = False\<rparr>"

definition ex_candidate :: proposal where
  "ex_candidate = (NodeId (Some (replicate 33 2)), NodeId None)"

definition ex_listpeers :: json where
  "ex_listpeers = JObj [(''peers'', JArr [])]"

definition ex_env :: cycle_env where
  "ex_env = \<lparr>ce_getinfo = Some (JObj [(''num_pending_channels'', JNum 0), (''num_active_channels'', JNum 2)]),
     ce_candidates = [ex_candidate], ce_listpeerchannels = Some (JObj [(''channels'', JArr [])]),
     ce_dowser = (\<lambda>_ _. amount_sat 1000000), ce_listpeers = Some ex_listpeers,
     ce_node_reply = (\<lambda>_. Some (JObj [(''nodes'', JArr [])])), ce_records = Map.empty,
     ce_listnodes = (\<lambda>_. None), ce_draw = (\<lambda>b. b), ce_sha = id, ce_salted_hash = hash_from_buffer,
     ce_pton4 = (\<lambda>_. None), ce_pton6 = (\<lambda>_. None)\<rparr>"

lemma ex_settings_ok: "settings_ok ex_settings" "settings_sane ex_settings"
  "1000 dvd amt (as_min_channel ex_settings)"
  by (simp_all add: settings_ok_def settings_sane_def ex_settings_def amount_le_iff amt_plus
      amt_constants amount_sat_def)

lemma ex_no_channels: "channeled_peers (JObj [(''channels'', JArr [])]) = {}"
  by (simp add: channeled_peers_def)

lemma ex_order: "order_proposals True pref ex_env = Inr [ex_candidate]"
proof -
  have "get_peers True (ce_listpeers ex_env) = Inr []"
    by (simp add: get_peers_def ex_env_def ex_listpeers_def json_find_def json_elems_def)
  moreover have "mset (prioritize_by_track_record Map.empty pref (\<lambda>_. None)
      (reprioritize (node_bin True ex_env) [] (rearrange_by_size (\<lambda>_ _. amount_sat 1000000) [ex_candidate])))
    = {#ex_candidate#}"
    by (simp add: mset_track_record mset_reprioritize mset_rearrange)
  moreover have "rearrange_by_size (\<lambda>_ _. amount_sat 1000000) [ex_candidate] = [ex_candidate]"
    using mset_rearrange [of "\<lambda>_ _. amount_sat 1000000" "[ex_candidate]"] by simp
  ultimately show ?thesis
    by (simp add: order_proposals_def reprioritize_run_def drop_channeled_run_def track_record_run_def)
       (simp add: ex_env_def drop_channeled_def ex_no_channels node_addr_def get_node_addr_def split: sum.splits)
qed

lemma ex_num_channels: "num_channels (ce_getinfo ex_env) = Inr 2"
  using fl_nat [of 2] by (simp add: num_channels_def ex_env_def json_get_def json_double_def trunc_double_def)

lemma ex_cycle: "on_request_channel_creation (on_amount_settings ex_settings ex_manager) ex_manager
      (on_amount_settings ex_settings ex_manager) (amount_sat 1000000) ex_env
    = Inr (CyclePlanned [(fst ex_candidate, amount_sat 1000000)])"
proof -
  let ?cfg = "\<lparr>pl_total = amount_sat 1000000, pl_at_least_2 = False, pl_min = amount_sat 500000,
     pl_max = amount_sat 100000000, pl_min_remaining = amount_sat 1050000\<rparr>"
  have d: "amount_mul (amount_sat 500000) 2 = amount_sat 1000000"
    using amt_double [of "amount_sat 500000"] by (simp add: amount_eq_iff) (simp add: amount_sat_def)
  have sm: "amount_sat 500000 + amount_sat 1050000 \<le> amount_sat 100000000"
    by (simp add: amount_le_iff amt_plus amount_sat_def)
  have cfg: "planner_new (amount_sat 1000000) 2 (amount_sat 500000) (amount_sat 100000000) (amount_sat 1050000) = Inr ?cfg"
    using sm by (simp add: planner_new_def d)
  have cmp: "\<not> amount_sat 1000000 < amount_sat 500000" "\<not> amount_sat 1000000 > amount_sat 100000000"
    "\<not> amount_sat 500000 + amount_sat 1050000 > amount_sat 100000000" "amount_sat 1000000 - amount_sat 1000000 = amount_sat 0"
    by (simp_all add: amount_order amt_plus amount_sat_def)
  have "planner_run (\<lambda>_ _. amount_sat 1000000) (\<lambda>b. b) ?cfg [ex_candidate] = Inr [(fst ex_candidate, amount_sat 1000000)]"
    by (simp add: planner_run_def ex_candidate_def plan_share_def cmp check_results_def add_rejected_def)
  then show ?thesis
    by (simp add: on_request_channel_creation_def ex_order ex_num_channels d cmp cfg on_amount_settings_def
        ex_settings_def ex_manager_def) (simp add: ex_env_def cfg)
qed

theorem cycle_funding_within_limits_witness:
  "plan_sum [(fst ex_candidate, amount_sat 1000000)] \<le> amt (amount_sat 1000000)
   \<and> as_min_channel ex_settings \<le> amount_sat 1000000"
proof -
  let ?p = "[(fst ex_candidate, amount_sat 1000000)]"
  let ?r = "JObj [(''channels'', JArr [])]"
  have f: "construct_fund (Some ?r) ?p = Inr ([], Some ?p)"
    by (simp add: construct_fund_def Let_def ex_no_channels amount_sat_def rounddown_to_sat_def amount_msat_def)
  have "amt (amount_sat 1000000) < 2 ^ 53" "distinct (map fst (ce_candidates ex_env))" "\<And>b. ce_draw ex_env b \<le> b"
    by (simp_all add: amount_sat_def ex_env_def)
  from cycle_funding_within_limits [OF ex_settings_ok this ex_cycle f] show ?thesis by simp
qed

theorem construct_reports_all_witness:
  "\<exists>fails passes. construct True (Some (JObj [(''channels'', JArr [])])) (\<lambda>_. None)
       [(NodeId None, amount_sat 0), (fst ex_candidate, amount_sat 1000000)]
     = Inr (fails, passes, Some [(fst ex_candidate, amount_sat 1000000)])
   \<and> mset (fails @ passes) = {#NodeId None, fst ex_candidate#}"
proof -
  let ?p = "[(NodeId None, amount_sat 0), (fst ex_candidate, amount_sat 1000000)]"
  have "construct_fund (Some (JObj [(''channels'', JArr [])])) ?p
      = Inr ([NodeId None], Some [(fst ex_candidate, amount_sat 1000000)])"
    by (simp add: construct_fund_def Let_def ex_no_channels amount_sat_def rounddown_to_sat_def amount_msat_def)
  from construct_reports_all [OF this, of "\<lambda>_. None"] show ?thesis by (simp add: funding_reply_def)
qed

theorem one_cycle_at_a_time_witness:
  "length [amount_sat 5] = (if mg_cycle_running (ex_manager\<lparr>mg_cycle_running := True\<rparr>) then 1 else 0)"
proof (rule one_cycle_at_a_time)
  have "manager_on_request (amount_sat 5) ex_manager
      = (ex_manager\<lparr>mg_cycle_running := True\<rparr>, Some (amount_sat 5))"
    by (simp add: manager_on_request_def ex_manager_def)
  from manager_step.request [OF this, of "[]"]
  show "manager_step\<^sup>*\<^sup>* (ex_manager, []) (ex_manager\<lparr>mg_cycle_running := True\<rparr>, [amount_sat 5])"
    by (simp add: r_into_rtranclp)
qed (simp add: ex_manager_def)

end
