(* ===== verification/Channel_Decider.thy ===== *)
theory Channel_Decider
  imports Amount_Settings
begin

text \<open>
  \<open>src/Boss/Mod/ChannelCreationDecider.cpp\<close>: deciding, each time the onchain funds are announced,
  whether to ask for channels. State is what the last messages said; a decision consumes the
  announced funds.
\<close>

record decider =
  dc_low_fee :: "bool option"
  dc_channels :: "amount option"
  dc_onchain :: "amount option"
  dc_reserve :: amount
  dc_min_amount :: amount

datatype decision =
    Incomplete
  | SilentReserve
  | NeedsOnchainFunds amount
  | NeedTooLarge amount
  | RequestChannelCreation amount
  | HighFees

definition needs_reserve :: amount where "needs_reserve = amount_sat 30000"
definition max_needs_onchain :: amount where "max_needs_onchain = amount_btc (fl (10 / 100))"
definition onchain_percent_min :: double where "onchain_percent_min = 10"
definition onchain_percent_max :: double where "onchain_percent_max = 33"
definition max_onchain_holdoff :: amount where "max_onchain_holdoff = amount_sat 100000000"

definition decider_target :: "decider \<Rightarrow> amount \<Rightarrow> amount" where
  "decider_target d total_funds =
     (let t0 = amount_mul total_funds (fl (onchain_percent_min / 100));
          t1 = (if t0 < dc_min_amount d then dc_min_amount d else t0);
          t2 = (if t1 > max_onchain_holdoff then max_onchain_holdoff else t1)
      in t2 + dc_reserve d)"

definition decide_on :: "decider \<Rightarrow> bool \<Rightarrow> amount \<Rightarrow> amount \<Rightarrow> decision" where
  "decide_on d low_fee channels onchain =
     (let total_funds = channels + onchain in
      if onchain \<le> dc_reserve d then SilentReserve
      else let target = decider_target d total_funds in
        if onchain < target then
          (let more = (target + needs_reserve) - onchain
           in if more > max_needs_onchain then NeedTooLarge more else NeedsOnchainFunds more)
        else if low_fee then RequestChannelCreation (onchain - dc_reserve d)
        else if fl (amount_ratio onchain total_funds * 100) > onchain_percent_max
        then RequestChannelCreation (onchain - dc_reserve d)
        else HighFees)"

definition decider_run :: "decider \<Rightarrow> decider \<times> decision" where
  "decider_run d =
     (case (dc_low_fee d, dc_channels d, dc_onchain d) of
        (Some low_fee, Some channels, Some onchain) \<Rightarrow>
          (d\<lparr>dc_onchain := None\<rparr>, decide_on d low_fee channels onchain)
      | _ \<Rightarrow> (d, Incomplete))"

datatype decider_msg =
    ChannelFunds amount
  | OnchainFee bool
  | OnchainFunds amount
  | DeciderSettings amount_settings

definition decider_on :: "decider_msg \<Rightarrow> decider \<Rightarrow> decider \<times> decision" where
  "decider_on m d =
     (case m of
        ChannelFunds t \<Rightarrow> decider_run (d\<lparr>dc_channels := Some t\<rparr>)
      | OnchainFee low \<Rightarrow> decider_run (d\<lparr>dc_low_fee := Some low\<rparr>)
      | OnchainFunds o' \<Rightarrow> decider_run (d\<lparr>dc_onchain := Some o'\<rparr>)
      | DeciderSettings s \<Rightarrow> (d\<lparr>dc_reserve := as_reserve s, dc_min_amount := as_min_amount s\<rparr>, Incomplete))"

subsection \<open>Properties\<close>

lemma decider_target_ge:
  assumes "amt (dc_reserve d) < 2 ^ 63"
  shows "amt (decider_target d t) \<ge> min (amt (dc_min_amount d)) (amt max_onchain_holdoff) + amt (dc_reserve d)"
proof -
  let ?t2 = "let t0 = amount_mul t (fl (onchain_percent_min / 100));
          t1 = (if t0 < dc_min_amount d then dc_min_amount d else t0)
      in if t1 > max_onchain_holdoff then max_onchain_holdoff else t1"
  have h: "amt max_onchain_holdoff = 100000000000" by (simp add: max_onchain_holdoff_def amount_sat_def)
  have lo: "min (amt (dc_min_amount d)) (amt max_onchain_holdoff) \<le> amt ?t2"
    by (auto simp: Let_def amount_less_iff)
  have hi: "amt ?t2 \<le> amt max_onchain_holdoff" by (auto simp: Let_def amount_less_iff)
  have "amt (decider_target d t) = amt ?t2 + amt (dc_reserve d)"
    using hi h assms by (simp add: decider_target_def Let_def amt_plus)
  then show ?thesis using lo by simp
qed

text \<open>A request for channels is only ever made for the announced onchain funds less the reserve,
  those funds are consumed by it, and the request is at least the smaller of the configured
  minimum and one bitcoin.\<close>

theorem decider_request_amount:
  assumes "decider_on m d = (d', RequestChannelCreation a)" "amt (dc_reserve d) < 2 ^ 63"
  shows "\<exists>onchain. dc_onchain d' = None \<and> (dc_onchain d = Some onchain \<or> m = OnchainFunds onchain)
    \<and> amt onchain = amt a + amt (dc_reserve d)
    \<and> min (amt (dc_min_amount d)) (amt max_onchain_holdoff) \<le> amt a"
proof -
  have "\<exists>e. decider_run e = (d', RequestChannelCreation a) \<and> dc_reserve e = dc_reserve d
      \<and> dc_min_amount e = dc_min_amount d
      \<and> (\<forall>x. dc_onchain e = Some x \<longrightarrow> dc_onchain d = Some x \<or> m = OnchainFunds x)"
  proof (cases m)
    case (ChannelFunds t)
    then show ?thesis using assms(1) by (intro exI [of _ "d\<lparr>dc_channels := Some t\<rparr>"]) (simp add: decider_on_def)
  next
    case (OnchainFee l)
    then show ?thesis using assms(1) by (intro exI [of _ "d\<lparr>dc_low_fee := Some l\<rparr>"]) (simp add: decider_on_def)
  next
    case (OnchainFunds t)
    then show ?thesis using assms(1) by (intro exI [of _ "d\<lparr>dc_onchain := Some t\<rparr>"]) (simp add: decider_on_def)
  qed (use assms(1) in \<open>simp add: decider_on_def\<close>)
  then obtain e where run: "decider_run e = (d', RequestChannelCreation a)"
    and e: "dc_reserve e = dc_reserve d" "dc_min_amount e = dc_min_amount d"
    and src0: "\<forall>x. dc_onchain e = Some x \<longrightarrow> dc_onchain d = Some x \<or> m = OnchainFunds x"
    by blast
  from run obtain low ch onchain where dec: "decide_on e low ch onchain = RequestChannelCreation a"
    and o: "dc_onchain e = Some onchain" "dc_onchain d' = None"
    by (auto simp: decider_run_def split: option.splits)
  have src: "dc_onchain d = Some onchain \<or> m = OnchainFunds onchain" using src0 o(1) by blast
  have a: "a = onchain - dc_reserve e" "\<not> onchain \<le> dc_reserve e" "\<not> onchain < decider_target e (ch + onchain)"
    using dec by (auto simp: decide_on_def Let_def split: if_splits)
  have "amt (decider_target e (ch + onchain)) \<le> amt onchain" using a(3) by (simp add: amount_less_iff)
  then have "min (amt (dc_min_amount d)) (amt max_onchain_holdoff) + amt (dc_reserve d) \<le> amt onchain"
    using decider_target_ge [of e "ch + onchain"] e assms(2) by simp
  then show ?thesis using a src e o(2) by (auto simp: amount_le_iff)
qed

lemma ex_decider: "decider_on (OnchainFunds (amount_sat 3000000))
    \<lparr>dc_low_fee = Some True, dc_channels = Some (amount_sat 0), dc_onchain = None,
     dc_reserve = amount_sat 30000, dc_min_amount = amount_sat 1000000\<rparr>
   = (\<lparr>dc_low_fee = Some True, dc_channels = Some (amount_sat 0), dc_onchain = None,
     dc_reserve = amount_sat 30000, dc_min_amount = amount_sat 1000000\<rparr>,
     RequestChannelCreation (amount_sat 2970000))"
proof -
  have d: "double_of_u64 3000000000 = 3000000000" by (simp add: double_of_u64_small)
  have "fl (3000000000 * fl (10 / 100)) = 300000000" by code_simp
  then have "amount_mul (amount_sat 3000000) (fl (10 / 100)) = amount_sat 300000"
    by (simp add: amount_mul_def amount_sat_def d amount_of_scaled_def double_of_u64_max)
  then show ?thesis
    by (simp add: decider_on_def decider_run_def decide_on_def decider_target_def Let_def
        onchain_percent_min_def amount_order amt_plus amount_sat_def max_onchain_holdoff_def
        plus_amount_def amount_add_def minus_amount_def amount_sub_def)
qed

theorem decider_request_amount_witness:
  "\<exists>d a. decider_on (OnchainFunds (amount_sat 3000000)) d = (d, RequestChannelCreation a)
    \<and> amt a = 2970000000 \<and> amt (dc_min_amount d) \<le> amt a"
proof -
  let ?d = "\<lparr>dc_low_fee = Some True, dc_channels = Some (amount_sat 0), dc_onchain = None,
     dc_reserve = amount_sat 30000, dc_min_amount = amount_sat 1000000\<rparr>"
  have "amt (dc_reserve ?d) < 2 ^ 63" by (simp add: amount_sat_def)
  from decider_request_amount [OF ex_decider this]
  have "min (amt (dc_min_amount ?d)) (amt max_onchain_holdoff) \<le> amt (amount_sat 2970000)" by blast
  then have "amt (dc_min_amount ?d) \<le> amt (amount_sat 2970000)"
    by (simp add: max_onchain_holdoff_def amount_sat_def)
  moreover have "amt (amount_sat 2970000) = 2970000000" by (simp add: amount_sat_def)
  ultimately show ?thesis using ex_decider by blast
qed

end
