(* ===== verification/Amount_Json.thy ===== *)
theory Amount_Json
  imports Ln_Amount Jsmn_Object
begin

text \<open>
  \<open>Amount::valid_object\<close> and \<open>Amount::object\<close> of \<open>src/Ln/Amount.cpp\<close>: amounts in replies of the node,
  which are numbers in new releases and strings in old ones.
\<close>

definition amount_valid_object :: "json \<Rightarrow> bool" where
  "amount_valid_object j =
     (case j of JNum _ \<Rightarrow> True | JStr s \<Rightarrow> amount_valid_string s | _ \<Rightarrow> False)"

definition amount_object :: "json \<Rightarrow> amount result" where
  "amount_object j =
     (case j of
        JNum d \<Rightarrow> Inr (amount_msat (of_int (trunc_double d)))
      | JStr s \<Rightarrow> amount_of_string s
      | _ \<Rightarrow> Inl (InvalidArgument ''Ln::Amount json object invalid.''))"

lemma amount_object_valid: "amount_valid_object j \<longleftrightarrow> is_ok (amount_object j)"
  by (auto simp: amount_valid_object_def amount_object_def amount_of_string_def split: json.splits)

lemma amount_object_throws: "amount_object j = Inl e \<Longrightarrow> e \<noteq> JsonTypeError"
  by (auto simp: amount_object_def amount_of_string_def split: json.splits if_splits)

end
