(* ===== verification/Channel_Balance.thy ===== *)
theory Channel_Balance
  imports Amount_Json
begin

text \<open>
  \<open>src/Boss/Mod/ChannelBalance.cpp\<close>: our share and the size of a channel in a reply of the node, less what a pending
  splice takes out of it. Both the swapper that balances the node and the fee modifier by balance
  read channels through it.
\<close>

text \<open>The lowest of the \<open>splice_amount\<close>s of the pending fundings, and the total that goes with it.\<close>

definition lowest_splice :: "json list \<Rightarrow> int \<times> json" where
  "lowest_splice inflights =
     fold (\<lambda>inflight (lowest, total). case inflight of
         JObj kvs \<Rightarrow>
           (case map_of kvs ''splice_amount'' of
              Some (JNum d) \<Rightarrow>
                (if trunc_double d \<ge> lowest then (lowest, total)
                 else (trunc_double d, case map_of kvs ''total_funding_msat'' of None \<Rightarrow> JNull | Some t \<Rightarrow> t))
            | _ \<Rightarrow> (lowest, total))
       | _ \<Rightarrow> (lowest, total)) inflights (0, JNull)"

definition channel_balance :: "json \<Rightarrow> (amount \<times> amount) result" where
  "channel_balance channel =
     rbind (rbind (json_get channel ''to_us_msat'') amount_object) (\<lambda>to_us.
     rbind (rbind (json_get channel ''total_msat'') amount_object) (\<lambda>total.
     rbind (json_get channel ''inflight'') (\<lambda>inflights.
       case inflights of
         JArr xs \<Rightarrow>
           (let (lowest, lowest_total) = lowest_splice xs in
            if lowest \<ge> 0 then Inr (to_us, total)
            else let out = amount_sat (of_int (- lowest)) in
              if lowest_total = JNull then Inr (to_us - out, total - out)
              else rbind (amount_object lowest_total) (\<lambda>t. Inr (to_us - out, t)))
       | _ \<Rightarrow> Inr (to_us, total))))"

text \<open>Our share is never more than reported, and a pending splice only ever takes from it.\<close>

lemma channel_balance_le:
  assumes "channel_balance channel = Inr (to_us, tot)"
  shows "\<exists>a. rbind (json_get channel ''to_us_msat'') amount_object = Inr a \<and> to_us \<le> a"
  using assms unfolding channel_balance_def
  by (auto simp: Let_def amount_le_iff elim!: rbind_InrE split: json.splits prod.splits if_splits)

end
