(* ===== verification/Swapper.thy ===== *)
theory Swapper
  imports Channel_Balance
begin

text \<open>
  \<open>src/Boss/ModG/Swapper.cpp\<close>, the base of the modules that ask for offchain-to-onchain swaps, the two
  such modules \<open>NeedsOnchainFundsSwapper.cpp\<close> and \<open>NodeBalanceSwapper.cpp\<close>.
  A swapper keeps one row in the database: the id of the swap it waits for (empty for none), the
  height until which it asks for no other, and the height after which it forgets the one it waits
  for. Both modules also remember whether onchain fees are low. The text that explains the last
  decision is left out.
\<close>

subsection \<open>The generic swapper\<close>

record swapper_row =
  sr_uuid :: string
  sr_blocked_until :: u32
  sr_forget_after :: u32

record swapper =
  sp_db :: bool
  sp_height :: "u32 option"
  sp_row :: "swapper_row option"
  sp_fees_low :: "bool option"

record swap_request =
  rq_id :: string
  rq_min_offchain_amount :: amount
  rq_max_offchain_amount :: amount

definition ignored_blocks :: u32 where "ignored_blocks = 6"
definition swap_timeout :: u32 where "swap_timeout = 432"
definition swap_min_amount :: amount where "swap_min_amount = amount_btc (fl (1 / 1000))"

definition swapper_dbinit :: "swapper_row option \<Rightarrow> swapper_row" where
  "swapper_dbinit row =
     (case row of
        None \<Rightarrow> \<lparr>sr_uuid = [], sr_blocked_until = 0, sr_forget_after = 5000000\<rparr>
      | Some r \<Rightarrow> r)"

definition swapper_on_db :: "swapper \<Rightarrow> swapper" where
  "swapper_on_db s = s\<lparr>sp_db := True, sp_row := Some (swapper_dbinit (sp_row s))\<rparr>"

definition on_swap_response :: "string \<Rightarrow> swapper \<Rightarrow> swapper" where
  "on_swap_response u s =
     (let s1 = (if sp_db s then s else s\<lparr>sp_row := Some (swapper_dbinit (sp_row s))\<rparr>) in
      case sp_row s1 of
        None \<Rightarrow> s1
      | Some r \<Rightarrow>
          if sr_uuid r \<noteq> u then s1
          else let blocked = (case sp_height s of
                                Some h \<Rightarrow> (let proposed = h + ignored_blocks
                                           in if proposed > sr_blocked_until r then proposed
                                              else sr_blocked_until r)
                              | None \<Rightarrow> sr_blocked_until r + ignored_blocks)
               in s1\<lparr>sp_row := Some \<lparr>sr_uuid = [], sr_blocked_until = blocked, sr_forget_after = 5000000\<rparr>\<rparr>)"

definition swapper_on_block :: "u32 \<Rightarrow> swapper \<Rightarrow> swapper" where
  "swapper_on_block h s =
     (let s1 = s\<lparr>sp_height := Some h\<rparr> in
      if \<not> sp_db s then s1
      else s1\<lparr>sp_row := map_option (\<lambda>r. if sr_forget_after r < h
               then r\<lparr>sr_uuid := [], sr_forget_after := 5000000\<rparr> else r) (sp_row s)\<rparr>)"

text \<open>What the policy of a derived module answers: whether to swap, and how much.\<close>

definition continue_swap :: "bool \<times> amount \<Rightarrow> string \<Rightarrow> u32 \<Rightarrow> swapper_row \<Rightarrow> swapper_row \<times> swap_request option" where
  "continue_swap policy swapUuid h r =
     (if \<not> (sr_uuid r = [] \<and> sr_blocked_until r < h) then (r, None)
      else let blocked = h + ignored_blocks; (good, amt) = policy in
        if \<not> good \<or> amt = amount_sat 0 then (r\<lparr>sr_blocked_until := blocked\<rparr>, None)
        else (\<lparr>sr_uuid = swapUuid, sr_blocked_until = blocked, sr_forget_after = h + swap_timeout\<rparr>,
              Some \<lparr>rq_id = swapUuid, rq_min_offchain_amount = swap_min_amount,
                    rq_max_offchain_amount = (if amt < swap_min_amount then swap_min_amount else amt)\<rparr>))"

definition trigger_swap :: "bool \<Rightarrow> bool \<times> amount \<Rightarrow> string \<Rightarrow> swapper \<Rightarrow> swapper \<times> swap_request option" where
  "trigger_swap ignore policy swapUuid s =
     (if \<not> sp_db s then (s, None)
      else case sp_height s of
        None \<Rightarrow> (s, None)
      | Some h \<Rightarrow>
          if ignore then (s, None)
          else case sp_row s of
            None \<Rightarrow> (s, None)
          | Some r \<Rightarrow> (let (r', rq) = continue_swap policy swapUuid h r in (s\<lparr>sp_row := Some r'\<rparr>, rq)))"

subsection \<open>Needing onchain funds\<close>

definition max_needed :: amount where "max_needed = amount_btc (fl (1 / 100))"

definition needs_policy :: "bool \<Rightarrow> amount \<Rightarrow> bool \<times> amount" where
  "needs_policy fees_low needed =
     (if \<not> fees_low then (False, amount_sat 0)
      else if needed > max_needed then (False, amount_sat 0)
      else (True, amount_mul needed (fl (112 / 100))))"

definition on_onchain_fee :: "bool \<Rightarrow> swapper \<Rightarrow> swapper" where
  "on_onchain_fee low s = s\<lparr>sp_fees_low := Some low\<rparr>"

text \<open>A handler passes on its policy as a closure. It is called at the end of \<open>trigger_swap\<close>, in the
  state reached by then, and reads there whether fees are low: a fee message that arrives while the
  ignore flag is asked for counts. That the database and a height are known is checked before.\<close>

type_synonym swap_policy = "bool \<Rightarrow> bool \<times> amount"

definition swap_ready :: "swapper \<Rightarrow> bool" where
  "swap_ready s \<longleftrightarrow> sp_db s \<and> sp_height s \<noteq> None"

definition decide_swap :: "swap_policy \<Rightarrow> bool \<Rightarrow> string \<Rightarrow> swapper \<Rightarrow> (swapper \<times> swap_request option) result" where
  "decide_swap f ignore swapUuid s =
     (case sp_fees_low s of
        None \<Rightarrow> Inl UndefinedBehaviour
      | Some low \<Rightarrow> Inr (trigger_swap ignore (f low) swapUuid s))"

definition on_needs_onchain_funds :: "amount \<Rightarrow> swapper \<Rightarrow> swap_policy option" where
  "on_needs_onchain_funds needed s =
     (if sp_fees_low s = None \<or> \<not> swap_ready s then None else Some (\<lambda>low. needs_policy low needed))"

subsection \<open>Balancing the node\<close>

fun sub_htlcs :: "amount \<Rightarrow> json list \<Rightarrow> amount result" where
  "sub_htlcs their [] = Inr their"
| "sub_htlcs their (h # hs) =
     rbind (rbind (json_get h ''amount_msat'') amount_object) (\<lambda>a. sub_htlcs (their - a) hs)"

definition compute_sendable_receivable :: "json \<Rightarrow> (amount \<times> amount) result" where
  "compute_sendable_receivable c =
     rbind (channel_balance c) (\<lambda>(to_us, total).
     rbind (rbind (json_find c ''htlcs'') json_elems) (\<lambda>htlcs.
     rbind (sub_htlcs (total - to_us) htlcs) (\<lambda>their.
     rbind (rbind (json_get c ''our_reserve_msat'') amount_object) (\<lambda>our_reserve.
     rbind (rbind (json_get c ''their_reserve_msat'') amount_object) (\<lambda>their_reserve.
       Inr (to_us - our_reserve, their - their_reserve))))))"

fun balance_totals :: "amount \<times> amount \<Rightarrow> json list \<Rightarrow> (amount \<times> amount) result" where
  "balance_totals acc [] = Inr acc"
| "balance_totals (total_send, total_recv) (chan # chans) =
     rbind (rbind (json_get chan ''state'') json_string) (\<lambda>state.
       if state \<noteq> ''CHANNELD_NORMAL'' \<and> state \<noteq> ''CHANNELD_AWAITING_SPLICE''
       then balance_totals (total_send, total_recv) chans
       else rbind (compute_sendable_receivable chan) (\<lambda>(send, recv).
              balance_totals (total_send + send, total_recv + recv) chans))"

definition min_receivable_percent :: double where "min_receivable_percent = 35"
definition min_receivable_percent_highfees :: double where "min_receivable_percent_highfees = 5 / 2"

definition recv_percent :: "amount \<Rightarrow> amount \<Rightarrow> double" where
  "recv_percent total_send total_recv = fl (amount_ratio total_recv (total_recv + total_send) * 100)"

definition balance_policy :: "bool \<Rightarrow> amount \<Rightarrow> amount \<Rightarrow> bool \<times> amount" where
  "balance_policy fees_low total_send total_recv =
     (fees_low \<or> \<not> recv_percent total_send total_recv > min_receivable_percent_highfees,
      amount_div (amount_mul (total_send - total_recv) 2) 3)"

text \<open>Fees not known yet count as high until a fee message says otherwise. A type error is logged; any other exception
  leaves the handler.\<close>

definition on_listpeers_result :: "json list list \<Rightarrow> swapper \<Rightarrow> swapper \<times> swap_policy option result" where
  "on_listpeers_result cpeers s0 =
     (let s = (if sp_fees_low s0 = None then s0\<lparr>sp_fees_low := Some False\<rparr> else s0) in
      case balance_totals (amount_sat 0, amount_sat 0) (concat cpeers) of
        Inl e \<Rightarrow> (s, if e = JsonTypeError then Inr None else Inl e)
      | Inr (total_send, total_recv) \<Rightarrow>
          if total_recv = amount_sat 0 \<and> total_send = amount_sat 0 then (s, Inr None)
          else if recv_percent total_send total_recv \<ge> min_receivable_percent then (s, Inr None)
          else if \<not> swap_ready s then (s, Inr None)
          else (s, Inr (Some (\<lambda>fees_low. balance_policy fees_low total_send total_recv))))"

subsection \<open>Runs of a swapper\<close>

datatype sw_event =
    EvRequest u32 swap_request
  | EvResponse string
  | EvBlock u32
  | EvOther

fun is_request :: "sw_event \<Rightarrow> bool" where
  "is_request (EvRequest _ _) = True"
| "is_request _ = False"

text \<open>A log from its last request on, if there is one.\<close>

definition from_request :: "sw_event list \<Rightarrow> sw_event list" where
  "from_request es = dropWhile (\<lambda>e. \<not> is_request e) es"

text \<open>Heights leave room for the timeout below the end of 32 bits. The log has the newest event
  first. A restart keeps the row.\<close>

definition height_ok :: "u32 \<Rightarrow> bool" where
  "height_ok h = (unat h + 444 < 2 ^ 32)"

inductive sw_step :: "swapper \<times> sw_event list \<Rightarrow> swapper \<times> sw_event list \<Rightarrow> bool" where
  db: "sw_step (s, es) (swapper_on_db s, EvOther # es)"
| block: "height_ok h \<Longrightarrow> sw_step (s, es) (swapper_on_block h s, EvBlock h # es)"
| response: "u \<noteq> [] \<Longrightarrow> sw_step (s, es) (on_swap_response u s, EvResponse u # es)"
| fee: "sw_step (s, es) (on_onchain_fee low s, EvOther # es)"
| declined: "u \<noteq> [] \<Longrightarrow> trigger_swap ignore policy u s = (s', None) \<Longrightarrow> sw_step (s, es) (s', EvOther # es)"
| requests: "u \<noteq> [] \<Longrightarrow> trigger_swap ignore policy u s = (s', Some rq) \<Longrightarrow>
    sw_step (s, es) (s', EvRequest (the (sp_height s)) rq # es)"
| restart: "sw_step (s, es) (s\<lparr>sp_db := False, sp_height := None, sp_fees_low := None\<rparr>, EvOther # es)"

definition swapper_init :: swapper where
  "swapper_init = \<lparr>sp_db = False, sp_height = None, sp_row = None, sp_fees_low = None\<rparr>"

definition sw_reachable :: "swapper \<times> sw_event list \<Rightarrow> bool" where
  "sw_reachable w = sw_step\<^sup>*\<^sup>* (swapper_init, []) w"

text \<open>The last request of a log was answered after it was made, or a block came after its timeout.\<close>

fun settled :: "sw_event list \<Rightarrow> bool" where
  "settled [] = True"
| "settled (EvRequest h rq # es) = False"
| "settled (e # es) = (settled es \<or> (case from_request es of
       EvRequest h rq # _ \<Rightarrow> e = EvResponse (rq_id rq) \<or> (\<exists>h'. e = EvBlock h' \<and> unat h + 432 < unat h')
     | _ \<Rightarrow> True))"

fun spaced :: "sw_event list \<Rightarrow> bool" where
  "spaced [] = True"
| "spaced (EvRequest h rq # es) =
     (spaced es \<and> settled es
      \<and> (case from_request es of EvRequest h1 _ # _ \<Rightarrow> unat h1 + 6 < unat h | _ \<Rightarrow> True)
      \<and> rq_min_offchain_amount rq = Amount 100000000
      \<and> rq_min_offchain_amount rq \<le> rq_max_offchain_amount rq)"
| "spaced (e # es) = spaced es"

definition sw_inv :: "swapper \<Rightarrow> sw_event list \<Rightarrow> bool" where
  "sw_inv s es =
     (spaced es \<and> (\<forall>h. sp_height s = Some h \<longrightarrow> height_ok h)
      \<and> (sp_row s = None \<longrightarrow> filter is_request es = [])
      \<and> (\<forall>r. sp_row s = Some r \<longrightarrow>
          unat (sr_blocked_until r) < 2 ^ 32 - 432 \<and> (sr_uuid r \<noteq> [] \<longrightarrow> unat (sr_blocked_until r) < 2 ^ 32 - 438)
          \<and> (sr_uuid r = [] \<longrightarrow> settled es)
          \<and> (case from_request es of
               EvRequest h rq # _ \<Rightarrow> unat h + 6 \<le> unat (sr_blocked_until r)
                 \<and> (sr_uuid r \<noteq> [] \<longrightarrow> sr_uuid r = rq_id rq \<and> unat (sr_forget_after r) = unat h + 432)
             | _ \<Rightarrow> sr_uuid r = [])))"

lemma swap_min_amount: "swap_min_amount = Amount 100000000"
  unfolding swap_min_amount_def by code_simp

lemma log_simps [simp]:
  "\<not> is_request e \<Longrightarrow> spaced (e # es) = spaced es"
  "\<not> is_request e \<Longrightarrow> settled es \<Longrightarrow> settled (e # es)"
  by (cases e; simp)+

lemma from_request_simps [simp]:
  "from_request [] = []" "from_request (EvRequest h rq # es) = EvRequest h rq # es"
  "\<not> is_request e \<Longrightarrow> from_request (e # es) = from_request es"
  by (simp_all add: from_request_def)

lemma no_requests: "filter is_request es = [] \<Longrightarrow> from_request es = []"
  by (auto simp: filter_empty_conv from_request_def)

lemma no_requests_settled: "filter is_request es = [] \<Longrightarrow> settled es"
proof (induction es)
  case (Cons e es)
  then show ?case by (cases e) (simp_all add: no_requests)
qed simp

lemma height_plus:
  assumes "height_ok h"
  shows "unat (h + ignored_blocks) = unat h + 6" "unat (h + swap_timeout) = unat h + 432"
    "unat h + 6 < 2 ^ 32 - 438"
  using assms by (simp_all add: height_ok_def ignored_blocks_def swap_timeout_def unat_word_ariths)

lemma sw_inv_other:
  assumes "sw_inv s es" "\<not> is_request e" "sp_row s' = sp_row s"
    "\<And>h. sp_height s' = Some h \<Longrightarrow> height_ok h"
  shows "sw_inv s' (e # es)"
  using assms by (auto simp: sw_inv_def)

lemma sw_inv_dbinit:
  assumes "sw_inv s es"
  shows "sw_inv (s\<lparr>sp_row := Some (swapper_dbinit (sp_row s))\<rparr>) es"
proof (cases "sp_row s")
  case None
  then have "filter is_request es = []" using assms by (simp add: sw_inv_def)
  then show ?thesis using assms None
    by (simp add: sw_inv_def swapper_dbinit_def no_requests no_requests_settled)
next
  case (Some r)
  then show ?thesis using assms by (simp add: swapper_dbinit_def sw_inv_def)
qed

lemma sw_inv_response:
  assumes inv: "sw_inv s es" and u: "u \<noteq> []"
  shows "sw_inv (on_swap_response u s) (EvResponse u # es)"
proof -
  define s1 where "s1 = (if sp_db s then s else s\<lparr>sp_row := Some (swapper_dbinit (sp_row s))\<rparr>)"
  have inv1: "sw_inv s1 es" using inv sw_inv_dbinit [OF inv] by (simp add: s1_def)
  have h1: "sp_height s1 = sp_height s" by (simp add: s1_def)
  show ?thesis
  proof (cases "\<exists>r. sp_row s1 = Some r \<and> sr_uuid r = u")
    case False
    then have "on_swap_response u s = s1" by (auto simp: on_swap_response_def s1_def Let_def split: option.splits)
    then show ?thesis using sw_inv_other [OF inv1, of "EvResponse u" s1] inv1 by (auto simp: sw_inv_def)
  next
    case True
    then obtain r where r: "sp_row s1 = Some r" "sr_uuid r = u" by blast
    define b where "b = (case sp_height s of
        Some h \<Rightarrow> (let proposed = h + ignored_blocks in if proposed > sr_blocked_until r then proposed else sr_blocked_until r)
      | None \<Rightarrow> sr_blocked_until r + ignored_blocks)"
    have s': "on_swap_response u s = s1\<lparr>sp_row := Some \<lparr>sr_uuid = [], sr_blocked_until = b, sr_forget_after = 5000000\<rparr>\<rparr>"
      using r by (simp add: on_swap_response_def s1_def [symmetric] b_def Let_def)
    have ri: "unat (sr_blocked_until r) < 2 ^ 32 - 438"
      "case from_request es of
         EvRequest h rq # _ \<Rightarrow> unat h + 6 \<le> unat (sr_blocked_until r) \<and> u = rq_id rq | _ \<Rightarrow> False"
      using inv1 r u by (auto simp: sw_inv_def split: list.splits sw_event.splits)
    have b: "unat b < 2 ^ 32 - 432" "unat (sr_blocked_until r) \<le> unat b"
    proof -
      have "unat b < 2 ^ 32 - 432 \<and> unat (sr_blocked_until r) \<le> unat b"
      proof (cases "sp_height s")
        case None
        then show ?thesis using ri(1) by (simp add: b_def ignored_blocks_def unat_word_ariths)
      next
        case (Some h)
        then have "height_ok h" using inv by (simp add: sw_inv_def)
        with Some show ?thesis
          using ri(1) height_plus [of h] by (auto simp: b_def Let_def word_less_nat_alt)
      qed
      then show "unat b < 2 ^ 32 - 432" "unat (sr_blocked_until r) \<le> unat b" by blast+
    qed
    obtain h rq rest where d: "from_request es = EvRequest h rq # rest"
      and q: "unat h + 6 \<le> unat (sr_blocked_until r)" "u = rq_id rq"
      using ri(2) by (auto split: list.splits sw_event.splits)
    have "settled (EvResponse u # es)" using d q by simp
    moreover have "spaced es" "\<forall>h. sp_height s1 = Some h \<longrightarrow> height_ok h" using inv1 by (simp_all add: sw_inv_def)
    ultimately show ?thesis unfolding s' using b d q(1) by (simp add: sw_inv_def)
  qed
qed

lemma sw_inv_block:
  assumes inv: "sw_inv s es" and h: "height_ok h"
  shows "sw_inv (swapper_on_block h s) (EvBlock h # es)"
proof (cases "\<exists>r. sp_db s \<and> sp_row s = Some r \<and> sr_forget_after r < h")
  case False
  then have "sp_row (swapper_on_block h s) = sp_row s"
    by (cases "sp_row s") (auto simp: swapper_on_block_def Let_def)
  moreover have "sp_height (swapper_on_block h s) = Some h" by (simp add: swapper_on_block_def Let_def)
  ultimately show ?thesis using sw_inv_other [OF inv, of "EvBlock h" "swapper_on_block h s"] h by simp
next
  case True
  then obtain r where r: "sp_row s = Some r" "sr_forget_after r < h"
    and s': "swapper_on_block h s = s\<lparr>sp_height := Some h, sp_row := Some (r\<lparr>sr_uuid := [], sr_forget_after := 5000000\<rparr>)\<rparr>"
    by (auto simp: swapper_on_block_def Let_def)
  have "settled (EvBlock h # es)"
  proof (cases "sr_uuid r = []")
    case True
    then show ?thesis using inv r by (simp add: sw_inv_def)
  next
    case False
    then show ?thesis using inv r
      by (auto simp: sw_inv_def word_less_nat_alt split: list.splits sw_event.splits)
  qed
  then show ?thesis using inv r h by (auto simp: sw_inv_def s' split: list.splits sw_event.splits)
qed

lemma trigger_swap_cases:
  assumes "trigger_swap ignore policy u s = (s', out)"
  obtains "s' = s" "out = None"
  | h r where "sp_height s = Some h" "sp_row s = Some r" "sr_uuid r = []" "sr_blocked_until r < h"
      "s' = s\<lparr>sp_row := Some (r\<lparr>sr_blocked_until := h + ignored_blocks\<rparr>)\<rparr>" "out = None"
  | h r amt where "sp_height s = Some h" "sp_row s = Some r" "sr_uuid r = []" "sr_blocked_until r < h"
      "s' = s\<lparr>sp_row := Some \<lparr>sr_uuid = u, sr_blocked_until = h + ignored_blocks, sr_forget_after = h + swap_timeout\<rparr>\<rparr>"
      "out = Some \<lparr>rq_id = u, rq_min_offchain_amount = swap_min_amount,
         rq_max_offchain_amount = (if amt < swap_min_amount then swap_min_amount else amt)\<rparr>" "policy = (True, amt)"
proof (cases "sp_db s \<and> \<not> ignore")
  case False
  then show thesis using assms that(1) by (auto simp: trigger_swap_def split: option.splits if_splits)
next
  case True
  show thesis
  proof (cases "sp_height s"; cases "sp_row s")
    fix h r assume hr: "sp_height s = Some h" "sp_row s = Some r"
    obtain good amt where p: "policy = (good, amt)" by (cases policy)
    consider "\<not> (sr_uuid r = [] \<and> sr_blocked_until r < h)"
      | "sr_uuid r = []" "sr_blocked_until r < h" "\<not> good \<or> amt = amount_sat 0"
      | "sr_uuid r = []" "sr_blocked_until r < h" "good" "amt \<noteq> amount_sat 0" by blast
    then show thesis
    proof cases
      case 1
      then show thesis using assms True hr that(1) by (auto simp: trigger_swap_def continue_swap_def)
    next
      case 2
      then show thesis using assms True hr p that(2) [OF hr] by (auto simp: trigger_swap_def continue_swap_def Let_def)
    next
      case 3
      then show thesis using assms True hr p that(3) [OF hr, of amt]
        by (auto simp: trigger_swap_def continue_swap_def Let_def)
    qed
  qed (use assms that(1) in \<open>auto simp: trigger_swap_def split: option.splits if_splits\<close>)
qed

lemma sw_inv_declined:
  assumes inv: "sw_inv s es" and t: "trigger_swap ignore policy u s = (s', None)"
  shows "sw_inv s' (EvOther # es)"
  using t
proof (cases rule: trigger_swap_cases)
  case 1
  then show ?thesis using sw_inv_other [OF inv, of EvOther s'] inv by (auto simp: sw_inv_def)
next
  case (2 h r)
  have h: "height_ok h" "spaced es" "settled es" using inv 2 by (simp_all add: sw_inv_def)
  have r: "case from_request es of EvRequest h0 rq # _ \<Rightarrow> unat h0 + 6 \<le> unat (sr_blocked_until r) | _ \<Rightarrow> True"
    using inv 2 by (auto simp: sw_inv_def split: list.splits sw_event.splits)
  have "case from_request es of EvRequest h0 rq # _ \<Rightarrow> unat h0 + 6 \<le> unat (h + ignored_blocks) | _ \<Rightarrow> True"
    using r 2(4) height_plus(1) [OF h(1)] by (auto simp: word_less_nat_alt split: list.splits sw_event.splits)
  then show ?thesis using h height_plus [OF h(1)] 2(1-4) unfolding 2(5)
    by (auto simp: sw_inv_def split: list.splits sw_event.splits)
qed simp

lemma sw_inv_request:
  assumes inv: "sw_inv s es" and u: "u \<noteq> []" and t: "trigger_swap ignore policy u s = (s', Some rq)"
  shows "sw_inv s' (EvRequest (the (sp_height s)) rq # es)"
  using t
proof (cases rule: trigger_swap_cases)
  case (3 h r amt)
  have h: "height_ok h" "spaced es" "settled es" using inv 3 by (simp_all add: sw_inv_def)
  have r: "case from_request es of EvRequest h0 rq # _ \<Rightarrow> unat h0 + 6 < unat h | _ \<Rightarrow> True"
    using inv 3(1-4) by (auto simp: sw_inv_def word_less_nat_alt split: list.splits sw_event.splits)
  have rq: "rq_id rq = u" "rq_min_offchain_amount rq = Amount 100000000"
    "rq_min_offchain_amount rq \<le> rq_max_offchain_amount rq"
    using 3(6) by (auto simp: swap_min_amount not_less)
  show ?thesis unfolding 3(5) using h r rq 3(1) u height_plus [OF h(1)]
    by (auto simp: sw_inv_def)
qed simp_all

lemma sw_step_inv: "sw_step w w' \<Longrightarrow> sw_inv (fst w) (snd w) \<Longrightarrow> sw_inv (fst w') (snd w')"
proof (induction rule: sw_step.induct)
  case (db s es)
  have "sw_inv (s\<lparr>sp_row := Some (swapper_dbinit (sp_row s))\<rparr>) es" using sw_inv_dbinit db by simp
  from sw_inv_other [OF this, of EvOther "swapper_on_db s"] show ?case
    using db by (auto simp: swapper_on_db_def sw_inv_def)
next
  case (block h s es)
  then show ?case using sw_inv_block by simp
next
  case (response u s es)
  then show ?case using sw_inv_response by simp
next
  case (fee s es low)
  then show ?case using sw_inv_other [of s es EvOther "on_onchain_fee low s"] by (auto simp: on_onchain_fee_def sw_inv_def)
next
  case (declined u ignore policy s s' es)
  then show ?case using sw_inv_declined by simp
next
  case (requests u ignore policy s s' rq es)
  then show ?case using sw_inv_request by simp
next
  case (restart s es)
  then show ?case using sw_inv_other [of s es EvOther "s\<lparr>sp_db := False, sp_height := None, sp_fees_low := None\<rparr>"] by simp
qed

lemma sw_reachable_inv: "sw_reachable w \<Longrightarrow> sw_inv (fst w) (snd w)"
  unfolding sw_reachable_def
  by (induction rule: rtranclp_induct) (simp_all add: sw_step_inv, simp add: sw_inv_def swapper_init_def)

text \<open>C27: A swapper has one swap in flight: in every run, with restarts anywhere, it asks for another
  only after the last one was answered or a block came more than 432 blocks after it was asked for,
  and more than 6 blocks after the last request. Every request is for at least 0.001 BTC and its
  limits are in order.\<close>

theorem swapper_one_at_a_time:
  assumes "sw_reachable (s, es)"
  shows "spaced es"
  using sw_reachable_inv [OF assms] by (simp add: sw_inv_def)

subsection \<open>Amounts asked for\<close>

lemma amt_div3:
  assumes "amt a < 2 ^ 52"
  shows "amt a div 3 \<le> amt (amount_div a 3)" "3 * amt (amount_div a 3) \<le> amt a + 3" "amt (amount_div a 3) \<le> amt a"
proof -
  define n where "n = amt a"
  let ?x = "of_nat n / (3 :: rat)"
  have small_n: "n < 2 ^ 52" using assms by (simp add: n_def)
  have d: "double_of_u64 (to_msat a) = of_nat n"
    unfolding n_def using assms by (intro double_of_u64_small) simp
  have lo: "of_nat (n div 3) \<le> fl ?x"
  proof (rule fl_ge_nat)
    have "3 * (n div 3) \<le> n" by simp
    then have "(of_nat (3 * (n div 3)) :: rat) \<le> of_nat n" by (simp only: of_nat_le_iff)
    then show "of_nat (n div 3) \<le> ?x" by (simp add: pos_le_divide_eq mult.commute)
  qed (use small_n in simp)
  have hi: "fl ?x \<le> of_nat ((n + 2) div 3)"
  proof (rule fl_le_nat)
    have "n \<le> 3 * ((n + 2) div 3)" by simp
    then have "(of_nat n :: rat) \<le> of_nat (3 * ((n + 2) div 3))" by (simp only: of_nat_le_iff)
    then show "?x \<le> of_nat ((n + 2) div 3)" by (simp add: pos_divide_le_eq mult.commute)
  qed (use small_n in simp_all)
  have nn: "0 \<le> fl ?x" by (rule fl_nonneg) simp
  have "(n + 2) div 3 < 2 ^ 53" using small_n by simp
  then have small: "(of_nat ((n + 2) div 3) :: rat) < of_nat (2 ^ 53)" by (simp only: of_nat_less_iff)
  have r: "amount_div a 3 = Amount (of_int \<lfloor>fl ?x\<rfloor>)"
    using nn hi small d by (simp add: amount_div_def amount_of_scaled_def double_of_u64_max)
  have f: "int (n div 3) \<le> \<lfloor>fl ?x\<rfloor>" "\<lfloor>fl ?x\<rfloor> \<le> int ((n + 2) div 3)"
    using lo hi by (simp_all add: le_floor_iff floor_le_iff)
  have v: "amt (amount_div a 3) = nat \<lfloor>fl ?x\<rfloor>"
  proof -
    have "(n + 2) div 3 < 2 ^ 64" using small_n by simp
    then have "int ((n + 2) div 3) < 2 ^ 64" by (metis of_nat_less_iff of_nat_numeral of_nat_power)
    then have "0 \<le> \<lfloor>fl ?x\<rfloor>" "\<lfloor>fl ?x\<rfloor> < 2 ^ 64" using nn f(2) by (simp, linarith)
    then obtain m where "\<lfloor>fl ?x\<rfloor> = int m" "m < 2 ^ 64"
      by (metis nat_eq_iff2 nat_less_numeral_power_cancel_iff)
    then show ?thesis by (simp add: r unat_of_nat)
  qed
  show "amt a div 3 \<le> amt (amount_div a 3)" "3 * amt (amount_div a 3) \<le> amt a + 3" "amt (amount_div a 3) \<le> amt a"
    using f nn unfolding v n_def [symmetric] by linarith+
qed

lemma recv_percent_half:
  assumes "amt send + amt recv < 2 ^ 51" "0 < amt send + amt recv" "amt send \<le> amt recv"
  shows "50 \<le> recv_percent send recv"
proof -
  define r t where "r = amt recv" and "t = amt send + amt recv"
  have t: "t < 2 ^ 51" "0 < t" "t \<le> 2 * r" "r \<le> t" using assms by (simp_all add: r_def t_def)
  have sum: "amt (recv + send) = t" using t(1) by (simp add: t_def amt_plus)
  have d: "double_of_u64 (to_msat recv) = of_nat r" "double_of_u64 (to_msat (recv + send)) = of_nat t"
    using t sum by (simp_all add: r_def double_of_u64_small)
  have "(of_nat t :: rat) \<le> of_nat (2 * r)" using t(3) by (simp only: of_nat_le_iff)
  then have "1 / 2 \<le> of_nat r / (of_nat t :: rat)" using t(2) by (simp add: field_simps)
  then have "fl (1 / 2) \<le> fl (of_nat r / of_nat t)" by (intro fl_mono) simp_all
  then have "1 / 2 \<le> amount_ratio recv (recv + send)"
    using fl_nat_half [of 1] by (simp add: amount_ratio_def d)
  then have "of_nat 50 \<le> amount_ratio recv (recv + send) * 100" by simp
  then show ?thesis unfolding recv_percent_def using fl_ge_nat [of 50] by simp
qed

text \<open>C28: What the balancing swapper asks for. A list of peers makes it decide, with the totals of that
  list, in the state reached when the policy is called. It asks only when less can be received than
  sent and, unless fees are low at that moment, only when at most 2.5\% can be received. It asks for
  two thirds of the difference, exact to a millisatoshi, and for 0.001 BTC when that is more. The
  totals are taken to be below \<open>2 ^ 51\<close> millisatoshi (about 22500 BTC).\<close>

theorem balance_swap_amount:
  assumes "balance_totals (amount_sat 0, amount_sat 0) (concat cpeers) = Inr (send, recv)"
    and "on_listpeers_result cpeers s = (s1, Inr (Some f))"
    and "decide_swap f ignore u t = Inr (t', Some rq)"
    and "amt send + amt recv < 2 ^ 51"
  shows "amt recv < amt send \<and> (sp_fees_low t = Some True \<or> recv_percent send recv \<le> 5 / 2)
    \<and> (\<exists>x. amt (rq_max_offchain_amount rq) = max 100000000 x
          \<and> 2 * (amt send - amt recv) \<le> 3 * x + 2 \<and> 3 * x \<le> 2 * (amt send - amt recv) + 3)"
proof -
  have nz: "\<not> (recv = amount_sat 0 \<and> send = amount_sat 0)" and pc: "recv_percent send recv < 35"
    and f: "f = (\<lambda>low. balance_policy low send recv)"
    using assms(1,2)
    by (auto simp: on_listpeers_result_def min_receivable_percent_def Let_def split: if_splits prod.splits)
  obtain low where low: "sp_fees_low t = Some low"
    and trig: "trigger_swap ignore (balance_policy low send recv) u t = (t', Some rq)"
    using assms(3) by (auto simp: decide_swap_def f split: option.splits)
  have pos: "0 < amt send + amt recv" using nz by (auto simp: amount_eq_iff amount_sat_def)
  have lt: "amt recv < amt send" using recv_percent_half [OF assms(4) pos] pc by force
  from trig show ?thesis
  proof (cases rule: trigger_swap_cases)
    case (3 h r a)
    have fee: "sp_fees_low t = Some True \<or> recv_percent send recv \<le> 5 / 2"
      using 3(7) low by (auto simp: balance_policy_def min_receivable_percent_highfees_def)
    have dif: "amt (send - recv) = amt send - amt recv" by (simp add: amt_minus)
    have two: "amt (amount_mul (send - recv) 2) = 2 * (amt send - amt recv)"
      using amt_double [of "send - recv"] dif assms(4) by simp
    have a: "a = amount_div (amount_mul (send - recv) 2) 3" using 3(7) by (simp add: balance_policy_def)
    have small: "amt (amount_mul (send - recv) 2) < 2 ^ 52" using two assms(4) by simp
    note b = amt_div3 [OF small, folded a, unfolded two]
    have "amt (rq_max_offchain_amount rq) = max 100000000 (amt a)"
      using 3(6) by (auto simp: swap_min_amount amount_less_iff max_def)
    moreover have "2 * (amt send - amt recv) \<le> 3 * amt a + 2" using b(1) by linarith
    ultimately show ?thesis using lt fee b(2) by blast
  qed simp_all
qed

lemma amt_scaled_up:
  assumes "amt a < 2 ^ 50"
  shows "amt a \<le> amt (amount_mul a (fl (112 / 100)))" "100 * amt (amount_mul a (fl (112 / 100))) \<le> 113 * amt a + 100"
proof -
  define n where "n = amt a"
  define c :: rat where "c = fl (112 / 100)"
  have n: "n < 2 ^ 50" using assms by (simp add: n_def)
  have c: "1 \<le> c" "c \<le> 113 / 100" unfolding c_def by code_simp+
  have d: "double_of_u64 (to_msat a) = of_nat n" unfolding n_def using assms by (intro double_of_u64_small) simp
  have lo: "of_nat n \<le> fl (of_nat n * c)"
    using n c(1) by (intro fl_ge_nat) (simp_all add: mult_le_cancel_left1)
  define m where "m = (113 * n + 99) div 100"
  have hi: "fl (of_nat n * c) \<le> of_nat m"
  proof (rule fl_le_nat)
    have "113 * n \<le> 100 * m" by (simp add: m_def)
    then have "(of_nat (113 * n) :: rat) \<le> of_nat (100 * m)" by (simp only: of_nat_le_iff)
    moreover have "of_nat n * c \<le> of_nat n * (113 / 100)" using c(2) by (intro mult_left_mono) simp_all
    ultimately show "of_nat n * c \<le> of_nat m" by simp
  qed (use n c in \<open>simp_all add: m_def\<close>)
  have m: "m < 2 ^ 53" using n by (simp add: m_def)
  then have "(of_nat m :: rat) < of_nat (2 ^ 53)" by (simp only: of_nat_less_iff)
  then have r: "amount_mul a c = Amount (of_int \<lfloor>fl (of_nat n * c)\<rfloor>)"
    using hi lo d of_nat_0_le_iff [of n, where 'a = rat]
    by (simp add: amount_mul_def amount_of_scaled_def double_of_u64_max)
  have f: "int n \<le> \<lfloor>fl (of_nat n * c)\<rfloor>" "\<lfloor>fl (of_nat n * c)\<rfloor> \<le> int m"
    using lo hi by (simp_all add: le_floor_iff floor_le_iff)
  define k where "k = nat \<lfloor>fl (of_nat n * c)\<rfloor>"
  have k: "\<lfloor>fl (of_nat n * c)\<rfloor> = int k" "n \<le> k" "k \<le> m"
    using f order_trans [OF of_nat_0_le_iff f(1)] unfolding k_def by linarith+
  then have v: "amt (amount_mul a c) = k" using m by (simp add: r unat_of_nat)
  show "amt a \<le> amt (amount_mul a (fl (112 / 100)))" "100 * amt (amount_mul a (fl (112 / 100))) \<le> 113 * amt a + 100"
    using k unfolding c_def [symmetric] v n_def [symmetric] m_def by simp_all
qed

subsection \<open>Examples\<close>

definition ex_swapper :: swapper where
  "ex_swapper = \<lparr>sp_db = True, sp_height = Some 100,
     sp_row = Some \<lparr>sr_uuid = [], sr_blocked_until = 0, sr_forget_after = 5000000\<rparr>, sp_fees_low = Some True\<rparr>"

lemma ex_swapper_reachable: "sw_reachable (ex_swapper, [EvOther, EvBlock 100, EvOther])"
proof -
  have "sw_step (swapper_init, []) (swapper_on_db swapper_init, [EvOther])" by (rule sw_step.db)
  moreover have "sw_step (swapper_on_db swapper_init, [EvOther])
      (swapper_on_block 100 (swapper_on_db swapper_init), [EvBlock 100, EvOther])"
    by (rule sw_step.block) (simp add: height_ok_def)
  moreover have "sw_step (swapper_on_block 100 (swapper_on_db swapper_init), [EvBlock 100, EvOther])
      (on_onchain_fee True (swapper_on_block 100 (swapper_on_db swapper_init)), [EvOther, EvBlock 100, EvOther])"
    by (rule sw_step.fee)
  moreover have "on_onchain_fee True (swapper_on_block 100 (swapper_on_db swapper_init)) = ex_swapper"
    by (simp add: ex_swapper_def on_onchain_fee_def swapper_on_block_def swapper_on_db_def swapper_init_def
      swapper_dbinit_def Let_def)
  ultimately show ?thesis unfolding sw_reachable_def by (metis rtranclp.rtrancl_into_rtrancl rtranclp.rtrancl_refl)
qed

definition ex_request :: "amount \<Rightarrow> swap_request" where
  "ex_request a = \<lparr>rq_id = ''u'', rq_min_offchain_amount = Amount 100000000, rq_max_offchain_amount = a\<rparr>"

definition ex_swapping :: swapper where
  "ex_swapping = ex_swapper\<lparr>sp_row := Some \<lparr>sr_uuid = ''u'', sr_blocked_until = 106, sr_forget_after = 532\<rparr>\<rparr>"

lemma ex_trigger:
  assumes "Amount 100000000 \<le> a"
  shows "trigger_swap False (True, a) ''u'' ex_swapper = (ex_swapping, Some (ex_request a))"
proof -
  have "a \<noteq> amount_sat 0" "\<not> a < Amount 100000000"
    using assms by (auto simp: amount_order amount_sat_def)
  then show ?thesis
    by (simp add: trigger_swap_def continue_swap_def ex_swapper_def ex_swapping_def ex_request_def
      ignored_blocks_def swap_timeout_def swap_min_amount)
qed

theorem swapper_one_at_a_time_witness:
  "sw_reachable (ex_swapping, [EvRequest 100 (ex_request (Amount 200000000)), EvOther, EvBlock 100, EvOther])
    \<and> spaced [EvRequest 100 (ex_request (Amount 200000000)), EvOther, EvBlock 100, EvOther]"
proof -
  have "trigger_swap False (True, Amount 200000000) ''u'' ex_swapper
      = (ex_swapping, Some (ex_request (Amount 200000000)))"
    by (rule ex_trigger) (simp add: amount_le_iff)
  from sw_step.requests [OF _ this, of "[EvOther, EvBlock 100, EvOther]"] ex_swapper_reachable
  have "sw_reachable (ex_swapping, [EvRequest 100 (ex_request (Amount 200000000)), EvOther, EvBlock 100, EvOther])"
    by (simp add: sw_reachable_def ex_swapper_def rtranclp.rtrancl_into_rtrancl)
  with swapper_one_at_a_time [OF this] show ?thesis by blast
qed

definition ex_channel :: json where
  "ex_channel = JObj [(''state'', JStr ''CHANNELD_NORMAL''), (''to_us_msat'', JNum 900000000),
     (''total_msat'', JNum 1000000000), (''htlcs'', JArr []), (''our_reserve_msat'', JNum 10000000),
     (''their_reserve_msat'', JNum 10000000)]"

lemma ex_totals: "balance_totals (amount_sat 0, amount_sat 0) (concat [[ex_channel]]) = Inr (Amount 890000000, Amount 90000000)"
  by code_simp

lemma ex_doubles:
  "double_of_u64 90000000 = 90000000" "double_of_u64 980000000 = 980000000" "double_of_u64 800000000 = 800000000"
  "double_of_u64 1600000000 = 1600000000"
  using double_of_u64_small [of 90000000] double_of_u64_small [of 980000000] double_of_u64_small [of 800000000]
    double_of_u64_small [of 1600000000]
  by simp_all

lemma ex_rounded:
  "fl (fl (90000000 / 980000000) * 100) < 35" "fl (800000000 * 2) = 1600000000" "\<lfloor>fl (1600000000 / 3)\<rfloor> = 533333333"
  "0 \<le> fl (1600000000 / 3)" "fl (1600000000 / 3) < 533333334"
  by code_simp+

lemma ex_percent: "recv_percent (Amount 890000000) (Amount 90000000) < 35"
proof -
  have "Amount 90000000 + Amount 890000000 = Amount 980000000" by (simp add: amount_eq_iff amt_plus)
  then show ?thesis using ex_rounded(1) by (simp add: recv_percent_def amount_ratio_def ex_doubles)
qed

lemma ex_two_thirds: "balance_policy True (Amount 890000000) (Amount 90000000) = (True, Amount 533333333)"
proof -
  have "Amount 890000000 - Amount 90000000 = Amount 800000000" by (simp add: amount_eq_iff amt_minus)
  moreover have "amount_mul (Amount 800000000) 2 = Amount 1600000000"
    using ex_rounded(2) by (simp add: amount_mul_def amount_of_scaled_def ex_doubles double_of_u64_max)
  moreover have "amount_div (Amount 1600000000) 3 = Amount 533333333"
    using ex_rounded(3-5) by (simp add: amount_div_def amount_of_scaled_def ex_doubles double_of_u64_max)
  ultimately show ?thesis by (simp add: balance_policy_def)
qed

lemma ex_balance:
  "on_listpeers_result [[ex_channel]] ex_swapper
     = (ex_swapper, Inr (Some (\<lambda>low. balance_policy low (Amount 890000000) (Amount 90000000))))"
proof -
  have "Amount 890000000 \<noteq> amount_sat 0" by (simp add: amount_eq_iff amount_sat_def)
  moreover have "\<not> min_receivable_percent \<le> recv_percent (Amount 890000000) (Amount 90000000)"
    using ex_percent by (simp add: min_receivable_percent_def)
  ultimately show ?thesis
    unfolding on_listpeers_result_def ex_totals by (simp add: swap_ready_def ex_swapper_def)
qed

lemma ex_decide:
  "decide_swap (\<lambda>low. balance_policy low (Amount 890000000) (Amount 90000000)) False ''u'' ex_swapper
     = Inr (ex_swapping, Some (ex_request (Amount 533333333)))"
  using ex_trigger [of "Amount 533333333"]
  by (simp add: decide_swap_def ex_two_thirds ex_swapper_def amount_le_iff)

theorem balance_swap_amount_witness:
  "decide_swap (\<lambda>low. balance_policy low (Amount 890000000) (Amount 90000000)) False ''u'' ex_swapper
     = Inr (ex_swapping, Some (ex_request (Amount 533333333)))
    \<and> (\<exists>x. 533333333 = max 100000000 x \<and> 2 * 800000000 \<le> 3 * x + 2 \<and> 3 * x \<le> 2 * 800000000 + (3 :: nat))"
  using balance_swap_amount [OF ex_totals ex_balance ex_decide] ex_decide by (simp add: ex_request_def)

end
