(* ===== verification/Swap_Manager.thy ===== *)
theory Swap_Manager
  imports Amount_Json
begin

text \<open>
  \<open>src/Boss/Mod/SwapManager.cpp\<close>: the table of ongoing offchain-to-onchain swaps, the two loops that
  get an address and an invoice for each, and the matching of payments with onchain funds. Swap
  ids and payment hashes appear in their text form, which is what the tables hold.

  The code runs on an event loop that switches tasks at every database transaction and every
  message raised. A task is what is left of a handler up to its next switch: \<open>run_task\<close> is one
  uninterrupted piece of code and \<open>on_message\<close> the part of a handler that runs when the message is
  delivered; both give the new state, the tasks they leave behind and the messages they raise. An
  exception ends the task, and the database transaction it was in is rolled back. The status
  report and the log are left out.
\<close>

subsection \<open>State\<close>

type_synonym swap_id = string

datatype swap_state = NeedsOnchainAddress | NeedsInvoice | AwaitingResult

record swap_row =
  sw_uuid :: swap_id
  sw_amount :: u64
  sw_min_amount :: u64
  sw_state :: swap_state
  sw_address :: "string option"
  sw_payment_hash :: "string option"
  sw_timeout :: "u32 option"

record quotation =
  qt_score :: u64
  qt_provider :: nat
  qt_provider_name :: string

record swap_creation =
  sc_success :: bool
  sc_invoice :: string
  sc_hash :: string
  sc_timeout :: u32

record swap_manager =
  sm_swaps :: "swap_row list"
  sm_addrcache :: "string list"
  sm_provider :: "(swap_id \<times> string) list"
  sm_comp_onchain :: "(string \<times> u64 \<times> string) list"
  sm_comp_pay :: "(string \<times> u64) list"
  sm_needs_address :: "swap_id list"
  sm_needs_invoice :: "swap_id list"
  sm_getting_address :: bool
  sm_getting_invoice :: bool
  sm_quotations :: "quotation list"
  sm_amount :: amount
  sm_address :: string
  sm_onchain_funds :: "(string \<times> amount) list"

datatype sm_task =
    LoadAddressQueue
  | LoadInvoiceQueue
  | CheckPayments
  | ProcessAddress
  | AddressTx
  | NewaddrTx string
  | AddressLoaded bool
  | LoopAddress
  | InvoiceTx
  | Quoted
  | LoopQuotations
  | CreatedTx swap_creation string
  | CreatedDone
  | ReduceTx swap_id bool
  | ReduceDone bool
  | LoopInvoice
  | ListpaysTx string
  | PaySuccessTx string amount
  | BlockTx u32
  | ListfundsTask json
  | FundsTx
  | OnchainSeenTx string amount string

datatype sm_out =
    OutRequestNewaddr
  | OutSolicitQuotation amount
  | OutAcceptQuotation amount string nat
  | OutPayInvoice string
  | OutSwapResponse swap_id bool amount
  | OutRequestListpays string
  | OutSwapCompleted amount amount string

text \<open>The random draws a task may make.\<close>

record sm_draws =
  dr_score :: "nat \<Rightarrow> u64 \<Rightarrow> u64"
  dr_reduce :: "u64 \<Rightarrow> u64 \<Rightarrow> u64"

type_synonym sm_next = "swap_manager \<times> sm_task list \<times> sm_out list"

definition is_uuid :: "swap_id \<Rightarrow> swap_row \<Rightarrow> bool" where
  "is_uuid u r = (sw_uuid r = u)"

definition update_rows :: "(swap_row \<Rightarrow> bool) \<Rightarrow> (swap_row \<Rightarrow> swap_row) \<Rightarrow> swap_row list \<Rightarrow> swap_row list" where
  "update_rows P f db = map (\<lambda>r. if P r then f r else r) db"

text \<open>Deleting a swap also deletes its provider: the reference is \<open>ON DELETE CASCADE\<close>.\<close>

definition delete_row :: "swap_id \<Rightarrow> swap_manager \<Rightarrow> swap_manager" where
  "delete_row u s =
     s\<lparr>sm_swaps := filter (\<lambda>r. \<not> is_uuid u r) (sm_swaps s),
       sm_provider := filter (\<lambda>p. fst p \<noteq> u) (sm_provider s)\<rparr>"

subsection \<open>The loops\<close>

definition load_queue :: "swap_state \<Rightarrow> swap_id list \<Rightarrow> swap_manager \<Rightarrow> swap_id list" where
  "load_queue st q s =
     (if q \<noteq> [] then q else map sw_uuid (filter (\<lambda>r. sw_state r = st) (sm_swaps s)))"

definition loop_needs_address :: "swap_manager \<Rightarrow> swap_manager \<times> sm_task list" where
  "loop_needs_address s =
     (if sm_needs_address s = [] then (s\<lparr>sm_getting_address := False\<rparr>, []) else (s, [AddressTx]))"

definition process_needs_address :: "swap_manager \<Rightarrow> swap_manager \<times> sm_task list" where
  "process_needs_address s =
     (if sm_getting_address s then (s, []) else loop_needs_address (s\<lparr>sm_getting_address := True\<rparr>))"

definition loop_needs_invoice :: "swap_manager \<Rightarrow> swap_manager \<times> sm_task list" where
  "loop_needs_invoice s =
     (if sm_needs_invoice s = [] then (s\<lparr>sm_getting_invoice := False\<rparr>, [])
      else (s\<lparr>sm_quotations := []\<rparr>, [InvoiceTx]))"

definition process_needs_invoice :: "swap_manager \<Rightarrow> swap_manager \<times> sm_task list" where
  "process_needs_invoice s =
     (if sm_getting_invoice s then (s, []) else loop_needs_invoice (s\<lparr>sm_getting_invoice := True\<rparr>))"

text \<open>\<open>front\<close> and \<open>pop\<close> of an empty queue are undefined; the model ends the task.\<close>

definition front :: "'a list \<Rightarrow> 'a result" where
  "front q = (case q of [] \<Rightarrow> Inl AssertFailed | x # _ \<Rightarrow> Inr x)"

definition load_address :: "swap_id \<Rightarrow> string \<Rightarrow> swap_manager \<Rightarrow> sm_next" where
  "load_address u addr s =
     (let s1 = s\<lparr>sm_swaps := update_rows (\<lambda>r. is_uuid u r \<and> sw_state r = NeedsOnchainAddress)
                   (\<lambda>r. r\<lparr>sw_address := Some addr, sw_state := NeedsInvoice\<rparr>) (sm_swaps s),
                 sm_needs_address := tl (sm_needs_address s)\<rparr>
      in (s1\<lparr>sm_needs_invoice := sm_needs_invoice s @ [u]\<rparr>, [AddressLoaded (sm_needs_invoice s = [])], []))"

definition address_tx :: "swap_manager \<Rightarrow> sm_next result" where
  "address_tx s =
     rbind (front (sm_needs_address s)) (\<lambda>u.
       case filter (\<lambda>a. a \<noteq> []) (sm_addrcache s) of
         [] \<Rightarrow> Inr (s, [], [OutRequestNewaddr])
       | a # _ \<Rightarrow> Inr (load_address u a (s\<lparr>sm_addrcache := remove1 a (sm_addrcache s)\<rparr>)))"

definition invoice_tx :: "swap_manager \<Rightarrow> sm_next result" where
  "invoice_tx s =
     rbind (front (sm_needs_invoice s)) (\<lambda>u.
       let s1 = (case filter (is_uuid u) (sm_swaps s) of
                   [] \<Rightarrow> s
                 | rs \<Rightarrow> s\<lparr>sm_amount := amount_msat (sw_amount (last rs)),
                           sm_address := (case sw_address (last rs) of None \<Rightarrow> [] | Some a \<Rightarrow> a)\<rparr>)
       in Inr (s1, [Quoted], [OutSolicitQuotation (sm_amount s1)]))"

definition loop_quotations :: "swap_manager \<Rightarrow> sm_next result" where
  "loop_quotations s =
     (if sm_quotations s = [] then
        rbind (front (sm_needs_invoice s)) (\<lambda>u.
          Inr (s\<lparr>sm_needs_invoice := tl (sm_needs_invoice s)\<rparr>, [ReduceTx u True], []))
      else Inr (s, [], [OutAcceptQuotation (sm_amount s) (sm_address s)
                          (qt_provider (last (sm_quotations s)))]))"

text \<open>The scores are redrawn and the quotations sorted from the highest; the last is tried first.\<close>

definition quoted :: "sm_draws \<Rightarrow> swap_manager \<Rightarrow> sm_next result" where
  "quoted d s =
     (let qs = map2 (\<lambda>i q. q\<lparr>qt_score := dr_score d i (qt_score q)\<rparr>) [0..<length (sm_quotations s)] (sm_quotations s)
      in loop_quotations (s\<lparr>sm_quotations := sort_key (\<lambda>q. - int (unat (qt_score q))) qs\<rparr>))"

text \<open>The provider refers to the swap: with no such swap the insertion fails.\<close>

definition created_tx :: "swap_creation \<Rightarrow> string \<Rightarrow> swap_manager \<Rightarrow> sm_next result" where
  "created_tx sc provider_name s =
     rbind (front (sm_needs_invoice s)) (\<lambda>u.
       if \<not> list_ex (is_uuid u) (sm_swaps s) then Inl (RuntimeError ''FOREIGN KEY constraint failed'')
       else Inr (s\<lparr>sm_swaps := update_rows (is_uuid u)
                     (\<lambda>r. r\<lparr>sw_state := AwaitingResult, sw_payment_hash := Some (sc_hash sc),
                            sw_timeout := Some (sc_timeout sc)\<rparr>) (sm_swaps s),
                   sm_provider := filter (\<lambda>p. fst p \<noteq> u) (sm_provider s) @ [(u, provider_name)]\<rparr>,
                 [CreatedDone], [OutPayInvoice (sc_invoice sc)]))"

definition created_done :: "swap_manager \<Rightarrow> sm_next result" where
  "created_done s =
     rbind (front (sm_needs_invoice s)) (\<lambda>_.
       let (s', ts) = loop_needs_invoice (s\<lparr>sm_needs_invoice := tl (sm_needs_invoice s)\<rparr>) in Inr (s', ts, []))"

subsection \<open>Reducing or failing a swap\<close>

definition fail_swap :: "swap_id \<Rightarrow> swap_manager \<Rightarrow> swap_manager \<times> sm_out list" where
  "fail_swap u s =
     (let addr = (case filter (is_uuid u) (sm_swaps s) of
                    [] \<Rightarrow> []
                  | rs \<Rightarrow> (case sw_address (last rs) of None \<Rightarrow> [] | Some a \<Rightarrow> a));
          s1 = (if addr \<noteq> [] then s\<lparr>sm_addrcache := sm_addrcache s @ [addr]\<rparr> else s)
      in (delete_row u s1, [OutSwapResponse u False (Amount 0)]))"

definition swap_reduce_or_fail :: "sm_draws \<Rightarrow> swap_id \<Rightarrow> bool \<Rightarrow> swap_manager \<Rightarrow> sm_next" where
  "swap_reduce_or_fail d u in_loop s =
     (let (amount, min_amount) = (case filter (is_uuid u) (sm_swaps s) of
                                    [] \<Rightarrow> (0, 0)
                                  | rs \<Rightarrow> (sw_amount (last rs), sw_min_amount (last rs)))
      in if amount = min_amount then
           (let (s', out) = fail_swap u s in (s', if in_loop then [LoopInvoice] else [], out))
         else let a1 = dr_reduce d (amount div 4) (amount * 3 div 4);
                  a2 = (if a1 < min_amount then min_amount else a1)
              in (s\<lparr>sm_swaps := update_rows (is_uuid u)
                      (\<lambda>r. r\<lparr>sw_state := NeedsInvoice, sw_amount := a2, sw_payment_hash := None,
                             sw_timeout := None\<rparr>) (sm_swaps s),
                    sm_needs_invoice := sm_needs_invoice s @ [u]\<rparr>,
                  [ReduceDone in_loop], []))"

definition reduce_done :: "bool \<Rightarrow> swap_manager \<Rightarrow> sm_next" where
  "reduce_done in_loop s =
     (let (s1, t1) = process_needs_invoice s
      in if in_loop then (let (s2, t2) = loop_needs_invoice s1 in (s2, t1 @ t2, [])) else (s1, t1, []))"

subsection \<open>Completion\<close>

definition listpays_tx :: "string \<Rightarrow> swap_manager \<Rightarrow> sm_next" where
  "listpays_tx h s =
     (case filter (\<lambda>r. sw_payment_hash r = Some h) (sm_swaps s) of
        [] \<Rightarrow> (s, [], [])
      | rs \<Rightarrow> (s, [ReduceTx (sw_uuid (last rs)) False], []))"

definition on_pay_success :: "string \<Rightarrow> amount \<Rightarrow> swap_manager \<Rightarrow> sm_next" where
  "on_pay_success h amount_sent s =
     (case map_of (sm_comp_onchain s) h of
        Some (received, provider_name) \<Rightarrow>
          (s\<lparr>sm_comp_onchain := filter (\<lambda>e. fst e \<noteq> h) (sm_comp_onchain s)\<rparr>, [],
           [OutSwapCompleted amount_sent (amount_msat received) provider_name])
      | None \<Rightarrow>
          (case map_of (sm_comp_pay s) h of
             Some _ \<Rightarrow> (s, [], [])
           | None \<Rightarrow> (s\<lparr>sm_comp_pay := sm_comp_pay s @ [(h, to_msat amount_sent)]\<rparr>, [], [])))"

definition on_onchain_funds_seen :: "string \<Rightarrow> amount \<Rightarrow> string \<Rightarrow> swap_manager \<Rightarrow> sm_next" where
  "on_onchain_funds_seen h amount_received provider_name s =
     (case map_of (sm_comp_pay s) h of
        Some sent \<Rightarrow>
          (s\<lparr>sm_comp_pay := filter (\<lambda>e. fst e \<noteq> h) (sm_comp_pay s)\<rparr>, [],
           [OutSwapCompleted (amount_msat sent) amount_received provider_name])
      | None \<Rightarrow>
          (case map_of (sm_comp_onchain s) h of
             Some _ \<Rightarrow> (s, [], [])
           | None \<Rightarrow> (s\<lparr>sm_comp_onchain := sm_comp_onchain s @ [(h, to_msat amount_received, provider_name)]\<rparr>,
                       [], [])))"

text \<open>The outputs of \<open>listfunds\<close> are queued one by one; an exception leaves those before it queued,
  and the loop over the queue is not started.\<close>

fun push_funds :: "json list \<Rightarrow> (string \<times> amount) list \<Rightarrow> (string \<times> amount) list \<times> bool" where
  "push_funds [] q = (q, True)"
| "push_funds (out # outs) q =
     (case rbind (rbind (json_get out ''address'') json_string) (\<lambda>a.
             rbind (rbind (json_get out ''amount_msat'') amount_object) (\<lambda>v. Inr (a, v))) of
        Inl _ \<Rightarrow> (q, False)
      | Inr f \<Rightarrow> push_funds outs (q @ [f]))"

definition listfunds_task :: "json \<Rightarrow> swap_manager \<Rightarrow> sm_next" where
  "listfunds_task outs s =
     (case json_elems (Some outs) of
        Inl _ \<Rightarrow> (s, [], [])
      | Inr js \<Rightarrow>
          (let (q, ok) = push_funds js (sm_onchain_funds s)
           in (s\<lparr>sm_onchain_funds := q\<rparr>, if ok \<and> sm_onchain_funds s = [] then [FundsTx] else [], [])))"

definition funds_tx :: "swap_manager \<Rightarrow> sm_next" where
  "funds_tx s =
     (case sm_onchain_funds s of
        [] \<Rightarrow> (s, [], [])
      | (addr, amount) # fs \<Rightarrow>
          (let s1 = s\<lparr>sm_onchain_funds := fs\<rparr> in
           case filter (\<lambda>r. sw_address r = Some addr \<and> sw_state r = AwaitingResult) (sm_swaps s) of
             [] \<Rightarrow> (s1, [FundsTx], [])
           | rs \<Rightarrow>
               (let u = sw_uuid (last rs);
                    h = (case sw_payment_hash (last rs) of None \<Rightarrow> [] | Some h \<Rightarrow> h);
                    provider_name = (case map_of (sm_provider s) u of None \<Rightarrow> ''<Unknown>'' | Some n \<Rightarrow> n)
                in (delete_row u s1, [OnchainSeenTx h amount provider_name, FundsTx],
                    [OutSwapResponse u True amount]))))"

definition block_tx :: "u32 \<Rightarrow> swap_manager \<Rightarrow> sm_next" where
  "block_tx height s =
     (s, map (\<lambda>r. ReduceTx (sw_uuid r) False)
           (filter (\<lambda>r. sw_state r = AwaitingResult
                        \<and> (case sw_timeout r of None \<Rightarrow> False | Some t \<Rightarrow> t \<le> height)) (sm_swaps s)), [])"

definition check_payments :: "swap_manager \<Rightarrow> sm_next" where
  "check_payments s =
     (s, [], map (\<lambda>r. OutRequestListpays (case sw_payment_hash r of None \<Rightarrow> [] | Some h \<Rightarrow> h))
               (filter (\<lambda>r. sw_state r = AwaitingResult) (sm_swaps s)))"

subsection \<open>Tasks and messages\<close>

definition run_task :: "sm_draws \<Rightarrow> sm_task \<Rightarrow> swap_manager \<Rightarrow> sm_next result" where
  "run_task d t s =
     (case t of
        LoadAddressQueue \<Rightarrow>
          (let (s', ts) = process_needs_address
                 (s\<lparr>sm_needs_address := load_queue NeedsOnchainAddress (sm_needs_address s) s\<rparr>)
           in Inr (s', ts @ [LoadInvoiceQueue], []))
      | LoadInvoiceQueue \<Rightarrow>
          (let (s', ts) = process_needs_invoice
                 (s\<lparr>sm_needs_invoice := load_queue NeedsInvoice (sm_needs_invoice s) s\<rparr>)
           in Inr (s', ts @ [CheckPayments], []))
      | CheckPayments \<Rightarrow> Inr (check_payments s)
      | ProcessAddress \<Rightarrow> (let (s', ts) = process_needs_address s in Inr (s', ts, []))
      | AddressTx \<Rightarrow> address_tx s
      | NewaddrTx a \<Rightarrow> rbind (front (sm_needs_address s)) (\<lambda>u. Inr (load_address u a s))
      | AddressLoaded start \<Rightarrow>
          (let (s', ts) = (if start then process_needs_invoice s else (s, []))
           in Inr (s', ts @ [LoopAddress], []))
      | LoopAddress \<Rightarrow> (let (s', ts) = loop_needs_address s in Inr (s', ts, []))
      | InvoiceTx \<Rightarrow> invoice_tx s
      | Quoted \<Rightarrow> quoted d s
      | LoopQuotations \<Rightarrow> loop_quotations s
      | CreatedTx sc provider_name \<Rightarrow> created_tx sc provider_name s
      | CreatedDone \<Rightarrow> created_done s
      | ReduceTx u in_loop \<Rightarrow> Inr (swap_reduce_or_fail d u in_loop s)
      | ReduceDone in_loop \<Rightarrow> Inr (reduce_done in_loop s)
      | LoopInvoice \<Rightarrow> (let (s', ts) = loop_needs_invoice s in Inr (s', ts, []))
      | ListpaysTx h \<Rightarrow> Inr (listpays_tx h s)
      | PaySuccessTx h a \<Rightarrow> Inr (on_pay_success h a s)
      | BlockTx height \<Rightarrow> Inr (block_tx height s)
      | ListfundsTask outs \<Rightarrow> Inr (listfunds_task outs s)
      | FundsTx \<Rightarrow> Inr (funds_tx s)
      | OnchainSeenTx h a provider_name \<Rightarrow> Inr (on_onchain_funds_seen h a provider_name s))"

datatype pay_status = PayNonexistent | PayPending | PaySuccess | PayFailed

datatype sm_msg =
    DbResource
  | Timer10Minutes
  | ResponseNewaddr string
  | ProvideSwapQuotation amount nat string
  | SwapCreation swap_creation
  | ResponseListpays string pay_status amount
  | ListfundsResult json
  | SwapRequest swap_id amount amount
  | Block u32

definition on_swap_request :: "swap_id \<Rightarrow> amount \<Rightarrow> amount \<Rightarrow> swap_manager \<Rightarrow> sm_next" where
  "on_swap_request u min_offchain max_offchain s =
     (if list_ex (is_uuid u) (sm_swaps s) then (s, [], [])
      else (s\<lparr>sm_swaps := sm_swaps s @ [\<lparr>sw_uuid = u, sw_amount = to_msat max_offchain,
                sw_min_amount = to_msat min_offchain, sw_state = NeedsOnchainAddress, sw_address = None,
                sw_payment_hash = None, sw_timeout = None\<rparr>],
              sm_needs_address := sm_needs_address s @ [u]\<rparr>, [ProcessAddress], []))"

definition on_message :: "sm_msg \<Rightarrow> swap_manager \<Rightarrow> sm_next result" where
  "on_message m s =
     (case m of
        DbResource \<Rightarrow> Inr (s\<lparr>sm_addrcache := filter (\<lambda>a. a \<noteq> []) (sm_addrcache s)\<rparr>, [LoadAddressQueue], [])
      | Timer10Minutes \<Rightarrow> Inr (s, [LoadAddressQueue], [])
      | ResponseNewaddr a \<Rightarrow>
          if \<not> sm_getting_address s then Inl AssertFailed else Inr (s, [NewaddrTx a], [])
      | ProvideSwapQuotation fee provider name \<Rightarrow>
          Inr (s\<lparr>sm_quotations := sm_quotations s
                 @ [\<lparr>qt_score = to_msat fee, qt_provider = provider, qt_provider_name = name\<rparr>]\<rparr>, [], [])
      | SwapCreation sc \<Rightarrow>
          if sm_quotations s = [] then Inl AssertFailed
          else if \<not> sc_success sc
          then Inr (s\<lparr>sm_quotations := butlast (sm_quotations s)\<rparr>, [LoopQuotations], [])
          else Inr (s, [CreatedTx sc (qt_provider_name (last (sm_quotations s)))], [])
      | ResponseListpays h st amount_sent \<Rightarrow>
          (case st of
             PaySuccess \<Rightarrow> Inr (s, [PaySuccessTx h amount_sent], [])
           | PayFailed \<Rightarrow> Inr (s, [ListpaysTx h], [])
           | _ \<Rightarrow> Inr (s, [], []))
      | ListfundsResult outs \<Rightarrow> Inr (s, [ListfundsTask outs], [])
      | SwapRequest u mn mx \<Rightarrow> Inr (on_swap_request u mn mx s)
      | Block height \<Rightarrow> Inr (s, [BlockTx height], []))"

end
