(* ===== verification/Swap_Lifecycle.thy ===== *)
theory Swap_Lifecycle
  imports Swap_Manager
begin

text \<open>
  What the swap manager promises about a swap, as an abstract transition system on the table of
  swaps: a swap is inserted on request, gets an address, gets an invoice, has its amount reduced,
  and is deleted when its requester is told the outcome. The invariants of this system are proved
  here once; that every step of the manager is a step of it is shown in \<open>Swap_Manager_Steps\<close>.
\<close>

record lifecycle =
  lc_db :: "swap_row list"
  lc_requests :: "(swap_id \<times> u64 \<times> u64) list"
  lc_responses :: "(swap_id \<times> bool) list"

definition ids :: "swap_row list \<Rightarrow> swap_id set" where
  "ids db = sw_uuid ` set db"

definition has_address :: "swap_id \<Rightarrow> swap_row list \<Rightarrow> bool" where
  "has_address u db = (\<forall>r \<in> set db. sw_uuid r = u \<longrightarrow> sw_address r \<noteq> None)"

inductive lc_step :: "lifecycle \<Rightarrow> lifecycle \<Rightarrow> bool" where
  requested: "u \<notin> fst ` set (lc_requests l) \<Longrightarrow> mn \<le> mx \<Longrightarrow>
    lc_step l (l\<lparr>lc_db := lc_db l @ [\<lparr>sw_uuid = u, sw_amount = mx, sw_min_amount = mn,
        sw_state = NeedsOnchainAddress, sw_address = None, sw_payment_hash = None, sw_timeout = None\<rparr>],
      lc_requests := (u, mn, mx) # lc_requests l\<rparr>)"
| addressed: "lc_step l (l\<lparr>lc_db := update_rows (\<lambda>r. is_uuid u r \<and> sw_state r = NeedsOnchainAddress)
      (\<lambda>r. r\<lparr>sw_address := Some a, sw_state := NeedsInvoice\<rparr>) (lc_db l)\<rparr>)"
| invoiced: "has_address u (lc_db l) \<Longrightarrow>
    lc_step l (l\<lparr>lc_db := update_rows (is_uuid u)
      (\<lambda>r. r\<lparr>sw_state := AwaitingResult, sw_payment_hash := Some h, sw_timeout := Some t\<rparr>) (lc_db l)\<rparr>)"
| reduced: "has_address u (lc_db l) \<Longrightarrow> \<forall>r \<in> set (lc_db l). sw_uuid r = u \<longrightarrow> sw_min_amount r \<le> a \<and> a < sw_amount r \<Longrightarrow>
    lc_step l (l\<lparr>lc_db := update_rows (is_uuid u)
      (\<lambda>r. r\<lparr>sw_state := NeedsInvoice, sw_amount := a, sw_payment_hash := None, sw_timeout := None\<rparr>) (lc_db l)\<rparr>)"
| failed: "u \<in> ids (lc_db l) \<Longrightarrow>
    lc_step l (l\<lparr>lc_db := filter (\<lambda>r. \<not> is_uuid u r) (lc_db l), lc_responses := (u, False) # lc_responses l\<rparr>)"
| succeeded: "r \<in> set (lc_db l) \<Longrightarrow> sw_state r = AwaitingResult \<Longrightarrow> sw_uuid r = u \<Longrightarrow>
    lc_step l (l\<lparr>lc_db := filter (\<lambda>r. \<not> is_uuid u r) (lc_db l), lc_responses := (u, True) # lc_responses l\<rparr>)"
| failed_again: "(u, ok) \<in> set (lc_responses l) \<Longrightarrow>
    lc_step l (l\<lparr>lc_responses := (u, False) # lc_responses l\<rparr>)"

inductive_cases lc_step_cases: "lc_step l l'"

definition lc_init :: lifecycle where
  "lc_init = \<lparr>lc_db = [], lc_requests = [], lc_responses = []\<rparr>"

subsection \<open>The invariant\<close>

definition row_complete :: "swap_row \<Rightarrow> bool" where
  "row_complete r =
     (case sw_state r of
        NeedsOnchainAddress \<Rightarrow> sw_address r = None \<and> sw_payment_hash r = None \<and> sw_timeout r = None
      | NeedsInvoice \<Rightarrow> sw_address r \<noteq> None \<and> sw_payment_hash r = None \<and> sw_timeout r = None
      | AwaitingResult \<Rightarrow> sw_address r \<noteq> None \<and> sw_payment_hash r \<noteq> None \<and> sw_timeout r \<noteq> None)"

definition row_limits :: "(swap_id \<times> u64 \<times> u64) list \<Rightarrow> swap_row \<Rightarrow> bool" where
  "row_limits reqs r =
     (\<exists>mx. (sw_uuid r, sw_min_amount r, mx) \<in> set reqs \<and> sw_min_amount r \<le> sw_amount r \<and> sw_amount r \<le> mx)"

definition lc_inv :: "lifecycle \<Rightarrow> bool" where
  "lc_inv l =
     (distinct (map sw_uuid (lc_db l)) \<and> list_all row_complete (lc_db l)
      \<and> list_all (row_limits (lc_requests l)) (lc_db l) \<and> distinct (map fst (lc_requests l))
      \<and> fst ` set (lc_responses l) \<inter> ids (lc_db l) = {}
      \<and> fst ` set (lc_requests l) = ids (lc_db l) \<union> fst ` set (lc_responses l)
      \<and> distinct (filter snd (lc_responses l)))"

lemma ids_simps [simp]:
  "ids [] = {}" "ids (db @ db') = ids db \<union> ids db'" "ids (r # db) = insert (sw_uuid r) (ids db)"
  by (auto simp: ids_def)

lemma ids_filter [simp]: "ids (filter (\<lambda>r. \<not> is_uuid u r) db) = ids db - {u}"
  by (auto simp: ids_def is_uuid_def)

lemma ids_update [simp]:
  assumes "\<And>r. sw_uuid (f r) = sw_uuid r"
  shows "ids (update_rows P f db) = ids db" "map sw_uuid (update_rows P f db) = map sw_uuid db"
proof -
  show "map sw_uuid (update_rows P f db) = map sw_uuid db" by (simp add: update_rows_def assms)
  then show "ids (update_rows P f db) = ids db" by (metis ids_def image_set)
qed

lemma list_all_update:
  assumes "list_all Q db" "\<And>r. r \<in> set db \<Longrightarrow> P r \<Longrightarrow> Q r \<Longrightarrow> Q' (f r)"
    and "\<And>r. r \<in> set db \<Longrightarrow> \<not> P r \<Longrightarrow> Q r \<Longrightarrow> Q' r"
  shows "list_all Q' (update_rows P f db)"
  using assms by (auto simp: update_rows_def list_all_iff)

lemma row_limits_mono: "set reqs \<subseteq> set reqs' \<Longrightarrow> row_limits reqs r \<Longrightarrow> row_limits reqs' r"
  unfolding row_limits_def by blast

lemma list_all_filter: "list_all P xs \<Longrightarrow> list_all P (filter Q xs)"
  by (simp add: list_all_iff)

lemma distinct_map_filter': "distinct (map f xs) \<Longrightarrow> distinct (map f (filter P xs))"
  by (induction xs) auto

lemma lc_inv_deleted:
  assumes "lc_inv l" "u \<in> ids (lc_db l)"
  shows "lc_inv (l\<lparr>lc_db := filter (\<lambda>r. \<not> is_uuid u r) (lc_db l), lc_responses := (u, ok) # lc_responses l\<rparr>)"
  using assms
  by (auto simp: lc_inv_def list_all_filter distinct_map_filter')

lemma lc_inv_updated:
  assumes "lc_inv l" "\<And>r. sw_uuid (f r) = sw_uuid r"
    and "\<And>r. r \<in> set (lc_db l) \<Longrightarrow> P r \<Longrightarrow> row_complete r \<Longrightarrow> row_complete (f r)"
    and "\<And>r. r \<in> set (lc_db l) \<Longrightarrow> P r \<Longrightarrow> row_limits (lc_requests l) r \<Longrightarrow> row_limits (lc_requests l) (f r)"
  shows "lc_inv (l\<lparr>lc_db := update_rows P f (lc_db l)\<rparr>)"
proof -
  have "list_all row_complete (update_rows P f (lc_db l))"
    using assms(1) by (intro list_all_update [of row_complete]) (auto simp: lc_inv_def assms(3))
  moreover have "list_all (row_limits (lc_requests l)) (update_rows P f (lc_db l))"
    using assms(1) by (intro list_all_update [of "row_limits (lc_requests l)"]) (auto simp: lc_inv_def assms(4))
  ultimately show ?thesis using assms(1) by (simp add: lc_inv_def assms(2))
qed

lemma lc_step_inv: "lc_step l l' \<Longrightarrow> lc_inv l \<Longrightarrow> lc_inv l'"
proof (induction rule: lc_step.induct)
  case (requested u l mn mx)
  then have "list_all (row_limits ((u, mn, mx) # lc_requests l)) (lc_db l)"
    by (auto simp: lc_inv_def list_all_iff intro: row_limits_mono [of "lc_requests l"])
  moreover have "u \<notin> sw_uuid ` set (lc_db l)" "u \<notin> fst ` set (lc_responses l)"
    using requested by (auto simp: lc_inv_def ids_def)
  ultimately show ?case
    using requested by (auto simp: lc_inv_def row_complete_def row_limits_def)
next
  case (addressed l u a)
  then show ?case
    by (rule lc_inv_updated) (auto simp: row_complete_def row_limits_def)
next
  case (invoiced u l h t)
  show ?case
    by (rule lc_inv_updated [OF invoiced.prems])
       (use invoiced.hyps in \<open>auto simp: row_complete_def row_limits_def has_address_def is_uuid_def\<close>)
next
  case (reduced u l a)
  show ?case
  proof (rule lc_inv_updated [OF reduced.prems])
    fix r assume r: "r \<in> set (lc_db l)" "is_uuid u r" "row_limits (lc_requests l) r"
    then have "sw_min_amount r \<le> a" "a < sw_amount r" using reduced.hyps(2) by (auto simp: is_uuid_def)
    with r(3) show "row_limits (lc_requests l) (r\<lparr>sw_state := NeedsInvoice, sw_amount := a,
        sw_payment_hash := None, sw_timeout := None\<rparr>)"
      by (auto simp: row_limits_def)
  qed (use reduced.hyps(1) in \<open>auto simp: row_complete_def has_address_def is_uuid_def\<close>)
next
  case (failed u l)
  then show ?case by (intro lc_inv_deleted)
next
  case (succeeded r l u)
  then show ?case by (intro lc_inv_deleted) (auto simp: ids_def)
next
  case (failed_again u ok l)
  then have "u \<in> fst ` set (lc_responses l)" by force
  with failed_again show ?case by (auto simp: lc_inv_def)
qed

text \<open>Once a requested swap has an address it keeps one.\<close>

lemma has_address_update:
  assumes "has_address u db" "\<And>r. sw_uuid (f r) = sw_uuid r"
    and "\<And>r. sw_address r \<noteq> None \<Longrightarrow> sw_address (f r) \<noteq> None"
  shows "has_address u (update_rows P f db)"
  using assms by (auto simp: has_address_def update_rows_def)

lemma has_address_lc_step:
  assumes "lc_step l l'" "has_address u (lc_db l)" "u \<in> fst ` set (lc_requests l)"
  shows "has_address u (lc_db l')"
  using assms
proof (induction rule: lc_step.induct)
  case (requested v l mn mx)
  then have "u \<noteq> v" by blast
  with requested show ?case by (auto simp: has_address_def)
qed (auto intro!: has_address_update, auto simp: has_address_def)

lemma lc_reachable_inv: "lc_step\<^sup>*\<^sup>* lc_init l \<Longrightarrow> lc_inv l"
  by (induction rule: rtranclp_induct) (simp_all add: lc_step_inv, simp add: lc_inv_def lc_init_def)

end
