(* ===== verification/Swap_Manager_Steps.thy ===== *)
theory Swap_Manager_Steps
  imports Swap_Lifecycle
begin

text \<open>
  The swap manager on its event loop: any pending task may run next, any message may arrive, and
  the process may restart, which keeps the database and loses the rest. Every step refines a step
  of the abstract life cycle of swaps, at most one address loop and one invoice loop run, and no
  loop ever takes the front of an empty queue.
\<close>

subsection \<open>The event loop\<close>

record sm_world =
  w_sm :: swap_manager
  w_tasks :: "sm_task list"
  w_newaddr :: nat
  w_accept :: nat
  w_out :: "sm_out list"
  w_requests :: "(swap_id \<times> u64 \<times> u64) list"

fun response_of :: "sm_out \<Rightarrow> (swap_id \<times> bool) option" where
  "response_of (OutSwapResponse u ok _) = Some (u, ok)"
| "response_of _ = None"

definition responses :: "sm_out list \<Rightarrow> (swap_id \<times> bool) list" where
  "responses out = List.map_filter response_of out"

definition is_newaddr :: "sm_out \<Rightarrow> bool" where
  "is_newaddr m = (case m of OutRequestNewaddr \<Rightarrow> True | _ \<Rightarrow> False)"

definition is_accept :: "sm_out \<Rightarrow> bool" where
  "is_accept m = (case m of OutAcceptQuotation _ _ _ \<Rightarrow> True | _ \<Rightarrow> False)"

definition advance :: "sm_next \<Rightarrow> sm_world \<Rightarrow> sm_world" where
  "advance n w =
     (case n of (s, ts, out) \<Rightarrow>
        w\<lparr>w_sm := s, w_tasks := ts @ w_tasks w, w_out := rev out @ w_out w,
          w_newaddr := w_newaddr w + length (filter is_newaddr out),
          w_accept := w_accept w + length (filter is_accept out)\<rparr>)"

definition draws_ok :: "sm_draws \<Rightarrow> bool" where
  "draws_ok d = (\<forall>lo hi. lo \<le> hi \<longrightarrow> lo \<le> dr_reduce d lo hi \<and> dr_reduce d lo hi \<le> hi)"

text \<open>What the manager may rely on: answers come to questions, request ids are fresh, and a
  request's limits are ordered and below the supply of bitcoin.\<close>

definition msg_enabled :: "sm_msg \<Rightarrow> sm_world \<Rightarrow> bool" where
  "msg_enabled m w =
     (case m of
        ResponseNewaddr _ \<Rightarrow> 0 < w_newaddr w
      | SwapCreation _ \<Rightarrow> 0 < w_accept w
      | SwapRequest u mn mx \<Rightarrow>
          u \<notin> fst ` set (w_requests w) \<and> mn \<le> mx \<and> unat (to_msat mx) < 2 ^ 62
      | _ \<Rightarrow> True)"

definition receive :: "sm_msg \<Rightarrow> sm_world \<Rightarrow> sm_world" where
  "receive m w =
     (case m of
        ResponseNewaddr _ \<Rightarrow> w\<lparr>w_newaddr := w_newaddr w - 1\<rparr>
      | SwapCreation _ \<Rightarrow> w\<lparr>w_accept := w_accept w - 1\<rparr>
      | SwapRequest u mn mx \<Rightarrow> w\<lparr>w_requests := (u, to_msat mn, to_msat mx) # w_requests w\<rparr>
      | _ \<Rightarrow> w)"

definition restarted :: "swap_manager \<Rightarrow> swap_manager" where
  "restarted s =
     s\<lparr>sm_needs_address := [], sm_needs_invoice := [], sm_getting_address := False,
       sm_getting_invoice := False, sm_quotations := [], sm_amount := Amount 0, sm_address := [],
       sm_onchain_funds := []\<rparr>"

inductive sm_step :: "sm_world \<Rightarrow> sm_world \<Rightarrow> bool" where
  task: "t \<in> set (w_tasks w) \<Longrightarrow> draws_ok d \<Longrightarrow> run_task d t (w_sm w) = Inr n \<Longrightarrow>
    sm_step w (advance n (w\<lparr>w_tasks := remove1 t (w_tasks w)\<rparr>))"
| throws: "t \<in> set (w_tasks w) \<Longrightarrow> run_task d t (w_sm w) = Inl e \<Longrightarrow>
    sm_step w (w\<lparr>w_tasks := remove1 t (w_tasks w)\<rparr>)"
| message: "msg_enabled m w \<Longrightarrow> on_message m (w_sm w) = Inr n \<Longrightarrow> sm_step w (advance n (receive m w))"
| restart: "sm_step w (w\<lparr>w_sm := restarted (w_sm w), w_tasks := [], w_newaddr := 0, w_accept := 0\<rparr>)"

inductive_cases sm_step_cases: "sm_step w w'"

definition sm_init :: swap_manager where
  "sm_init = \<lparr>sm_swaps = [], sm_addrcache = [], sm_provider = [], sm_comp_onchain = [], sm_comp_pay = [],
     sm_needs_address = [], sm_needs_invoice = [], sm_getting_address = False, sm_getting_invoice = False,
     sm_quotations = [], sm_amount = Amount 0, sm_address = [], sm_onchain_funds = []\<rparr>"

definition w_init :: sm_world where
  "w_init = \<lparr>w_sm = sm_init, w_tasks = [], w_newaddr = 0, w_accept = 0, w_out = [], w_requests = []\<rparr>"

definition sm_reachable :: "sm_world \<Rightarrow> bool" where
  "sm_reachable w = sm_step\<^sup>*\<^sup>* w_init w"

definition lc_of :: "(swap_id \<times> u64 \<times> u64) list \<Rightarrow> sm_out list \<Rightarrow> swap_manager \<Rightarrow> lifecycle" where
  "lc_of reqs out s = \<lparr>lc_db = sm_swaps s, lc_requests = reqs, lc_responses = responses out\<rparr>"

subsection \<open>Frames\<close>

lemma loops_frame [simp]:
  "sm_swaps (fst (process_needs_address s)) = sm_swaps s"
  "sm_swaps (fst (loop_needs_address s)) = sm_swaps s"
  "sm_swaps (fst (process_needs_invoice s)) = sm_swaps s"
  "sm_swaps (fst (loop_needs_invoice s)) = sm_swaps s"
  "sm_needs_invoice (fst (process_needs_address s)) = sm_needs_invoice s"
  "sm_needs_invoice (fst (loop_needs_address s)) = sm_needs_invoice s"
  "sm_needs_invoice (fst (process_needs_invoice s)) = sm_needs_invoice s"
  "sm_needs_invoice (fst (loop_needs_invoice s)) = sm_needs_invoice s"
  "sm_needs_address (fst (process_needs_address s)) = sm_needs_address s"
  "sm_needs_address (fst (loop_needs_address s)) = sm_needs_address s"
  "sm_needs_address (fst (process_needs_invoice s)) = sm_needs_address s"
  "sm_needs_address (fst (loop_needs_invoice s)) = sm_needs_address s"
  by (simp_all add: process_needs_address_def loop_needs_address_def process_needs_invoice_def loop_needs_invoice_def)

lemma responses_simps [simp]:
  "responses [] = []" "responses (xs @ ys) = responses xs @ responses ys"
  "responses (OutSwapResponse u ok a # xs) = (u, ok) # responses xs"
  "response_of x = None \<Longrightarrow> responses (x # xs) = responses xs"
  by (simp_all add: responses_def map_filter_def)

lemma loop_tasks_no_reduce [simp]:
  "ReduceTx u b \<notin> set (snd (process_needs_address s))" "ReduceTx u b \<notin> set (snd (loop_needs_address s))"
  "ReduceTx u b \<notin> set (snd (process_needs_invoice s))" "ReduceTx u b \<notin> set (snd (loop_needs_invoice s))"
  by (simp_all add: process_needs_address_def loop_needs_address_def process_needs_invoice_def loop_needs_invoice_def)

subsection \<open>Refinement of the life cycle\<close>

definition mentioned :: "swap_manager \<Rightarrow> sm_task list \<Rightarrow> swap_id set" where
  "mentioned s ts = set (sm_needs_invoice s) \<union> {u. \<exists>b. ReduceTx u b \<in> set ts}"

definition queue_ok :: "(swap_id \<times> u64 \<times> u64) list \<Rightarrow> swap_manager \<Rightarrow> sm_task list \<Rightarrow> bool" where
  "queue_ok reqs s ts =
     ((\<forall>u \<in> mentioned s ts. u \<in> fst ` set reqs \<and> has_address u (sm_swaps s))
      \<and> set (sm_needs_address s) \<subseteq> fst ` set reqs)"

definition reqs_ok :: "(swap_id \<times> u64 \<times> u64) list \<Rightarrow> bool" where
  "reqs_ok reqs = (\<forall>(u, mn, mx) \<in> set reqs. unat mx < 2 ^ 62)"

definition refines :: "(swap_id \<times> u64 \<times> u64) list \<Rightarrow> sm_out list \<Rightarrow> swap_manager \<Rightarrow> sm_next \<Rightarrow> bool" where
  "refines reqs out s n =
     lc_step\<^sup>=\<^sup>= (lc_of reqs out s) (lc_of reqs (rev (snd (snd n)) @ out) (fst n))"

lemma refines_same:
  "sm_swaps (fst n) = sm_swaps s \<Longrightarrow> responses (rev (snd (snd n))) = [] \<Longrightarrow> refines reqs out s n"
  by (simp add: refines_def lc_of_def)

lemma load_address_refines: "refines reqs out s (load_address u a s)"
  using lc_step.addressed [of "lc_of reqs out s" u a] by (simp add: refines_def load_address_def lc_of_def Let_def)

lemma last_row:
  assumes "filter P db \<noteq> []"
  shows "last (filter P db) \<in> set db" "P (last (filter P db))"
  using last_in_set [OF assms] by simp_all

lemma sw_unique_row:
  assumes "distinct (map sw_uuid db)" "r \<in> set db" "r' \<in> set db" "sw_uuid r = sw_uuid r'"
  shows "r = r'"
  using assms by (metis distinct_map inj_onD)

lemma fail_swap_refines:
  assumes inv: "lc_inv (lc_of reqs out s)" and u: "u \<in> fst ` set reqs"
  shows "refines reqs out s (fst (fail_swap u s), ts, snd (fail_swap u s))"
proof (cases "u \<in> ids (sm_swaps s)")
  case True
  with lc_step.failed [of u "lc_of reqs out s"] show ?thesis
    by (simp add: refines_def fail_swap_def delete_row_def lc_of_def Let_def)
next
  case False
  with inv u obtain ok where "(u, ok) \<in> set (responses out)" by (auto simp: lc_inv_def lc_of_def)
  moreover have "filter (\<lambda>r. \<not> is_uuid u r) (sm_swaps s) = sm_swaps s"
    using False by (auto simp: filter_id_conv ids_def is_uuid_def)
  ultimately show ?thesis using lc_step.failed_again [of u ok "lc_of reqs out s"]
    by (simp add: refines_def fail_swap_def delete_row_def lc_of_def Let_def)
qed

text \<open>Without overflow, what is drawn is below the amount.\<close>

lemma three_quarters:
  assumes "unat (a :: u64) < 2 ^ 62" "a \<noteq> 0"
  shows "a div 4 \<le> a * 3 div 4" "a * 3 div 4 < a"
proof -
  have m: "unat (a * 3) = unat a * 3" using assms(1) by (simp add: unat_word_ariths)
  have "unat a \<noteq> 0" using assms(2) by (simp add: unat_eq_0)
  then show "a div 4 \<le> a * 3 div 4" "a * 3 div 4 < a"
    by (simp_all add: word_le_nat_alt word_less_nat_alt unat_div m div_le_mono)
qed

lemma reduced_amount:
  assumes "draws_ok d" "unat (a :: u64) < 2 ^ 62" "mn \<le> a" "a \<noteq> mn"
    and "b = dr_reduce d (a div 4) (a * 3 div 4)"
  shows "mn \<le> (if b < mn then mn else b)" "(if b < mn then mn else b) < a"
proof -
  have "a \<noteq> 0" using assms(3,4) by (metis word_le_0_iff)
  note q = three_quarters [OF assms(2) this]
  have "b \<le> a * 3 div 4" using assms(1,5) q(1) by (simp add: draws_ok_def)
  then have "b < a" using q(2) by simp
  then show "mn \<le> (if b < mn then mn else b)" "(if b < mn then mn else b) < a" using assms(3,4) by auto
qed

lemma row_bound:
  assumes "lc_inv (lc_of reqs out s)" "reqs_ok reqs" "r \<in> set (sm_swaps s)"
  shows "unat (sw_amount r) < 2 ^ 62" "sw_min_amount r \<le> sw_amount r"
proof -
  from assms obtain mx where mx: "(sw_uuid r, sw_min_amount r, mx) \<in> set reqs" "sw_amount r \<le> mx"
    "sw_min_amount r \<le> sw_amount r"
    by (auto simp: lc_inv_def lc_of_def list_all_iff row_limits_def)
  moreover have "unat mx < 2 ^ 62" using assms(2) mx(1) by (auto simp: reqs_ok_def)
  ultimately show "unat (sw_amount r) < 2 ^ 62" "sw_min_amount r \<le> sw_amount r"
    by (simp_all add: word_le_nat_alt)
qed

definition reduce_amount :: "sm_draws \<Rightarrow> swap_row \<Rightarrow> u64" where
  "reduce_amount d r =
     (let a1 = dr_reduce d (sw_amount r div 4) (sw_amount r * 3 div 4)
      in if a1 < sw_min_amount r then sw_min_amount r else a1)"

text \<open>The two cases of \<open>swap_reduce_or_fail\<close>, given the row if there is one.\<close>

lemma swap_reduce_fails:
  assumes "filter (is_uuid u) (sm_swaps s) = []
    \<or> sw_amount (last (filter (is_uuid u) (sm_swaps s))) = sw_min_amount (last (filter (is_uuid u) (sm_swaps s)))"
  shows "swap_reduce_or_fail d u k s
    = (fst (fail_swap u s), if k then [LoopInvoice] else [], snd (fail_swap u s))"
  using assms by (cases "filter (is_uuid u) (sm_swaps s)") (auto simp: swap_reduce_or_fail_def split_beta)

lemma swap_reduce_reduces:
  assumes "filter (is_uuid u) (sm_swaps s) \<noteq> []" "r = last (filter (is_uuid u) (sm_swaps s))"
    and "sw_amount r \<noteq> sw_min_amount r"
  shows "swap_reduce_or_fail d u k s =
    (s\<lparr>sm_swaps := update_rows (is_uuid u) (\<lambda>r'. r'\<lparr>sw_state := NeedsInvoice, sw_amount := reduce_amount d r,
         sw_payment_hash := None, sw_timeout := None\<rparr>) (sm_swaps s),
       sm_needs_invoice := sm_needs_invoice s @ [u]\<rparr>, [ReduceDone k], [])"
  using assms
  by (cases "filter (is_uuid u) (sm_swaps s)") (auto simp: swap_reduce_or_fail_def reduce_amount_def Let_def)

lemma reduce_refines:
  assumes inv: "lc_inv (lc_of reqs out s)" and b: "reqs_ok reqs" and d: "draws_ok d"
    and u: "u \<in> fst ` set reqs" "has_address u (sm_swaps s)"
  shows "refines reqs out s (swap_reduce_or_fail d u k s)"
proof (cases "filter (is_uuid u) (sm_swaps s) = []
    \<or> sw_amount (last (filter (is_uuid u) (sm_swaps s))) = sw_min_amount (last (filter (is_uuid u) (sm_swaps s)))")
  case True
  then show ?thesis using fail_swap_refines [OF inv u(1)] by (simp add: swap_reduce_fails)
next
  case False
  define r0 where "r0 = last (filter (is_uuid u) (sm_swaps s))"
  have r0: "r0 \<in> set (sm_swaps s)" "sw_uuid r0 = u"
    using last_row [of "is_uuid u" "sm_swaps s"] False by (auto simp: r0_def is_uuid_def)
  have uniq: "r' = r0" if "r' \<in> set (sm_swaps s)" "sw_uuid r' = u" for r'
    using sw_unique_row [of "sm_swaps s" r' r0] inv that r0 by (simp add: lc_inv_def lc_of_def)
  have ne: "sw_amount r0 \<noteq> sw_min_amount r0" using False by (simp add: r0_def)
  have a: "sw_min_amount r0 \<le> reduce_amount d r0" "reduce_amount d r0 < sw_amount r0"
    using reduced_amount [OF d row_bound [OF inv b r0(1)] ne refl] by (simp_all add: reduce_amount_def Let_def)
  then have all: "\<forall>r \<in> set (lc_db (lc_of reqs out s)). sw_uuid r = u
      \<longrightarrow> sw_min_amount r \<le> reduce_amount d r0 \<and> reduce_amount d r0 < sw_amount r"
    using uniq by (simp add: lc_of_def) blast
  have "has_address u (lc_db (lc_of reqs out s))" using u(2) by (simp add: lc_of_def)
  from lc_step.reduced [OF this all] show ?thesis
    using False swap_reduce_reduces [OF _ r0_def ne, of d k] by (simp add: refines_def lc_of_def)
qed

lemma created_refines:
  assumes "has_address u (sm_swaps s)" "sm_needs_invoice s = u # us"
  shows "created_tx sc name s = Inr n \<Longrightarrow> refines reqs out s n"
  using lc_step.invoiced [where u = u and l = "lc_of reqs out s" and h = "sc_hash sc" and t = "sc_timeout sc"] assms
  by (auto simp: refines_def created_tx_def front_def lc_of_def split: if_splits)

lemma funds_refines: "refines reqs out s (funds_tx s)"
proof (cases "sm_onchain_funds s")
  case Nil
  then show ?thesis by (simp add: refines_def funds_tx_def)
next
  case (Cons f fs)
  obtain addr amount where f: "f = (addr, amount)" by (cases f)
  let ?F = "filter (\<lambda>r. sw_address r = Some addr \<and> sw_state r = AwaitingResult) (sm_swaps s)"
  show ?thesis
  proof (cases "?F = []")
    case True
    then show ?thesis using Cons f by (simp add: refines_def funds_tx_def Let_def lc_of_def)
  next
    case False
    from last_row [OF False] have "last ?F \<in> set (sm_swaps s)" "sw_state (last ?F) = AwaitingResult" by simp_all
    with lc_step.succeeded [of "last ?F" "lc_of reqs out s" "sw_uuid (last ?F)"] False show ?thesis
      by (cases ?F) (simp_all add: refines_def funds_tx_def Cons f Let_def lc_of_def delete_row_def)
  qed
qed

lemma quoted_frame:
  "quoted d s = Inr (s', ts, o') \<Longrightarrow> \<exists>qs. loop_quotations (s\<lparr>sm_quotations := qs\<rparr>) = Inr (s', ts, o')"
  by (auto simp: quoted_def Let_def)

lemma loop_quotations_frame:
  assumes "loop_quotations s = Inr (s', ts, o')"
  shows "sm_swaps s' = sm_swaps s" "responses (rev o') = []" "sm_needs_address s' = sm_needs_address s"
    "mentioned s' ts \<subseteq> mentioned s []"
  using assms
  by (auto simp: loop_quotations_def front_def mentioned_def rbind_eq_Inr split: if_splits list.splits)

lemma invoice_tx_frame:
  assumes "invoice_tx s = Inr (s', ts, o')"
  shows "sm_swaps s' = sm_swaps s" "responses (rev o') = []" "sm_needs_address s' = sm_needs_address s"
    "mentioned s' ts \<subseteq> mentioned s []"
  using assms
  by (auto simp: invoice_tx_def front_def mentioned_def rbind_eq_Inr Let_def split: if_splits list.splits)

lemma address_tx_refines: "address_tx s = Inr n \<Longrightarrow> refines reqs out s n"
proof -
  assume "address_tx s = Inr n"
  then consider "n = (s, [], [OutRequestNewaddr])"
    | u a where "n = load_address u a (s\<lparr>sm_addrcache := remove1 a (sm_addrcache s)\<rparr>)"
    by (cases "filter (\<lambda>a. a \<noteq> []) (sm_addrcache s)") (auto simp: address_tx_def rbind_eq_Inr)
  then show ?thesis
  proof cases
    case 1
    then show ?thesis by (simp add: refines_def lc_of_def)
  next
    case 2
    with load_address_refines [of reqs out "s\<lparr>sm_addrcache := remove1 a (sm_addrcache s)\<rparr>" u a]
    show ?thesis by (simp add: refines_def lc_of_def)
  qed
qed

lemma completion_refines:
  "refines reqs out s (on_pay_success h a s)" "refines reqs out s (on_onchain_funds_seen h a p s)"
  by (auto simp: refines_def on_pay_success_def on_onchain_funds_seen_def lc_of_def split: option.splits)

lemma responses_listpays: "responses (rev (map (\<lambda>r. OutRequestListpays (f r)) rs)) = []"
  by (induction rs) simp_all

lemma task_refines:
  assumes inv: "lc_inv (lc_of reqs out s)" and b: "reqs_ok reqs" and d: "draws_ok d"
    and q: "queue_ok reqs s [t]" and run: "run_task d t s = Inr n"
  shows "refines reqs out s n"
proof (cases t)
  case (ReduceTx u k)
  then show ?thesis
    using reduce_refines [OF inv b d, of u k] q run by (auto simp: run_task_def queue_ok_def mentioned_def)
next
  case (CreatedTx sc name)
  then have run: "created_tx sc name s = Inr n" using run by (simp add: run_task_def)
  then obtain u us where us: "sm_needs_invoice s = u # us"
    by (auto simp: created_tx_def rbind_eq_Inr front_def split: list.splits)
  then have "has_address u (sm_swaps s)" using q by (simp add: queue_ok_def mentioned_def)
  from created_refines [OF this us run] show ?thesis .
next
  case FundsTx
  then show ?thesis using funds_refines run by (auto simp: run_task_def)
next
  case AddressTx
  then show ?thesis using address_tx_refines run by (simp add: run_task_def)
next
  case (NewaddrTx a)
  then show ?thesis using load_address_refines run by (auto simp: run_task_def rbind_eq_Inr)
next
  case (PaySuccessTx h a)
  then show ?thesis using completion_refines(1) run by (auto simp: run_task_def)
next
  case (OnchainSeenTx h a p)
  then show ?thesis using completion_refines(2) run by (auto simp: run_task_def)
next
  case InvoiceTx
  then show ?thesis using invoice_tx_frame run by (cases n) (auto simp: run_task_def intro!: refines_same)
next
  case Quoted
  with run have "quoted d s = Inr (fst n, fst (snd n), snd (snd n))" by (simp add: run_task_def)
  then obtain qs where "loop_quotations (s\<lparr>sm_quotations := qs\<rparr>) = Inr (fst n, fst (snd n), snd (snd n))"
    by (blast dest: quoted_frame)
  from loop_quotations_frame(1,2) [OF this] show ?thesis by (auto intro!: refines_same)
next
  case LoopQuotations
  with run have "loop_quotations s = Inr (fst n, fst (snd n), snd (snd n))" by (simp add: run_task_def)
  from loop_quotations_frame(1,2) [OF this] show ?thesis by (auto intro!: refines_same)
next
  case CheckPayments
  then show ?thesis using run
    by (auto simp: run_task_def check_payments_def responses_listpays intro!: refines_same)
qed (use run in \<open>auto simp: run_task_def split_beta created_done_def reduce_done_def listpays_tx_def
  block_tx_def listfunds_task_def rbind_eq_Inr Let_def intro!: refines_same
  split: prod.splits list.splits sum.splits if_splits\<close>)

subsection \<open>What the queues and the pending tasks mention\<close>

lemma mentioned_Un: "mentioned s (ts @ ts') = mentioned s ts \<union> mentioned s ts'"
  by (auto simp: mentioned_def)

lemma row_complete_address: "row_complete r \<Longrightarrow> sw_state r \<noteq> NeedsOnchainAddress \<Longrightarrow> sw_address r \<noteq> None"
  by (cases "sw_state r") (simp_all add: row_complete_def)

lemma row_complete_hash: "row_complete r \<Longrightarrow> sw_payment_hash r = Some h \<Longrightarrow> sw_state r = AwaitingResult"
  by (cases "sw_state r") (simp_all add: row_complete_def)

lemma has_address_complete:
  assumes "list_all row_complete db" "distinct (map sw_uuid db)" "r \<in> set db" "sw_state r \<noteq> NeedsOnchainAddress"
  shows "has_address (sw_uuid r) db"
  unfolding has_address_def
proof (intro ballI impI)
  fix r' assume "r' \<in> set db" "sw_uuid r' = sw_uuid r"
  then have "r' = r" using sw_unique_row [OF assms(2)] assms(3) by metis
  then show "sw_address r' \<noteq> None"
    using assms(1,3,4) row_complete_address by (simp add: list_all_iff)
qed

lemma load_address_has:
  assumes "list_all row_complete db"
  shows "has_address u (update_rows (\<lambda>r. is_uuid u r \<and> sw_state r = NeedsOnchainAddress)
    (\<lambda>r. r\<lparr>sw_address := Some a, sw_state := NeedsInvoice\<rparr>) db)"
proof -
  let ?P = "\<lambda>r. is_uuid u r \<and> sw_state r = NeedsOnchainAddress"
  let ?f = "\<lambda>r. r\<lparr>sw_address := Some a, sw_state := NeedsInvoice\<rparr>"
  have "list_all (\<lambda>r. sw_uuid r = u \<longrightarrow> sw_address r \<noteq> None) (update_rows ?P ?f db)"
    by (rule list_all_update [OF assms]) (simp_all add: row_complete_address is_uuid_def)
  then show ?thesis by (simp add: has_address_def list_all_iff)
qed

text \<open>Whatever a task newly mentions is a requested swap that has an address.\<close>

definition mentions_ok :: "(swap_id \<times> u64 \<times> u64) list \<Rightarrow> swap_id set \<Rightarrow> swap_id list \<Rightarrow> sm_next \<Rightarrow> bool" where
  "mentions_ok reqs M q n =
     ((\<forall>u \<in> mentioned (fst n) (fst (snd n)). u \<in> M \<or> u \<in> fst ` set reqs \<and> has_address u (sm_swaps (fst n)))
      \<and> set (sm_needs_address (fst n)) \<subseteq> set q \<union> fst ` set reqs)"

lemma requested_row: "lc_inv (lc_of reqs out s) \<Longrightarrow> r \<in> set (sm_swaps s) \<Longrightarrow> sw_uuid r \<in> fst ` set reqs"
  by (auto simp: lc_inv_def lc_of_def ids_def)

lemma address_row:
  "lc_inv (lc_of reqs out s) \<Longrightarrow> r \<in> set (sm_swaps s) \<Longrightarrow> sw_state r \<noteq> NeedsOnchainAddress
    \<Longrightarrow> has_address (sw_uuid r) (sm_swaps s)"
  by (intro has_address_complete) (auto simp: lc_inv_def lc_of_def)

lemma hash_row:
  "lc_inv (lc_of reqs out s) \<Longrightarrow> r \<in> set (sm_swaps s) \<Longrightarrow> sw_payment_hash r = Some h
    \<Longrightarrow> sw_state r = AwaitingResult"
  using row_complete_hash by (simp add: lc_inv_def lc_of_def list_all_iff)

lemma load_address_mentions:
  assumes "lc_inv (lc_of reqs out s)" "u \<in> fst ` set reqs"
  shows "mentions_ok reqs (mentioned s []) (sm_needs_address s) (load_address u a s)"
proof -
  have "set (tl (sm_needs_address s)) \<subseteq> set (sm_needs_address s)" by (cases "sm_needs_address s") auto
  moreover have "has_address u (sm_swaps (fst (load_address u a s)))"
    using load_address_has [of "sm_swaps s" u a] assms(1) by (simp add: load_address_def Let_def lc_inv_def lc_of_def)
  ultimately show ?thesis
    using assms(2) by (auto simp: mentions_ok_def load_address_def mentioned_def Let_def)
qed

lemma mentions_fewer:
  "mentioned (fst n) (fst (snd n)) \<subseteq> M \<Longrightarrow> set (sm_needs_address (fst n)) \<subseteq> set q \<Longrightarrow> mentions_ok reqs M q n"
  by (auto simp: mentions_ok_def)

lemma mentions_frame:
  "mentioned (fst n) (fst (snd n)) \<subseteq> mentioned s [] \<Longrightarrow> sm_needs_address (fst n) = sm_needs_address s
    \<Longrightarrow> mentions_ok reqs (mentioned s ts) (sm_needs_address s) n"
  unfolding mentions_ok_def mentioned_def by auto

lemma address_tx_mentions:
  assumes inv: "lc_inv (lc_of reqs out s)" and q: "set (sm_needs_address s) \<subseteq> fst ` set reqs"
    and run: "address_tx s = Inr n"
  shows "mentions_ok reqs (mentioned s []) (sm_needs_address s) n"
proof -
  from run obtain u us where u: "sm_needs_address s = u # us"
    and n: "n = (s, [], [OutRequestNewaddr])
      \<or> (\<exists>a. n = load_address u a (s\<lparr>sm_addrcache := remove1 a (sm_addrcache s)\<rparr>))"
    by (cases "sm_needs_address s"; cases "filter (\<lambda>a. a \<noteq> []) (sm_addrcache s)")
       (auto simp: address_tx_def front_def)
  from n show ?thesis
  proof (elim disjE exE)
    assume "n = (s, [], [OutRequestNewaddr])"
    then show ?thesis by (simp add: mentions_fewer)
  next
    fix a assume n: "n = load_address u a (s\<lparr>sm_addrcache := remove1 a (sm_addrcache s)\<rparr>)"
    have "lc_inv (lc_of reqs out (s\<lparr>sm_addrcache := remove1 a (sm_addrcache s)\<rparr>))" using inv by (simp add: lc_of_def)
    from load_address_mentions [OF this, of u a] show ?thesis using q u n by (simp add: mentioned_def)
  qed
qed

lemma reduce_mentions:
  "mentioned (fst (swap_reduce_or_fail d u k s)) (fst (snd (swap_reduce_or_fail d u k s))) \<subseteq> mentioned s [ReduceTx u k]"
  "sm_needs_address (fst (swap_reduce_or_fail d u k s)) = sm_needs_address s"
  by (auto simp: swap_reduce_or_fail_def fail_swap_def delete_row_def Let_def mentioned_def split: prod.splits if_splits)

lemma task_mentions:
  assumes inv: "lc_inv (lc_of reqs out s)" and q: "queue_ok reqs s [t]" and run: "run_task d t s = Inr n"
  shows "mentions_ok reqs (mentioned s [t]) (sm_needs_address s) n"
proof (cases t)
  case LoadAddressQueue
  have "set (load_queue NeedsOnchainAddress (sm_needs_address s) s) \<subseteq> set (sm_needs_address s) \<union> fst ` set reqs"
    using requested_row [OF inv] by (auto simp: load_queue_def)
  with LoadAddressQueue run show ?thesis
    by (auto simp: mentions_ok_def mentioned_def run_task_def split_beta)
next
  case LoadInvoiceQueue
  have "\<forall>u \<in> set (load_queue NeedsInvoice (sm_needs_invoice s) s).
      u \<in> set (sm_needs_invoice s) \<or> u \<in> fst ` set reqs \<and> has_address u (sm_swaps s)"
    using requested_row [OF inv] address_row [OF inv] by (auto simp: load_queue_def)
  with LoadInvoiceQueue run show ?thesis
    by (auto simp: mentions_ok_def mentioned_def run_task_def split_beta)
next
  case AddressTx
  then show ?thesis using address_tx_mentions [OF inv] q run by (simp add: run_task_def queue_ok_def mentioned_def)
next
  case (NewaddrTx a)
  with run obtain u us where u: "sm_needs_address s = u # us" "n = load_address u a s"
    by (auto simp: run_task_def rbind_eq_Inr front_def split: list.splits)
  then show ?thesis using load_address_mentions [OF inv, of u a] q NewaddrTx by (simp add: queue_ok_def mentioned_def)
next
  case InvoiceTx
  with run have "invoice_tx s = Inr (fst n, fst (snd n), snd (snd n))" by (simp add: run_task_def)
  from invoice_tx_frame(3,4) [OF this] show ?thesis by (intro mentions_frame)
next
  case Quoted
  with run have "quoted d s = Inr (fst n, fst (snd n), snd (snd n))" by (simp add: run_task_def)
  then obtain qs where "loop_quotations (s\<lparr>sm_quotations := qs\<rparr>) = Inr (fst n, fst (snd n), snd (snd n))"
    by (blast dest: quoted_frame)
  from loop_quotations_frame(3,4) [OF this] show ?thesis
    by (intro mentions_frame) (simp_all add: mentioned_def)
next
  case LoopQuotations
  with run have "loop_quotations s = Inr (fst n, fst (snd n), snd (snd n))" by (simp add: run_task_def)
  from loop_quotations_frame(3,4) [OF this] show ?thesis
    by (intro mentions_frame)
next
  case (ListpaysTx h)
  have "\<forall>r \<in> set (sm_swaps s). sw_payment_hash r = Some h \<longrightarrow>
    sw_uuid r \<in> fst ` set reqs \<and> has_address (sw_uuid r) (sm_swaps s)"
    using requested_row [OF inv] address_row [OF inv] hash_row [OF inv] by simp
  with ListpaysTx run last_row [of "\<lambda>r. sw_payment_hash r = Some h" "sm_swaps s"] show ?thesis
    by (auto simp: mentions_ok_def mentioned_def run_task_def listpays_tx_def split: list.splits)
next
  case (BlockTx height)
  have "\<forall>r \<in> set (sm_swaps s). sw_state r = AwaitingResult \<longrightarrow>
    sw_uuid r \<in> fst ` set reqs \<and> has_address (sw_uuid r) (sm_swaps s)"
    using requested_row [OF inv] address_row [OF inv] by simp
  with BlockTx run show ?thesis
    by (auto simp: mentions_ok_def mentioned_def run_task_def block_tx_def)
next
  case (ReduceTx u k)
  then show ?thesis using run reduce_mentions by (auto simp: run_task_def mentions_fewer)
next
  case (ReduceDone k)
  then show ?thesis using run
    by (cases k) (auto simp: run_task_def reduce_done_def split_beta Let_def mentioned_def intro!: mentions_fewer)
next
  case FundsTx
  then show ?thesis using run
    by (auto simp: run_task_def funds_tx_def delete_row_def Let_def mentioned_def intro!: mentions_fewer
      split: list.splits)
next
  case CreatedDone
  then show ?thesis using run
    by (auto simp: run_task_def created_done_def front_def split_beta mentioned_def rbind_eq_Inr Let_def
      intro!: mentions_fewer split: list.splits)
next
  case (CreatedTx sc p)
  then show ?thesis using run
    by (auto simp: run_task_def created_tx_def mentioned_def rbind_eq_Inr intro!: mentions_fewer split: if_splits)
qed (use run in \<open>auto simp: run_task_def split_beta mentioned_def listfunds_task_def check_payments_def
  on_pay_success_def on_onchain_funds_seen_def intro!: mentions_fewer
  split: list.splits sum.splits if_splits option.splits\<close>)

subsection \<open>Every step is a step of the life cycle\<close>

definition life :: "sm_world \<Rightarrow> lifecycle" where
  "life w = lc_of (w_requests w) (w_out w) (w_sm w)"

definition world_inv :: "sm_world \<Rightarrow> bool" where
  "world_inv w =
     (lc_inv (life w) \<and> reqs_ok (w_requests w) \<and> queue_ok (w_requests w) (w_sm w) (w_tasks w))"

lemma queue_ok_step:
  assumes q: "queue_ok reqs s ts" and st: "lc_step\<^sup>=\<^sup>= (lc_of reqs out s) (lc_of reqs' out' s')"
    and r: "set reqs \<subseteq> set reqs'"
    and m: "\<And>u. u \<in> mentioned s' ts' \<Longrightarrow> u \<in> mentioned s ts \<or> u \<in> fst ` set reqs' \<and> has_address u (sm_swaps s')"
    and a: "set (sm_needs_address s') \<subseteq> set (sm_needs_address s) \<union> fst ` set reqs'"
  shows "queue_ok reqs' s' ts'"
proof -
  have "u \<in> fst ` set reqs' \<and> has_address u (sm_swaps s')" if u: "u \<in> mentioned s' ts'" for u
  proof (cases "u \<in> mentioned s ts")
    case True
    with q have *: "u \<in> fst ` set reqs" "has_address u (sm_swaps s)" by (auto simp: queue_ok_def)
    have "has_address u (sm_swaps s')"
      using st has_address_lc_step [of "lc_of reqs out s" "lc_of reqs' out' s'" u] * by (auto simp: lc_of_def)
    with * r show ?thesis by blast
  next
    case False
    with m u show ?thesis by blast
  qed
  moreover have "set (sm_needs_address s) \<subseteq> fst ` set reqs'"
    using q image_mono [OF r, of fst] unfolding queue_ok_def by blast
  ultimately show ?thesis using a by (auto simp: queue_ok_def)
qed

lemma queue_ok_subset: "queue_ok reqs s ts \<Longrightarrow> set ts' \<subseteq> set ts \<Longrightarrow> queue_ok reqs s ts'"
  by (auto simp: queue_ok_def mentioned_def)

lemma task_world:
  assumes inv: "world_inv w" and t: "t \<in> set (w_tasks w)" "draws_ok d" "run_task d t (w_sm w) = Inr n"
    and w': "w' = advance n (w\<lparr>w_tasks := remove1 t (w_tasks w)\<rparr>)"
  shows "lc_step\<^sup>=\<^sup>= (life w) (life w')" "queue_ok (w_requests w') (w_sm w') (w_tasks w')"
proof -
  obtain s' ts out where n: "n = (s', ts, out)" by (cases n)
  have lc: "lc_inv (lc_of (w_requests w) (w_out w) (w_sm w))" and b: "reqs_ok (w_requests w)"
    and q: "queue_ok (w_requests w) (w_sm w) (w_tasks w)" using inv by (simp_all add: world_inv_def life_def)
  have q1: "queue_ok (w_requests w) (w_sm w) [t]" by (rule queue_ok_subset [OF q]) (use t(1) in simp)
  show st: "lc_step\<^sup>=\<^sup>= (life w) (life w')"
    using task_refines [OF lc b t(2) q1 t(3)] by (simp add: w' n advance_def life_def refines_def)
  have m: "mentions_ok (w_requests w) (mentioned (w_sm w) [t]) (sm_needs_address (w_sm w)) n"
    by (rule task_mentions [OF lc q1 t(3)])
  show "queue_ok (w_requests w') (w_sm w') (w_tasks w')"
  proof (rule queue_ok_step [OF q])
    show "lc_step\<^sup>=\<^sup>= (lc_of (w_requests w) (w_out w) (w_sm w)) (lc_of (w_requests w') (w_out w') (w_sm w'))"
      using st by (simp add: life_def)
    show "set (sm_needs_address (w_sm w')) \<subseteq> set (sm_needs_address (w_sm w)) \<union> fst ` set (w_requests w')"
      using m by (simp add: mentions_ok_def w' n advance_def)
    fix u assume "u \<in> mentioned (w_sm w') (w_tasks w')"
    then have "u \<in> mentioned s' ts \<or> (\<exists>b. ReduceTx u b \<in> set (w_tasks w))"
      using set_remove1_subset [of t "w_tasks w"] by (auto simp: w' n advance_def mentioned_def)
    then show "u \<in> mentioned (w_sm w) (w_tasks w)
        \<or> u \<in> fst ` set (w_requests w') \<and> has_address u (sm_swaps (w_sm w'))"
      using m t(1) by (auto simp: mentions_ok_def mentioned_def w' n advance_def)
  qed (simp add: w' n advance_def)
qed

lemma request_world:
  assumes inv: "world_inv w" and m: "msg_enabled (SwapRequest u mn mx) w"
    and w': "w' = advance (on_swap_request u mn mx (w_sm w)) (receive (SwapRequest u mn mx) w)"
  shows "lc_step (life w) (life w')" "reqs_ok (w_requests w')"
    "queue_ok (w_requests w') (w_sm w') (w_tasks w')"
proof -
  have lc: "lc_inv (life w)" and b: "reqs_ok (w_requests w)"
    and q: "queue_ok (w_requests w) (w_sm w) (w_tasks w)" using inv by (simp_all add: world_inv_def)
  have m: "u \<notin> fst ` set (w_requests w)" "to_msat mn \<le> to_msat mx" "unat (to_msat mx) < 2 ^ 62"
    using m by (simp_all add: msg_enabled_def amount_le_iff word_le_nat_alt)
  then have new: "\<not> list_ex (is_uuid u) (sm_swaps (w_sm w))"
    using requested_row [OF lc [unfolded life_def]] by (auto simp: list_ex_iff is_uuid_def)
  then show st: "lc_step (life w) (life w')"
    using lc_step.requested [of u "life w" "to_msat mn" "to_msat mx"] m
    by (simp add: w' life_def lc_of_def on_swap_request_def advance_def receive_def)
  show "reqs_ok (w_requests w')"
    using b m(3) new by (simp add: w' on_swap_request_def advance_def receive_def reqs_ok_def)
  show "queue_ok (w_requests w') (w_sm w') (w_tasks w')"
  proof (rule queue_ok_step [OF q])
    show "lc_step\<^sup>=\<^sup>= (lc_of (w_requests w) (w_out w) (w_sm w)) (lc_of (w_requests w') (w_out w') (w_sm w'))"
      using st by (simp add: life_def)
  qed (use new in \<open>auto simp: w' on_swap_request_def advance_def receive_def mentioned_def\<close>)
qed

lemma other_message:
  assumes "on_message m s = Inr (s', ts, out)" "\<And>u mn mx. m \<noteq> SwapRequest u mn mx"
  shows "sm_swaps s' = sm_swaps s" "responses (rev out) = []" "mentioned s' ts = mentioned s []"
    "sm_needs_address s' = sm_needs_address s"
  using assms
  by (auto simp: on_message_def mentioned_def split: sm_msg.splits pay_status.splits if_splits)

lemma message_world:
  assumes inv: "world_inv w" and m: "msg_enabled m w" "on_message m (w_sm w) = Inr n"
    and w': "w' = advance n (receive m w)"
  shows "lc_step\<^sup>=\<^sup>= (life w) (life w')" "reqs_ok (w_requests w')"
    "queue_ok (w_requests w') (w_sm w') (w_tasks w')"
proof -
  have "lc_step\<^sup>=\<^sup>= (life w) (life w') \<and> reqs_ok (w_requests w')
      \<and> queue_ok (w_requests w') (w_sm w') (w_tasks w')"
  proof (cases "\<exists>u mn mx. m = SwapRequest u mn mx")
    case True
    with m(2) obtain u mn mx where "m = SwapRequest u mn mx" "n = on_swap_request u mn mx (w_sm w)"
      by (auto simp: on_message_def)
    with request_world [OF inv, of u mn mx w'] m(1) w' show ?thesis by simp
  next
    case False
    obtain s' ts out where n: "n = (s', ts, out)" by (cases n)
    have f: "sm_swaps s' = sm_swaps (w_sm w)" "responses (rev out) = []" "mentioned s' ts = mentioned (w_sm w) []"
      "sm_needs_address s' = sm_needs_address (w_sm w)"
      using other_message [of m "w_sm w" s' ts out] m(2) False n by auto
    have r: "w_requests (receive m w) = w_requests w" "w_out (receive m w) = w_out w"
      "w_tasks (receive m w) = w_tasks w" using False by (auto simp: receive_def split: sm_msg.splits)
    from f r inv show ?thesis
      by (auto simp: w' n advance_def life_def lc_of_def world_inv_def queue_ok_def mentioned_def)
  qed
  then show "lc_step\<^sup>=\<^sup>= (life w) (life w')" "reqs_ok (w_requests w')"
    "queue_ok (w_requests w') (w_sm w') (w_tasks w')" by blast+
qed

lemma step_world:
  assumes "sm_step w w'" "world_inv w"
  shows "lc_step\<^sup>=\<^sup>= (life w) (life w') \<and> world_inv w'"
proof -
  have "lc_step\<^sup>=\<^sup>= (life w) (life w') \<and> reqs_ok (w_requests w')
      \<and> queue_ok (w_requests w') (w_sm w') (w_tasks w')"
    using assms
  proof (cases rule: sm_step.cases)
    case (task t d n)
    have "w_requests w' = w_requests w" by (cases n) (simp add: task advance_def)
    with task_world [OF assms(2) task(2-4,1)] assms(2) show ?thesis by (simp add: world_inv_def)
  next
    case (throws t d e)
    then show ?thesis using assms(2) queue_ok_subset [OF _ set_remove1_subset]
      by (auto simp: world_inv_def life_def)
  next
    case (message m n)
    then show ?thesis using message_world [OF assms(2)] by blast
  next
    case restart
    then show ?thesis using assms(2)
      by (auto simp: world_inv_def life_def lc_of_def restarted_def queue_ok_def mentioned_def)
  qed
  moreover have "lc_inv (life w)" using assms(2) by (simp add: world_inv_def)
  ultimately show ?thesis using lc_step_inv by (auto simp: world_inv_def)
qed

lemma reachable_world:
  assumes "sm_reachable w"
  shows "world_inv w" "lc_step\<^sup>*\<^sup>* lc_init (life w)"
proof -
  have "world_inv w \<and> lc_step\<^sup>*\<^sup>* lc_init (life w)"
    using assms unfolding sm_reachable_def
  proof (induction rule: rtranclp_induct)
    case base
    then show ?case
      by (simp add: world_inv_def life_def lc_of_def w_init_def sm_init_def lc_inv_def lc_init_def reqs_ok_def
        queue_ok_def mentioned_def)
  next
    case (step w w')
    then show ?case using step_world [of w w'] by (auto intro: rtranclp.rtrancl_into_rtrancl)
  qed
  then show "world_inv w" "lc_step\<^sup>*\<^sup>* lc_init (life w)" by blast+
qed

end
