(* ===== verification/Swap_Manager_Loops.thy ===== *)
theory Swap_Manager_Loops
  imports Swap_Manager_Steps
begin

text \<open>
  The address loop and the invoice loop of the swap manager share one discipline: a flag says that
  the loop runs, exactly one pending task or unanswered question carries it, and while it is
  carried there is a swap at the front of its queue. The discipline is proved once, for any loop
  that keeps its laws, and then holds of both.
\<close>

locale guarded_loop =
  fixes flag :: "swap_manager \<Rightarrow> bool"
    and ready :: "swap_manager \<Rightarrow> bool"
    and ready_ask :: "swap_manager \<Rightarrow> bool"
    and tok :: "sm_task \<Rightarrow> bool"
    and needs_front :: "sm_task \<Rightarrow> bool"
    and ask :: "sm_out \<Rightarrow> bool"
    and answer :: "sm_msg \<Rightarrow> bool"
    and asked :: "sm_world \<Rightarrow> nat"
  assumes front_tok: "needs_front t \<Longrightarrow> tok t"
    and task_tokens: "run_task d t s = Inr (s', ts, out) \<Longrightarrow> (tok t \<Longrightarrow> flag s) \<Longrightarrow> (needs_front t \<Longrightarrow> ready s) \<Longrightarrow>
      length (filter tok ts) + length (filter ask out) + of_bool (flag s) \<le> of_bool (tok t) + of_bool (flag s')"
    and task_front: "run_task d t s = Inr (s', ts, out) \<Longrightarrow> (tok t \<Longrightarrow> flag s) \<Longrightarrow>
      (needs_front t \<Longrightarrow> ready s) \<Longrightarrow> list_ex needs_front ts \<Longrightarrow> ready s'"
    and task_ask: "run_task d t s = Inr (s', ts, out) \<Longrightarrow> (tok t \<Longrightarrow> flag s) \<Longrightarrow>
      (needs_front t \<Longrightarrow> ready s) \<Longrightarrow> list_ex ask out \<Longrightarrow> ready_ask s'"
    and task_keeps: "run_task d t s = Inr (s', ts, out) \<Longrightarrow> \<not> tok t \<Longrightarrow> flag s \<Longrightarrow>
      (ready s \<longrightarrow> ready s') \<and> (ready_ask s \<longrightarrow> ready_ask s')"
    and msg_tokens: "on_message m s = Inr (s', ts, out) \<Longrightarrow>
      flag s' = flag s \<and> length (filter tok ts) = of_bool (answer m) \<and> filter ask out = []"
    and msg_keeps: "on_message m s = Inr (s', ts, out) \<Longrightarrow>
      (ready s \<longrightarrow> ready s') \<and> (ready_ask s \<longrightarrow> (if answer m then ready s' else ready_ask s'))"
    and answer_enabled: "msg_enabled m w \<Longrightarrow> answer m \<Longrightarrow> 0 < asked w"
    and asked_advance: "asked (advance (s, ts, out) w) = asked w + length (filter ask out)"
    and asked_receive: "asked (receive m w) = asked w - of_bool (answer m)"
    and asked_tasks: "asked (w\<lparr>w_tasks := ts\<rparr>) = asked w"
    and asked_restart: "asked (w\<lparr>w_sm := s, w_tasks := ts, w_newaddr := 0, w_accept := 0\<rparr>) = 0"
    and asked_init: "asked w_init = 0"
begin

definition loop_inv :: "sm_world \<Rightarrow> bool" where
  "loop_inv w =
     (length (filter tok (w_tasks w)) + asked w \<le> of_bool (flag (w_sm w))
      \<and> (list_ex needs_front (w_tasks w) \<longrightarrow> ready (w_sm w)) \<and> (0 < asked w \<longrightarrow> ready_ask (w_sm w)))"

lemma tokens_remove1:
  "t \<in> set ts \<Longrightarrow> length (filter tok ts) = length (filter tok (remove1 t ts)) + of_bool (tok t)"
  by (induction ts) auto

lemma no_front: "filter tok ts = [] \<Longrightarrow> \<not> list_ex needs_front ts"
  using front_tok by (auto simp: filter_empty_conv list_ex_iff)

lemma tok_flag: "loop_inv w \<Longrightarrow> t \<in> set (w_tasks w) \<Longrightarrow> tok t \<Longrightarrow> flag (w_sm w)"
  by (cases "flag (w_sm w)") (auto simp: loop_inv_def filter_empty_conv)

lemma task_inv:
  assumes inv: "loop_inv w" and t: "t \<in> set (w_tasks w)" and run: "run_task d t (w_sm w) = Inr (s', ts, out)"
  shows "loop_inv (advance (s', ts, out) (w\<lparr>w_tasks := remove1 t (w_tasks w)\<rparr>))"
proof -
  let ?rest = "remove1 t (w_tasks w)"
  let ?w' = "advance (s', ts, out) (w\<lparr>w_tasks := ?rest\<rparr>)"
  have asked: "asked ?w' = asked w + length (filter ask out)" by (simp add: asked_advance asked_tasks)
  have w': "w_sm ?w' = s'" "w_tasks ?w' = ts @ ?rest" by (simp_all add: advance_def)
  have rt: "needs_front t \<Longrightarrow> ready (w_sm w)" using inv t by (auto simp: loop_inv_def list_ex_iff)
  note tk = task_tokens [OF run tok_flag [OF inv t] rt]
  have sum: "length (filter tok ?rest) + of_bool (tok t) + asked w \<le> of_bool (flag (w_sm w))"
    using inv tokens_remove1 [OF t] by (simp add: loop_inv_def)
  have rest: "(list_ex needs_front ?rest \<longrightarrow> ready s') \<and> (0 < asked w \<longrightarrow> ready_ask s')"
  proof (cases "length (filter tok ?rest) + asked w = 0")
    case True
    then show ?thesis using no_front [of ?rest] by simp
  next
    case False
    then have f: "flag (w_sm w)" "\<not> tok t"
      using sum by (cases "flag (w_sm w)"; cases "tok t"; simp)+
    have "list_ex needs_front (w_tasks w)" if "list_ex needs_front ?rest"
      using that notin_set_remove1 by (force simp: list_ex_iff)
    then show ?thesis using task_keeps [OF run f(2,1)] inv by (auto simp: loop_inv_def)
  qed
  have "length (filter tok (w_tasks ?w')) + asked ?w' \<le> of_bool (flag s')"
    using sum tk by (simp add: w' asked)
  moreover have "list_ex needs_front (w_tasks ?w') \<longrightarrow> ready s'" using rest task_front [OF run tok_flag [OF inv t] rt] by (auto simp: w')
  moreover have "0 < asked ?w' \<longrightarrow> ready_ask s'"
    using rest task_ask [OF run tok_flag [OF inv t] rt] by (auto simp: asked list_ex_iff filter_empty_conv)
  ultimately show ?thesis by (simp add: loop_inv_def w'(1))
qed

lemma message_inv:
  assumes inv: "loop_inv w" and m: "msg_enabled m w" and run: "on_message m (w_sm w) = Inr (s', ts, out)"
  shows "loop_inv (advance (s', ts, out) (receive m w))"
proof -
  let ?w' = "advance (s', ts, out) (receive m w)"
  note tk = msg_tokens [OF run]
  note kp = msg_keeps [OF run]
  have w': "w_sm ?w' = s'" "w_tasks ?w' = ts @ w_tasks w" "asked ?w' = asked w - of_bool (answer m)"
    using tk by (simp_all add: asked_advance asked_receive)
      (simp_all add: advance_def receive_def split: sm_msg.splits)
  have le: "length (filter tok (w_tasks w)) + asked w \<le> 1"
    using inv by (cases "flag (w_sm w)") (simp_all add: loop_inv_def)
  show ?thesis
  proof (cases "answer m")
    case True
    then have "asked w = 1" "filter tok (w_tasks w) = []" using answer_enabled [OF m] le
      by (cases "filter tok (w_tasks w)"; simp)+
    then show ?thesis using inv tk kp True no_front [of "w_tasks w"] by (auto simp: loop_inv_def w')
  next
    case False
    have "\<not> list_ex needs_front ts" using tk False no_front [of ts] by simp
    with False show ?thesis using inv tk kp by (auto simp: loop_inv_def w')
  qed
qed

lemma step_inv: "sm_step w w' \<Longrightarrow> loop_inv w \<Longrightarrow> loop_inv w'"
proof (induction rule: sm_step.induct)
  case (task t w d n)
  then show ?case using task_inv by (cases n) blast
next
  case (throws t w d e)
  then show ?case using tokens_remove1 [OF throws(1)] notin_set_remove1 [of _ "w_tasks w" t]
    by (fastforce simp: loop_inv_def asked_tasks list_ex_iff)
next
  case (message m w n)
  then show ?case using message_inv by (cases n) blast
next
  case (restart w)
  then show ?case by (simp add: loop_inv_def asked_restart)
qed

lemma reachable_inv: "sm_reachable w \<Longrightarrow> loop_inv w"
  unfolding sm_reachable_def
proof (induction rule: rtranclp_induct)
  case base
  show ?case by (simp add: loop_inv_def asked_init) (simp add: w_init_def)
qed (rule step_inv)

lemma front_ready: "sm_reachable w \<Longrightarrow> t \<in> set (w_tasks w) \<Longrightarrow> needs_front t \<Longrightarrow> ready (w_sm w)"
  using reachable_inv [of w] by (auto simp: loop_inv_def list_ex_iff)

lemma ask_ready: "sm_reachable w \<Longrightarrow> 0 < asked w \<Longrightarrow> flag (w_sm w) \<and> ready_ask (w_sm w)"
  using reachable_inv [of w] by (cases "flag (w_sm w)") (auto simp: loop_inv_def)

end

subsection \<open>The two loops\<close>

fun addr_task :: "sm_task \<Rightarrow> bool" where
  "addr_task AddressTx = True"
| "addr_task (NewaddrTx _) = True"
| "addr_task (AddressLoaded _) = True"
| "addr_task LoopAddress = True"
| "addr_task _ = False"

fun addr_front :: "sm_task \<Rightarrow> bool" where
  "addr_front AddressTx = True"
| "addr_front (NewaddrTx _) = True"
| "addr_front _ = False"

fun inv_task :: "sm_task \<Rightarrow> bool" where
  "inv_task InvoiceTx = True"
| "inv_task Quoted = True"
| "inv_task LoopQuotations = True"
| "inv_task (CreatedTx _ _) = True"
| "inv_task CreatedDone = True"
| "inv_task (ReduceTx _ in_loop) = in_loop"
| "inv_task (ReduceDone in_loop) = in_loop"
| "inv_task LoopInvoice = True"
| "inv_task _ = False"

fun inv_front :: "sm_task \<Rightarrow> bool" where
  "inv_front InvoiceTx = True"
| "inv_front Quoted = True"
| "inv_front LoopQuotations = True"
| "inv_front (CreatedTx _ _) = True"
| "inv_front CreatedDone = True"
| "inv_front _ = False"

lemmas loop_defs = process_needs_address_def loop_needs_address_def process_needs_invoice_def
  loop_needs_invoice_def

lemma address_inv_frame [simp]:
  "sm_getting_invoice (fst (process_needs_address s)) = sm_getting_invoice s"
  "sm_getting_invoice (fst (loop_needs_address s)) = sm_getting_invoice s"
  "sm_quotations (fst (process_needs_address s)) = sm_quotations s"
  "sm_quotations (fst (loop_needs_address s)) = sm_quotations s"
  "sm_getting_address (fst (process_needs_invoice s)) = sm_getting_address s"
  "sm_getting_address (fst (loop_needs_invoice s)) = sm_getting_address s"
  "filter inv_task (snd (process_needs_address s)) = []" "filter inv_task (snd (loop_needs_address s)) = []"
  "filter addr_task (snd (process_needs_invoice s)) = []" "filter addr_task (snd (loop_needs_invoice s)) = []"
  "\<not> list_ex addr_front (snd (process_needs_invoice s))" "\<not> list_ex inv_front (snd (process_needs_address s))"
  by (simp_all add: loop_defs)

text \<open>The tasks of the invoice loop and the database tasks leave the address loop alone.\<close>

definition addr_frame :: "swap_manager \<Rightarrow> sm_next \<Rightarrow> bool" where
  "addr_frame s n =
     (sm_getting_address (fst n) = sm_getting_address s \<and> sm_needs_address (fst n) = sm_needs_address s
      \<and> filter addr_task (fst (snd n)) = [] \<and> filter is_newaddr (snd (snd n)) = [])"

lemma is_newaddr_simps [simp]:
  "is_newaddr OutRequestNewaddr" "\<not> is_newaddr (OutSolicitQuotation a)" "\<not> is_newaddr (OutAcceptQuotation a addr c)"
  "\<not> is_newaddr (OutPayInvoice i)" "\<not> is_newaddr (OutSwapResponse u b a)" "\<not> is_newaddr (OutRequestListpays h)"
  "\<not> is_newaddr (OutSwapCompleted a r p)"
  by (simp_all add: is_newaddr_def)

lemma invoice_tx_cases:
  assumes "invoice_tx s = Inr n"
  obtains a addr where "n = (s\<lparr>sm_amount := a, sm_address := addr\<rparr>, [Quoted], [OutSolicitQuotation a])"
    and "sm_needs_invoice s \<noteq> []"
proof -
  obtain u us where u: "sm_needs_invoice s = u # us"
    using assms by (cases "sm_needs_invoice s") (simp_all add: invoice_tx_def front_def)
  show thesis
  proof (cases "filter (is_uuid u) (sm_swaps s)")
    case Nil
    then show thesis using assms u that [of "sm_address s" "sm_amount s"] by (simp add: invoice_tx_def front_def)
  next
    case (Cons r rs)
    then show thesis using assms u that by (auto simp: invoice_tx_def front_def Let_def)
  qed
qed

lemma reduce_cases:
  obtains "swap_reduce_or_fail d u k s = (fst (fail_swap u s), if k then [LoopInvoice] else [], snd (fail_swap u s))"
  | db where "swap_reduce_or_fail d u k s
      = (s\<lparr>sm_swaps := db, sm_needs_invoice := sm_needs_invoice s @ [u]\<rparr>, [ReduceDone k], [])"
  using swap_reduce_fails [of u s d k] swap_reduce_reduces [OF _ refl, of u s d k] by blast

lemma addr_frames:
  "invoice_tx s = Inr n \<Longrightarrow> addr_frame s n" "loop_quotations s = Inr n \<Longrightarrow> addr_frame s n"
  "created_tx sc p s = Inr n \<Longrightarrow> addr_frame s n" "created_done s = Inr n \<Longrightarrow> addr_frame s n"
  "addr_frame s (swap_reduce_or_fail d u k s)" "addr_frame s (reduce_done k s)" "addr_frame s (listpays_tx h s)"
  "addr_frame s (on_pay_success h a s)" "addr_frame s (on_onchain_funds_seen h a p s)"
  "addr_frame s (listfunds_task js s)" "addr_frame s (funds_tx s)" "addr_frame s (block_tx b s)"
  "addr_frame s (check_payments s)"
  subgoal by (erule invoice_tx_cases) (simp add: addr_frame_def)
  subgoal by (auto simp: loop_quotations_def addr_frame_def rbind_eq_Inr split: if_splits)
  subgoal by (auto simp: created_tx_def addr_frame_def rbind_eq_Inr split: if_splits)
  subgoal by (auto simp: created_done_def addr_frame_def rbind_eq_Inr split_beta)
  subgoal by (auto simp: swap_reduce_or_fail_def fail_swap_def delete_row_def addr_frame_def Let_def split: prod.splits)
  subgoal by (cases k) (auto simp: reduce_done_def addr_frame_def split_beta Let_def)
  subgoal by (auto simp: listpays_tx_def addr_frame_def split: list.splits)
  subgoal by (auto simp: on_pay_success_def addr_frame_def split: option.splits)
  subgoal by (auto simp: on_onchain_funds_seen_def addr_frame_def split: option.splits)
  subgoal by (auto simp: listfunds_task_def addr_frame_def split_beta split: sum.splits)
  subgoal by (auto simp: funds_tx_def addr_frame_def delete_row_def Let_def split: list.splits)
  subgoal by (auto simp: block_tx_def addr_frame_def filter_empty_conv)
  subgoal by (auto simp: check_payments_def addr_frame_def filter_empty_conv)
  done

lemma quoted_addr_frame: "quoted d s = Inr n \<Longrightarrow> addr_frame s n"
  using addr_frames(2) by (cases n) (force dest!: quoted_frame simp: addr_frame_def)

definition loop_rel :: "swap_manager \<Rightarrow> sm_task \<Rightarrow> sm_next \<Rightarrow> bool" where
  "loop_rel s t n \<longleftrightarrow>
     length (filter addr_task (fst (snd n))) + length (filter is_newaddr (snd (snd n))) + of_bool (sm_getting_address s)
       \<le> of_bool (addr_task t) + (of_bool (sm_getting_address (fst n)) :: nat)
     \<and> (list_ex addr_front (fst (snd n)) \<or> list_ex is_newaddr (snd (snd n)) \<longrightarrow> sm_needs_address (fst n) \<noteq> [])
     \<and> (\<not> addr_task t \<and> sm_needs_address s \<noteq> [] \<longrightarrow> sm_needs_address (fst n) \<noteq> [])"

lemma addr_front_task: "addr_front t \<Longrightarrow> addr_task t"
  by (cases t) simp_all

lemma addr_frame_rel: "addr_frame s n \<Longrightarrow> loop_rel s t n"
  using addr_front_task by (auto simp: addr_frame_def loop_rel_def list_ex_iff filter_empty_conv)

lemma process_address_rel:
  assumes "sm_getting_address s0 = sm_getting_address s" "sm_needs_address s0 \<noteq> [] \<Longrightarrow> sm_needs_address s \<noteq> []"
    and "\<not> addr_task t" "filter addr_task ts = []"
  shows "loop_rel s0 t (fst (process_needs_address s), snd (process_needs_address s) @ ts, [])"
proof -
  have "\<not> list_ex addr_front ts" using assms(4) addr_front_task by (auto simp: list_ex_iff filter_empty_conv)
  then show ?thesis using assms
    by (cases "sm_getting_address s"; cases "sm_needs_address s")
       (auto simp: loop_rel_def process_needs_address_def loop_needs_address_def)
qed

lemma addr_rel:
  assumes "run_task d t s = Inr n" "addr_task t \<Longrightarrow> sm_getting_address s"
  shows "loop_rel s t n"
proof (cases t)
  case LoadAddressQueue
  then show ?thesis using assms
    by (auto simp: run_task_def split_beta load_queue_def intro!: process_address_rel)
next
  case LoadInvoiceQueue
  then show ?thesis using assms by (auto simp: run_task_def split_beta addr_frame_def intro!: addr_frame_rel)
next
  case ProcessAddress
  then show ?thesis using assms process_address_rel [of s s t "[]"] by (auto simp: run_task_def split_beta)
next
  case AddressTx
  then show ?thesis using assms
    by (auto simp: run_task_def loop_rel_def address_tx_def front_def load_address_def Let_def split: list.splits)
next
  case (NewaddrTx a)
  then show ?thesis using assms
    by (auto simp: run_task_def loop_rel_def front_def load_address_def Let_def split: list.splits)
next
  case (AddressLoaded b)
  then show ?thesis using assms
    by (cases b) (auto simp: run_task_def split_beta loop_rel_def)
next
  case LoopAddress
  then show ?thesis using assms
    by (cases "sm_needs_address s") (auto simp: run_task_def split_beta loop_rel_def loop_needs_address_def)
next
  case LoopInvoice
  then show ?thesis using assms by (auto simp: run_task_def split_beta addr_frame_def intro!: addr_frame_rel)
qed (use assms in \<open>auto simp: run_task_def addr_frames intro!: addr_frame_rel intro: addr_frames quoted_addr_frame\<close>)

text \<open>The same for the invoice loop.\<close>

definition inv_frame :: "swap_manager \<Rightarrow> sm_next \<Rightarrow> bool" where
  "inv_frame s n =
     (sm_getting_invoice (fst n) = sm_getting_invoice s \<and> sm_quotations (fst n) = sm_quotations s
      \<and> (sm_needs_invoice s \<noteq> [] \<longrightarrow> sm_needs_invoice (fst n) \<noteq> [])
      \<and> filter inv_task (fst (snd n)) = [] \<and> filter is_accept (snd (snd n)) = [])"

lemma is_accept_simps [simp]:
  "\<not> is_accept OutRequestNewaddr" "\<not> is_accept (OutSolicitQuotation a)" "is_accept (OutAcceptQuotation a addr c)"
  "\<not> is_accept (OutPayInvoice i)" "\<not> is_accept (OutSwapResponse u b a)" "\<not> is_accept (OutRequestListpays h)"
  "\<not> is_accept (OutSwapCompleted a r p)"
  by (simp_all add: is_accept_def)

lemma inv_frames:
  "inv_frame s (load_address u addr s)" "address_tx s = Inr n \<Longrightarrow> inv_frame s n"
  "inv_frame s (swap_reduce_or_fail d u False s)" "inv_frame s (listpays_tx h s)"
  "inv_frame s (on_pay_success h a s)" "inv_frame s (on_onchain_funds_seen h a p s)"
  "inv_frame s (listfunds_task js s)" "inv_frame s (funds_tx s)" "inv_frame s (block_tx b s)"
  "inv_frame s (check_payments s)"
  subgoal by (simp add: load_address_def inv_frame_def Let_def)
  subgoal by (cases "filter (\<lambda>a. a \<noteq> []) (sm_addrcache s)")
      (auto simp: address_tx_def load_address_def inv_frame_def rbind_eq_Inr Let_def)
  subgoal by (auto simp: swap_reduce_or_fail_def fail_swap_def delete_row_def inv_frame_def Let_def split: prod.splits)
  subgoal by (auto simp: listpays_tx_def inv_frame_def split: list.splits)
  subgoal by (auto simp: on_pay_success_def inv_frame_def split: option.splits)
  subgoal by (auto simp: on_onchain_funds_seen_def inv_frame_def split: option.splits)
  subgoal by (auto simp: listfunds_task_def inv_frame_def split_beta split: sum.splits)
  subgoal by (auto simp: funds_tx_def inv_frame_def delete_row_def Let_def split: list.splits)
  subgoal by (auto simp: block_tx_def inv_frame_def filter_empty_conv)
  subgoal by (auto simp: check_payments_def inv_frame_def filter_empty_conv)
  done

definition inv_rel :: "swap_manager \<Rightarrow> sm_task \<Rightarrow> sm_next \<Rightarrow> bool" where
  "inv_rel s t n \<longleftrightarrow>
     length (filter inv_task (fst (snd n))) + length (filter is_accept (snd (snd n))) + of_bool (sm_getting_invoice s)
       \<le> of_bool (inv_task t) + (of_bool (sm_getting_invoice (fst n)) :: nat)
     \<and> (list_ex inv_front (fst (snd n)) \<or> list_ex is_accept (snd (snd n)) \<longrightarrow> sm_needs_invoice (fst n) \<noteq> [])
     \<and> (list_ex is_accept (snd (snd n)) \<longrightarrow> sm_quotations (fst n) \<noteq> [])
     \<and> (\<not> inv_task t \<and> sm_getting_invoice s \<longrightarrow>
          (sm_needs_invoice s \<noteq> [] \<longrightarrow> sm_needs_invoice (fst n) \<noteq> []) \<and> sm_quotations (fst n) = sm_quotations s)"

lemma inv_front_task: "inv_front t \<Longrightarrow> inv_task t"
  by (cases t) simp_all

lemma inv_frame_rel: "inv_frame s n \<Longrightarrow> inv_rel s t n"
  using inv_front_task by (auto simp: inv_frame_def inv_rel_def list_ex_iff filter_empty_conv)

lemma process_invoice_rel:
  assumes "sm_getting_invoice s0 = sm_getting_invoice s" "sm_needs_invoice s0 \<noteq> [] \<Longrightarrow> sm_needs_invoice s \<noteq> []"
    and "sm_quotations s = sm_quotations s0" "\<not> inv_task t" "filter inv_task ts = []"
  shows "inv_rel s0 t (fst (process_needs_invoice s), snd (process_needs_invoice s) @ ts, [])"
proof -
  have "\<not> list_ex inv_front ts" using assms(5) inv_front_task by (auto simp: list_ex_iff filter_empty_conv)
  then show ?thesis using assms
    by (cases "sm_getting_invoice s"; cases "sm_needs_invoice s")
       (auto simp: inv_rel_def process_needs_invoice_def loop_needs_invoice_def)
qed

lemma loop_invoice_rel:
  assumes "inv_task t" "sm_getting_invoice s" "sm_getting_invoice s0"
  shows "inv_rel s0 t (fst (loop_needs_invoice s), snd (loop_needs_invoice s), [])"
  using assms by (cases "sm_needs_invoice s") (auto simp: inv_rel_def loop_needs_invoice_def)

lemma loop_quotations_rel:
  assumes "loop_quotations s = Inr n" "inv_task t" "sm_getting_invoice s0" "sm_getting_invoice s" "sm_needs_invoice s \<noteq> []"
  shows "inv_rel s0 t n"
  using assms
  by (cases "sm_quotations s"; cases "sm_needs_invoice s") (auto simp: loop_quotations_def front_def inv_rel_def)

lemma inv_rel_task:
  assumes "run_task d t s = Inr n" "inv_task t \<Longrightarrow> sm_getting_invoice s" "inv_front t \<Longrightarrow> sm_needs_invoice s \<noteq> []"
  shows "inv_rel s t n"
proof (cases t)
  case LoadAddressQueue
  then show ?thesis using assms by (auto simp: run_task_def split_beta inv_frame_def intro!: inv_frame_rel)
next
  case LoadInvoiceQueue
  then show ?thesis using assms by (auto simp: run_task_def split_beta load_queue_def intro!: process_invoice_rel)
next
  case ProcessAddress
  then show ?thesis using assms by (auto simp: run_task_def split_beta inv_frame_def intro!: inv_frame_rel)
next
  case (NewaddrTx a)
  then show ?thesis using assms inv_frames(1) by (auto simp: run_task_def rbind_eq_Inr intro!: inv_frame_rel)
next
  case (AddressLoaded b)
  then show ?thesis using assms
    by (cases b) (auto simp: run_task_def split_beta process_invoice_rel inv_frame_def intro: inv_frame_rel)
next
  case LoopAddress
  then show ?thesis using assms by (auto simp: run_task_def split_beta inv_frame_def intro!: inv_frame_rel)
next
  case InvoiceTx
  then show ?thesis using assms by (auto simp: run_task_def inv_rel_def elim!: invoice_tx_cases)
next
  case Quoted
  with assms(1) obtain qs where "loop_quotations (s\<lparr>sm_quotations := qs\<rparr>) = Inr n"
    by (auto simp: run_task_def quoted_def Let_def)
  from loop_quotations_rel [OF this, of t s] show ?thesis using assms Quoted by simp
next
  case LoopQuotations
  then show ?thesis using assms loop_quotations_rel [of s n t s] by (simp add: run_task_def)
next
  case (CreatedTx sc p)
  then show ?thesis using assms by (auto simp: run_task_def created_tx_def rbind_eq_Inr inv_rel_def split: if_splits)
next
  case CreatedDone
  then show ?thesis using assms
    by (auto simp: run_task_def created_done_def rbind_eq_Inr split_beta intro!: loop_invoice_rel)
next
  case (ReduceTx u k)
  with assms(1) have n: "n = swap_reduce_or_fail d u k s" by (simp add: run_task_def)
  show ?thesis
  proof (cases k)
    case True
    with ReduceTx n assms(2) show ?thesis
      by (cases rule: reduce_cases [of d u k s]) (simp_all add: inv_rel_def fail_swap_def delete_row_def Let_def)
  next
    case False
    then show ?thesis using n inv_frames(3) by (simp add: inv_frame_rel)
  qed
next
  case (ReduceDone k)
  then show ?thesis
  proof (cases k)
    case True
    with ReduceDone assms have "n = (fst (loop_needs_invoice s), snd (loop_needs_invoice s), [])"
      by (simp add: run_task_def reduce_done_def process_needs_invoice_def split_beta)
    with True ReduceDone assms show ?thesis by (simp add: loop_invoice_rel)
  next
    case False
    with ReduceDone assms(1) show ?thesis using process_invoice_rel [of s s t "[]"]
      by (auto simp: run_task_def reduce_done_def split_beta)
  qed
next
  case LoopInvoice
  then show ?thesis using assms by (auto simp: run_task_def split_beta intro!: loop_invoice_rel)
qed (use assms in \<open>auto simp: run_task_def inv_frames intro!: inv_frame_rel intro: inv_frames\<close>)

subsection \<open>The laws hold of both loops\<close>

fun answers_newaddr :: "sm_msg \<Rightarrow> bool" where
  "answers_newaddr (ResponseNewaddr _) = True"
| "answers_newaddr _ = False"

fun answers_accept :: "sm_msg \<Rightarrow> bool" where
  "answers_accept (SwapCreation _) = True"
| "answers_accept _ = False"

lemma msg_loops:
  assumes "on_message m s = Inr (s', ts, out)"
  shows "sm_getting_address s' = sm_getting_address s" "length (filter addr_task ts) = of_bool (answers_newaddr m)"
    "out = []" "sm_needs_address s \<noteq> [] \<Longrightarrow> sm_needs_address s' \<noteq> []"
    "sm_getting_invoice s' = sm_getting_invoice s" "length (filter inv_task ts) = of_bool (answers_accept m)"
    "sm_needs_invoice s' = sm_needs_invoice s"
    "\<not> answers_accept m \<Longrightarrow> sm_quotations s \<noteq> [] \<Longrightarrow> sm_quotations s' \<noteq> []"
  using assms
  by (cases m; auto simp: on_message_def on_swap_request_def split: if_splits pay_status.splits)+

lemma world_counters:
  "w_newaddr (advance (s, ts, out) w) = w_newaddr w + length (filter is_newaddr out)"
  "w_accept (advance (s, ts, out) w) = w_accept w + length (filter is_accept out)"
  "w_newaddr (receive m w) = w_newaddr w - of_bool (answers_newaddr m)"
  "w_accept (receive m w) = w_accept w - of_bool (answers_accept m)"
  by (simp_all add: advance_def receive_def split: sm_msg.splits)

interpretation address_loop: guarded_loop sm_getting_address "\<lambda>s. sm_needs_address s \<noteq> []"
  "\<lambda>s. sm_needs_address s \<noteq> []" addr_task addr_front is_newaddr answers_newaddr w_newaddr
proof (unfold_locales, goal_cases)
  case (2 d t s s' ts out)
  then show ?case using addr_rel [of d t s "(s', ts, out)"] by (simp add: loop_rel_def)
next
  case (3 d t s s' ts out)
  then show ?case using addr_rel [of d t s "(s', ts, out)"] by (simp add: loop_rel_def)
next
  case (4 d t s s' ts out)
  then show ?case using addr_rel [of d t s "(s', ts, out)"] by (simp add: loop_rel_def)
next
  case (5 d t s s' ts out)
  then show ?case using addr_rel [of d t s "(s', ts, out)"] by (simp add: loop_rel_def)
next
  case (6 m s s' ts out)
  then show ?case using msg_loops [OF 6] by simp
next
  case (7 m s s' ts out)
  then show ?case using msg_loops [OF 7] by simp
next
  case (8 m w)
  then show ?case by (cases m) (simp_all add: msg_enabled_def)
qed (simp_all add: addr_front_task world_counters w_init_def)

interpretation invoice_loop: guarded_loop sm_getting_invoice "\<lambda>s. sm_needs_invoice s \<noteq> []"
  "\<lambda>s. sm_needs_invoice s \<noteq> [] \<and> sm_quotations s \<noteq> []" inv_task inv_front is_accept answers_accept w_accept
proof (unfold_locales, goal_cases)
  case (2 d t s s' ts out)
  then show ?case using inv_rel_task [of d t s "(s', ts, out)"] by (simp add: inv_rel_def)
next
  case (3 d t s s' ts out)
  then show ?case using inv_rel_task [of d t s "(s', ts, out)"] by (simp add: inv_rel_def)
next
  case (4 d t s s' ts out)
  then show ?case using inv_rel_task [of d t s "(s', ts, out)"] by (simp add: inv_rel_def)
next
  case (5 d t s s' ts out)
  then show ?case using inv_rel_task [of d t s "(s', ts, out)"] inv_front_task by (auto simp: inv_rel_def)
next
  case (6 m s s' ts out)
  then show ?case using msg_loops [OF 6] by simp
next
  case (7 m s s' ts out)
  then show ?case using msg_loops [OF 7] by auto
next
  case (8 m w)
  then show ?case by (cases m) (simp_all add: msg_enabled_def)
qed (simp_all add: inv_front_task world_counters w_init_def)

end
