(* ===== verification/Swap_Manager_Properties.thy ===== *)
theory Swap_Manager_Properties
  imports Swap_Manager_Loops
begin

text \<open>
  What holds of the swap manager however its tasks, its messages and restarts are interleaved, and
  concrete runs of it.
\<close>

subsection \<open>Runs\<close>

datatype sm_event = Run sm_task | Receive sm_msg

definition top_draws :: sm_draws where
  "top_draws = \<lparr>dr_score = (\<lambda>_ a. a), dr_reduce = (\<lambda>_ hi. hi)\<rparr>"

fun sm_exec :: "sm_event list \<Rightarrow> sm_world \<Rightarrow> sm_world option" where
  "sm_exec [] w = Some w"
| "sm_exec (Run t # es) w =
     (if t \<in> set (w_tasks w) then
        (case run_task top_draws t (w_sm w) of
           Inl _ \<Rightarrow> None
         | Inr n \<Rightarrow> sm_exec es (advance n (w\<lparr>w_tasks := remove1 t (w_tasks w)\<rparr>)))
      else None)"
| "sm_exec (Receive m # es) w =
     (if msg_enabled m w then
        (case on_message m (w_sm w) of Inl _ \<Rightarrow> None | Inr n \<Rightarrow> sm_exec es (advance n (receive m w)))
      else None)"

lemma top_draws_ok: "draws_ok top_draws"
  by (simp add: draws_ok_def top_draws_def)

lemma sm_exec_steps: "sm_exec es w = Some w' \<Longrightarrow> sm_step\<^sup>*\<^sup>* w w'"
proof (induction es w rule: sm_exec.induct)
  case (2 t es w)
  then obtain n where t: "t \<in> set (w_tasks w)" "run_task top_draws t (w_sm w) = Inr n"
    and "sm_exec es (advance n (w\<lparr>w_tasks := remove1 t (w_tasks w)\<rparr>)) = Some w'"
    by (auto split: if_splits sum.splits)
  with 2 show ?case using sm_step.task [OF t(1) top_draws_ok t(2)] by (simp add: converse_rtranclp_into_rtranclp)
next
  case (3 m es w)
  then obtain n where m: "msg_enabled m w" "on_message m (w_sm w) = Inr n"
    and "sm_exec es (advance n (receive m w)) = Some w'"
    by (auto split: if_splits sum.splits)
  with 3 show ?case using sm_step.message [OF m] by (simp add: converse_rtranclp_into_rtranclp)
qed simp

lemma sm_exec_reachable: "sm_exec es w_init = Some w \<Longrightarrow> sm_reachable w"
  by (simp add: sm_reachable_def sm_exec_steps)

text \<open>A swap of 1000000 msat down to 1000000 msat, up to the payment of its invoice.\<close>

definition paid_run :: "sm_event list" where
  "paid_run =
     [Receive (SwapRequest ''u'' (Amount 1000000) (Amount 1000000)), Run ProcessAddress, Run AddressTx,
      Receive (ResponseNewaddr ''a''), Run (NewaddrTx ''a''), Run (AddressLoaded True), Run LoopAddress,
      Run InvoiceTx, Receive (ProvideSwapQuotation (Amount 10) 0 ''p''), Run Quoted,
      Receive (SwapCreation \<lparr>sc_success = True, sc_invoice = ''i'', sc_hash = ''h'', sc_timeout = 100\<rparr>),
      Run (CreatedTx \<lparr>sc_success = True, sc_invoice = ''i'', sc_hash = ''h'', sc_timeout = 100\<rparr> ''p''),
      Run CreatedDone]"

definition paid_world :: sm_world where
  "paid_world =
     \<lparr>w_sm = \<lparr>sm_swaps = [\<lparr>sw_uuid = ''u'', sw_amount = 1000000, sw_min_amount = 1000000,
          sw_state = AwaitingResult, sw_address = Some ''a'', sw_payment_hash = Some ''h'', sw_timeout = Some 100\<rparr>],
        sm_addrcache = [], sm_provider = [(''u'', ''p'')], sm_comp_onchain = [], sm_comp_pay = [],
        sm_needs_address = [], sm_needs_invoice = [], sm_getting_address = False, sm_getting_invoice = False,
        sm_quotations = [\<lparr>qt_score = 10, qt_provider = 0, qt_provider_name = ''p''\<rparr>],
        sm_amount = Amount 1000000, sm_address = ''a'', sm_onchain_funds = []\<rparr>,
      w_tasks = [], w_newaddr = 0, w_accept = 0,
      w_out = [OutPayInvoice ''i'', OutAcceptQuotation (Amount 1000000) ''a'' 0, OutSolicitQuotation (Amount 1000000),
        OutRequestNewaddr],
      w_requests = [(''u'', 1000000, 1000000)]\<rparr>"

lemmas sm_eval = on_message_def msg_enabled_def receive_def advance_def run_task_def on_swap_request_def
  process_needs_address_def loop_needs_address_def process_needs_invoice_def loop_needs_invoice_def
  address_tx_def invoice_tx_def quoted_def loop_quotations_def created_tx_def created_done_def front_def
  load_address_def update_rows_def is_uuid_def is_newaddr_def is_accept_def top_draws_def amount_le_iff amount_msat_def
  block_tx_def swap_reduce_or_fail_def fail_swap_def delete_row_def reduce_done_def Let_def

lemma paid_run_world: "sm_exec paid_run w_init = Some paid_world"
  by (simp add: paid_run_def paid_world_def w_init_def sm_init_def sm_eval)

lemma paid_world_reachable: "sm_reachable paid_world"
  using paid_run_world by (rule sm_exec_reachable)

lemma paid_world_block: "sm_step paid_world (paid_world\<lparr>w_tasks := [BlockTx 100]\<rparr>)"
  using sm_step.message [of "Block 100" paid_world "(w_sm paid_world, [BlockTx 100], [])"]
  by (simp add: msg_enabled_def on_message_def advance_def receive_def paid_world_def)

subsection \<open>The manager implements the life cycle\<close>

text \<open>C4: Refinement. Whatever task runs next, whatever message arrives and whenever the process
  restarts, a step of the swap manager is a step of the abstract life cycle of swaps or leaves it
  as it is: a swap is requested, gets an address, gets an invoice, is reduced within its limits,
  fails, succeeds, or is reported failed once more after it was answered.\<close>

theorem swap_manager_refines:
  assumes "sm_reachable w" "sm_step w w'"
  shows "lc_step\<^sup>=\<^sup>= (life w) (life w')"
  using step_world [OF assms(2) reachable_world(1) [OF assms(1)]] by blast

theorem swap_manager_refines_witness:
  "sm_reachable paid_world \<and> sm_step paid_world (paid_world\<lparr>w_tasks := [BlockTx 100]\<rparr>)
    \<and> lc_step\<^sup>=\<^sup>= (life paid_world) (life (paid_world\<lparr>w_tasks := [BlockTx 100]\<rparr>))"
  using swap_manager_refines [OF paid_world_reachable paid_world_block] paid_world_reachable paid_world_block by blast

text \<open>C5: No requested swap is lost and none is both pending and answered: in every reachable state the
  requested swaps are exactly those in the table and those answered, the two kinds are disjoint, a
  swap has one row, and a swap is reported successful at most once.\<close>

theorem swap_accounting:
  assumes "sm_reachable w"
  shows "fst ` set (w_requests w) = ids (sm_swaps (w_sm w)) \<union> fst ` set (responses (w_out w))
    \<and> ids (sm_swaps (w_sm w)) \<inter> fst ` set (responses (w_out w)) = {}
    \<and> distinct (map sw_uuid (sm_swaps (w_sm w))) \<and> distinct (filter snd (responses (w_out w)))"
  using reachable_world(1) [OF assms] by (auto simp: world_inv_def life_def lc_of_def lc_inv_def)

theorem swap_accounting_witness:
  "sm_reachable paid_world
    \<and> fst ` set (w_requests paid_world) = ids (sm_swaps (w_sm paid_world)) \<union> fst ` set (responses (w_out paid_world))"
  using swap_accounting [OF paid_world_reachable] paid_world_reachable by simp

text \<open>C7: Every row of the table is one of a request whose limits it keeps, and has exactly the columns
  its state calls for: an address once it needs an invoice, a payment hash and a timeout while its
  result is awaited, none of these before.\<close>

theorem swap_rows_invariant:
  assumes "sm_reachable w"
  shows "list_all row_complete (sm_swaps (w_sm w)) \<and> list_all (row_limits (w_requests w)) (sm_swaps (w_sm w))"
  using reachable_world(1) [OF assms] by (simp add: world_inv_def life_def lc_of_def lc_inv_def)

theorem swap_rows_invariant_witness:
  "list_all row_complete (sm_swaps (w_sm paid_world)) \<and> sm_swaps (w_sm paid_world) \<noteq> []"
  using swap_rows_invariant [OF paid_world_reachable] by (simp add: paid_world_def)

subsection \<open>No assertion fails\<close>

lemma front_ok: "front q = Inl e \<longleftrightarrow> q = [] \<and> e = AssertFailed"
  by (cases q) (auto simp: front_def)

lemma run_task_assert:
  assumes "run_task d t s = Inl AssertFailed"
  shows "addr_front t \<and> sm_needs_address s = [] \<or> inv_front t \<and> sm_needs_invoice s = []"
  using assms
  by (cases t; cases "filter (\<lambda>a. a \<noteq> []) (sm_addrcache s)")
     (auto simp: run_task_def split_beta address_tx_def invoice_tx_def quoted_def loop_quotations_def
       created_tx_def created_done_def rbind_def Let_def front_ok split: if_splits sum.splits)

text \<open>C6: However tasks and messages interleave, no assertion of the manager fails and no loop takes the
  front of an empty queue: an address arrives only while the address loop runs, a created swap only
  while a quotation is being tried, and the loops keep a swap in front of them.\<close>

theorem swap_manager_no_assert:
  assumes "sm_reachable w"
  shows "(\<forall>t \<in> set (w_tasks w). \<forall>d. run_task d t (w_sm w) \<noteq> Inl AssertFailed)
    \<and> (\<forall>m. msg_enabled m w \<longrightarrow> (\<exists>n. on_message m (w_sm w) = Inr n))"
proof (intro conjI ballI allI impI notI)
  fix t d assume "t \<in> set (w_tasks w)" "run_task d t (w_sm w) = Inl AssertFailed"
  then show False
    using run_task_assert address_loop.front_ready [OF assms] invoice_loop.front_ready [OF assms] by blast
next
  fix m assume m: "msg_enabled m w"
  show "\<exists>n. on_message m (w_sm w) = Inr n"
    using m address_loop.ask_ready [OF assms] invoice_loop.ask_ready [OF assms]
    by (cases m) (auto simp: on_message_def msg_enabled_def on_swap_request_def split: pay_status.splits)
qed

theorem swap_manager_no_assert_witness:
  "msg_enabled (Block 100) paid_world \<and> (\<exists>n. on_message (Block 100) (w_sm paid_world) = Inr n)"
  using swap_manager_no_assert [OF paid_world_reachable] by (auto simp: msg_enabled_def)

subsection \<open>Reduction and completion\<close>

text \<open>C8: What one call of \<open>swap_reduce_or_fail\<close> does to a swap that is in the table, in whatever
  reachable state it is called. Above the minimum asked for, the row goes back to needing an invoice
  with a strictly smaller amount that is still at least the minimum; at the minimum the swap fails
  instead: the requester is told, the row goes, and the address it had is kept for another swap. It
  does not bound the number of tries: after a restart, and when two reductions are pending for one
  swap, an invoice is asked for again at an unchanged amount.\<close>

theorem swap_reduction:
  assumes "sm_reachable w" "draws_ok d" "r \<in> set (sm_swaps (w_sm w))"
    and "swap_reduce_or_fail d (sw_uuid r) k (w_sm w) = (s', ts, out)"
  shows "if sw_amount r = sw_min_amount r
    then sw_uuid r \<notin> ids (sm_swaps s') \<and> out = [OutSwapResponse (sw_uuid r) False (Amount 0)]
      \<and> (sw_address r \<noteq> None \<longrightarrow> sw_address r \<noteq> Some [] \<longrightarrow> the (sw_address r) \<in> set (sm_addrcache s'))
    else \<exists>r' \<in> set (sm_swaps s'). sw_uuid r' = sw_uuid r \<and> sw_state r' = NeedsInvoice
      \<and> sw_min_amount r' = sw_min_amount r \<and> sw_min_amount r \<le> sw_amount r' \<and> sw_amount r' < sw_amount r"
proof -
  have inv: "lc_inv (lc_of (w_requests w) (w_out w) (w_sm w))" and b: "reqs_ok (w_requests w)"
    using reachable_world(1) [OF assms(1)] by (simp_all add: world_inv_def life_def)
  let ?F = "filter (is_uuid (sw_uuid r)) (sm_swaps (w_sm w))"
  have ne: "?F \<noteq> []" using assms(3) by (auto simp: filter_empty_conv is_uuid_def)
  have last: "last ?F = r"
    using last_row [OF ne] sw_unique_row [of "sm_swaps (w_sm w)" "last ?F" r] inv assms(3)
    by (simp add: lc_inv_def lc_of_def is_uuid_def)
  show ?thesis
  proof (cases "sw_amount r = sw_min_amount r")
    case True
    then have "s' = fst (fail_swap (sw_uuid r) (w_sm w))" "out = snd (fail_swap (sw_uuid r) (w_sm w))"
      using swap_reduce_fails [of "sw_uuid r" "w_sm w" d k] assms(4) last by simp_all
    then show ?thesis using True ne last
      by (cases ?F) (auto simp: fail_swap_def Let_def delete_row_def split: option.splits)
  next
    case False
    have a: "sw_min_amount r \<le> reduce_amount d r" "reduce_amount d r < sw_amount r"
      using reduced_amount [OF assms(2) row_bound [OF inv b assms(3)] False refl]
      by (simp_all add: reduce_amount_def Let_def)
    let ?r' = "r\<lparr>sw_state := NeedsInvoice, sw_amount := reduce_amount d r, sw_payment_hash := None, sw_timeout := None\<rparr>"
    have "?r' \<in> set (sm_swaps s')"
      using swap_reduce_reduces [OF ne last [symmetric] False, of d k] assms(3,4)
      by (force simp: update_rows_def is_uuid_def)
    with a False have "\<exists>r' \<in> set (sm_swaps s'). sw_uuid r' = sw_uuid r \<and> sw_state r' = NeedsInvoice
        \<and> sw_min_amount r' = sw_min_amount r \<and> sw_min_amount r \<le> sw_amount r' \<and> sw_amount r' < sw_amount r"
      by (intro bexI [of _ ?r']) simp_all
    with False show ?thesis by simp
  qed
qed

theorem swap_reduction_witness:
  "swap_reduce_or_fail top_draws ''u'' False (w_sm paid_world)
     = ((w_sm paid_world)\<lparr>sm_swaps := [], sm_provider := [], sm_addrcache := [''a'']\<rparr>, [],
        [OutSwapResponse ''u'' False (Amount 0)])
   \<and> draws_ok top_draws \<and> sm_reachable paid_world"
proof -
  let ?r = "hd (sm_swaps (w_sm paid_world))"
  have r: "?r \<in> set (sm_swaps (w_sm paid_world))" "sw_uuid ?r = ''u''" "sw_amount ?r = sw_min_amount ?r"
    by (simp_all add: paid_world_def)
  obtain s' ts out where e: "swap_reduce_or_fail top_draws (sw_uuid ?r) False (w_sm paid_world) = (s', ts, out)"
    by (cases "swap_reduce_or_fail top_draws (sw_uuid ?r) False (w_sm paid_world)")
  from swap_reduction [OF paid_world_reachable top_draws_ok r(1) e] r(3)
  have "out = [OutSwapResponse (sw_uuid ?r) False (Amount 0)]" by simp
  with e r(2) show ?thesis
    by (simp add: paid_world_reachable top_draws_ok) (simp add: paid_world_def sm_eval Let_def)
qed

text \<open>C9: A payment and the onchain funds it bought are matched exactly once, in whichever order they are
  seen: one completion is announced, with the amount sent, the amount received and the provider, and
  neither half stays behind. Seeing the same half again before the other changes nothing.\<close>

theorem swap_completion_matched:
  assumes "map_of (sm_comp_pay s) h = None" "map_of (sm_comp_onchain s) h = None"
    and "on_pay_success h sent s = (s1, ts1, out1)" "on_onchain_funds_seen h received p s1 = (s2, ts2, out2)"
    and "on_onchain_funds_seen h received p s = (s3, ts3, out3)" "on_pay_success h sent s3 = (s4, ts4, out4)"
  shows "out1 = [] \<and> out2 = [OutSwapCompleted sent received p] \<and> s2 = s
    \<and> out3 = [] \<and> out4 = [OutSwapCompleted sent received p] \<and> s4 = s
    \<and> on_pay_success h sent' s1 = (s1, [], []) \<and> on_onchain_funds_seen h received' p' s3 = (s3, [], [])"
proof -
  have f: "filter (\<lambda>e. fst e \<noteq> h) (sm_comp_pay s) = sm_comp_pay s"
    "filter (\<lambda>e. fst e \<noteq> h) (sm_comp_onchain s) = sm_comp_onchain s"
    using assms(1,2) by (auto simp: filter_id_conv map_of_eq_None_iff)
  have a: "amount_msat (to_msat x) = x" for x by (cases x) (simp add: amount_msat_def)
  have pay: "on_pay_success h sent s = (s\<lparr>sm_comp_pay := sm_comp_pay s @ [(h, to_msat sent)]\<rparr>, [], [])"
    and seen: "on_onchain_funds_seen h received p s
      = (s\<lparr>sm_comp_onchain := sm_comp_onchain s @ [(h, to_msat received, p)]\<rparr>, [], [])"
    using assms(1,2) by (simp_all add: on_pay_success_def on_onchain_funds_seen_def)
  then have s1: "s1 = s\<lparr>sm_comp_pay := sm_comp_pay s @ [(h, to_msat sent)]\<rparr>" "out1 = []"
    and s3: "s3 = s\<lparr>sm_comp_onchain := sm_comp_onchain s @ [(h, to_msat received, p)]\<rparr>" "out3 = []"
    using assms(3,5) by simp_all
  have "s2 = s \<and> out2 = [OutSwapCompleted sent received p]"
    using assms(1,2,4) by (simp add: s1 on_onchain_funds_seen_def f a map_add_def)
  moreover have "s4 = s \<and> out4 = [OutSwapCompleted sent received p]"
    using assms(1,2,6) by (simp add: s3 on_pay_success_def f a map_add_def)
  ultimately show ?thesis
    using assms(1,2) by (simp add: s1 s3 on_pay_success_def on_onchain_funds_seen_def map_add_def)
qed

theorem swap_completion_matched_witness:
  "snd (snd (on_onchain_funds_seen ''h'' (Amount 9) ''p'' (fst (on_pay_success ''h'' (Amount 10) sm_init))))
     = [OutSwapCompleted (Amount 10) (Amount 9) ''p'']"
proof -
  let ?h = "''h''" and ?p = "''p''"
  have n: "map_of (sm_comp_pay sm_init) ?h = None" "map_of (sm_comp_onchain sm_init) ?h = None"
    by (simp_all add: sm_init_def)
  obtain s1 ts1 out1 where 1: "on_pay_success ?h (Amount 10) sm_init = (s1, ts1, out1)" by (rule prod_cases3)
  obtain s2 ts2 out2 where 2: "on_onchain_funds_seen ?h (Amount 9) ?p s1 = (s2, ts2, out2)" by (rule prod_cases3)
  obtain s3 ts3 out3 where 3: "on_onchain_funds_seen ?h (Amount 9) ?p sm_init = (s3, ts3, out3)" by (rule prod_cases3)
  obtain s4 ts4 out4 where 4: "on_pay_success ?h (Amount 10) s3 = (s4, ts4, out4)" by (rule prod_cases3)
  from swap_completion_matched [OF n 1 2 3 4] show ?thesis by (simp add: 1 2)
qed

subsection \<open>Runs that show what the life cycle permits\<close>

text \<open>Two blocks after the timeout queue the failure of a swap twice. The second run of
  \<open>swap_reduce_or_fail\<close> finds no row, takes its amount and its minimum to be both 0, and answers the
  requester again.\<close>

lemma answered_twice:
  "\<exists>w. sm_reachable w \<and> responses (w_out w) = [(''u'', False), (''u'', False)]"
proof -
  let ?es = "[Receive (Block 100), Receive (Block 101), Run (BlockTx 100), Run (BlockTx 101),
    Run (ReduceTx ''u'' False), Run (ReduceTx ''u'' False)]"
  obtain w where w: "sm_exec ?es paid_world = Some w" "responses (w_out w) = [(''u'', False), (''u'', False)]"
    by (simp add: paid_world_def sm_eval)
  have "sm_reachable w"
    using paid_world_reachable sm_exec_steps [OF w(1)] by (simp add: sm_reachable_def)
  with w(2) show ?thesis by blast
qed

text \<open>A swap whose amount can still be reduced is instead put twice in the queue for an invoice, and
  two invoices are paid for it, of which the table knows the second only.\<close>

definition requeued_world :: sm_world where
  "requeued_world =
     \<lparr>w_sm = \<lparr>sm_swaps = [\<lparr>sw_uuid = ''u'', sw_amount = 2250000, sw_min_amount = 1000000,
          sw_state = NeedsInvoice, sw_address = Some ''a'', sw_payment_hash = None, sw_timeout = None\<rparr>],
        sm_addrcache = [], sm_provider = [(''u'', ''p'')], sm_comp_onchain = [], sm_comp_pay = [],
        sm_needs_address = [], sm_needs_invoice = [''u'', ''u''], sm_getting_address = False,
        sm_getting_invoice = False,
        sm_quotations = [\<lparr>qt_score = 10, qt_provider = 0, qt_provider_name = ''p''\<rparr>],
        sm_amount = Amount 4000000, sm_address = ''a'', sm_onchain_funds = []\<rparr>,
      w_tasks = [ReduceDone False, ReduceDone False], w_newaddr = 0, w_accept = 0,
      w_out = [OutPayInvoice ''i'', OutAcceptQuotation (Amount 4000000) ''a'' 0, OutSolicitQuotation (Amount 4000000),
        OutRequestNewaddr],
      w_requests = [(''u'', 1000000, 4000000)]\<rparr>"

lemma requeued_reachable: "sm_reachable requeued_world"
proof (rule sm_exec_reachable)
  show "sm_exec
     [Receive (SwapRequest ''u'' (Amount 1000000) (Amount 4000000)), Run ProcessAddress, Run AddressTx,
      Receive (ResponseNewaddr ''a''), Run (NewaddrTx ''a''), Run (AddressLoaded True), Run LoopAddress,
      Run InvoiceTx, Receive (ProvideSwapQuotation (Amount 10) 0 ''p''), Run Quoted,
      Receive (SwapCreation \<lparr>sc_success = True, sc_invoice = ''i'', sc_hash = ''h'', sc_timeout = 100\<rparr>),
      Run (CreatedTx \<lparr>sc_success = True, sc_invoice = ''i'', sc_hash = ''h'', sc_timeout = 100\<rparr> ''p''),
      Run CreatedDone, Receive (Block 100), Receive (Block 101), Run (BlockTx 100), Run (BlockTx 101),
      Run (ReduceTx ''u'' False), Run (ReduceTx ''u'' False)] w_init = Some requeued_world"
    by (simp add: requeued_world_def w_init_def sm_init_def sm_eval)
qed

lemma paid_twice:
  "\<exists>w. sm_reachable w \<and> {OutPayInvoice ''j'', OutPayInvoice ''l''} \<subseteq> set (w_out w)
    \<and> map sw_payment_hash (sm_swaps (w_sm w)) = [Some ''m'']"
proof -
  let ?es = "[Run (ReduceDone False), Run InvoiceTx, Receive (ProvideSwapQuotation (Amount 10) 0 ''p''), Run Quoted,
      Receive (SwapCreation \<lparr>sc_success = True, sc_invoice = ''j'', sc_hash = ''k'', sc_timeout = 200\<rparr>),
      Run (CreatedTx \<lparr>sc_success = True, sc_invoice = ''j'', sc_hash = ''k'', sc_timeout = 200\<rparr> ''p''),
      Run CreatedDone, Run InvoiceTx, Receive (ProvideSwapQuotation (Amount 10) 0 ''p''), Run Quoted,
      Receive (SwapCreation \<lparr>sc_success = True, sc_invoice = ''l'', sc_hash = ''m'', sc_timeout = 200\<rparr>),
      Run (CreatedTx \<lparr>sc_success = True, sc_invoice = ''l'', sc_hash = ''m'', sc_timeout = 200\<rparr> ''p'')]"
  have "case sm_exec ?es requeued_world of None \<Rightarrow> False
    | Some w \<Rightarrow> OutPayInvoice ''j'' \<in> set (w_out w) \<and> OutPayInvoice ''l'' \<in> set (w_out w)
        \<and> map sw_payment_hash (sm_swaps (w_sm w)) = [Some ''m'']"
    by code_simp
  then obtain w where w: "sm_exec ?es requeued_world = Some w"
    and out: "OutPayInvoice ''j'' \<in> set (w_out w) \<and> OutPayInvoice ''l'' \<in> set (w_out w)
      \<and> map sw_payment_hash (sm_swaps (w_sm w)) = [Some ''m'']"
    by (cases "sm_exec ?es requeued_world") simp_all
  have "sm_reachable w"
    using requeued_reachable sm_exec_steps [OF w] by (simp add: sm_reachable_def)
  with out show ?thesis by (intro exI [of _ w]) simp
qed

end
