(* ===== verification/Swap_Requests.thy ===== *)
theory Swap_Requests
  imports Swapper Swap_Manager_Properties
begin

text \<open>
  From a swapper to the swap manager: what \<open>NeedsOnchainFundsSwapper\<close> and \<open>NodeBalanceSwapper\<close> ask for is
  a request the manager takes up.
\<close>

lemma needs_request:
  assumes "on_needs_onchain_funds needed s = Some f" "decide_swap f ignore u t = Inr (t', Some rq)"
  shows "sp_fees_low t = Some True" "needed \<le> max_needed" "rq_id rq = u" "rq_min_offchain_amount rq = Amount 100000000"
    "rq_max_offchain_amount rq = max (Amount 100000000) (amount_mul needed (fl (112 / 100)))"
proof -
  obtain low where low: "sp_fees_low t = Some low" "trigger_swap ignore (needs_policy low needed) u t = (t', Some rq)"
    using assms by (auto simp: on_needs_onchain_funds_def decide_swap_def split: option.splits if_splits)
  from low(2) obtain a where a: "needs_policy low needed = (True, a)"
    "rq = \<lparr>rq_id = u, rq_min_offchain_amount = swap_min_amount,
       rq_max_offchain_amount = (if a < swap_min_amount then swap_min_amount else a)\<rparr>"
    by (cases rule: trigger_swap_cases) auto
  then show "sp_fees_low t = Some True" "needed \<le> max_needed" "rq_id rq = u" "rq_min_offchain_amount rq = Amount 100000000"
    "rq_max_offchain_amount rq = max (Amount 100000000) (amount_mul needed (fl (112 / 100)))"
    using low(1) by (auto simp: needs_policy_def swap_min_amount max_def not_le split: if_splits)
qed

lemma max_needed: "max_needed = Amount 1000000000"
  unfolding max_needed_def by code_simp

text \<open>Onchain funds that are needed are asked for with room for the swap's fees: a request is made
  only while fees are low and for at most 0.01 BTC of need, it covers the need and exceeds it by at
  most 13\% or goes up to the minimum, and the swap manager, in whatever state it is, takes it up: it
  enters the swap with these limits and will answer it.\<close>

theorem needed_funds_requested:
  assumes "on_needs_onchain_funds needed s = Some f" "decide_swap f ignore u t = Inr (t', Some rq)" "sm_reachable w"
    and "u \<notin> fst ` set (w_requests w)"
  shows "sp_fees_low t = Some True \<and> amt needed \<le> 1000000000 \<and> amt needed \<le> amt (rq_max_offchain_amount rq)
    \<and> (100 * amt (rq_max_offchain_amount rq) \<le> 113 * amt needed + 100 \<or> amt (rq_max_offchain_amount rq) = 100000000)
    \<and> (\<exists>w'. sm_step w w' \<and> (\<exists>r \<in> set (sm_swaps (w_sm w')). sw_uuid r = u \<and> sw_state r = NeedsOnchainAddress
          \<and> sw_amount r = to_msat (rq_max_offchain_amount rq) \<and> sw_min_amount r = 100000000)
        \<and> u \<in> set (sm_needs_address (w_sm w')) \<and> ProcessAddress \<in> set (w_tasks w'))"
proof -
  note rq = needs_request [OF assms(1,2)]
  have n: "amt needed \<le> 1000000000" using rq(2) by (simp add: max_needed amount_le_iff)
  let ?a = "amount_mul needed (fl (112 / 100))"
  have a: "amt needed \<le> amt ?a" "100 * amt ?a \<le> 113 * amt needed + 100" using amt_scaled_up [of needed] n by simp_all
  have mx: "amt (rq_max_offchain_amount rq) = max 100000000 (amt ?a)"
    unfolding rq(5) by (simp add: max_def amount_le_iff)
  let ?m = "SwapRequest u (rq_min_offchain_amount rq) (rq_max_offchain_amount rq)"
  have en: "msg_enabled ?m w"
    using assms(4) n a(2) mx by (auto simp: msg_enabled_def amount_le_iff rq(4))
  have new: "\<not> list_ex (is_uuid u) (sm_swaps (w_sm w))"
    using requested_row reachable_world(1) [OF assms(3)] assms(4)
    by (fastforce simp: list_ex_iff is_uuid_def world_inv_def life_def)
  let ?n = "on_swap_request u (rq_min_offchain_amount rq) (rq_max_offchain_amount rq) (w_sm w)"
  have "sm_step w (advance ?n (receive ?m w))"
    using sm_step.message [OF en, of ?n] by (simp add: on_message_def)
  moreover have "\<exists>r \<in> set (sm_swaps (w_sm (advance ?n (receive ?m w)))). sw_uuid r = u \<and> sw_state r = NeedsOnchainAddress
      \<and> sw_amount r = to_msat (rq_max_offchain_amount rq) \<and> sw_min_amount r = 100000000"
    "u \<in> set (sm_needs_address (w_sm (advance ?n (receive ?m w))))"
    "ProcessAddress \<in> set (w_tasks (advance ?n (receive ?m w)))"
    using new by (simp_all add: on_swap_request_def advance_def receive_def rq(4))
  ultimately show ?thesis using rq(1) n a mx by (auto simp: max_def)
qed

theorem needed_funds_requested_witness:
  "decide_swap (\<lambda>low. needs_policy low (Amount 500000000)) False ''u'' ex_swapper
      = Inr (ex_swapping, Some (ex_request (Amount 560000000)))
    \<and> amt (Amount 500000000) \<le> amt (rq_max_offchain_amount (ex_request (Amount 560000000)))"
proof -
  have f: "fl (500000000 * fl (112 / 100)) = 560000000" by code_simp
  have d: "double_of_u64 500000000 = 500000000" using double_of_u64_small [of 500000000] by simp
  have p: "needs_policy True (Amount 500000000) = (True, Amount 560000000)"
    using f by (simp add: needs_policy_def max_needed amount_less_iff amount_mul_def amount_of_scaled_def d double_of_u64_max)
  have "on_needs_onchain_funds (Amount 500000000) ex_swapper = Some (\<lambda>low. needs_policy low (Amount 500000000))"
    by (simp add: on_needs_onchain_funds_def swap_ready_def ex_swapper_def)
  moreover have "decide_swap (\<lambda>low. needs_policy low (Amount 500000000)) False ''u'' ex_swapper
      = Inr (ex_swapping, Some (ex_request (Amount 560000000)))"
    using ex_trigger [of "Amount 560000000"] p by (simp add: decide_swap_def ex_swapper_def amount_le_iff)
  moreover have "sm_reachable w_init" by (simp add: sm_reachable_def)
  moreover have "''u'' \<notin> fst ` set (w_requests w_init)" by (simp add: w_init_def)
  ultimately show ?thesis using needed_funds_requested by blast
qed

end
