(* ===== verification/Swap_Support.thy ===== *)
theory Swap_Support
  imports Swap_Manager_Properties Ln_Ids
begin

text \<open>
  Modules around the swap manager: \<open>src/Boss/Mod/ListpaysHandler.cpp\<close> asks the node how a payment went,
  \<open>OnchainFundsIgnorer.cpp\<close> keeps the operator's wish to leave onchain funds alone, and
  \<open>SwapReporter.cpp\<close> keeps what completed swaps cost.
\<close>

subsection \<open>How a payment went\<close>

text \<open>The status and the amount sent. No reply is an RPC error; a type error is logged and answered
  as a payment that does not exist; any other exception leaves the question unanswered.\<close>

definition pay_entry :: "json \<Rightarrow> string \<Rightarrow> (pay_status \<times> amount) result" where
  "pay_entry pay status =
     (if status = ''failed'' then Inr (PayFailed, Amount 0)
      else if status = ''pending'' then Inr (PayPending, Amount 0)
      else if status = ''complete'' then
        rbind (rbind (json_get pay ''amount_msat'') amount_object) (\<lambda>_.
        rbind (rbind (json_get pay ''amount_sent_msat'') amount_object) (\<lambda>sent.
          Inr (PaySuccess, sent)))
      else Inl JsonTypeError)"

definition listpays_entry :: "json \<Rightarrow> (pay_status \<times> amount) result" where
  "listpays_entry res =
     rbind (json_get res ''pays'') (\<lambda>pays.
     rbind (json_size pays) (\<lambda>n.
       if n = 0 then Inr (PayNonexistent, Amount 0)
       else rbind (json_at pays 0) (\<lambda>pay.
            rbind (rbind (json_get pay ''destination'') json_string) (\<lambda>payee.
            rbind (node_of_string payee) (\<lambda>_.
            rbind (rbind (json_get pay ''status'') json_string) (pay_entry pay))))))"

definition listpays :: "json option \<Rightarrow> (pay_status \<times> amount) result" where
  "listpays reply =
     (case reply of
        None \<Rightarrow> Inr (PayNonexistent, Amount 0)
      | Some res \<Rightarrow>
          (case listpays_entry res of
             Inl e \<Rightarrow> if e = JsonTypeError then Inr (PayNonexistent, Amount 0) else Inl e
           | Inr r \<Rightarrow> Inr r))"

record listpays_handler =
  lp_rpc :: bool
  lp_pending :: "string list"

text \<open>Questions before the node is known wait; the result is the hashes asked about.\<close>

definition lp_on_init :: "listpays_handler \<Rightarrow> listpays_handler \<times> string list" where
  "lp_on_init s = (s\<lparr>lp_rpc := True, lp_pending := []\<rparr>, lp_pending s)"

definition lp_on_request :: "string \<Rightarrow> listpays_handler \<Rightarrow> listpays_handler \<times> string list" where
  "lp_on_request h s =
     (if \<not> lp_rpc s then (s\<lparr>lp_pending := lp_pending s @ [h]\<rparr>, []) else (s, [h]))"

text \<open>A swap is taken for unpaid only when the node says that the payment failed.\<close>

lemma listpays_failed:
  assumes "listpays reply = Inr (PayFailed, a)"
  obtains res pays pay where "reply = Some res" "json_get res ''pays'' = Inr (JArr (pay # pays))"
    "json_get pay ''status'' = Inr (JStr ''failed'')"
proof -
  obtain res where res: "reply = Some res" "listpays_entry res = Inr (PayFailed, a)"
    using assms by (auto simp: listpays_def split: option.splits sum.splits if_splits)
  from res(2) obtain j n where j: "json_get res ''pays'' = Inr j" "json_size j = Inr n"
    and rest: "(if n = 0 then Inr (PayNonexistent, Amount 0) else rbind (json_at j 0) (\<lambda>pay.
            rbind (rbind (json_get pay ''destination'') json_string) (\<lambda>payee.
            rbind (node_of_string payee) (\<lambda>_. rbind (rbind (json_get pay ''status'') json_string) (pay_entry pay)))))
      = Inr (PayFailed, a)"
    unfolding listpays_entry_def rbind_eq_Inr by blast
  then have n: "n \<noteq> 0" by (cases "n = 0") simp_all
  with rest obtain pay where pay: "json_at j 0 = Inr pay"
    and rest2: "rbind (rbind (json_get pay ''destination'') json_string) (\<lambda>payee.
        rbind (node_of_string payee) (\<lambda>_. rbind (rbind (json_get pay ''status'') json_string) (pay_entry pay)))
      = Inr (PayFailed, a)"
    by (simp only: if_False) (erule rbind_InrE)
  from rest2 obtain payee where "rbind (node_of_string payee)
      (\<lambda>_. rbind (rbind (json_get pay ''status'') json_string) (pay_entry pay)) = Inr (PayFailed, a)"
    by (rule rbind_InrE)
  then obtain n where "rbind (rbind (json_get pay ''status'') json_string) (pay_entry pay) = Inr (PayFailed, a)"
    by (rule rbind_InrE)
  then obtain st where st: "rbind (json_get pay ''status'') json_string = Inr st" "pay_entry pay st = Inr (PayFailed, a)"
    by (rule rbind_InrE)
  from j obtain pays where "j = JArr (pay # pays)"
    using n pay by (cases j) (auto simp: json_size_def json_at_def neq_Nil_conv)
  moreover have "st = ''failed''"
    using st(2) by (cases "st = ''failed''"; cases "st = ''pending''"; cases "st = ''complete''") (simp_all add: pay_entry_def rbind_eq_Inr)
  with st(1) have "json_get pay ''status'' = Inr (JStr ''failed'')"
    by (elim rbind_InrE) (auto simp: json_string_def split: json.split_asm)
  ultimately show thesis using that res(1) j(1) by blast
qed

text \<open>The manager never takes a swap's payment for failed on its own: from a reply of the node to
  the reduction of the swap, the first payment listed under its hash has the status \<open>failed\<close>. An
  error of the RPC, an empty or an unreadable reply changes nothing.\<close>

theorem payment_failed_only_if_reported:
  assumes "listpays reply = Inr (st, sent)" "on_message (ResponseListpays h st sent) s = Inr (s', ts, out)"
    and "ListpaysTx h' \<in> set ts"
  shows "s' = s \<and> h' = h \<and> out = []
    \<and> (\<exists>res pays pay. reply = Some res \<and> json_get res ''pays'' = Inr (JArr (pay # pays))
        \<and> json_get pay ''status'' = Inr (JStr ''failed''))"
proof -
  from assms(2,3) have st: "st = PayFailed" "s' = s" "h' = h" "out = []"
    by (cases st; auto simp: on_message_def)+
  from listpays_failed [of reply sent] assms(1) st(1) show ?thesis using st by blast
qed

definition ex_failed :: json where
  "ex_failed = JObj [(''pays'', JArr [JObj [(''destination'', JStr (replicate 66 (CHR ''0''))), (''status'', JStr ''failed'')]])]"

lemma ex_failed_parsed: "listpays (Some ex_failed) = Inr (PayFailed, Amount 0)"
  by code_simp

theorem payment_failed_only_if_reported_witness:
  "\<exists>res pays pay. Some ex_failed = Some res \<and> json_get res ''pays'' = Inr (JArr (pay # pays))
     \<and> json_get pay ''status'' = Inr (JStr ''failed'')"
proof -
  have "on_message (ResponseListpays ''h'' PayFailed (Amount 0)) sm_init = Inr (sm_init, [ListpaysTx ''h''], [])"
    by (simp add: on_message_def)
  from payment_failed_only_if_reported [OF ex_failed_parsed this, of "''h''"] show ?thesis by simp
qed

subsection \<open>Leaving onchain funds alone\<close>

record ignorer =
  ig_db :: bool
  ig_pending :: "nat list"
  ig_disableuntil :: double

datatype command_reply = CommandParamFail | CommandDone

definition ignore_hours :: "json \<Rightarrow> double option" where
  "ignore_hours params =
     (let hours_j =
        (case params of
           JObj kvs \<Rightarrow>
             if length kvs > 1 then None
             else if length kvs = 1 then map_of kvs ''hours''
             else Some JNull
         | JArr xs \<Rightarrow> if length xs > 1 then None else if length xs = 1 then Some (hd xs) else Some JNull
         | _ \<Rightarrow> None)
      in case hours_j of
           Some JNull \<Rightarrow> Some 24
         | Some (JNum hours) \<Rightarrow> Some hours
         | _ \<Rightarrow> None)"

definition ignorer_on_command :: "string \<Rightarrow> json \<Rightarrow> double \<Rightarrow> ignorer \<Rightarrow> ignorer \<times> command_reply option" where
  "ignorer_on_command command params now s =
     (if command = ''clboss-ignore-onchain'' then
        (case ignore_hours params of
           None \<Rightarrow> (s, Some CommandParamFail)
         | Some hours \<Rightarrow> (s\<lparr>ig_disableuntil := fl (now + fl (hours * 3600))\<rparr>, Some CommandDone))
      else if command = ''clboss-notice-onchain'' then (s\<lparr>ig_disableuntil := 0\<rparr>, Some CommandDone)
      else (s, None))"

definition get_flag :: "double \<Rightarrow> ignorer \<Rightarrow> bool \<times> double" where
  "get_flag now s =
     (now < ig_disableuntil s, if now < ig_disableuntil s then fl (ig_disableuntil s - now) else 0)"

text \<open>Questions before the database is there wait; the answers are \<open>(requester, ignore, seconds)\<close>.\<close>

definition ignorer_on_db :: "double \<Rightarrow> ignorer \<Rightarrow> ignorer \<times> (nat \<times> bool \<times> double) list" where
  "ignorer_on_db now s =
     (s\<lparr>ig_db := True, ig_pending := []\<rparr>, map (\<lambda>r. (r, get_flag now s)) (ig_pending s))"

definition ignorer_on_request :: "nat \<Rightarrow> double \<Rightarrow> ignorer \<Rightarrow> ignorer \<times> (nat \<times> bool \<times> double) list" where
  "ignorer_on_request requester now s =
     (if \<not> ig_db s then (s\<lparr>ig_pending := ig_pending s @ [requester]\<rparr>, [])
      else (s, [(requester, get_flag now s)]))"

text \<open>Whole hours are exact: funds are ignored for exactly the time asked for.\<close>

lemma ignore_window:
  assumes "ignorer_on_command ''clboss-ignore-onchain'' (JArr [JNum (of_nat h)]) (of_nat now) s = (s', r)"
    and "now + h * 3600 < 2 ^ 53"
  shows "r = Some CommandDone \<and> fst (get_flag t s') = (t < of_nat (now + h * 3600))"
proof -
  have f: "fl (of_nat h * 3600) = of_nat (h * 3600)" using fl_nat [of "h * 3600"] assms(2) by simp
  have "fl (of_nat now + fl (of_nat h * 3600)) = of_nat (now + h * 3600)"
    using fl_nat [OF assms(2)] unfolding f by simp
  then show ?thesis using assms(1) by (auto simp: ignorer_on_command_def ignore_hours_def get_flag_def Let_def)
qed

subsection \<open>What swaps cost\<close>

record swap_report_row =
  sw_time :: double
  sw_amount_sent :: u64
  sw_amount_received :: u64
  sw_provider_name :: string

definition on_swap_completed :: "double \<Rightarrow> amount \<Rightarrow> amount \<Rightarrow> string \<Rightarrow> swap_report_row list \<Rightarrow> swap_report_row list" where
  "on_swap_completed now sent received provider db =
     db @ [\<lparr>sw_time = now, sw_amount_sent = to_msat sent, sw_amount_received = to_msat received,
            sw_provider_name = provider\<rparr>]"

definition report_totals :: "swap_report_row list \<Rightarrow> amount \<times> amount" where
  "report_totals db =
     fold (\<lambda>r (sent, received). (sent + amount_msat (sw_amount_sent r), received + amount_msat (sw_amount_received r)))
       (sort_key sw_time db) (amount_sat 0, amount_sat 0)"

text \<open>The totals, the loss and the loss in percent.\<close>

definition make_report :: "swap_report_row list \<Rightarrow> amount \<times> amount \<times> amount \<times> double" where
  "make_report db =
     (let (sent, received) = report_totals db; delta = sent - received
      in (sent, received, delta, if sent > amount_sat 0 then fl (100 * amount_ratio delta sent) else 0))"

end
