(* ===== verification/Graph_Dijkstra.thy ===== *)
theory Graph_Dijkstra
  imports Ln_Amount
begin

text \<open>
  \<open>src/Graph/Dijkstra.hpp\<close> and \<open>src/Graph/TreeNode.hpp\<close>: shortest paths from a root, driven by a client
  that feeds the neighbours of the current node. Nodes are their own addresses: the map of tree
  nodes is a function of the node, and parents and children are nodes. The priority queue is kept
  sorted; where costs are equal the heap leaves the order open. \<open>neighbor\<close> and \<open>end_neighbors\<close> are not
  called when the run has ended; the model then leaves the state as it is.
\<close>

record ('n, 'c) treenode =
  tn_cost :: 'c
  tn_parent :: "'n option"
  tn_children :: "'n list"

record ('n, 'c) dijkstra =
  dj_q :: "('n \<times> 'c) list"
  dj_tree :: "'n \<rightharpoonup> ('n, 'c) treenode"
  dj_closed :: "'n list"

definition tree_upd :: "'n \<Rightarrow> ('t \<Rightarrow> 't) \<Rightarrow> ('n \<rightharpoonup> 't) \<Rightarrow> ('n \<rightharpoonup> 't)" where
  "tree_upd v f t = (case t v of None \<Rightarrow> t | Some x \<Rightarrow> t(v \<mapsto> f x))"

definition reparent :: "'n \<Rightarrow> 'n \<Rightarrow> ('n \<rightharpoonup> ('n, 'c) treenode) \<Rightarrow> ('n \<rightharpoonup> ('n, 'c) treenode)" where
  "reparent v u t =
     (let t1 = (case Option.bind (t v) tn_parent of
                  None \<Rightarrow> t
                | Some p \<Rightarrow> tree_upd p (\<lambda>tp. tp\<lparr>tn_children := removeAll v (tn_children tp)\<rparr>) t);
          t2 = tree_upd v (\<lambda>tv. tv\<lparr>tn_parent := Some u\<rparr>) t1
      in tree_upd u (\<lambda>tu. tu\<lparr>tn_children := tn_children tu @ [v]\<rparr>) t2)"

fun q_push :: "'n \<times> 'c::linorder \<Rightarrow> ('n \<times> 'c) list \<Rightarrow> ('n \<times> 'c) list" where
  "q_push e [] = [e]"
| "q_push e (x # xs) = (if snd e < snd x then e # x # xs else x # q_push e xs)"

definition dijkstra_init :: "'n \<Rightarrow> 'c \<Rightarrow> ('n, 'c) dijkstra" where
  "dijkstra_init rt rt_cost =
     \<lparr>dj_q = [(rt, rt_cost)], dj_tree = [rt \<mapsto> \<lparr>tn_cost = rt_cost, tn_parent = None, tn_children = []\<rparr>],
      dj_closed = []\<rparr>"

definition current :: "('n, 'c) dijkstra \<Rightarrow> 'n option" where
  "current d = (case dj_q d of [] \<Rightarrow> None | (u, _) # _ \<Rightarrow> Some u)"

definition neighbor :: "('c \<Rightarrow> 'c \<Rightarrow> 'c) \<Rightarrow> 'n \<Rightarrow> 'c::linorder \<Rightarrow> ('n, 'c) dijkstra \<Rightarrow> ('n, 'c) dijkstra" where
  "neighbor add n c d =
     (case current d of
        None \<Rightarrow> d
      | Some u \<Rightarrow>
          (case dj_tree d u of
             None \<Rightarrow> d
           | Some tu \<Rightarrow>
               (let alt = add (tn_cost tu) c in
                case dj_tree d n of
                  None \<Rightarrow>
                    d\<lparr>dj_tree := reparent n u ((dj_tree d)(n \<mapsto> \<lparr>tn_cost = alt, tn_parent = None, tn_children = []\<rparr>)),
                      dj_q := q_push (n, alt) (dj_q d)\<rparr>
                | Some tv \<Rightarrow>
                    if alt < tn_cost tv
                    then d\<lparr>dj_tree := reparent n u ((dj_tree d)(n \<mapsto> tv\<lparr>tn_cost := alt\<rparr>)),
                           dj_q := q_push (n, alt) (dj_q d)\<rparr>
                    else d)))"

definition end_neighbors :: "('n, 'c) dijkstra \<Rightarrow> ('n, 'c) dijkstra" where
  "end_neighbors d =
     (case dj_q d of
        [] \<Rightarrow> d
      | (u, _) # q \<Rightarrow>
          d\<lparr>dj_closed := u # dj_closed d, dj_q := dropWhile (\<lambda>e. fst e \<in> set (u # dj_closed d)) q\<rparr>)"

text \<open>A client that feeds all neighbours of the current node.\<close>

definition dj_visit ::
  "('c \<Rightarrow> 'c \<Rightarrow> 'c) \<Rightarrow> ('n \<Rightarrow> ('n \<times> 'c::linorder) list) \<Rightarrow> ('n, 'c) dijkstra \<Rightarrow> ('n, 'c) dijkstra" where
  "dj_visit add adj d =
     (case current d of
        None \<Rightarrow> d
      | Some u \<Rightarrow> end_neighbors (fold (\<lambda>(n, c). neighbor add n c) (adj u) d))"

subsection \<open>Costs of paths\<close>

inductive path_cost :: "('c \<Rightarrow> 'c \<Rightarrow> 'c) \<Rightarrow> ('n \<Rightarrow> ('n \<times> 'c) list) \<Rightarrow> 'n \<Rightarrow> 'c \<Rightarrow> 'n \<Rightarrow> 'c \<Rightarrow> bool"
  for add adj rt r0 where
  at_root: "path_cost add adj rt r0 rt r0"
| edge: "path_cost add adj rt r0 u k \<Longrightarrow> (v, c) \<in> set (adj u) \<Longrightarrow> path_cost add adj rt r0 v (add k c)"

definition cost_of :: "('n, 'c) dijkstra \<Rightarrow> 'n \<Rightarrow> 'c option" where
  "cost_of d v = map_option tn_cost (dj_tree d v)"

definition parent_of :: "('n, 'c) dijkstra \<Rightarrow> 'n \<Rightarrow> 'n option" where
  "parent_of d v = Option.bind (dj_tree d v) tn_parent"

definition kids :: "('n \<rightharpoonup> ('n, 'c) treenode) \<Rightarrow> 'n \<Rightarrow> 'n list" where
  "kids t v = (case t v of None \<Rightarrow> [] | Some x \<Rightarrow> tn_children x)"

subsection \<open>Effects of the operations\<close>

lemma tree_upd_apply: "tree_upd v f t w = (if w = v then map_option f (t v) else t w)"
  by (auto simp: tree_upd_def split: option.splits)

lemma reparent_cost: "map_option tn_cost (reparent v u t w) = map_option tn_cost (t w)"
  by (auto simp: reparent_def tree_upd_apply Let_def option.map_comp comp_def split: option.splits)

lemma reparent_parent:
  "Option.bind (reparent v u t w) tn_parent = (if w = v \<and> t v \<noteq> None then Some u else Option.bind (t w) tn_parent)"
  by (cases "Option.bind (t v) tn_parent"; cases "t w"; cases "t v")
     (auto simp: reparent_def tree_upd_apply Let_def split: option.splits)

lemma reparent_dom: "dom (reparent v u t) = dom t"
  by (auto simp: reparent_def tree_upd_apply Let_def dom_def split: option.splits if_splits)

lemma reparent_kids:
  assumes "t v \<noteq> None" "t u \<noteq> None" "\<And>p. Option.bind (t v) tn_parent = Some p \<Longrightarrow> t p \<noteq> None"
  shows "kids (reparent v u t) w =
    (if Option.bind (t v) tn_parent = Some w then removeAll v (kids t w) else kids t w) @ (if w = u then [v] else [])"
  using assms
  by (cases "Option.bind (t v) tn_parent")
     (auto simp: reparent_def tree_upd_apply Let_def kids_def split: option.splits if_splits)

lemma set_q_push [simp]: "set (q_push e q) = insert e (set q)"
  by (induction q) auto

lemma sorted_q_push: "sorted (map snd q) \<Longrightarrow> sorted (map snd (q_push e q))"
  by (induction q) (auto simp: not_less)

lemma hd_q_push: "q \<noteq> [] \<Longrightarrow> snd (hd q) \<le> snd e \<Longrightarrow> hd (q_push e q) = hd q"
  by (cases q) auto

lemma neighbor_cases:
  assumes "current d = Some u" "cost_of d u = Some ku"
  obtains (same) k where "neighbor add n c d = d" "cost_of d n = Some k" "k \<le> add ku c"
  | (better) t where "neighbor add n c d = d\<lparr>dj_tree := reparent n u t, dj_q := q_push (n, add ku c) (dj_q d)\<rparr>"
      "\<And>k. cost_of d n = Some k \<Longrightarrow> add ku c < k" "\<And>w. map_option tn_cost (t w) = ((cost_of d)(n \<mapsto> add ku c)) w"
      "\<And>w. Option.bind (t w) tn_parent = parent_of d w" "kids t = kids (dj_tree d)" "t n \<noteq> None"
proof -
  obtain tu where tu: "dj_tree d u = Some tu" "tn_cost tu = ku" using assms(2) by (auto simp: cost_of_def)
  show thesis
  proof (cases "dj_tree d n")
    case None
    let ?t = "(dj_tree d)(n \<mapsto> \<lparr>tn_cost = add ku c, tn_parent = None, tn_children = []\<rparr>)"
    have e: "neighbor add n c d = d\<lparr>dj_tree := reparent n u ?t, dj_q := q_push (n, add ku c) (dj_q d)\<rparr>"
      by (simp add: neighbor_def assms(1) tu None Let_def)
    show thesis by (rule better [OF e]) (auto simp: cost_of_def parent_of_def kids_def None)
  next
    case (Some tv)
    show thesis
    proof (cases "add ku c < tn_cost tv")
      case True
      let ?t = "(dj_tree d)(n \<mapsto> tv\<lparr>tn_cost := add ku c\<rparr>)"
      have e: "neighbor add n c d = d\<lparr>dj_tree := reparent n u ?t, dj_q := q_push (n, add ku c) (dj_q d)\<rparr>"
        by (simp add: neighbor_def assms(1) tu Some True Let_def)
      show thesis by (rule better [OF e]) (use True in \<open>auto simp: cost_of_def parent_of_def kids_def Some\<close>)
    next
      case False
      then show thesis using same assms(1) tu Some by (simp add: neighbor_def cost_of_def Let_def)
    qed
  qed
qed

subsection \<open>The invariant\<close>

text \<open>\<open>F\<close> is the current node while its neighbours are fed, and \<open>es\<close> the edges fed so far.\<close>

definition costs_ok where
  "costs_ok add adj rt r0 F es d =
     (cost_of d rt = Some r0 \<and> (\<forall>v k. cost_of d v = Some k \<longrightarrow> path_cost add adj rt r0 v k)
      \<and> (\<forall>x \<in> set (dj_closed d). \<exists>kx. cost_of d x = Some kx
           \<and> (\<forall>(v, c) \<in> set (adj x). \<exists>kv. cost_of d v = Some kv \<and> kv \<le> add kx c)
           \<and> (\<forall>v k. v \<notin> set (dj_closed d) \<longrightarrow> cost_of d v = Some k \<longrightarrow> kx \<le> k))
      \<and> (\<forall>x \<in> F. \<exists>kx. cost_of d x = Some kx
           \<and> (\<forall>(v, c) \<in> set es. \<exists>kv. cost_of d v = Some kv \<and> kv \<le> add kx c)))"

definition queue_inv where
  "queue_inv d =
     (sorted (map snd (dj_q d)) \<and> (dj_q d \<noteq> [] \<longrightarrow> fst (hd (dj_q d)) \<notin> set (dj_closed d))
      \<and> (\<forall>v k. cost_of d v = Some k \<longrightarrow> v \<notin> set (dj_closed d) \<longrightarrow> (v, k) \<in> set (dj_q d))
      \<and> (\<forall>(v, k) \<in> set (dj_q d). \<exists>k'. cost_of d v = Some k' \<and> k' \<le> k))"

definition tree_ok where
  "tree_ok add adj rt F d =
     (parent_of d rt = None \<and> (\<forall>v. v \<noteq> rt \<longrightarrow> cost_of d v \<noteq> None \<longrightarrow> parent_of d v \<noteq> None)
      \<and> (\<forall>v p. parent_of d v = Some p \<longrightarrow> p \<noteq> v \<and> p \<in> set (dj_closed d) \<union> F
           \<and> (\<exists>kp c. cost_of d p = Some kp \<and> (v, c) \<in> set (adj p) \<and> cost_of d v = Some (add kp c)))
      \<and> (\<forall>p. distinct (kids (dj_tree d) p) \<and> (\<forall>v. v \<in> set (kids (dj_tree d) p) \<longleftrightarrow> parent_of d v = Some p)))"

definition order_ok where
  "order_ok d =
     (distinct (dj_closed d)
      \<and> (\<forall>xs v ys. dj_closed d = xs @ v # ys \<longrightarrow> (\<forall>p. parent_of d v = Some p \<longrightarrow> p \<in> set ys)))"

text \<open>The node at the front has the least cost of all that are open, and its entry is up to date.\<close>

lemma front_least:
  assumes "queue_inv d" "current d = Some u"
  obtains ku q where "cost_of d u = Some ku" "u \<notin> set (dj_closed d)" "dj_q d = (u, ku) # q"
    "\<And>v k. v \<notin> set (dj_closed d) \<Longrightarrow> cost_of d v = Some k \<Longrightarrow> ku \<le> k"
proof -
  obtain k0 q where q: "dj_q d = (u, k0) # q" using assms(2) by (auto simp: current_def split: list.splits)
  obtain ku where ku: "cost_of d u = Some ku" "ku \<le> k0" using assms(1) q by (auto simp: queue_inv_def)
  have u: "u \<notin> set (dj_closed d)" using assms(1) q by (simp add: queue_inv_def)
  have least: "k0 \<le> k" if "v \<notin> set (dj_closed d)" "cost_of d v = Some k" for v k
  proof -
    have "(v, k) \<in> set (dj_q d)" "sorted (map snd (dj_q d))" using assms(1) that by (auto simp: queue_inv_def)
    then show ?thesis using q by auto
  qed
  have "k0 = ku" using least [OF u ku(1)] ku(2) by simp
  with that ku u q least show thesis by auto
qed

lemma end_queue:
  assumes inv: "queue_inv d" and d: "dj_q d = (u, ku) # q" and cl: "cl = insert u (set (dj_closed d))"
    and d': "dj_q d' = dropWhile (\<lambda>e. fst e \<in> cl) q" "set (dj_closed d') = cl" "cost_of d' = cost_of d"
  shows "queue_inv d'"
proof -
  let ?q' = "dropWhile (\<lambda>e. fst e \<in> cl) q"
  have keep: "(v, k) \<in> set ?q'" if "(v, k) \<in> set q" "v \<notin> cl" for v k
  proof -
    have "(v, k) \<notin> set (takeWhile (\<lambda>e. fst e \<in> cl) q)" using that(2) set_takeWhileD by fastforce
    then show ?thesis using that(1) by (metis Un_iff set_append takeWhile_dropWhile_id)
  qed
  have "sorted (map snd q)" using inv d by (simp add: queue_inv_def)
  then have "sorted (map snd ?q')" by (metis map_append sorted_append takeWhile_dropWhile_id)
  moreover have "(v, k) \<in> set ?q'" if "cost_of d v = Some k" "v \<notin> cl" for v k
  proof (rule keep [OF _ that(2)])
    have "(v, k) \<in> set (dj_q d)" using inv that cl by (auto simp: queue_inv_def)
    then show "(v, k) \<in> set q" using that(2) d cl by auto
  qed
  moreover have "\<exists>k'. cost_of d v = Some k' \<and> k' \<le> k" if "(v, k) \<in> set ?q'" for v k
  proof -
    have "(v, k) \<in> set (dj_q d)" using set_dropWhileD [OF that] d by simp
    then show ?thesis using inv by (auto simp: queue_inv_def)
  qed
  ultimately show ?thesis unfolding queue_inv_def d' using hd_dropWhile [of "\<lambda>e. fst e \<in> cl" q] by auto
qed

locale cost_add =
  fixes add :: "'c::linorder \<Rightarrow> 'c \<Rightarrow> 'c"
  assumes add_mono: "a \<le> b \<Longrightarrow> add a c \<le> add b c"
    and add_infl: "a \<le> add a c"
begin

definition dj_inv where
  "dj_inv adj rt r0 F es d =
     (costs_ok add adj rt r0 F es d \<and> queue_inv d \<and> tree_ok add adj rt F d \<and> order_ok d)"

lemma path_cost_ge: "path_cost add adj rt r0 v k \<Longrightarrow> r0 \<le> k"
  by (induction rule: path_cost.induct) (auto intro: order_trans [OF _ add_infl])

lemma inv_init: "dj_inv adj rt r0 {} [] (dijkstra_init rt r0)"
  by (auto simp: dj_inv_def costs_ok_def queue_inv_def tree_ok_def order_ok_def dijkstra_init_def cost_of_def
    parent_of_def kids_def intro: path_cost.at_root)

lemma inv_start:
  assumes "dj_inv adj rt r0 {} [] d" "current d = Some u"
  shows "dj_inv adj rt r0 {u} [] d"
proof -
  have "queue_inv d" using assms(1) by (simp add: dj_inv_def)
  from front_least [OF this assms(2)] obtain ku where "cost_of d u = Some ku" by blast
  with assms(1) show ?thesis by (auto simp: dj_inv_def costs_ok_def tree_ok_def)
qed

text \<open>Feeding a neighbour. A better cost is never found for a closed node or for the current one.\<close>

lemma better_open:
  assumes "dj_inv adj rt r0 {u} es d" "current d = Some u" "cost_of d u = Some ku"
    and "\<And>k. cost_of d n = Some k \<Longrightarrow> add ku c < k"
  shows "n \<notin> set (dj_closed d)" "n \<noteq> u" "n \<noteq> rt"
proof -
  have q: "queue_inv d" and c: "costs_ok add adj rt r0 {u} es d" using assms(1) by (simp_all add: dj_inv_def)
  obtain ku' where ku: "cost_of d u = Some ku'" "u \<notin> set (dj_closed d)" by (rule front_least [OF q assms(2)])
  show "n \<notin> set (dj_closed d)"
  proof
    assume "n \<in> set (dj_closed d)"
    then obtain kn where "cost_of d n = Some kn" "kn \<le> ku" using c ku assms(3) by (auto simp: costs_ok_def)
    then show False using assms(4) [of kn] add_infl [of ku c] by simp
  qed
  show "n \<noteq> u" using assms(3,4) add_infl [of ku c] by (metis leD)
  show "n \<noteq> rt"
  proof
    assume "n = rt"
    then have "add ku c < r0" using c assms(4) by (simp add: costs_ok_def)
    moreover have "path_cost add adj rt r0 u ku" using c assms(3) by (simp add: costs_ok_def)
    then have "r0 \<le> ku" by (rule path_cost_ge)
    ultimately show False using add_infl [of ku c] by simp
  qed
qed

definition improved where
  "improved u n alt d d' \<longleftrightarrow>
     cost_of d' = (cost_of d)(n \<mapsto> alt) \<and> parent_of d' = (parent_of d)(n \<mapsto> u) \<and> dj_closed d' = dj_closed d
     \<and> dj_q d' = q_push (n, alt) (dj_q d)
     \<and> (\<forall>p. kids (dj_tree d') p = (if parent_of d n = Some p then removeAll n (kids (dj_tree d) p)
                                   else kids (dj_tree d) p) @ (if p = u then [n] else []))"

lemma neighbor_improved:
  assumes inv: "dj_inv adj rt r0 {u} es d" and cur: "current d = Some u" and ku: "cost_of d u = Some ku"
  obtains k where "neighbor add n c d = d" "cost_of d n = Some k" "k \<le> add ku c"
  | "improved u n (add ku c) d (neighbor add n c d)" "\<And>k. cost_of d n = Some k \<Longrightarrow> add ku c < k"
proof (cases rule: neighbor_cases [OF cur ku, of add n c])
  case (1 k)
  then show thesis using that(1) by blast
next
  case (2 t)
  have tu: "t u \<noteq> None" using 2(3) [of u] ku by (auto split: if_splits)
  have tp: "t p \<noteq> None" if "Option.bind (t n) tn_parent = Some p" for p
  proof -
    have "parent_of d n = Some p" using that 2(4) by simp
    then obtain kp where "cost_of d p = Some kp" using inv unfolding dj_inv_def tree_ok_def by blast
    then show ?thesis using 2(3) [of p] by (auto split: if_splits)
  qed
  have "cost_of (neighbor add n c d) = (cost_of d)(n \<mapsto> add ku c)"
    by (rule ext, subst cost_of_def) (simp add: 2(1) reparent_cost 2(3))
  moreover have "parent_of (neighbor add n c d) = (parent_of d)(n \<mapsto> u)"
    using 2(4,6) by (auto simp: 2(1) parent_of_def reparent_parent)
  moreover have "kids (dj_tree (neighbor add n c d)) p = (if parent_of d n = Some p then removeAll n (kids (dj_tree d) p)
      else kids (dj_tree d) p) @ (if p = u then [n] else [])" for p
    using reparent_kids [of t n u p] 2(6) tu tp by (simp add: 2(1,4,5))
  ultimately have "improved u n (add ku c) d (neighbor add n c d)" by (simp add: improved_def 2(1))
  then show thesis using that(2) 2(2) by blast
qed

lemma improved_costs:
  assumes inv: "dj_inv adj rt r0 {u} es d" and ku: "cost_of d u = Some ku" "u \<notin> set (dj_closed d)"
    and e: "(n, c) \<in> set (adj u)" and i: "improved u n (add ku c) d d'"
    and b: "\<And>k. cost_of d n = Some k \<Longrightarrow> add ku c < k" and n: "n \<notin> set (dj_closed d)" "n \<noteq> u" "n \<noteq> rt"
  shows "costs_ok add adj rt r0 {u} (es @ [(n, c)]) d'"
proof -
  have c: "costs_ok add adj rt r0 {u} es d" using inv by (simp add: dj_inv_def)
  have cost: "cost_of d' = (cost_of d)(n \<mapsto> add ku c)" and cl: "dj_closed d' = dj_closed d"
    using i by (simp_all add: improved_def)
  have path: "path_cost add adj rt r0 n (add ku c)"
    using c ku(1) e by (intro path_cost.edge [of add adj rt r0 u]) (simp_all add: costs_ok_def)
  have keep: "\<exists>kv'. cost_of d' v = Some kv' \<and> kv' \<le> m" if "\<exists>kv. cost_of d v = Some kv \<and> kv \<le> m" for v m
    using that b by (auto simp: cost intro: order_trans [OF less_imp_le])
  have "\<exists>kx. cost_of d' x = Some kx \<and> (\<forall>(v, c) \<in> set (adj x). \<exists>kv. cost_of d' v = Some kv \<and> kv \<le> add kx c)
      \<and> (\<forall>v k. v \<notin> set (dj_closed d) \<longrightarrow> cost_of d' v = Some k \<longrightarrow> kx \<le> k)" if x: "x \<in> set (dj_closed d)" for x
  proof -
    obtain kx where kx: "cost_of d x = Some kx" "\<forall>(v, c) \<in> set (adj x). \<exists>kv. cost_of d v = Some kv \<and> kv \<le> add kx c"
      "\<forall>v k. v \<notin> set (dj_closed d) \<longrightarrow> cost_of d v = Some k \<longrightarrow> kx \<le> k"
      using c x by (auto simp: costs_ok_def)
    have "kx \<le> add ku c" using kx(3) ku add_infl [of ku c] by (auto intro: order_trans)
    then show ?thesis using kx x n keep by (intro exI [of _ kx]) (auto simp: cost)
  qed
  moreover have "\<forall>(v, c') \<in> set (es @ [(n, c)]). \<exists>kv. cost_of d' v = Some kv \<and> kv \<le> add ku c'"
    using c ku(1) keep by (auto simp: costs_ok_def cost)
  ultimately show ?thesis using c path ku n by (auto simp: costs_ok_def cost cl)
qed

lemma improved_queue:
  assumes q: "queue_inv d" and ku: "dj_q d = (u, ku) # q'" and i: "improved u n (add ku c) d d'"
    and b: "\<And>k. cost_of d n = Some k \<Longrightarrow> add ku c < k"
  shows "queue_inv d'" "hd (dj_q d') = (u, ku)" "dj_q d' \<noteq> []"
proof -
  have dq: "dj_q d' = q_push (n, add ku c) (dj_q d)" and cost: "cost_of d' = (cost_of d)(n \<mapsto> add ku c)"
    and cl: "dj_closed d' = dj_closed d" using i by (simp_all add: improved_def)
  show hd: "hd (dj_q d') = (u, ku)" using hd_q_push [of "dj_q d" "(n, add ku c)"] ku add_infl [of ku c] by (simp add: dq)
  show ne: "dj_q d' \<noteq> []" using dq by (metis empty_not_insert set_empty set_q_push)
  have "\<exists>k'. cost_of d' v = Some k' \<and> k' \<le> k" if vk: "(v, k) \<in> set (dj_q d)" for v k
  proof -
    obtain k' where "cost_of d v = Some k'" "k' \<le> k" using q vk by (auto simp: queue_inv_def)
    then show ?thesis using b [of k'] by (auto simp: cost)
  qed
  then have "\<forall>(v, k) \<in> set (dj_q d'). \<exists>k'. cost_of d' v = Some k' \<and> k' \<le> k" by (auto simp: dq cost)
  then show "queue_inv d'"
    using q sorted_q_push [of "dj_q d" "(n, add ku c)"] hd ku by (auto simp: queue_inv_def dq cost cl)
qed

lemma improved_tree:
  assumes t: "tree_ok add adj rt {u} d" and o: "order_ok d" and ku: "cost_of d u = Some ku" "u \<notin> set (dj_closed d)"
    and e: "(n, c) \<in> set (adj u)" and i: "improved u n (add ku c) d d'"
    and n: "n \<notin> set (dj_closed d)" "n \<noteq> u" "n \<noteq> rt"
  shows "tree_ok add adj rt {u} d'" "order_ok d'"
proof -
  have cost: "cost_of d' = (cost_of d)(n \<mapsto> add ku c)" and cl: "dj_closed d' = dj_closed d"
    and par: "parent_of d' = (parent_of d)(n \<mapsto> u)"
    and kd: "\<And>p. kids (dj_tree d') p = (if parent_of d n = Some p then removeAll n (kids (dj_tree d) p)
        else kids (dj_tree d) p) @ (if p = u then [n] else [])"
    using i by (simp_all add: improved_def)
  have oldd: "distinct (kids (dj_tree d) p)" for p using t by (simp add: tree_ok_def)
  have oldm: "v \<in> set (kids (dj_tree d) p) \<longleftrightarrow> parent_of d v = Some p" for p v using t by (simp add: tree_ok_def)
  have k: "distinct (kids (dj_tree d') p) \<and> (\<forall>v. v \<in> set (kids (dj_tree d') p) \<longleftrightarrow> parent_of d' v = Some p)" for p
    by (auto simp: kd par oldd oldm distinct_removeAll)
  have edges: "p \<noteq> v \<and> p \<in> set (dj_closed d) \<union> {u}
      \<and> (\<exists>kp c. cost_of d' p = Some kp \<and> (v, c) \<in> set (adj p) \<and> cost_of d' v = Some (add kp c))"
    if "parent_of d' v = Some p" for v p
  proof (cases "v = n")
    case True
    then show ?thesis using that n e ku by (auto simp: par cost)
  next
    case False
    then have "p \<noteq> v" "p \<in> set (dj_closed d) \<union> {u}"
      "\<exists>kp c. cost_of d p = Some kp \<and> (v, c) \<in> set (adj p) \<and> cost_of d v = Some (add kp c)"
      using that t by (auto simp: par tree_ok_def)
    moreover have "p \<noteq> n" using calculation(2) n by auto
    ultimately show ?thesis using False by (simp add: cost)
  qed
  have "parent_of d' rt = None" using t n by (simp add: tree_ok_def par)
  moreover have "parent_of d' v \<noteq> None" if "v \<noteq> rt" "cost_of d' v \<noteq> None" for v
    using t that by (auto simp: tree_ok_def par cost)
  ultimately show "tree_ok add adj rt {u} d'" using k edges unfolding tree_ok_def cl by blast
  show "order_ok d'" using o n by (auto simp: order_ok_def cl par)
qed

lemma neighbor_inv:
  assumes inv: "dj_inv adj rt r0 {u} es d" and cur: "current d = Some u" and e: "(n, c) \<in> set (adj u)"
  shows "dj_inv adj rt r0 {u} (es @ [(n, c)]) (neighbor add n c d) \<and> current (neighbor add n c d) = Some u
    \<and> dj_closed (neighbor add n c d) = dj_closed d"
proof -
  have q: "queue_inv d" and t: "tree_ok add adj rt {u} d" and o: "order_ok d" using inv by (simp_all add: dj_inv_def)
  obtain ku q' where ku: "cost_of d u = Some ku" "u \<notin> set (dj_closed d)" "dj_q d = (u, ku) # q'"
    by (rule front_least [OF q cur])
  show ?thesis
  proof (cases rule: neighbor_improved [OF inv cur ku(1), of n c])
    case (1 k)
    then show ?thesis using inv cur ku by (auto simp: dj_inv_def costs_ok_def)
  next
    case 2
    note n = better_open [OF inv cur ku(1) 2(2)]
    have "current (neighbor add n c d) = Some u"
      using improved_queue(2,3) [OF q ku(3) 2] by (auto simp: current_def split: list.splits)
    then show ?thesis
      using improved_costs [OF inv ku(1,2) e 2 n] improved_queue(1) [OF q ku(3) 2] improved_tree [OF t o ku(1,2) e 2(1) n] 2(1)
      by (simp add: dj_inv_def improved_def)
  qed
qed

lemma fold_neighbor_inv:
  assumes "dj_inv adj rt r0 {u} es d" "current d = Some u" "set xs \<subseteq> set (adj u)"
  shows "dj_inv adj rt r0 {u} (es @ xs) (fold (\<lambda>(n, c). neighbor add n c) xs d)
    \<and> current (fold (\<lambda>(n, c). neighbor add n c) xs d) = Some u
    \<and> dj_closed (fold (\<lambda>(n, c). neighbor add n c) xs d) = dj_closed d"
  using assms
proof (induction xs arbitrary: es d)
  case (Cons x xs)
  obtain n c where x: "x = (n, c)" by (cases x)
  have e: "(n, c) \<in> set (adj u)" using Cons.prems(3) x by simp
  note s = neighbor_inv [OF Cons.prems(1,2) e]
  then show ?case
    using Cons.IH [of "es @ [(n, c)]" "neighbor add n c d"] Cons.prems(3) by (simp add: x)
qed simp

lemma end_inv:
  assumes inv: "dj_inv adj rt r0 {u} (adj u) d" and cur: "current d = Some u"
  shows "dj_inv adj rt r0 {} [] (end_neighbors d)" "dj_closed (end_neighbors d) = u # dj_closed d"
proof -
  have c: "costs_ok add adj rt r0 {u} (adj u) d" and q: "queue_inv d" and t: "tree_ok add adj rt {u} d" and o: "order_ok d"
    using inv by (simp_all add: dj_inv_def)
  obtain ku q' where ku: "cost_of d u = Some ku" "u \<notin> set (dj_closed d)" "dj_q d = (u, ku) # q'"
    and least: "\<And>v k. v \<notin> set (dj_closed d) \<Longrightarrow> cost_of d v = Some k \<Longrightarrow> ku \<le> k"
    using front_least [OF q cur] by metis
  have d': "end_neighbors d
      = d\<lparr>dj_closed := u # dj_closed d, dj_q := dropWhile (\<lambda>e. fst e \<in> insert u (set (dj_closed d))) q'\<rparr>"
    by (simp add: end_neighbors_def ku(3))
  show cl: "dj_closed (end_neighbors d) = u # dj_closed d" by (simp add: d')
  have same: "cost_of (end_neighbors d) = cost_of d" "parent_of (end_neighbors d) = parent_of d"
    "dj_tree (end_neighbors d) = dj_tree d" by (auto simp: d' cost_of_def parent_of_def)
  have "\<exists>kx. cost_of d x = Some kx \<and> (\<forall>(v, c) \<in> set (adj x). \<exists>kv. cost_of d v = Some kv \<and> kv \<le> add kx c)
      \<and> (\<forall>v k. v \<notin> insert u (set (dj_closed d)) \<longrightarrow> cost_of d v = Some k \<longrightarrow> kx \<le> k)"
    if x: "x \<in> insert u (set (dj_closed d))" for x
    using x
  proof
    assume "x = u"
    then show ?thesis using c ku(1) least by (intro exI [of _ ku]) (auto simp: costs_ok_def)
  next
    assume "x \<in> set (dj_closed d)"
    then show ?thesis using c unfolding costs_ok_def by blast
  qed
  then have "costs_ok add adj rt r0 {} [] (end_neighbors d)" using c by (simp add: costs_ok_def same cl)
  moreover have "queue_inv (end_neighbors d)" by (rule end_queue [OF q ku(3) refl]) (simp_all add: d' cost_of_def fun_eq_iff)
  moreover have "tree_ok add adj rt {} (end_neighbors d)" using t by (auto simp: tree_ok_def same cl)
  moreover have "order_ok (end_neighbors d)"
    using o t ku(2) by (auto simp: order_ok_def same cl tree_ok_def Cons_eq_append_conv)
  ultimately show "dj_inv adj rt r0 {} [] (end_neighbors d)" by (simp add: dj_inv_def)
qed

lemma visit_inv:
  assumes inv: "dj_inv adj rt r0 {} [] d" and cur: "current d = Some u"
  shows "dj_inv adj rt r0 {} [] (dj_visit add adj d)" "dj_closed (dj_visit add adj d) = u # dj_closed d"
proof -
  let ?d = "fold (\<lambda>(n, c). neighbor add n c) (adj u) d"
  have d: "dj_inv adj rt r0 {u} (adj u) ?d" "current ?d = Some u" "dj_closed ?d = dj_closed d"
    using fold_neighbor_inv [OF inv_start [OF inv cur] cur, of "adj u"] by simp_all
  have v: "dj_visit add adj d = end_neighbors ?d" by (simp add: dj_visit_def cur)
  show "dj_inv adj rt r0 {} [] (dj_visit add adj d)" unfolding v by (rule end_inv(1) [OF d(1,2)])
  show "dj_closed (dj_visit add adj d) = u # dj_closed d" unfolding v using end_inv(2) [OF d(1,2)] d(3) by simp
qed

lemma visit_ended: "current d = None \<Longrightarrow> dj_visit add adj d = d"
  by (simp add: dj_visit_def)

lemma visits_inv: "dj_inv adj rt r0 {} [] ((dj_visit add adj ^^ n) (dijkstra_init rt r0))"
proof (induction n)
  case (Suc n)
  then show ?case
    by (cases "current ((dj_visit add adj ^^ n) (dijkstra_init rt r0))") (simp_all add: visit_ended visit_inv)
qed (simp add: inv_init)

text \<open>Every path to a node is at least as costly as the node's recorded cost or as some open node.\<close>

lemma frontier:
  assumes inv: "dj_inv adj rt r0 {} [] d" and "path_cost add adj rt r0 v k"
  shows "\<exists>w kw. cost_of d w = Some kw \<and> kw \<le> k \<and> (w \<in> set (dj_closed d) \<longrightarrow> w = v)"
  using assms(2)
proof (induction rule: path_cost.induct)
  case at_root
  then show ?case using inv by (auto simp: dj_inv_def costs_ok_def)
next
  case (edge u k v c)
  then obtain w kw where w: "cost_of d w = Some kw" "kw \<le> k" "w \<in> set (dj_closed d) \<longrightarrow> w = u" by blast
  show ?case
  proof (cases "w \<in> set (dj_closed d)")
    case True
    then obtain kv where "cost_of d v = Some kv" "kv \<le> add kw c"
      using inv w edge.hyps(2) unfolding dj_inv_def costs_ok_def by fastforce
    then show ?thesis using add_mono [OF w(2), of c] by (intro exI [of _ v] exI [of _ kv]) auto
  next
    case False
    then show ?thesis using w add_infl [of k c] by (intro exI [of _ w] exI [of _ kw]) auto
  qed
qed

lemma closed_least:
  assumes inv: "dj_inv adj rt r0 {} [] d" and v: "v \<in> set (dj_closed d)" "cost_of d v = Some kv"
    and p: "path_cost add adj rt r0 v k"
  shows "kv \<le> k"
proof -
  obtain w kw where w: "cost_of d w = Some kw" "kw \<le> k" "w \<in> set (dj_closed d) \<longrightarrow> w = v"
    using frontier [OF inv p] by blast
  have "kv \<le> kw" using inv v w unfolding dj_inv_def costs_ok_def by (cases "w = v") fastforce+
  then show ?thesis using w(2) by simp
qed

lemma current_least:
  assumes inv: "dj_inv adj rt r0 {} [] d" and cur: "current d = Some u"
  obtains ku where "cost_of d u = Some ku" "path_cost add adj rt r0 u ku" "\<And>k. path_cost add adj rt r0 u k \<Longrightarrow> ku \<le> k"
proof -
  have q: "queue_inv d" using inv by (simp add: dj_inv_def)
  obtain ku where ku: "cost_of d u = Some ku" "u \<notin> set (dj_closed d)"
    and least: "\<And>v k. v \<notin> set (dj_closed d) \<Longrightarrow> cost_of d v = Some k \<Longrightarrow> ku \<le> k"
    using front_least [OF q cur] by metis
  have "ku \<le> k" if "path_cost add adj rt r0 u k" for k
    using frontier [OF inv that] least ku(2) by (metis order_trans)
  moreover have "path_cost add adj rt r0 u ku" using inv ku(1) by (simp add: dj_inv_def costs_ok_def)
  ultimately show thesis using that ku(1) by blast
qed

lemma ended_closed:
  assumes inv: "dj_inv adj rt r0 {} [] d" and e: "current d = None"
  shows "cost_of d v = Some k \<Longrightarrow> v \<in> set (dj_closed d)"
proof -
  have "dj_q d = []" using e by (auto simp: current_def split: list.splits)
  then show "cost_of d v = Some k \<Longrightarrow> v \<in> set (dj_closed d)" using inv unfolding dj_inv_def queue_inv_def by fastforce
qed

lemma ended_least:
  assumes inv: "dj_inv adj rt r0 {} [] d" and e: "current d = None"
  shows "cost_of d v = Some k \<longleftrightarrow> path_cost add adj rt r0 v k \<and> (\<forall>k'. path_cost add adj rt r0 v k' \<longrightarrow> k \<le> k')"
proof
  assume k: "cost_of d v = Some k"
  then show "path_cost add adj rt r0 v k \<and> (\<forall>k'. path_cost add adj rt r0 v k' \<longrightarrow> k \<le> k')"
    using inv closed_least [OF inv ended_closed [OF inv e k] k] by (auto simp: dj_inv_def costs_ok_def)
next
  assume p: "path_cost add adj rt r0 v k \<and> (\<forall>k'. path_cost add adj rt r0 v k' \<longrightarrow> k \<le> k')"
  then obtain w kw where "cost_of d w = Some kw" "kw \<le> k" "w \<in> set (dj_closed d) \<longrightarrow> w = v"
    using frontier [OF inv] by blast
  then have kv: "cost_of d v = Some kw" "kw \<le> k" using ended_closed [OF inv e] by auto
  then have "path_cost add adj rt r0 v kw" using inv by (simp add: dj_inv_def costs_ok_def)
  then show "cost_of d v = Some k" using p kv by (auto intro: order_antisym)
qed

text \<open>A visit closes one more node, so the run ends once every reachable node has been visited.\<close>

lemma closed_card:
  assumes inv: "dj_inv adj rt r0 {} [] d" and fin: "finite {v. \<exists>k. path_cost add adj rt r0 v k}"
  shows "length (dj_closed d) \<le> card {v. \<exists>k. path_cost add adj rt r0 v k}"
proof -
  have "set (dj_closed d) \<subseteq> {v. \<exists>k. path_cost add adj rt r0 v k}"
    using inv by (fastforce simp: dj_inv_def costs_ok_def)
  moreover have "distinct (dj_closed d)" using inv by (simp add: dj_inv_def order_ok_def)
  ultimately show ?thesis using card_mono [OF fin] distinct_card by metis
qed

lemma visits_end:
  assumes fin: "finite {v. \<exists>k. path_cost add adj rt r0 v k}"
  shows "\<exists>n \<le> card {v. \<exists>k. path_cost add adj rt r0 v k}. current ((dj_visit add adj ^^ n) (dijkstra_init rt r0)) = None"
proof (rule ccontr)
  let ?N = "card {v. \<exists>k. path_cost add adj rt r0 v k}"
  let ?d = "\<lambda>n. (dj_visit add adj ^^ n) (dijkstra_init rt r0)"
  assume "\<not> ?thesis"
  then have open': "\<exists>u. current (?d n) = Some u" if "n \<le> ?N" for n using that by fastforce
  have "n \<le> Suc ?N \<Longrightarrow> length (dj_closed (?d n)) = n" for n
  proof (induction n)
    case (Suc n)
    then obtain u where "current (?d n) = Some u" using open' [of n] by auto
    from visit_inv(2) [OF visits_inv this] Suc show ?case by simp
  qed (simp add: dijkstra_init_def)
  from this [of "Suc ?N"] closed_card [OF visits_inv [of adj rt r0 "Suc ?N"] fin] show False by simp
qed

end

interpretation amount_cost: cost_add "(+) :: amount \<Rightarrow> amount \<Rightarrow> amount"
  using amt_le_max by unfold_locales (simp_all add: amount_le_iff amt_plus)

end
