(* ===== verification/Stats_Samplers.thy ===== *)
theory Stats_Samplers
  imports Ln_Amount
begin

text \<open>
  \<open>src/Stats/ReservoirSampler.hpp\<close> and \<open>src/Stats/WeightedMedian.hpp\<close>. The reservoir is given the key
  drawn for a sample, \<open>ln(u) / w\<close> in the code, so that what it keeps is a function of the keys; the
  order of keys is the only thing it uses. The median is generic in samples and weights; samples
  that compare equal are kept in arrival order by the sort.
\<close>

subsection \<open>The weighted reservoir\<close>

record ('s, 'k) reservoir =
  rs_max :: nat
  rs_selected :: "'s list"
  rs_keys :: "'k list"

definition reservoir_init :: "nat \<Rightarrow> ('s, 'k) reservoir" where
  "reservoir_init m = \<lparr>rs_max = m, rs_selected = [], rs_keys = []\<rparr>"

definition reservoir_clear :: "nat \<Rightarrow> ('s, 'k) reservoir \<Rightarrow> ('s, 'k) reservoir" where
  "reservoir_clear m r = r\<lparr>rs_selected := [], rs_keys := [], rs_max := m\<rparr>"

definition min_index :: "'k::linorder list \<Rightarrow> nat" where
  "min_index ks = fold (\<lambda>i m. if ks ! i < ks ! m then i else m) [1 ..< length ks] 0"

definition reservoir_add :: "'s \<Rightarrow> 'k::linorder \<Rightarrow> ('s, 'k) reservoir \<Rightarrow> ('s, 'k) reservoir" where
  "reservoir_add s key r =
     (if rs_max r = 0 then r
      else if length (rs_selected r) < rs_max r
      then r\<lparr>rs_selected := rs_selected r @ [s], rs_keys := rs_keys r @ [key]\<rparr>
      else
        let min_i = min_index (rs_keys r) in
        if rs_keys r ! min_i < key
        then r\<lparr>rs_keys := (rs_keys r)[min_i := key], rs_selected := (rs_selected r)[min_i := s]\<rparr>
        else r)"

definition reservoir_of :: "nat \<Rightarrow> ('s \<times> 'k::linorder) list \<Rightarrow> ('s, 'k) reservoir" where
  "reservoir_of m xs = fold (\<lambda>(s, k). reservoir_add s k) xs (reservoir_init m)"

subsection \<open>The weighted median\<close>

record ('s, 'w) wmedian =
  wm_samples :: "('s \<times> 'w) list"
  wm_weight :: 'w

definition wmedian_init :: "('s, 'w::zero) wmedian" where
  "wmedian_init = \<lparr>wm_samples = [], wm_weight = 0\<rparr>"

definition wmedian_add :: "'s \<Rightarrow> 'w::plus \<Rightarrow> ('s, 'w) wmedian \<Rightarrow> ('s, 'w) wmedian" where
  "wmedian_add s w m =
     m\<lparr>wm_weight := (if length (wm_samples m) = 0 then w else wm_weight m + w), wm_samples := wm_samples m @ [(s, w)]\<rparr>"

fun wmedian_scan :: "'w::{plus, ord} \<Rightarrow> 'w option \<Rightarrow> ('s \<times> 'w) list \<Rightarrow> 's result" where
  "wmedian_scan total_weight running [] = Inl NoSamples"
| "wmedian_scan total_weight running ((s, w) # es) =
     (let running1 = (case running of None \<Rightarrow> w | Some r \<Rightarrow> r + w);
          running2 = running1 + w
      in if total_weight < running2 then Inr s else wmedian_scan total_weight (Some running2) es)"

definition wmedian_finalize :: "('s::linorder, 'w::{plus, ord}) wmedian \<Rightarrow> 's result" where
  "wmedian_finalize m = wmedian_scan (wm_weight m) None (sort_key fst (wm_samples m))"

definition wmedian_of :: "('s \<times> 'w::{plus, zero}) list \<Rightarrow> ('s, 'w) wmedian" where
  "wmedian_of xs = fold (\<lambda>(s, w). wmedian_add s w) xs wmedian_init"

subsection \<open>The reservoir keeps the largest keys\<close>

lemma min_index_upto:
  fixes ks :: "'k::linorder list"
  shows "\<exists>m \<le> n. fold (\<lambda>i m. if ks ! i < ks ! m then i else m) [1 ..< Suc n] 0 = m \<and> (\<forall>j \<le> n. ks ! m \<le> ks ! j)"
proof (induction n)
  case (Suc n)
  then obtain m where m: "m \<le> n" "fold (\<lambda>i m. if ks ! i < ks ! m then i else m) [1 ..< Suc n] 0 = m"
    "\<And>j. j \<le> n \<Longrightarrow> ks ! m \<le> ks ! j" by blast
  have "ks ! Suc n \<le> ks ! j" if "ks ! Suc n < ks ! m" "j \<le> Suc n" for j
    using m(3) [of j] that by (cases "j = Suc n") auto
  moreover have "ks ! m \<le> ks ! j" if "\<not> ks ! Suc n < ks ! m" "j \<le> Suc n" for j
    using m(3) [of j] that by (cases "j = Suc n") auto
  ultimately show ?case using m(1,2)
    by (intro exI [of _ "if ks ! Suc n < ks ! m then Suc n else m"]) simp
qed simp

lemma min_index_least:
  assumes "ks \<noteq> []"
  shows "min_index ks < length ks" "\<And>k. k \<in> set ks \<Longrightarrow> ks ! min_index ks \<le> k"
proof -
  obtain n where n: "length ks = Suc n" using assms by (cases ks) auto
  show "min_index ks < length ks" using min_index_upto [where ks = ks and n = n] by (simp add: min_index_def n)
  fix k assume "k \<in> set ks"
  then obtain j where "j \<le> n" "ks ! j = k" using n by (metis in_set_conv_nth less_Suc_eq_le)
  then show "ks ! min_index ks \<le> k" using min_index_upto [where ks = ks and n = n] by (auto simp: min_index_def n)
qed

definition keeps_largest :: "nat \<Rightarrow> ('s \<times> 'k::linorder) list \<Rightarrow> ('s, 'k) reservoir \<Rightarrow> bool" where
  "keeps_largest m xs r \<longleftrightarrow>
     rs_max r = m \<and> length (rs_keys r) = length (rs_selected r) \<and> length (rs_selected r) = min m (length xs)
     \<and> mset (zip (rs_selected r) (rs_keys r)) \<subseteq># mset xs
     \<and> (\<forall>y \<in># mset xs - mset (zip (rs_selected r) (rs_keys r)). \<forall>k \<in> set (rs_keys r). snd y \<le> k)"

lemma swap_diff:
  assumes "Z \<subseteq># X" "x \<in># Z"
  shows "add_mset a X - add_mset a (Z - {#x#}) = add_mset x (X - Z)"
proof -
  obtain Z' W where "Z = add_mset x Z'" "X = Z + W"
    using assms by (metis multi_member_split subset_mset.less_eqE)
  then show ?thesis by simp
qed

lemma keeps_largest_step:
  assumes "keeps_largest m xs r"
  shows "keeps_largest m (xs @ [(s, k)]) (reservoir_add s k r)"
proof -
  let ?Z = "mset (zip (rs_selected r) (rs_keys r))"
  have mx: "rs_max r = m" and lk: "length (rs_keys r) = length (rs_selected r)"
    and ls: "length (rs_selected r) = min m (length xs)" and sub: "?Z \<subseteq># mset xs"
    and out: "\<And>y k. y \<in># mset xs - ?Z \<Longrightarrow> k \<in> set (rs_keys r) \<Longrightarrow> snd y \<le> k"
    using assms by (auto simp: keeps_largest_def)
  consider (none) "m = 0" | (room) "m \<noteq> 0" "length xs < m" | (full) "m \<noteq> 0" "m \<le> length xs" by linarith
  then show ?thesis
  proof cases
    case none
    then show ?thesis using lk ls by (simp add: keeps_largest_def reservoir_add_def mx)
  next
    case room
    have "mset xs = ?Z"
    proof (rule ccontr)
      assume "mset xs \<noteq> ?Z"
      then have "?Z \<subset># mset xs" using sub by (simp add: subset_mset.less_le)
      from mset_subset_size [OF this] show False using lk ls room by simp
    qed
    then show ?thesis using room lk ls mx by (simp add: keeps_largest_def reservoir_add_def)
  next
    case full
    let ?i = "min_index (rs_keys r)"
    have ne: "rs_keys r \<noteq> []" using full lk ls by auto
    have i: "?i < length (rs_keys r)" "\<And>k. k \<in> set (rs_keys r) \<Longrightarrow> rs_keys r ! ?i \<le> k"
      using min_index_least [OF ne] by auto
    show ?thesis
    proof (cases "rs_keys r ! ?i < k")
      case False
      have d: "mset xs + {#(s, k)#} - ?Z = (mset xs - ?Z) + {#(s, k)#}" 
        using multiset_diff_union_assoc [OF sub, of "{#(s, k)#}"] by (simp add: add.commute)
      have r': "reservoir_add s k r = r" using full mx ls False by (simp add: reservoir_add_def Let_def)
      have k': "k \<le> k'" if "k' \<in> set (rs_keys r)" for k' using i(2) [OF that] False by simp
      have "?Z \<subseteq># add_mset (s, k) (mset xs)" using sub by (rule subset_mset.order_trans) simp
      then show ?thesis unfolding keeps_largest_def r' using mx lk ls full d k' out by auto
    next
      case True
      let ?x = "zip (rs_selected r) (rs_keys r) ! ?i"
      have x: "?x \<in># ?Z" "snd ?x = rs_keys r ! ?i" using i(1) lk by (auto simp: in_set_zip)
      have z: "mset (zip ((rs_selected r)[?i := s]) ((rs_keys r)[?i := k])) = {#(s, k)#} + (?Z - {#?x#})"
        using i(1) lk by (simp add: zip_update mset_update)
      have d: "mset xs + {#(s, k)#} - ({#(s, k)#} + (?Z - {#?x#})) = (mset xs - ?Z) + {#?x#}"
        using swap_diff [OF sub x(1), of "(s, k)"] by simp
      have r': "reservoir_add s k r = r\<lparr>rs_keys := (rs_keys r)[?i := k], rs_selected := (rs_selected r)[?i := s]\<rparr>"
        using full mx ls True by (simp add: reservoir_add_def Let_def)
      have sub': "{#(s, k)#} + (?Z - {#?x#}) \<subseteq># mset xs + {#(s, k)#}"
        using sub by (simp add: add.commute) (meson diff_subset_eq_self subset_mset.order_trans)
      have keys: "k' = k \<or> k' \<in> set (rs_keys r)" if "k' \<in> set ((rs_keys r)[?i := k])" for k'
        using that by (metis insertE set_update_subset_insert subsetD)
      have "snd y \<le> k'" if y: "y \<in># (mset xs - ?Z) + {#?x#}" and k': "k' \<in> set ((rs_keys r)[?i := k])" for y k'
      proof -
        have "snd y \<le> rs_keys r ! ?i" using y x(2) out [OF _ nth_mem [OF i(1)], of y] by auto
        then show ?thesis using keys [OF k'] i(2) True by fastforce
      qed
      then show ?thesis unfolding keeps_largest_def r' using z d sub' mx lk ls full by auto
    qed
  qed
qed

lemma reservoir_of_snoc: "reservoir_of m (xs @ [(s, k)]) = reservoir_add s k (reservoir_of m xs)"
  by (simp add: reservoir_of_def)

lemma reservoir_of_largest: "keeps_largest m xs (reservoir_of m xs)"
proof (induction xs rule: rev_induct)
  case Nil
  show ?case by (simp add: keeps_largest_def reservoir_of_def reservoir_init_def)
next
  case (snoc x xs)
  then show ?case by (cases x) (simp add: reservoir_of_snoc keeps_largest_step)
qed

subsection \<open>The median splits the weight in half\<close>

definition weight_sum :: "('s \<times> amount) list \<Rightarrow> nat" where
  "weight_sum xs = (\<Sum>(s, w) \<leftarrow> xs. amt w)"

lemma weight_sum_simps [simp]:
  "weight_sum [] = 0" "weight_sum ((s, w) # xs) = amt w + weight_sum xs" "weight_sum (xs @ ys) = weight_sum xs + weight_sum ys"
  by (simp_all add: weight_sum_def)

lemma weight_sum_filter: "weight_sum (filter P xs) \<le> weight_sum xs"
  by (induction xs) auto

lemma weight_sum_sort: "weight_sum (filter P (sort_key f xs)) = weight_sum (filter P xs)"
proof -
  have w: "weight_sum ys = sum_mset (image_mset (\<lambda>(s, w). amt w) (mset ys))" for ys
    by (simp add: weight_sum_def flip: sum_mset_sum_list)
  show ?thesis unfolding w by simp
qed

lemma wmedian_of_snoc: "wmedian_of (xs @ [(s, w)]) = wmedian_add s w (wmedian_of xs)"
  by (simp add: wmedian_of_def)

lemma wmedian_of_fields:
  "wm_samples (wmedian_of xs) = xs \<and> (weight_sum xs < 2 ^ 64 \<longrightarrow> amt (wm_weight (wmedian_of xs)) = weight_sum xs)"
proof (induction xs rule: rev_induct)
  case Nil
  show ?case by (simp add: wmedian_of_def wmedian_init_def)
next
  case (snoc x xs)
  then show ?case by (cases x) (auto simp: wmedian_of_snoc wmedian_add_def amt_plus)
qed

lemma wmedian_scan_split:
  assumes "2 * weight_sum (pre @ ys) < 2 ^ 64" "case r of None \<Rightarrow> pre = [] | Some a \<Rightarrow> amt a = 2 * weight_sum pre"
    "2 * weight_sum pre \<le> amt t"
  shows "case wmedian_scan t r ys of
      Inl e \<Rightarrow> e = NoSamples \<and> 2 * weight_sum (pre @ ys) \<le> amt t
    | Inr s \<Rightarrow> \<exists>p w q. ys = p @ (s, w) # q \<and> 2 * weight_sum (pre @ p) \<le> amt t \<and> amt t < 2 * weight_sum (pre @ p @ [(s, w)])"
  using assms
proof (induction ys arbitrary: pre r)
  case (Cons y ys)
  obtain s w where y: "y = (s, w)" by (cases y)
  let ?r1 = "case r of None \<Rightarrow> w | Some a \<Rightarrow> a + w"
  have r: "amt (?r1 + w) = 2 * weight_sum (pre @ [y])"
    using Cons.prems(1,2) by (cases r) (auto simp: y amt_plus)
  show ?case
  proof (cases "t < ?r1 + w")
    case True
    then show ?thesis using Cons.prems(3) r by (auto simp: y Let_def amount_less_iff intro!: exI [of _ "[]"])
  next
    case False
    then have le: "2 * weight_sum (pre @ [y]) \<le> amt t" using r by (simp add: amount_less_iff)
    have "case wmedian_scan t (Some (?r1 + w)) ys of
        Inl e \<Rightarrow> e = NoSamples \<and> 2 * weight_sum ((pre @ [y]) @ ys) \<le> amt t
      | Inr s \<Rightarrow> \<exists>p w q. ys = p @ (s, w) # q \<and> 2 * weight_sum ((pre @ [y]) @ p) \<le> amt t
          \<and> amt t < 2 * weight_sum ((pre @ [y]) @ p @ [(s, w)])"
      by (rule Cons.IH) (use Cons.prems(1) r le in simp_all)
    moreover have "wmedian_scan t r (y # ys) = wmedian_scan t (Some (?r1 + w)) ys" using False by (simp add: y Let_def)
    moreover have "\<exists>p w q. y # ys = p @ (s', w) # q \<and> 2 * weight_sum (pre @ p) \<le> amt t
          \<and> amt t < 2 * weight_sum (pre @ p @ [(s', w)])"
      if "ys = p @ (s', w') # q \<and> 2 * weight_sum ((pre @ [y]) @ p) \<le> amt t
          \<and> amt t < 2 * weight_sum ((pre @ [y]) @ p @ [(s', w')])" for s' p w' q
      using that by (intro exI [of _ "y # p"] exI [of _ w'] exI [of _ q]) simp
    ultimately show ?thesis by (cases "wmedian_scan t (Some (?r1 + w)) ys") (simp, simp, blast)
  qed
qed simp

text \<open>In a sorted list what is below an element is in front of it.\<close>

lemma weight_sum_below:
  assumes "sorted (map fst (p @ (s, w) # q))"
  shows "weight_sum (filter (\<lambda>x. fst x < s) (p @ (s, w) # q)) \<le> weight_sum p"
    "weight_sum (p @ [(s, w)]) \<le> weight_sum (filter (\<lambda>x. fst x \<le> s) (p @ (s, w) # q))"
proof -
  have q: "filter (\<lambda>x. fst x < s) q = []" using assms by (auto simp: filter_empty_conv sorted_append)
  show "weight_sum (filter (\<lambda>x. fst x < s) (p @ (s, w) # q)) \<le> weight_sum p" using weight_sum_filter [of _ p] by (simp add: q)
  have p: "filter (\<lambda>x. fst x \<le> s) p = p" using assms by (auto simp: filter_id_conv sorted_append)
  show "weight_sum (p @ [(s, w)]) \<le> weight_sum (filter (\<lambda>x. fst x \<le> s) (p @ (s, w) # q))" by (simp add: p)
qed

text \<open>A weighted median: the samples below it carry at most half of the weight, those up to it more than half.\<close>

definition is_median :: "'s::linorder \<Rightarrow> ('s \<times> amount) list \<Rightarrow> bool" where
  "is_median s xs \<longleftrightarrow> s \<in> fst ` set xs \<and> 2 * weight_sum (filter (\<lambda>x. fst x < s) xs) \<le> weight_sum xs
     \<and> weight_sum xs < 2 * weight_sum (filter (\<lambda>x. fst x \<le> s) xs)"

text \<open>While twice the total weight fits in an amount, a median is found exactly when there is some weight; samples that
  all weigh nothing are treated as none.\<close>

lemma weighted_median_splits:
  assumes "2 * weight_sum xs < 2 ^ 64"
  shows "case wmedian_finalize (wmedian_of xs) of
      Inl e \<Rightarrow> e = NoSamples \<and> weight_sum xs = 0
    | Inr s \<Rightarrow> is_median s xs"
proof -
  let ?ys = "sort_key fst xs" and ?t = "wm_weight (wmedian_of xs)"
  have t: "amt ?t = weight_sum xs" "wm_samples (wmedian_of xs) = xs" using wmedian_of_fields [of xs] assms by auto
  have sum: "weight_sum ?ys = weight_sum xs" using weight_sum_sort [of "\<lambda>_. True" fst xs] by simp
  have f: "wmedian_finalize (wmedian_of xs) = wmedian_scan ?t None ?ys" by (simp add: wmedian_finalize_def t)
  note sp = wmedian_scan_split [of "[]" ?ys None ?t]
  show ?thesis
  proof (cases "wmedian_scan ?t None ?ys")
    case (Inl e)
    then show ?thesis using sp assms by (simp add: f sum t)
  next
    case (Inr s)
    then obtain p w q where d: "?ys = p @ (s, w) # q" "2 * weight_sum p \<le> weight_sum xs" "weight_sum xs < 2 * weight_sum (p @ [(s, w)])"
      using sp assms by (auto simp: sum t)
    have srt: "sorted (map fst (p @ (s, w) # q))" using sorted_sort_key [of fst xs] by (simp only: d(1))
    have "(s, w) \<in> set xs" using d(1) by (metis in_set_conv_decomp set_sort)
    then show ?thesis
      using weight_sum_below [OF srt] d(2,3)
      by (force simp: f Inr is_median_def simp flip: weight_sum_sort [of _ fst xs] d(1))
  qed
qed

text \<open>The reservoir sampler. After any sequence of samples it holds as many as fit, all of them
  given to it, and every sample it let go has a key no larger than any it holds: it is the
  weighted sample without replacement that its keys define, whatever the order of arrival.\<close>

theorem reservoir_keeps_largest:
  "let r = reservoir_of m xs; z = mset (zip (rs_selected r) (rs_keys r)) in
     length (rs_selected r) = min m (length xs) \<and> length (rs_keys r) = length (rs_selected r) \<and> z \<subseteq># mset xs
     \<and> (\<forall>x y. y \<in># mset xs - z \<longrightarrow> x \<in># z \<longrightarrow> snd y \<le> snd x)"
  using reservoir_of_largest [of m xs] set_zip_rightD by (fastforce simp: keeps_largest_def Let_def)

definition ex_keyed :: "(string \<times> int) list" where
  "ex_keyed = [(''a'', 3), (''b'', -1), (''c'', 2), (''d'', 9)]"

theorem reservoir_keeps_largest_witness:
  "rs_selected (reservoir_of 2 ex_keyed) = [''a'', ''d''] \<and>
   (let r = reservoir_of 2 ex_keyed; z = mset (zip (rs_selected r) (rs_keys r)) in
     length (rs_selected r) = min 2 (length ex_keyed) \<and> length (rs_keys r) = length (rs_selected r) \<and> z \<subseteq># mset ex_keyed
     \<and> (\<forall>x y. y \<in># mset ex_keyed - z \<longrightarrow> x \<in># z \<longrightarrow> snd y \<le> snd x))"
proof (intro conjI)
  show "rs_selected (reservoir_of 2 ex_keyed) = [''a'', ''d'']"
    by (simp add: ex_keyed_def reservoir_of_def reservoir_init_def reservoir_add_def min_index_def Let_def upt_rec)
qed (rule reservoir_keeps_largest)

end
