(* ===== verification/Channel_Distance.thy ===== *)
theory Channel_Distance
  imports Graph_Dijkstra Stats_Samplers Channel_Proposals
begin

text \<open>
  \<open>src/Boss/Mod/ChannelFinderByDistance.cpp\<close>: channel candidates are the leaves of the shortest-path
  tree from our own node. The replies of the node to \<open>listchannels\<close> are a function of the source
  asked for, since each node is asked for once; the first question about our own channels has its
  own reply. The random keys of the reservoir are a function of the draw and the weight. Waiting,
  progress reports and logs are left out, except that a wait is recorded. A node is its
  identifier, as in the tree.
\<close>

subsection \<open>Constants\<close>

definition reference_amount :: amount where
  "reference_amount = amount_sat 10000"

definition msat_per_block :: double where
  "msat_per_block = 1"

definition max_fee :: amount where
  "max_fee = amount_sat 50"

definition max_preinvestigate :: nat where
  "max_preinvestigate = 40"

definition max_candidates :: nat where
  "max_candidates = 3"

subsection \<open>The search\<close>

text \<open>The cost of a channel, and what the loop body does with an entry: skip it, or feed an edge.\<close>

definition channel_cost :: "double \<Rightarrow> double \<Rightarrow> double \<Rightarrow> amount" where
  "channel_cost b p d =
     amount_msat (of_int (trunc_double b)) + amount_mul reference_amount (fl (p / 1000000))
     + amount_msat (of_int (trunc_double (fl (msat_per_block * d))))"

definition channel_edge :: "json \<Rightarrow> (node_id \<times> amount) option result" where
  "channel_edge c =
     rbind (rbind (json_get c ''active'') json_bool) (\<lambda>active.
     if \<not> active then Inr None else
     rbind (rbind (rbind (json_get c ''destination'') json_string) node_of_string) (\<lambda>n.
     rbind (rbind (json_get c ''base_fee_millisatoshi'') json_double) (\<lambda>b.
     rbind (rbind (json_get c ''fee_per_millionth'') json_double) (\<lambda>p.
     rbind (rbind (json_get c ''delay'') json_double) (\<lambda>d.
     let cost = channel_cost b p d in
     Inr (if cost > max_fee then None else Some (n, cost)))))))"

type_synonym djk = "(node_id, amount) dijkstra"

fun feed_channels :: "json list \<Rightarrow> djk \<Rightarrow> exn option \<times> djk" where
  "feed_channels [] d = (None, d)"
| "feed_channels (c # cs) d =
     (case channel_edge c of
        Inl e \<Rightarrow> (Some e, d)
      | Inr None \<Rightarrow> feed_channels cs d
      | Inr (Some (n, cost)) \<Rightarrow> feed_channels cs (neighbor (+) n cost d))"

definition finder_step :: "json \<Rightarrow> djk \<Rightarrow> exn option \<times> djk" where
  "finder_step res d =
     (case rbind (json_find res ''channels'') json_elems of
        Inl e \<Rightarrow> (Some e, d)
      | Inr cs \<Rightarrow>
          (case feed_channels cs d of
             (Some e, d') \<Rightarrow> (Some e, d')
           | (None, d') \<Rightarrow> (None, end_neighbors d')))"

text \<open>The loop. A type error in a reply ends it as if it were complete; any other exception ends the run.\<close>

fun finder_loop :: "nat \<Rightarrow> (node_id \<Rightarrow> json result) \<Rightarrow> djk \<Rightarrow> (exn option \<times> djk) option" where
  "finder_loop 0 listchannels d = None"
| "finder_loop (Suc fuel) listchannels d =
     (case current d of
        None \<Rightarrow> Some (None, d)
      | Some n \<Rightarrow>
          (case listchannels n of
             Inl e \<Rightarrow> Some (Some e, d)
           | Inr res \<Rightarrow>
               (case finder_step res d of
                  (None, d') \<Rightarrow> finder_loop fuel listchannels d'
                | (Some e, d') \<Rightarrow> Some (if e = JsonTypeError then None else Some e, d'))))"

subsection \<open>The leaves\<close>

fun find_leaves_loop :: "nat \<Rightarrow> ('n \<rightharpoonup> ('n, 'c) treenode) \<Rightarrow> 'n list \<Rightarrow> 'n list \<Rightarrow> 'n list option" where
  "find_leaves_loop 0 nav extract_q leaves = None"
| "find_leaves_loop (Suc fuel) nav [] leaves = Some leaves"
| "find_leaves_loop (Suc fuel) nav (n # extract_q) leaves =
     (if kids nav n = [] then find_leaves_loop fuel nav extract_q (leaves @ [n])
      else find_leaves_loop fuel nav (extract_q @ kids nav n) leaves)"

definition find_leaves :: "nat \<Rightarrow> node_id \<Rightarrow> djk \<Rightarrow> node_id list option" where
  "find_leaves fuel self_id d = find_leaves_loop fuel (dj_tree d) [self_id] []"

subsection \<open>The analysis\<close>

record entry =
  en_proposal :: node_id
  en_patron :: node_id
  en_cost :: amount

definition leaf_entry :: "node_id \<Rightarrow> djk \<Rightarrow> node_id \<Rightarrow> entry option" where
  "leaf_entry self_id d n =
     (case dj_tree d n of
        None \<Rightarrow> None
      | Some tn \<Rightarrow>
          (case tn_parent tn of
             None \<Rightarrow> None
           | Some p \<Rightarrow> if p = self_id then None else Some \<lparr>en_proposal = n, en_patron = p, en_cost = tn_cost tn\<rparr>))"

fun sample_entries ::
  "(double \<Rightarrow> nat \<Rightarrow> 'k::linorder) \<Rightarrow> nat \<Rightarrow> entry list \<Rightarrow> (entry, 'k) reservoir \<Rightarrow> (entry, 'k) reservoir" where
  "sample_entries sample_key i [] rsv = rsv"
| "sample_entries sample_key i (e # es) rsv =
     sample_entries sample_key (Suc i) es (reservoir_add e (sample_key (amount_to_btc (en_cost e)) i) rsv)"

definition analyze ::
  "(double \<Rightarrow> nat \<Rightarrow> 'k::linorder) \<Rightarrow> node_id \<Rightarrow> djk \<Rightarrow> node_id list \<Rightarrow> proposal list \<times> nat" where
  "analyze sample_key self_id d leaves =
     (let rsv = sample_entries sample_key 0 (List.map_filter (leaf_entry self_id d) leaves)
                  (reservoir_init max_preinvestigate);
          entries = sort_key (\<lambda>e. - int (amt (en_cost e))) (rs_selected rsv)
      in (map (\<lambda>e. (en_proposal e, en_patron e)) entries, max_candidates))"

subsection \<open>A run, and the module\<close>

record finder_out =
  fo_waited :: bool
  fo_msg :: "(proposal list \<times> nat) option"
  fo_exn :: "exn option"

fun any_active :: "json list \<Rightarrow> bool result" where
  "any_active [] = Inr False"
| "any_active (c # cs) =
     rbind (rbind (json_get c ''active'') json_bool) (\<lambda>a. if a then Inr True else any_active cs)"

text \<open>\<open>size\<close> of an absent member is a type error, as is its iteration.\<close>

definition own_channels :: "json \<Rightarrow> (bool \<times> bool) result" where
  "own_channels res =
     rbind (json_find res ''channels'') (\<lambda>cs.
     rbind (case cs of None \<Rightarrow> Inl JsonTypeError | Some j \<Rightarrow> json_size j) (\<lambda>size.
     rbind (json_elems cs) (\<lambda>elems.
     rbind (any_active elems) (\<lambda>any. Inr (size = 0, any)))))"

definition start_processing ::
  "nat \<Rightarrow> (double \<Rightarrow> nat \<Rightarrow> 'k::linorder) \<Rightarrow> node_id \<Rightarrow> (node_id \<Rightarrow> json result) \<Rightarrow> bool \<Rightarrow> finder_out option" where
  "start_processing fuel sample_key self_id listchannels waited =
     (case finder_loop fuel listchannels (dijkstra_init self_id (amount_sat 0)) of
        None \<Rightarrow> None
      | Some (Some e, d) \<Rightarrow> Some \<lparr>fo_waited = waited, fo_msg = None, fo_exn = Some e\<rparr>
      | Some (None, d) \<Rightarrow>
          (case find_leaves fuel self_id d of
             None \<Rightarrow> None
           | Some leaves \<Rightarrow>
               Some \<lparr>fo_waited = waited, fo_msg = Some (analyze sample_key self_id d leaves), fo_exn = None\<rparr>))"

definition core_run ::
  "nat \<Rightarrow> (double \<Rightarrow> nat \<Rightarrow> 'k::linorder) \<Rightarrow> node_id \<Rightarrow> json result \<Rightarrow> (node_id \<Rightarrow> json result) \<Rightarrow> finder_out option" where
  "core_run fuel sample_key self_id own listchannels =
     (case own of
        Inl e \<Rightarrow> Some \<lparr>fo_waited = False, fo_msg = None, fo_exn = Some e\<rparr>
      | Inr res \<Rightarrow>
          (case own_channels res of
             Inl _ \<Rightarrow> Some \<lparr>fo_waited = False, fo_msg = None, fo_exn = None\<rparr>
           | Inr (none, any) \<Rightarrow>
               if none then Some \<lparr>fo_waited = False, fo_msg = None, fo_exn = None\<rparr>
               else start_processing fuel sample_key self_id listchannels (\<not> any)))"

text \<open>The module's own state. A run that ends with an exception never gets to the continuation that
  clears the flag.\<close>

record finder =
  fd_rpc :: bool
  fd_self :: node_id
  fd_running :: bool

definition finder_init :: "node_id \<Rightarrow> finder \<Rightarrow> finder" where
  "finder_init self_id f = f\<lparr>fd_rpc := True, fd_self := self_id\<rparr>"

definition finder_solicit :: "finder \<Rightarrow> bool \<times> finder" where
  "finder_solicit f =
     (if \<not> fd_rpc f then (False, f) else if fd_running f then (False, f) else (True, f\<lparr>fd_running := True\<rparr>))"

definition finder_run_ended :: "finder_out \<Rightarrow> finder \<Rightarrow> finder" where
  "finder_run_ended out f = (case fo_exn out of Some _ \<Rightarrow> f | None \<Rightarrow> f\<lparr>fd_running := False\<rparr>)"

subsection \<open>The channels as a graph\<close>

fun edges_of :: "json list \<Rightarrow> (node_id \<times> amount) list" where
  "edges_of [] = []"
| "edges_of (c # cs) =
     (case channel_edge c of Inl _ \<Rightarrow> [] | Inr None \<Rightarrow> edges_of cs | Inr (Some e) \<Rightarrow> e # edges_of cs)"

definition channel_graph :: "(node_id \<Rightarrow> json result) \<Rightarrow> node_id \<Rightarrow> (node_id \<times> amount) list" where
  "channel_graph listchannels u =
     (case rbind (listchannels u) (\<lambda>res. rbind (json_find res ''channels'') json_elems) of
        Inl _ \<Rightarrow> []
      | Inr cs \<Rightarrow> edges_of cs)"

definition clean_reply :: "json result \<Rightarrow> bool" where
  "clean_reply reply =
     (case rbind reply (\<lambda>res. rbind (json_find res ''channels'') json_elems) of
        Inl _ \<Rightarrow> False
      | Inr cs \<Rightarrow> list_all (\<lambda>c. is_ok (channel_edge c)) cs)"

definition least_cost :: "(node_id \<Rightarrow> (node_id \<times> amount) list) \<Rightarrow> node_id \<Rightarrow> node_id \<Rightarrow> amount \<Rightarrow> bool" where
  "least_cost adj self_id v k \<longleftrightarrow> path_cost (+) adj self_id 0 v k \<and> (\<forall>k'. path_cost (+) adj self_id 0 v k' \<longrightarrow> k \<le> k')"

abbreviation feed :: "(node_id \<times> amount) list \<Rightarrow> djk \<Rightarrow> djk" where
  "feed \<equiv> fold (\<lambda>(n, c). neighbor (+) n c)"

lemma feed_channels_edges: "snd (feed_channels cs d) = feed (edges_of cs) d"
  by (induction cs arbitrary: d) (auto split: sum.splits option.splits)

lemma feed_channels_clean: "fst (feed_channels cs d) = None \<longleftrightarrow> list_all (\<lambda>c. is_ok (channel_edge c)) cs"
  by (induction cs arbitrary: d) (auto split: sum.splits option.splits)

lemma finder_step_cases:
  assumes "current d = Some u" "listchannels u = Inr res"
  shows "finder_step res d =
    (if clean_reply (listchannels u) then (None, dj_visit (+) (channel_graph listchannels) d)
     else (fst (finder_step res d), feed (channel_graph listchannels u) d))
    \<and> (clean_reply (listchannels u) \<longleftrightarrow> fst (finder_step res d) = None)"
proof (cases "rbind (json_find res ''channels'') json_elems")
  case (Inl e)
  then show ?thesis using assms by (simp add: finder_step_def clean_reply_def channel_graph_def)
next
  case (Inr cs)
  then show ?thesis
    using assms feed_channels_edges [of cs d] feed_channels_clean [of cs d]
    by (cases "feed_channels cs d") (auto simp: finder_step_def clean_reply_def channel_graph_def dj_visit_def split: option.splits)
qed

lemma node_of_string_wf:
  assumes "node_of_string s = Inr n"
  shows "node_wf n"
proof (cases "all_zeros s")
  case True
  then show ?thesis using assms by (auto simp: node_of_string_def node_wf_def split: if_splits)
next
  case False
  then have v: "length s = 66" "s ! 0 = CHR ''0''" "s ! 1 = CHR ''2'' \<or> s ! 1 = CHR ''3''"
    and h: "\<exists>raw. hexread s = Inr raw \<and> n = NodeId (Some raw)"
    using assms by (auto simp: node_of_string_def node_valid_string_def split: if_splits sum.splits)
  obtain raw where raw: "hexread s = Inr raw" "n = NodeId (Some raw)" using h by blast
  obtain c0 c1 r where s: "s = c0 # c1 # r" using v(1) by (cases s rule: hexread_loop.cases) auto
  have p: "parse_hex_byte (CHR ''0'') (CHR ''2'') = Inr 2" "parse_hex_byte (CHR ''0'') (CHR ''3'') = Inr 3" by code_simp+
  have "hd raw = 2 \<or> hd raw = 3" using raw(1) v s by (auto simp: hexread_def p split: if_splits sum.splits)
  then show ?thesis using hexread_length [OF raw(1)] v(1) raw(2) by (simp add: node_wf_def)
qed

lemma channel_edge_wf:
  assumes "channel_edge x = Inr (Some (n, c))"
  shows "node_wf n \<and> c \<le> max_fee"
  using assms unfolding channel_edge_def
  by (auto simp: Let_def not_less elim!: rbind_InrE dest!: node_of_string_wf split: if_splits)

lemma edges_of_wf: "(n, c) \<in> set (edges_of cs) \<Longrightarrow> node_wf n \<and> c \<le> max_fee"
proof (induction cs)
  case (Cons x xs)
  then show ?case
    by (auto dest!: channel_edge_wf [OF sym] split: sum.splits option.splits if_splits)
qed simp

lemma channel_graph_wf: "(n, c) \<in> set (channel_graph listchannels u) \<Longrightarrow> node_wf n \<and> c \<le> max_fee"
  using edges_of_wf by (auto simp: channel_graph_def split: sum.splits)

lemma finite_nodes: "finite {n. node_wf n}"
proof -
  have "{n. node_wf n} \<subseteq> NodeId ` (insert None (Some ` {xs. set xs \<subseteq> UNIV \<and> length xs = 33}))"
  proof
    fix n assume "n \<in> {n. node_wf n}"
    then show "n \<in> NodeId ` (insert None (Some ` {xs. set xs \<subseteq> UNIV \<and> length xs = 33}))"
      by (cases n) (auto simp: node_wf_def image_iff split: option.splits)
  qed
  then show ?thesis by (rule finite_subset) (use finite_lists_length_eq [of "UNIV :: u8 set" 33] in simp)
qed

lemma finite_reach: "finite {v. \<exists>k. path_cost (+) (channel_graph listchannels) self_id 0 v k}"
proof (rule finite_subset)
  show "{v. \<exists>k. path_cost (+) (channel_graph listchannels) self_id 0 v k} \<subseteq> insert self_id {n. node_wf n}"
    by (auto elim!: path_cost.cases dest!: channel_graph_wf)
qed (simp add: finite_nodes)

subsection \<open>The loop ends, with a tree of least costs\<close>

definition finder_state :: "(node_id \<Rightarrow> json result) \<Rightarrow> node_id \<Rightarrow> node_id set \<Rightarrow> djk \<Rightarrow> bool" where
  "finder_state listchannels self_id F d \<longleftrightarrow>
     amount_cost.dj_inv (channel_graph listchannels) self_id 0 F (if F = {} then [] else channel_graph listchannels (the_elem F)) d"

lemma finder_init_state: "finder_state listchannels self_id {} (dijkstra_init self_id 0)"
  by (simp add: finder_state_def amount_cost.inv_init)

lemma finder_loop_ends:
  assumes "finder_state listchannels self_id {} d"
    and "card {v. \<exists>k. path_cost (+) (channel_graph listchannels) self_id 0 v k} - length (dj_closed d) < fuel"
  shows "\<exists>r. finder_loop fuel listchannels d = Some r"
  using assms
proof (induction fuel arbitrary: d)
  case (Suc fuel)
  let ?R = "{v. \<exists>k. path_cost (+) (channel_graph listchannels) self_id 0 v k}" and ?adj = "channel_graph listchannels"
  show ?case
  proof (cases "\<exists>u res. current d = Some u \<and> listchannels u = Inr res \<and> clean_reply (listchannels u)")
    case False
    then show ?thesis
      using finder_step_cases [of d _ listchannels] by (fastforce split: option.splits sum.splits prod.splits)
  next
    case True
    then obtain u res where u: "current d = Some u" "listchannels u = Inr res" "clean_reply (listchannels u)" by blast
    have inv: "amount_cost.dj_inv ?adj self_id 0 {} [] d" using Suc.prems(1) by (simp add: finder_state_def)
    note v = amount_cost.visit_inv [OF inv u(1)]
    have "Suc (length (dj_closed d)) \<le> card ?R" using amount_cost.closed_card [OF v(1) finite_reach] v(2) by simp
    then have "\<exists>r. finder_loop fuel listchannels (dj_visit (+) ?adj d) = Some r"
      using Suc.prems(2) v by (intro Suc.IH) (simp_all add: finder_state_def)
    then show ?thesis using u finder_step_cases [of d u listchannels, OF u(1,2)] by simp
  qed
qed simp

lemma finder_loop_state:
  assumes "finder_loop fuel listchannels d = Some (r, d')" "finder_state listchannels self_id {} d"
  shows "finder_state listchannels self_id {} d' \<and> r = None \<and> current d' = None
    \<or> (\<exists>u \<in> dom (dj_tree d'). \<not> clean_reply (listchannels u)
         \<and> (finder_state listchannels self_id {u} d' \<or> finder_state listchannels self_id {} d'))"
  using assms
proof (induction fuel arbitrary: d)
  case (Suc fuel)
  let ?adj = "channel_graph listchannels"
  have inv: "amount_cost.dj_inv ?adj self_id 0 {} [] d" using Suc.prems(2) by (simp add: finder_state_def)
  show ?case
  proof (cases "current d")
    case None
    then show ?thesis using Suc.prems by simp
  next
    case (Some u)
    show ?thesis
    proof (cases "listchannels u")
      case (Inl e)
      have "u \<in> dom (dj_tree d)"
        using amount_cost.current_least [OF inv Some] by (auto simp: cost_of_def)
      moreover have "\<not> clean_reply (listchannels u)" using Inl by (simp add: clean_reply_def)
      ultimately show ?thesis using Suc.prems Some Inl by (intro disjI2 bexI [of _ u]) simp_all
    next
      case (Inr res)
      note st = finder_step_cases [of d u listchannels, OF Some Inr]
      show ?thesis
      proof (cases "clean_reply (listchannels u)")
        case True
        then have "finder_loop fuel listchannels (dj_visit (+) ?adj d) = Some (r, d')"
          using Suc.prems(1) st Some Inr by simp
        then show ?thesis
          using Suc.IH amount_cost.visit_inv(1) [OF inv Some] by (simp add: finder_state_def)
      next
        case False
        have fed: "amount_cost.dj_inv ?adj self_id 0 {u} (?adj u) (feed (?adj u) d)"
          using amount_cost.fold_neighbor_inv [OF amount_cost.inv_start [OF inv Some] Some, of "?adj u"] by simp
        have "u \<in> dom (dj_tree (feed (?adj u) d))"
          using fed by (auto simp: amount_cost.dj_inv_def costs_ok_def cost_of_def)
        moreover obtain e where "finder_step res d = (Some e, feed (?adj u) d)"
          using st False by (metis not_None_eq)
        then have "d' = feed (?adj u) d" using Suc.prems(1) Some Inr by simp
        ultimately show ?thesis using fed False by (intro disjI2 bexI [of _ u]) (simp_all add: finder_state_def)
      qed
    qed
  qed
qed simp

lemma finder_loop_mono:
  "finder_loop fuel listchannels d = Some r \<Longrightarrow> fuel \<le> fuel' \<Longrightarrow> finder_loop fuel' listchannels d = Some r"
proof (induction fuel arbitrary: d fuel')
  case (Suc fuel)
  then obtain f where f: "fuel' = Suc f" "fuel \<le> f" by (cases fuel') auto
  show ?case
  proof (cases "current d")
    case (Some u)
    show ?thesis
    proof (cases "listchannels u")
      case (Inr res)
      then show ?thesis using Suc Some f by (cases "finder_step res d") (auto split: option.splits)
    qed (use Suc.prems Some f in simp)
  qed (use Suc.prems f in simp)
qed simp

subsection \<open>The leaves are the nodes without children\<close>

lemma find_leaves_loop_spec:
  fixes par :: "'n \<rightharpoonup> 'n"
  assumes tree: "\<And>p. distinct (kids t p)" "\<And>p v. v \<in> set (kids t p) \<longleftrightarrow> par v = Some p" "par rt = None"
    and fin: "finite N" "rt \<in> N" "\<And>v p. par v = Some p \<Longrightarrow> v \<in> N"
    and V: "distinct (V @ Q)" "set (V @ Q) = {v. v = rt \<or> (\<exists>p \<in> set V. par v = Some p)}"
    and fuel: "card N - length V < fuel"
  shows "\<exists>V'. find_leaves_loop fuel t Q (filter (\<lambda>n. kids t n = []) V) = Some (filter (\<lambda>n. kids t n = []) V')
    \<and> distinct V' \<and> set V' = {v. v = rt \<or> (\<exists>p \<in> set V'. par v = Some p)}"
  using V fuel
proof (induction fuel arbitrary: V Q)
  case (Suc fuel)
  show ?case
  proof (cases Q)
    case Nil
    then show ?thesis using Suc.prems by (intro exI [of _ V]) simp
  next
    case (Cons n Q')
    have sub: "set (V @ Q) \<subseteq> N" using Suc.prems(2) fin(2,3) by auto
    have "length (V @ Q) \<le> card N" using card_mono [OF fin(1) sub] distinct_card [OF Suc.prems(1)] by simp
    then have fuel': "card N - length (V @ [n]) < fuel" using Suc.prems(3) by (simp add: Cons)
    have n: "n \<notin> set V" using Suc.prems(1) by (simp add: Cons)
    have new: "v \<notin> set (V @ Q)" if "v \<in> set (kids t n)" for v
      using Suc.prems(2) that n tree(2,3) by auto
    have d: "distinct ((V @ [n]) @ Q' @ kids t n)" using Suc.prems(1) new tree(1) [of n] by (auto simp: Cons)
    have s: "set ((V @ [n]) @ Q' @ kids t n) = {v. v = rt \<or> (\<exists>p \<in> set (V @ [n]). par v = Some p)}"
      using Suc.prems(2) tree(2) by (auto simp: Cons)
    from Suc.IH [OF d s fuel'] show ?thesis by (cases "kids t n = []") (simp_all add: Cons)
  qed
qed simp

lemma tree_reached:
  assumes t: "tree_ok (+) adj rt F d" and o: "order_ok d" and F: "F \<subseteq> {u}" "F \<subseteq> dom (dj_tree d)"
    and cl: "set (dj_closed d) \<subseteq> dom (dj_tree d)"
    and V: "V = {v. v = rt \<or> (\<exists>p \<in> V. parent_of d v = Some p)}" and v: "v \<in> dom (dj_tree d)"
  shows "v \<in> V"
proof -
  have rt: "rt \<in> V" using V by blast
  have step: "v \<in> V" if "parent_of d v = Some p" "p \<in> V" for v p using V that by blast
  have dom_par: "v = rt \<or> parent_of d v \<noteq> None" if "v \<in> dom (dj_tree d)" for v
    using t that by (auto simp: tree_ok_def cost_of_def)
  have par: "p \<in> set (dj_closed d) \<union> F \<and> p \<noteq> v" if "parent_of d v = Some p" for v p
    using t that by (simp add: tree_ok_def)
  have closed: "dj_closed d = xs @ ys \<Longrightarrow> set ys \<subseteq> V" for xs ys
  proof (induction ys arbitrary: xs)
    case (Cons y ys)
    have ys: "set ys \<subseteq> V" using Cons.IH [of "xs @ [y]"] Cons.prems by simp
    have "y \<in> dom (dj_tree d)" using cl Cons.prems by auto
    moreover have "p \<in> set ys" if "parent_of d y = Some p" for p using o Cons.prems that by (simp add: order_ok_def)
    ultimately have "y \<in> V" using dom_par [of y] rt step ys by fastforce
    then show ?case using ys by simp
  qed simp
  have c: "p \<in> V" if "p \<in> set (dj_closed d)" for p using closed [of "[]"] that by auto
  have F': "p \<in> V" if "p \<in> F" for p
    using dom_par [of p] par [of p] that F c step rt by blast
  show ?thesis using dom_par [OF v] par [of v] c F' step rt by blast
qed

text \<open>What the leaves are, whether or not the search was complete.\<close>

lemma finder_leaves:
  assumes st: "finder_state listchannels self_id F d" "F \<subseteq> {u}" "F \<subseteq> dom (dj_tree d)"
    and fuel: "card (dom (dj_tree d)) < fuel" and fin: "finite (dom (dj_tree d))"
  shows "\<exists>ls. find_leaves fuel self_id d = Some ls \<and> distinct ls
    \<and> set ls = {v \<in> dom (dj_tree d). kids (dj_tree d) v = []}"
proof -
  have t: "tree_ok (+) (channel_graph listchannels) self_id F d" and o: "order_ok d"
    and cl: "set (dj_closed d) \<subseteq> dom (dj_tree d)" and rt: "self_id \<in> dom (dj_tree d)"
    using st(1) by (auto simp: finder_state_def amount_cost.dj_inv_def costs_ok_def cost_of_def)
  have k: "\<And>p. distinct (kids (dj_tree d) p)" "\<And>p v. v \<in> set (kids (dj_tree d) p) \<longleftrightarrow> parent_of d v = Some p"
    "parent_of d self_id = None" using t by (auto simp: tree_ok_def)
  have par: "v \<in> dom (dj_tree d)" if "parent_of d v = Some p" for v p
    using that by (auto simp: parent_of_def bind_eq_Some_conv)
  have "\<exists>V. find_leaves_loop fuel (dj_tree d) [self_id] (filter (\<lambda>n. kids (dj_tree d) n = []) [])
      = Some (filter (\<lambda>n. kids (dj_tree d) n = []) V)
    \<and> distinct V \<and> set V = {v. v = self_id \<or> (\<exists>p \<in> set V. parent_of d v = Some p)}"
    by (rule find_leaves_loop_spec [where par = "parent_of d" and N = "dom (dj_tree d)"]) (use k fin rt par fuel in auto)
  then obtain V where V: "find_leaves_loop fuel (dj_tree d) [self_id] [] = Some (filter (\<lambda>n. kids (dj_tree d) n = []) V)"
      "distinct V" "set V = {v. v = self_id \<or> (\<exists>p \<in> set V. parent_of d v = Some p)}" by auto
  have "set V = dom (dj_tree d)"
  proof
    show "set V \<subseteq> dom (dj_tree d)"
    proof
      fix v assume "v \<in> set V"
      then have "v = self_id \<or> (\<exists>p \<in> set V. parent_of d v = Some p)" by (subst (asm) V(3)) simp
      then show "v \<in> dom (dj_tree d)" using rt par by blast
    qed
    show "dom (dj_tree d) \<subseteq> set V" using tree_reached [OF t o st(2,3) cl V(3)] by blast
  qed
  then show ?thesis using V by (auto simp: find_leaves_def)
qed

lemma find_leaves_loop_mono:
  "find_leaves_loop fuel t q ls = Some r \<Longrightarrow> fuel \<le> fuel' \<Longrightarrow> find_leaves_loop fuel' t q ls = Some r"
proof (induction fuel t q ls arbitrary: fuel' rule: find_leaves_loop.induct)
  case (2 fuel nav leaves)
  then show ?case by (cases fuel') auto
next
  case (3 fuel nav n extract_q leaves)
  then show ?case by (cases fuel') (auto split: if_splits)
qed simp

lemma finder_state_path:
  assumes "finder_state listchannels self_id F d" "v \<in> dom (dj_tree d)"
  shows "\<exists>k. path_cost (+) (channel_graph listchannels) self_id 0 v k"
  using assms by (auto simp: finder_state_def amount_cost.dj_inv_def costs_ok_def cost_of_def)

lemma finder_state_finite: "finder_state listchannels self_id F d \<Longrightarrow> finite (dom (dj_tree d))"
  using finder_state_path by (intro finite_subset [OF _ finite_reach [of listchannels self_id]]) blast

lemma amount_sat_0 [simp]: "amount_sat 0 = 0"
  by (simp add: amount_sat_def zero_amount_def)

text \<open>The run of the search and the walk over its tree, with enough fuel.\<close>

lemma start_processing_ends:
  "\<exists>N d r. (\<forall>fuel \<ge> N. finder_loop fuel listchannels (dijkstra_init self_id 0) = Some (r, d))
    \<and> (\<exists>ls. (\<forall>fuel \<ge> N. find_leaves fuel self_id d = Some ls) \<and> distinct ls \<and> set ls \<subseteq> dom (dj_tree d))
    \<and> (finder_state listchannels self_id {} d \<and> r = None \<and> current d = None
       \<or> (\<exists>u k. path_cost (+) (channel_graph listchannels) self_id 0 u k \<and> \<not> clean_reply (listchannels u)))"
proof -
  obtain n r d where n: "finder_loop n listchannels (dijkstra_init self_id 0) = Some (r, d)"
    using finder_loop_ends [OF finder_init_state lessI] by (metis prod.exhaust)
  note st = finder_loop_state [OF n finder_init_state]
  then obtain F u where F: "finder_state listchannels self_id F d" "F \<subseteq> {u}" "F \<subseteq> dom (dj_tree d)" by blast
  let ?m = "Suc (card (dom (dj_tree d)))"
  obtain ls where ls: "find_leaves ?m self_id d = Some ls" "distinct ls" "set ls \<subseteq> dom (dj_tree d)"
    using finder_leaves [OF F lessI finder_state_finite [OF F(1)]] by auto
  have "find_leaves fuel self_id d = Some ls" if "fuel \<ge> max n ?m" for fuel
    using ls(1) find_leaves_loop_mono that unfolding find_leaves_def by (meson max.boundedE)
  moreover have "finder_loop fuel listchannels (dijkstra_init self_id 0) = Some (r, d)" if "fuel \<ge> max n ?m" for fuel
    using finder_loop_mono [OF n] that by simp
  moreover have "finder_state listchannels self_id {} d \<and> r = None \<and> current d = None
     \<or> (\<exists>u k. path_cost (+) (channel_graph listchannels) self_id 0 u k \<and> \<not> clean_reply (listchannels u))"
    using st finder_state_path by blast
  ultimately show ?thesis using ls(2,3) by blast
qed

text \<open>C15: a run of the finder by distance comes to an end, whatever the node replies: the identifiers in
  its replies name finitely many nodes, each is asked about at most once, and the walk over the
  tree meets each node once. It ends with an exception or without one, and in the first case raises
  no message.\<close>

theorem finder_run_ends:
  "\<exists>out N. (\<forall>fuel \<ge> N. core_run fuel sample_key self_id own listchannels = Some out)
     \<and> (fo_exn out = None \<or> fo_msg out = None)"
proof -
  obtain N d r ls where N: "\<And>fuel. fuel \<ge> N \<Longrightarrow> finder_loop fuel listchannels (dijkstra_init self_id 0) = Some (r, d)"
    "\<And>fuel. fuel \<ge> N \<Longrightarrow> find_leaves fuel self_id d = Some ls" using start_processing_ends by blast
  have "\<exists>out. (\<forall>fuel \<ge> N. start_processing fuel sample_key self_id listchannels w = Some out)
     \<and> (fo_exn out = None \<or> fo_msg out = None)" for w
    by (intro exI [of _ "\<lparr>fo_waited = w, fo_msg = (if r = None then Some (analyze sample_key self_id d ls) else None), fo_exn = r\<rparr>"])
       (cases r; simp add: start_processing_def N)
  then obtain outs where outs: "\<And>w fuel. fuel \<ge> N \<Longrightarrow> start_processing fuel sample_key self_id listchannels w = Some (outs w)"
      "\<And>w. fo_exn (outs w) = None \<or> fo_msg (outs w) = None" by metis
  define out where "out = (case own of Inl e \<Rightarrow> \<lparr>fo_waited = False, fo_msg = None, fo_exn = Some e\<rparr>
    | Inr res \<Rightarrow> (case own_channels res of Inr (False, any) \<Rightarrow> outs (\<not> any)
        | _ \<Rightarrow> \<lparr>fo_waited = False, fo_msg = None, fo_exn = None\<rparr>))"
  have "core_run fuel sample_key self_id own listchannels = Some out" if "fuel \<ge> N" for fuel
    using outs(1) [OF that] by (simp add: core_run_def out_def split: sum.splits prod.splits bool.splits)
  moreover have "fo_exn out = None \<or> fo_msg out = None"
    using outs(2) by (simp add: out_def split: sum.splits prod.splits bool.splits)
  ultimately show ?thesis by blast
qed

subsection \<open>The candidates\<close>

lemma sample_entries_reservoir:
  "\<exists>ks. length ks = length es \<and> sample_entries key i es r = fold (\<lambda>(s, k). reservoir_add s k) (zip es ks) r"
proof (induction es arbitrary: i r)
  case (Cons e es)
  let ?k = "key (amount_to_btc (en_cost e)) i"
  obtain ks where "length ks = length es"
    "sample_entries key (Suc i) es (reservoir_add e ?k r) = fold (\<lambda>(s, k). reservoir_add s k) (zip es ks) (reservoir_add e ?k r)"
    using Cons.IH by blast
  then show ?case by (intro exI [of _ "?k # ks"]) simp
qed simp

lemma sample_entries_mset:
  assumes sel_def: "sel = rs_selected (sample_entries key i es (reservoir_init m))"
  shows "mset sel \<subseteq># mset es" "length sel = min m (length es)"
proof -
  obtain ks where ks: "length ks = length es" "sample_entries key i es (reservoir_init m) = reservoir_of m (zip es ks)"
    unfolding reservoir_of_def using sample_entries_reservoir [of es key i] by blast
  let ?r = "reservoir_of m (zip es ks)"
  have k: "keeps_largest m (zip es ks) ?r" by (rule reservoir_of_largest)
  then have "image_mset fst (mset (zip (rs_selected ?r) (rs_keys ?r))) \<subseteq># image_mset fst (mset (zip es ks))"
    by (intro image_mset_subseteq_mono) (simp add: keeps_largest_def)
  then show "mset sel \<subseteq># mset es" using k ks by (simp add: sel_def keeps_largest_def flip: mset_map)
  show "length sel = min m (length es)" using k ks by (simp add: sel_def keeps_largest_def)
qed

lemma set_map_filter': "e \<in> set (List.map_filter f xs) \<longleftrightarrow> (\<exists>x \<in> set xs. f x = Some e)"
  by (induction xs) (auto simp: map_filter_simps split: option.splits)

lemma distinct_submset:
  assumes "mset xs \<subseteq># mset ys" "distinct ys"
  shows "distinct xs"
proof -
  have "count (mset xs) a \<le> 1" for a
  proof -
    have "count (mset ys) a \<le> 1" using assms(2) by (metis distinct_count_atmost_1 le_refl zero_le)
    then show ?thesis using mset_subset_eq_count [OF assms(1), of a] by linarith
  qed
  moreover have "count (mset xs) a \<noteq> 0 \<longleftrightarrow> a \<in> set xs" for a by simp
  ultimately show ?thesis unfolding distinct_count_atmost_1 by (metis le_0_eq le_Suc_eq One_nat_def)
qed

lemma leaf_entries:
  "e \<in> set (List.map_filter (leaf_entry self_id d) ls) \<longleftrightarrow>
     en_proposal e \<in> set ls \<and> parent_of d (en_proposal e) = Some (en_patron e) \<and> en_patron e \<noteq> self_id
     \<and> cost_of d (en_proposal e) = Some (en_cost e)"
proof -
  have "leaf_entry self_id d n = Some e \<longleftrightarrow>
      en_proposal e = n \<and> parent_of d n = Some (en_patron e) \<and> en_patron e \<noteq> self_id \<and> cost_of d n = Some (en_cost e)" for n
    by (cases e) (auto simp: leaf_entry_def parent_of_def cost_of_def split: option.splits if_splits)
  then show ?thesis by (auto simp: set_map_filter')
qed

lemma leaf_entries_distinct:
  "distinct ls \<Longrightarrow> distinct (map en_proposal (List.map_filter (leaf_entry self_id d) ls))"
proof (induction ls)
  case (Cons n ls)
  have "en_proposal e \<in> set ls" if "e \<in> set (List.map_filter (leaf_entry self_id d) ls)" for e
    using that by (simp add: leaf_entries)
  moreover have "en_proposal e = n" if "leaf_entry self_id d n = Some e" for e
    using that by (auto simp: leaf_entry_def split: option.splits if_splits)
  ultimately show ?case using Cons by (cases "leaf_entry self_id d n") (auto simp: map_filter_simps)
qed (simp add: map_filter_simps)

lemma analyze_candidates:
  assumes "distinct ls"
  obtains entries where "analyze key self_id d ls = (map (\<lambda>e. (en_proposal e, en_patron e)) entries, 3)"
    "length entries = min 40 (length (List.map_filter (leaf_entry self_id d) ls))" "distinct (map en_proposal entries)"
    "set entries \<subseteq> set (List.map_filter (leaf_entry self_id d) ls)" "sorted_wrt (\<lambda>a b. en_cost b \<le> en_cost a) entries"
proof -
  let ?es = "List.map_filter (leaf_entry self_id d) ls"
  let ?sel = "rs_selected (sample_entries key 0 ?es (reservoir_init max_preinvestigate))"
  let ?entries = "sort_key (\<lambda>e. - int (amt (en_cost e))) ?sel"
  note sel = sample_entries_mset [OF refl, of key 0 ?es max_preinvestigate]
  have m: "mset ?entries \<subseteq># mset ?es" using sel(1) by simp
  have "mset (map en_proposal ?entries) \<subseteq># mset (map en_proposal ?es)"
    unfolding mset_map by (rule image_mset_subseteq_mono [OF m])
  then have d: "distinct (map en_proposal ?entries)" by (rule distinct_submset [OF _ leaf_entries_distinct [OF assms]])
  have "sorted_wrt (\<lambda>a b. - int (amt (en_cost a)) \<le> - int (amt (en_cost b))) ?entries"
    using sorted_sort_key [of "\<lambda>e. - int (amt (en_cost e))" ?sel] by (simp add: sorted_map)
  then have s: "sorted_wrt (\<lambda>a b. en_cost b \<le> en_cost a) ?entries"
    by (rule sorted_wrt_mono_rel [rotated]) (simp only: amount_le_iff neg_le_iff_le of_nat_le_iff)
  show thesis
  proof (rule that [OF _ _ d _ s])
    show "analyze key self_id d ls = (map (\<lambda>e. (en_proposal e, en_patron e)) ?entries, 3)"
      by (simp add: analyze_def Let_def max_candidates_def)
    show "length ?entries = min 40 (length ?es)" using sel(2) by (simp add: max_preinvestigate_def)
    show "set ?entries \<subseteq> set ?es" using set_mset_mono [OF m] by simp
  qed
qed

text \<open>C12: what the finder by distance proposes. When the node answers every question about a reachable
  node with well-formed channels, and we have channels, the run raises one message: it names at most
  forty nodes, no node twice, asks for three of them, and puts the farthest first. Each proposed
  node is at the end of a cheapest path from us whose last channel is from the patron, costs at most
  the maximum fee, and does not start at our own node. The run waits first exactly
  when none of our channels is active.\<close>

theorem finder_candidates:
  assumes clean: "\<And>u k. path_cost (+) (channel_graph listchannels) self_id 0 u k \<Longrightarrow> clean_reply (listchannels u)"
    and own: "own_channels res = Inr (False, any)"
  shows "\<exists>N cands. (\<forall>fuel \<ge> N. core_run fuel sample_key self_id (Inr res) listchannels
      = Some \<lparr>fo_waited = (\<not> any), fo_msg = Some (cands, 3), fo_exn = None\<rparr>)
    \<and> length cands \<le> 40 \<and> distinct (map fst cands)
    \<and> (\<forall>(n, p) \<in> set cands. p \<noteq> self_id \<and> n \<noteq> self_id
         \<and> (\<exists>kp c. least_cost (channel_graph listchannels) self_id p kp \<and> (n, c) \<in> set (channel_graph listchannels p)
              \<and> c \<le> max_fee \<and> least_cost (channel_graph listchannels) self_id n (kp + c)))
    \<and> sorted_wrt (\<lambda>(n, _) (n', _). \<forall>k k'. least_cost (channel_graph listchannels) self_id n k
         \<longrightarrow> least_cost (channel_graph listchannels) self_id n' k' \<longrightarrow> k' \<le> k) cands"
proof -
  let ?adj = "channel_graph listchannels"
  obtain N d r ls where N: "\<And>fuel. fuel \<ge> N \<Longrightarrow> finder_loop fuel listchannels (dijkstra_init self_id 0) = Some (r, d)"
      "\<And>fuel. fuel \<ge> N \<Longrightarrow> find_leaves fuel self_id d = Some ls" "distinct ls"
    and st: "finder_state listchannels self_id {} d" "r = None" "current d = None"
    using start_processing_ends [of listchannels self_id] clean by blast
  have inv: "amount_cost.dj_inv ?adj self_id 0 {} [] d" using st(1) by (simp add: finder_state_def)
  have least: "least_cost ?adj self_id v k \<longleftrightarrow> cost_of d v = Some k" for v k
    using amount_cost.ended_least [OF inv st(3)] by (auto simp: least_cost_def)
  have t: "tree_ok (+) ?adj self_id {} d" using inv by (simp add: amount_cost.dj_inv_def)
  obtain es where es: "analyze sample_key self_id d ls = (map (\<lambda>e. (en_proposal e, en_patron e)) es, 3)"
    "length es = min 40 (length (List.map_filter (leaf_entry self_id d) ls))" "distinct (map en_proposal es)"
    "set es \<subseteq> set (List.map_filter (leaf_entry self_id d) ls)" "sorted_wrt (\<lambda>a b. en_cost b \<le> en_cost a) es"
    by (rule analyze_candidates [OF N(3)])
  let ?cands = "map (\<lambda>e. (en_proposal e, en_patron e)) es"
  have e: "parent_of d (en_proposal x) = Some (en_patron x)" "en_patron x \<noteq> self_id" "cost_of d (en_proposal x) = Some (en_cost x)"
    if "x \<in> set es" for x using es(4) that by (auto simp: leaf_entries)
  have "core_run fuel sample_key self_id (Inr res) listchannels
      = Some \<lparr>fo_waited = (\<not> any), fo_msg = Some (?cands, 3), fo_exn = None\<rparr>" if "fuel \<ge> N" for fuel
    by (simp add: core_run_def own start_processing_def N(1,2) [OF that] st(2) es(1))
  moreover have "p \<noteq> self_id \<and> n \<noteq> self_id \<and> (\<exists>kp c. least_cost ?adj self_id p kp \<and> (n, c) \<in> set (?adj p)
      \<and> c \<le> max_fee \<and> least_cost ?adj self_id n (kp + c))" if "(n, p) \<in> set ?cands" for n p
  proof -
    have p: "parent_of d n = Some p" "p \<noteq> self_id" using that e by auto
    have "n \<noteq> self_id" using t p(1) unfolding tree_ok_def by force
    moreover obtain kp c where "cost_of d p = Some kp" "(n, c) \<in> set (?adj p)" "cost_of d n = Some (kp + c)"
      using t p(1) unfolding tree_ok_def by blast
    ultimately show ?thesis using p(2) channel_graph_wf unfolding least by blast
  qed
  moreover have "sorted_wrt (\<lambda>(n, _) (n', _). \<forall>k k'. least_cost ?adj self_id n k \<longrightarrow> least_cost ?adj self_id n' k' \<longrightarrow> k' \<le> k) ?cands"
    unfolding sorted_wrt_map
    by (rule sorted_wrt_mono_rel [OF _ es(5)]) (auto simp: least e)
  moreover have "length ?cands \<le> 40" "distinct (map fst ?cands)" using es(2,3) by (simp_all add: comp_def)
  ultimately show ?thesis by blast
qed

definition ex_node :: "u8 \<Rightarrow> node_id" where
  "ex_node b = NodeId (Some (2 # replicate 32 b))"

definition ex_dist_channel :: "node_id \<Rightarrow> json" where
  "ex_dist_channel n = JObj [(''active'', JBool True), (''destination'', JStr (string_of_node n)),
     (''base_fee_millisatoshi'', JNum 1000), (''fee_per_millionth'', JNum 10), (''delay'', JNum 6)]"

definition ex_listchannels :: "node_id \<Rightarrow> json result" where
  "ex_listchannels n = Inr (JObj [(''channels'', JArr
     (if n = ex_node 0 then [ex_dist_channel (ex_node 1)]
      else if n = ex_node 1 then [ex_dist_channel (ex_node 0), ex_dist_channel (ex_node 2)] else []))])"

lemma ex_dist_channel_ok: "is_ok (channel_edge (ex_dist_channel (ex_node b)))"
proof -
  have "node_of_string (string_of_node (ex_node b)) = Inr (ex_node b)"
    by (rule node_of_string_printed) (simp add: ex_node_def node_wf_def)
  then show ?thesis by (simp add: channel_edge_def ex_dist_channel_def json_get_def json_bool_def json_string_def json_double_def Let_def)
qed

theorem finder_candidates_witness:
  "\<exists>N cands. (\<forall>fuel \<ge> N. core_run fuel (\<lambda>w i. int i) (ex_node 0) (ex_listchannels (ex_node 0)) ex_listchannels
      = Some \<lparr>fo_waited = False, fo_msg = Some (cands, 3), fo_exn = None\<rparr>)
    \<and> length cands \<le> 40 \<and> distinct (map fst cands)
    \<and> (\<forall>(n, p) \<in> set cands. p \<noteq> ex_node 0 \<and> n \<noteq> ex_node 0
         \<and> (\<exists>kp c. least_cost (channel_graph ex_listchannels) (ex_node 0) p kp \<and> (n, c) \<in> set (channel_graph ex_listchannels p)
              \<and> c \<le> max_fee \<and> least_cost (channel_graph ex_listchannels) (ex_node 0) n (kp + c)))
    \<and> sorted_wrt (\<lambda>(n, _) (n', _). \<forall>k k'. least_cost (channel_graph ex_listchannels) (ex_node 0) n k
         \<longrightarrow> least_cost (channel_graph ex_listchannels) (ex_node 0) n' k' \<longrightarrow> k' \<le> k) cands"
proof -
  obtain res where res: "ex_listchannels (ex_node 0) = Inr res" "own_channels res = Inr (False, True)"
    by (simp add: ex_listchannels_def own_channels_def json_find_def json_size_def json_elems_def ex_dist_channel_def json_get_def json_bool_def)
  have "clean_reply (ex_listchannels u)" for u
    by (simp add: clean_reply_def ex_listchannels_def json_find_def json_elems_def ex_dist_channel_ok)
  from finder_candidates [OF this res(2), where sample_key = "\<lambda>w i. int i" and self_id = "ex_node 0"] show ?thesis
    by (simp only: res(1) not_True_eq_False)
qed

theorem finder_run_ends_witness:
  "\<exists>out N. (\<forall>fuel \<ge> N. core_run fuel (\<lambda>w i. int i) (ex_node 0) (ex_listchannels (ex_node 0)) ex_listchannels = Some out)
     \<and> (fo_exn out = None \<or> fo_msg out = None)"
  by (rule finder_run_ends)

text \<open>An exception in a run leaves the finder marked as running: it never runs again.\<close>

lemma finder_stuck:
  assumes "finder_solicit f = (True, f1)" "fo_exn out = Some e"
  shows "fst (finder_solicit (fold finder_init ids (finder_run_ended out f1))) = False"
proof -
  have "fd_running (fold finder_init ids g) = fd_running g" for g
    by (induction ids arbitrary: g) (simp_all add: finder_init_def)
  moreover have "fd_running f1" using assms(1) by (auto simp: finder_solicit_def split: if_splits)
  ultimately show ?thesis using assms(2) by (simp add: finder_solicit_def finder_run_ended_def)
qed

end
