(* ===== verification/Fee_Survey.thy ===== *)
theory Fee_Survey
  imports Stats_Samplers Amount_Json Ln_Ids
begin

text \<open>
  \<open>src/Boss/Mod/PeerCompetitorFeeMonitor/\<close>: the weighted median of the fees that others charge on their
  channels into a peer. A reply of the node is a parameter; in the mode for old nodes there
  is one for each channel. That mode has no bound on its steps, so it runs on fuel and the value
  without fuel is that it has not returned. Batches and progress reports only yield.
\<close>

subsection \<open>The surveyor\<close>

record surveyor =
  sv_samples :: nat
  sv_bases :: "(u32, amount) wmedian"
  sv_proportionals :: "(u32, amount) wmedian"

definition surveyor_init :: surveyor where
  "surveyor_init = \<lparr>sv_samples = 0, sv_bases = wmedian_init, sv_proportionals = wmedian_init\<rparr>"

definition u32_of_double :: "double \<Rightarrow> u32" where
  "u32_of_double d = of_int (trunc_double d)"

text \<open>One channel. The sample is counted before its fields are read; what it returns is the
  exception that ends it, if any, which for a type error the function itself turns into a message.\<close>

definition sample_fields :: "json \<Rightarrow> (u32 \<times> u32 \<times> amount) result" where
  "sample_fields c =
     rbind (rbind (json_get c ''base_fee_millisatoshi'') json_double) (\<lambda>base.
     rbind (rbind (json_get c ''fee_per_millionth'') json_double) (\<lambda>prop.
     rbind (rbind (json_get c ''amount_msat'') amount_object) (\<lambda>weight.
     Inr (u32_of_double base, u32_of_double prop, weight))))"

definition one_channel :: "node_id \<Rightarrow> json \<Rightarrow> surveyor \<Rightarrow> exn option \<times> surveyor" where
  "one_channel self_id c sv =
     (case rbind (rbind (json_get c ''source'') json_string) node_of_string of
        Inl e \<Rightarrow> (Some e, sv)
      | Inr source \<Rightarrow>
          if source = self_id then (None, sv)
          else
            let sv1 = sv\<lparr>sv_samples := sv_samples sv + 1\<rparr> in
            case sample_fields c of
              Inl e \<Rightarrow> (Some e, sv1)
            | Inr (base, prop, weight) \<Rightarrow>
                (None, sv1\<lparr>sv_bases := wmedian_add base weight (sv_bases sv1),
                           sv_proportionals := wmedian_add prop weight (sv_proportionals sv1)\<rparr>))"

text \<open>The loop over the reply. A type error ends it and keeps what was sampled; another exception
  leaves the run.\<close>

fun survey_loop :: "node_id \<Rightarrow> json list \<Rightarrow> surveyor \<Rightarrow> surveyor result" where
  "survey_loop self_id [] sv = Inr sv"
| "survey_loop self_id (c # cs) sv =
     (case one_channel self_id c sv of
        (None, sv') \<Rightarrow> survey_loop self_id cs sv'
      | (Some e, sv') \<Rightarrow> if e = JsonTypeError then Inr sv' else Inl e)"

text \<open>Old nodes: each channel is asked for again, for its other direction. Only a channel that went well
  is passed over.\<close>

fun old_channel :: "node_id \<Rightarrow> node_id \<Rightarrow> json list \<Rightarrow> surveyor \<Rightarrow> exn option \<times> surveyor" where
  "old_channel self_id peer_id [] sv = (None, sv)"
| "old_channel self_id peer_id (c # cs) sv =
     (case rbind (rbind (json_get c ''destination'') json_string) node_of_string of
        Inl e \<Rightarrow> (Some e, sv)
      | Inr destination \<Rightarrow>
          if destination \<noteq> peer_id then old_channel self_id peer_id cs sv else one_channel self_id c sv)"

definition old_step :: "(json \<Rightarrow> json result) \<Rightarrow> node_id \<Rightarrow> node_id \<Rightarrow> json \<Rightarrow> surveyor \<Rightarrow> exn option \<times> surveyor" where
  "old_step listchannels self_id peer_id c sv =
     (case rbind (rbind (json_get c ''short_channel_id'') listchannels) (\<lambda>res. rbind (json_find res ''channels'') json_elems) of
        Inl e \<Rightarrow> (Some e, sv)
      | Inr cs \<Rightarrow> old_channel self_id peer_id cs sv)"

fun old_loop ::
  "nat \<Rightarrow> (json \<Rightarrow> json result) \<Rightarrow> node_id \<Rightarrow> node_id \<Rightarrow> json list \<Rightarrow> surveyor \<Rightarrow> surveyor option" where
  "old_loop fuel listchannels self_id peer_id [] sv = Some sv"
| "old_loop 0 listchannels self_id peer_id (c # cs) sv = None"
| "old_loop (Suc fuel) listchannels self_id peer_id (c # cs) sv =
     (case old_step listchannels self_id peer_id c sv of
        (None, sv') \<Rightarrow> old_loop fuel listchannels self_id peer_id cs sv'
      | (Some _, sv') \<Rightarrow> old_loop fuel listchannels self_id peer_id (c # cs) sv')"

record survey =
  su_peer :: node_id
  su_base :: u32
  su_proportional :: u32

definition survey_extract :: "node_id \<Rightarrow> surveyor \<Rightarrow> survey option result" where
  "survey_extract peer_id sv =
     (if sv_samples sv = 0 then Inr None
      else
        rbind (wmedian_finalize (sv_bases sv)) (\<lambda>base.
        rbind (wmedian_finalize (sv_proportionals sv)) (\<lambda>prop.
        Inr (Some \<lparr>su_peer = peer_id, su_base = base, su_proportional = prop\<rparr>))))"

text \<open>The reply to the first question: an error or something else than an array means no channels.\<close>

definition survey_channels :: "json result \<Rightarrow> json list option" where
  "survey_channels reply =
     (case rbind reply (\<lambda>res. json_get res ''channels'') of Inr (JArr cs) \<Rightarrow> Some cs | _ \<Rightarrow> None)"

definition survey_run :: "node_id \<Rightarrow> node_id \<Rightarrow> json result \<Rightarrow> survey option result" where
  "survey_run self_id peer_id reply =
     (case survey_channels reply of
        None \<Rightarrow> survey_extract peer_id surveyor_init
      | Some cs \<Rightarrow> rbind (survey_loop self_id cs surveyor_init) (survey_extract peer_id))"

definition survey_run_old ::
  "nat \<Rightarrow> (json \<Rightarrow> json result) \<Rightarrow> node_id \<Rightarrow> node_id \<Rightarrow> json result \<Rightarrow> survey option result option" where
  "survey_run_old fuel listchannels self_id peer_id reply =
     (case survey_channels reply of
        None \<Rightarrow> Some (survey_extract peer_id surveyor_init)
      | Some cs \<Rightarrow> map_option (survey_extract peer_id) (old_loop fuel listchannels self_id peer_id cs surveyor_init))"

subsection \<open>The monitor\<close>

record fee_monitor =
  pm_rpc :: bool
  pm_channels :: "node_id list"
  pm_have_channels :: bool
  pm_fired_init :: bool

definition monitor_init :: "fee_monitor \<Rightarrow> bool \<times> fee_monitor" where
  "monitor_init m =
     (let m1 = m\<lparr>pm_rpc := True\<rparr> in
      if pm_have_channels m1 \<and> \<not> pm_fired_init m1 then (True, m1\<lparr>pm_fired_init := True\<rparr>) else (False, m1))"

definition monitor_listpeers :: "node_id list \<Rightarrow> node_id list \<Rightarrow> fee_monitor \<Rightarrow> bool \<times> fee_monitor" where
  "monitor_listpeers connected_channeled disconnected_channeled m =
     (let m1 = m\<lparr>pm_channels := connected_channeled @ disconnected_channeled, pm_have_channels := True\<rparr> in
      if pm_rpc m1 \<and> \<not> pm_fired_init m1 then (True, m1\<lparr>pm_fired_init := True\<rparr>) else (False, m1))"

definition monitor_hourly :: "fee_monitor \<Rightarrow> bool \<times> fee_monitor" where
  "monitor_hourly m = (if \<not> pm_rpc m \<or> \<not> pm_have_channels m then (False, m) else (True, m))"

text \<open>A periodic survey of all peers; the surveys are awaited together, so one that throws loses them all.\<close>

fun survey_all :: "(node_id \<Rightarrow> survey option result) \<Rightarrow> node_id list \<Rightarrow> survey option list result" where
  "survey_all f [] = Inr []"
| "survey_all f (n # ns) = rbind (f n) (\<lambda>r. rbind (survey_all f ns) (\<lambda>rs. Inr (r # rs)))"

definition on_periodic :: "(node_id \<Rightarrow> survey option result) \<Rightarrow> fee_monitor \<Rightarrow> survey list result" where
  "on_periodic f m = rbind (survey_all f (pm_channels m)) (\<lambda>rs. Inr (List.map_filter id rs))"

subsection \<open>What is sampled\<close>

text \<open>The reference: the fees and sizes of the channels into the peer that are not our own.\<close>

definition foreign :: "node_id \<Rightarrow> json \<Rightarrow> bool" where
  "foreign self_id c = (rbind (rbind (json_get c ''source'') json_string) node_of_string \<noteq> Inr self_id)"

definition well_formed :: "node_id \<Rightarrow> json \<Rightarrow> bool" where
  "well_formed self_id c =
     (is_ok (rbind (rbind (json_get c ''source'') json_string) node_of_string)
      \<and> (foreign self_id c \<longrightarrow> is_ok (sample_fields c)))"

definition fee_samples :: "node_id \<Rightarrow> json list \<Rightarrow> (u32 \<times> u32 \<times> amount) list" where
  "fee_samples self_id cs = map (\<lambda>c. projr (sample_fields c)) (filter (foreign self_id) cs)"

definition sampled :: "(u32 \<times> u32 \<times> amount) list \<Rightarrow> surveyor" where
  "sampled xs = \<lparr>sv_samples = length xs, sv_bases = wmedian_of (map (\<lambda>(b, p, w). (b, w)) xs),
     sv_proportionals = wmedian_of (map (\<lambda>(b, p, w). (p, w)) xs)\<rparr>"

lemma one_channel_samples:
  assumes "well_formed self_id c"
  shows "one_channel self_id c (sampled xs) = (None, sampled (xs @ fee_samples self_id [c]))"
proof -
  obtain source where s: "rbind (rbind (json_get c ''source'') json_string) node_of_string = Inr source"
    using assms by (auto simp: well_formed_def is_ok_iff)
  show ?thesis
  proof (cases "source = self_id")
    case True
    then show ?thesis by (simp add: one_channel_def s fee_samples_def foreign_def)
  next
    case False
    then have f: "foreign self_id c" by (simp add: foreign_def s)
    then obtain b p w where "sample_fields c = Inr (b, p, w)" using assms by (auto simp: well_formed_def is_ok_iff)
    then show ?thesis using f False by (simp add: one_channel_def s fee_samples_def sampled_def Let_def wmedian_of_snoc)
  qed
qed

lemma survey_loop_samples:
  "list_all (well_formed self_id) cs \<Longrightarrow> survey_loop self_id cs (sampled xs) = Inr (sampled (xs @ fee_samples self_id cs))"
proof (induction cs arbitrary: xs)
  case (Cons c cs)
  then have "survey_loop self_id (c # cs) (sampled xs) = survey_loop self_id cs (sampled (xs @ fee_samples self_id [c]))"
    by (simp add: one_channel_samples)
  also have "\<dots> = Inr (sampled ((xs @ fee_samples self_id [c]) @ fee_samples self_id cs))" using Cons by (intro Cons.IH) simp
  finally show ?case by (simp add: fee_samples_def)
qed (simp add: fee_samples_def)

lemma sampled_Nil: "sampled [] = surveyor_init"
  by (simp add: sampled_def surveyor_init_def wmedian_of_def)

subsection \<open>What a survey finds\<close>

lemma weight_sum_samples:
  "weight_sum (map (\<lambda>(b, p, w). (b, w)) xs) = weight_sum (map (\<lambda>(b, p, w). (p, w)) xs)"
  by (induction xs) auto

text \<open>C18: the result of surveying a peer whose channels are all well formed. There is none exactly when all its
  channels are our own. Otherwise both fees are weighted medians of what the others charge into the peer: channels that charge
  less carry at most half of the capacity, those that charge no more carry more than
  half. The survey throws only when the channels of others have no capacity at all.\<close>

theorem survey_medians:
  assumes reply: "survey_channels reply = Some cs" and wf: "list_all (well_formed self_id) cs"
    and fits: "2 * weight_sum (map (\<lambda>(b, p, w). (b, w)) (fee_samples self_id cs)) < 2 ^ 64"
  shows "case survey_run self_id peer_id reply of
      Inl e \<Rightarrow> e = NoSamples \<and> fee_samples self_id cs \<noteq> []
        \<and> weight_sum (map (\<lambda>(b, p, w). (b, w)) (fee_samples self_id cs)) = 0
    | Inr None \<Rightarrow> fee_samples self_id cs = []
    | Inr (Some r) \<Rightarrow> su_peer r = peer_id \<and> is_median (su_base r) (map (\<lambda>(b, p, w). (b, w)) (fee_samples self_id cs))
        \<and> is_median (su_proportional r) (map (\<lambda>(b, p, w). (p, w)) (fee_samples self_id cs))"
proof -
  let ?xs = "fee_samples self_id cs"
  let ?bs = "map (\<lambda>(b, p, w). (b, w)) ?xs" and ?ps = "map (\<lambda>(b, p, w). (p, w)) ?xs"
  have run: "survey_run self_id peer_id reply = survey_extract peer_id (sampled ?xs)"
    using survey_loop_samples [OF wf, of "[]"] reply by (simp add: survey_run_def sampled_Nil)
  have w: "weight_sum ?ps = weight_sum ?bs" by (simp add: weight_sum_samples)
  note b = weighted_median_splits [OF fits]
  have "2 * weight_sum ?ps < 2 ^ 64" using fits w by simp
  note p = weighted_median_splits [OF this]
  show ?thesis
  proof (cases "?xs = []")
    case True
    then show ?thesis by (simp add: run survey_extract_def sampled_def)
  next
    case False
    then show ?thesis
      using b p w by (auto simp: run survey_extract_def sampled_def rbind_def split: sum.splits)
  qed
qed

definition ex_fee_channel :: "node_id \<Rightarrow> double \<Rightarrow> json" where
  "ex_fee_channel n f = JObj [(''source'', JStr (string_of_node n)), (''base_fee_millisatoshi'', JNum f),
     (''fee_per_millionth'', JNum 10), (''amount_msat'', JNum 1000)]"

theorem survey_medians_witness:
  "\<exists>r. survey_run (NodeId None) (NodeId (Some (2 # replicate 32 1)))
      (Inr (JObj [(''channels'', JArr [ex_fee_channel (NodeId (Some (2 # replicate 32 7))) 5, ex_fee_channel (NodeId None) 9])])) = Inr (Some r)
    \<and> is_median (su_base r) [(5, Amount 1000)]"
proof -
  let ?n = "NodeId (Some (2 # replicate 32 7))"
  let ?cs = "[ex_fee_channel ?n 5, ex_fee_channel (NodeId None) 9]"
  have src: "rbind (rbind (json_get (ex_fee_channel n f) ''source'') json_string) node_of_string = Inr n" if "node_wf n" for n f
    using node_of_string_printed [OF that] by (simp add: ex_fee_channel_def json_get_def json_string_def)
  have wf: "node_wf ?n" "node_wf (NodeId None)" by (simp_all add: node_wf_def)
  have sf: "sample_fields (ex_fee_channel n 5) = Inr (5, 10, Amount 1000)" for n
    by (simp add: sample_fields_def ex_fee_channel_def json_get_def json_double_def amount_object_def amount_msat_def
        u32_of_double_def trunc_double_def)
  have fo: "foreign (NodeId None) (ex_fee_channel ?n 5)" "\<not> foreign (NodeId None) (ex_fee_channel (NodeId None) 9)"
    by (simp_all add: foreign_def src wf)
  have fs: "fee_samples (NodeId None) ?cs = [(5, 10, Amount 1000)]" by (simp add: fee_samples_def fo sf)
  have ok: "list_all (well_formed (NodeId None)) ?cs" by (simp add: well_formed_def src wf fo sf)
  have rp: "survey_channels (Inr (JObj [(''channels'', JArr ?cs)])) = Some ?cs" by (simp add: survey_channels_def json_get_def)
  show ?thesis
    using survey_medians [OF rp ok, of "NodeId (Some (2 # replicate 32 1))"]
    by (auto simp: fs split: sum.splits option.splits)
qed

subsection \<open>The mode for old nodes\<close>

lemma one_channel_outcome: "fst (one_channel self_id c sv) = fst (one_channel self_id c sv')"
  by (auto simp: one_channel_def Let_def split: sum.splits)

lemma old_step_outcome: "fst (old_step lc self_id peer_id c sv) = fst (old_step lc self_id peer_id c sv')"
proof -
  have "fst (old_channel self_id peer_id cs sv) = fst (old_channel self_id peer_id cs sv')" for cs
    by (induction cs) (auto simp: one_channel_outcome [of self_id _ sv sv'] split: sum.splits)
  then show ?thesis by (simp add: old_step_def split: sum.splits)
qed

lemma old_loop_stuck:
  "fst (old_step lc self_id peer_id c surveyor_init) \<noteq> None \<Longrightarrow> old_loop fuel lc self_id peer_id (c # cs) sv = None"
proof (induction fuel arbitrary: sv)
  case (Suc fuel)
  then have "fst (old_step lc self_id peer_id c sv) \<noteq> None" using old_step_outcome [of lc self_id peer_id c sv surveyor_init] by simp
  then show ?case using Suc by (cases "old_step lc self_id peer_id c sv") auto
qed simp

text \<open>The survey through an old node returns exactly when none of the peer's channels fails. A failed query, an
  entry of an unexpected type or an identifier that is not one is logged and the same channel asked for again, without end;
  the iterator is only advanced on success.\<close>

theorem survey_old_ends:
  "(\<exists>fuel sv'. old_loop fuel lc self_id peer_id cs sv = Some sv') \<longleftrightarrow>
     (\<forall>c \<in> set cs. fst (old_step lc self_id peer_id c surveyor_init) = None)"
proof (induction cs arbitrary: sv)
  case (Cons c cs)
  show ?case
  proof (cases "fst (old_step lc self_id peer_id c surveyor_init) = None")
    case True
    then obtain sv1 where s: "old_step lc self_id peer_id c sv = (None, sv1)"
      using old_step_outcome [of lc self_id peer_id c sv surveyor_init] by (cases "old_step lc self_id peer_id c sv") auto
    have "(\<exists>fuel sv'. old_loop fuel lc self_id peer_id (c # cs) sv = Some sv') \<longleftrightarrow> (\<exists>fuel sv'. old_loop fuel lc self_id peer_id cs sv1 = Some sv')"
    proof
      assume "\<exists>fuel sv'. old_loop fuel lc self_id peer_id (c # cs) sv = Some sv'"
      then obtain fuel sv' where "old_loop fuel lc self_id peer_id (c # cs) sv = Some sv'" by blast
      then show "\<exists>fuel sv'. old_loop fuel lc self_id peer_id cs sv1 = Some sv'" using s by (cases fuel) auto
    next
      assume "\<exists>fuel sv'. old_loop fuel lc self_id peer_id cs sv1 = Some sv'"
      then obtain fuel sv' where "old_loop fuel lc self_id peer_id cs sv1 = Some sv'" by blast
      then show "\<exists>fuel sv'. old_loop fuel lc self_id peer_id (c # cs) sv = Some sv'" using s by (intro exI [of _ "Suc fuel"]) simp
    qed
    then show ?thesis using Cons.IH True by simp
  next
    case False
    then show ?thesis using old_loop_stuck [OF False] by auto
  qed
qed auto

theorem survey_old_ends_witness:
  "\<not> (\<exists>fuel sv'. old_loop fuel (\<lambda>_. Inl RpcError) (NodeId None) (NodeId None) [JObj [(''short_channel_id'', JStr ''1x1x1'')]] surveyor_init = Some sv')
   \<and> fst (old_step (\<lambda>_. Inl RpcError) (NodeId None) (NodeId None) (JObj [(''short_channel_id'', JStr ''1x1x1'')]) surveyor_init) = Some RpcError"
  using survey_old_ends [of "\<lambda>_. Inl RpcError" "NodeId None" "NodeId None" "[JObj [(''short_channel_id'', JStr ''1x1x1'')]]" surveyor_init]
  by (simp add: old_step_def json_get_def)

text \<open>A first channel whose fees cannot be read has been counted as a sample, so the survey throws.\<close>

lemma survey_counted_unread:
  assumes "survey_channels reply = Some (c # cs)" "foreign self_id c" "is_ok (rbind (rbind (json_get c ''source'') json_string) node_of_string)"
    "sample_fields c = Inl JsonTypeError"
  shows "survey_run self_id peer_id reply = Inl NoSamples"
proof -
  obtain n where "rbind (rbind (json_get c ''source'') json_string) node_of_string = Inr n" "n \<noteq> self_id"
    using assms(2,3) by (auto simp: is_ok_iff foreign_def)
  then have "one_channel self_id c surveyor_init = (Some JsonTypeError, surveyor_init\<lparr>sv_samples := 1\<rparr>)"
    using assms(4) by (simp add: one_channel_def Let_def surveyor_init_def)
  then show ?thesis
    using assms(1) by (simp add: survey_run_def survey_extract_def surveyor_init_def wmedian_finalize_def wmedian_init_def)
qed

end
