(* ===== verification/Fee_Balance.thy ===== *)
theory Fee_Balance
  imports Channel_Balance Ln_Ids
begin

text \<open>
  \<open>src/Boss/Mod/FeeModderByBalance.cpp\<close>: the fee multiplier that
  follows the bin our share of a channel falls into. \<open>exp\<close> and \<open>log\<close> are parameters, and so are the
  number drawn from the random engine and the node's reply. For a channel of total size zero the bin is not a
  number, and its conversion to an integer is undefined behaviour.
\<close>

subsection \<open>Balances\<close>

text \<open>\<open>ChannelSpecs\<close>: what the modifier reads of a channel.\<close>

record channel_specs =
  cb_to_us :: amount
  cb_total :: amount

subsection \<open>Bins\<close>

definition get_ratio :: "(double \<Rightarrow> double) \<Rightarrow> (double \<Rightarrow> double) \<Rightarrow> double \<Rightarrow> double" where
  "get_ratio exp_d log_d our_percentage = exp_d (fl (log_d 50 * fl (1 / 2 - our_percentage)))"

definition bin_percentage :: "nat \<Rightarrow> nat \<Rightarrow> double" where
  "bin_percentage bin num_bins = fl (fl (of_nat (1 + bin * 2)) / fl (of_nat (num_bins * 2)))"

definition get_ratio_by_bin :: "(double \<Rightarrow> double) \<Rightarrow> nat \<Rightarrow> nat \<Rightarrow> double result" where
  "get_ratio_by_bin ratio bin num_bins =
     (if \<not> bin < num_bins then Inl AssertFailed else Inr (ratio (bin_percentage bin num_bins)))"

definition preferred_bin_size :: amount where
  "preferred_bin_size = amount_btc (fl (2 / 1000))"

definition min_bins :: nat where
  "min_bins = 4"

definition max_bins :: nat where
  "max_bins = 50"

text \<open>\<open>round\<close> takes halves away from zero.\<close>

definition round_double :: "double \<Rightarrow> int" where
  "round_double x = (if x < 0 then - \<lfloor>- x + 1 / 2\<rfloor> else \<lfloor>x + 1 / 2\<rfloor>)"

definition get_num_bins :: "amount \<Rightarrow> nat" where
  "get_num_bins channel_size =
     (let raw_num_bins = nat (round_double (amount_ratio channel_size preferred_bin_size)) in
      if raw_num_bins < min_bins then min_bins
      else if raw_num_bins > max_bins then max_bins
      else raw_num_bins)"

text \<open>\<open>None\<close> is the result of a division by zero: not a number, or infinite.\<close>

definition get_bin :: "amount \<Rightarrow> amount \<Rightarrow> nat \<Rightarrow> double option" where
  "get_bin to_us channel_size num_bins =
     (if channel_size = 0 then None else Some (fl (amount_ratio to_us channel_size * fl (of_nat num_bins))))"

definition floor_bin :: "double option \<Rightarrow> nat result" where
  "floor_bin b = (case b of None \<Rightarrow> Inl UndefinedBehaviour | Some x \<Rightarrow> Inr (nat \<lfloor>x\<rfloor>))"

subsection \<open>The modifier\<close>

record bin_info =
  bi_bin :: nat
  bi_num_bins :: nat
  bi_to_us :: amount
  bi_total :: amount

type_synonym infomap = "node_id \<rightharpoonup> bin_info"

fun find_specs :: "json list \<Rightarrow> channel_specs option result" where
  "find_specs [] = Inr None"
| "find_specs (c # cs) =
     rbind (rbind (json_get c ''state'') json_string) (\<lambda>state.
     if state \<noteq> ''CHANNELD_NORMAL'' \<and> state \<noteq> ''CHANNELD_AWAITING_SPLICE'' then find_specs cs
     else rbind (channel_balance c) (\<lambda>(to_us, tot). Inr (Some \<lparr>cb_to_us = to_us, cb_total = tot\<rparr>)))"

definition get_channel_specs :: "json \<Rightarrow> channel_specs option" where
  "get_channel_specs res =
     (case rbind (rbind (json_find res ''channels'') json_elems) find_specs of Inl _ \<Rightarrow> None | Inr s \<Rightarrow> s)"

definition set_starting_info ::
  "(double \<Rightarrow> double) \<Rightarrow> node_id \<Rightarrow> channel_specs option \<Rightarrow> infomap \<Rightarrow> (double \<times> infomap) result" where
  "set_starting_info ratio node cs infos =
     (case cs of
        None \<Rightarrow> Inr (1, infos)
      | Some b \<Rightarrow>
          (let num_bins = get_num_bins (cb_total b) in
           rbind (floor_bin (get_bin (cb_to_us b) (cb_total b) num_bins)) (\<lambda>bin0.
           let bin = (if bin0 \<ge> num_bins then num_bins - 1 else bin0);
               info = \<lparr>bi_bin = bin, bi_num_bins = num_bins, bi_to_us = cb_to_us b, bi_total = cb_total b\<rparr>
           in rbind (get_ratio_by_bin ratio bin num_bins) (\<lambda>mult. Inr (mult, infos(node \<mapsto> info))))))"

definition move_bin :: "double \<Rightarrow> double \<Rightarrow> nat \<Rightarrow> nat \<Rightarrow> nat \<Rightarrow> nat" where
  "move_bin draw actual_bin target_bin bin num_bins =
     (if target_bin < bin
      then (if draw < fl (1 - fl (actual_bin - fl (of_nat target_bin))) then target_bin else target_bin + 1)
      else
        let bin1 = (if draw < fl (actual_bin - fl (of_nat target_bin)) then target_bin else target_bin - 1)
        in if bin1 \<ge> num_bins then num_bins - 1 else bin1)"

definition ratio_from_info :: "(double \<Rightarrow> double) \<Rightarrow> bin_info \<Rightarrow> double result" where
  "ratio_from_info ratio info = get_ratio_by_bin ratio (bi_bin info) (bi_num_bins info)"

definition balance_multiplier ::
  "(double \<Rightarrow> double) \<Rightarrow> double \<Rightarrow> node_id \<Rightarrow> channel_specs option \<Rightarrow> infomap \<Rightarrow> (double \<times> infomap) result" where
  "balance_multiplier ratio draw node cs infos =
     (case infos node of
        None \<Rightarrow> set_starting_info ratio node cs infos
      | Some info \<Rightarrow>
          (case cs of
             None \<Rightarrow> rbind (ratio_from_info ratio info) (\<lambda>m. Inr (m, infos))
           | Some b \<Rightarrow>
               if bi_to_us info = cb_to_us b \<and> bi_total info = cb_total b
               then rbind (ratio_from_info ratio info) (\<lambda>m. Inr (m, infos))
               else if bi_total info \<noteq> cb_total b then set_starting_info ratio node cs infos
               else if \<not> (bi_to_us info \<noteq> cb_to_us b) then Inl AssertFailed
               else
                 let actual_bin = get_bin (cb_to_us b) (cb_total b) (bi_num_bins info) in
                 rbind (floor_bin actual_bin) (\<lambda>target_bin.
                 if target_bin = bi_bin info then rbind (ratio_from_info ratio info) (\<lambda>m. Inr (m, infos))
                 else
                   let info' = info\<lparr>bi_to_us := cb_to_us b,
                                    bi_bin := move_bin draw (the actual_bin) target_bin (bi_bin info) (bi_num_bins info)\<rparr>
                   in rbind (ratio_from_info ratio info') (\<lambda>m. Inr (m, infos(node \<mapsto> info'))))))"

definition channel_destroyed :: "node_id \<Rightarrow> infomap \<Rightarrow> infomap" where
  "channel_destroyed peer infos = infos(peer := None)"

definition get_multiplier ::
  "(double \<Rightarrow> double) \<Rightarrow> double \<Rightarrow> node_id \<Rightarrow> json result \<Rightarrow> infomap \<Rightarrow> (double \<times> infomap) result" where
  "get_multiplier ratio draw node reply infos =
     rbind reply (\<lambda>res. balance_multiplier ratio draw node (get_channel_specs res) infos)"

subsection \<open>The bins stay in range\<close>

definition info_ok :: "bin_info \<Rightarrow> bool" where
  "info_ok i \<longleftrightarrow> min_bins \<le> bi_num_bins i \<and> bi_num_bins i \<le> max_bins \<and> bi_bin i < bi_num_bins i"

definition infos_ok :: "infomap \<Rightarrow> bool" where
  "infos_ok infos \<longleftrightarrow> (\<forall>node i. infos node = Some i \<longrightarrow> info_ok i)"

lemma num_bins_range: "min_bins \<le> get_num_bins s \<and> get_num_bins s \<le> max_bins"
  by (simp add: get_num_bins_def Let_def min_bins_def max_bins_def)

lemma num_bins_pos: "0 < get_num_bins s"
  using num_bins_range [of s] by (simp add: min_bins_def)

text \<open>A move ends between the bin it started from and the target.\<close>

lemma move_bin_between:
  assumes "bin < n" "target \<noteq> bin"
  shows "move_bin draw actual target bin n < n"
    "target < bin \<Longrightarrow> target \<le> move_bin draw actual target bin n \<and> move_bin draw actual target bin n \<le> bin"
    "bin < target \<Longrightarrow> bin \<le> move_bin draw actual target bin n \<and> move_bin draw actual target bin n \<le> target"
  using assms by (auto simp: move_bin_def Let_def)

lemma get_ratio_in_range: "bin < n \<Longrightarrow> get_ratio_by_bin ratio bin n = Inr (ratio (bin_percentage bin n))"
  by (simp add: get_ratio_by_bin_def)

lemma ratio_from_ok: "info_ok i \<Longrightarrow> ratio_from_info ratio i = Inr (ratio (bin_percentage (bi_bin i) (bi_num_bins i)))"
  by (simp add: ratio_from_info_def get_ratio_in_range info_ok_def)

lemma infos_ok_upd: "infos_ok infos \<Longrightarrow> info_ok i \<Longrightarrow> infos_ok (infos(node \<mapsto> i))"
  by (simp add: infos_ok_def)

definition multiplied where
  "multiplied ratio infos' node m \<longleftrightarrow> infos_ok infos'
     \<and> m = (case infos' node of None \<Rightarrow> 1 | Some i \<Rightarrow> ratio (bin_percentage (bi_bin i) (bi_num_bins i)))"

lemma starting_info_ok:
  assumes "infos_ok infos" "cs = None \<Longrightarrow> infos node = None" "\<And>b. cs = Some b \<Longrightarrow> cb_total b \<noteq> 0"
  shows "\<exists>m infos'. set_starting_info ratio node cs infos = Inr (m, infos') \<and> multiplied ratio infos' node m
    \<and> (\<forall>n. n \<noteq> node \<longrightarrow> infos' n = infos n)"
proof (cases cs)
  case None
  then show ?thesis using assms by (simp add: set_starting_info_def multiplied_def)
next
  case (Some b)
  let ?n = "get_num_bins (cb_total b)"
  obtain x where x: "floor_bin (get_bin (cb_to_us b) (cb_total b) ?n) = Inr x" using assms(3) Some by (simp add: get_bin_def floor_bin_def)
  have "(if ?n \<le> x then ?n - 1 else x) < ?n" using num_bins_pos [of "cb_total b"] by auto
  then show ?thesis
    using assms(1) num_bins_range [of "cb_total b"]
    by (auto simp: Some set_starting_info_def x Let_def get_ratio_in_range multiplied_def info_ok_def intro!: infos_ok_upd)
qed

lemma multiplied_same:
  "infos_ok infos \<Longrightarrow> infos node = Some i \<Longrightarrow> multiplied ratio infos node (ratio (bin_percentage (bi_bin i) (bi_num_bins i)))"
  by (simp add: multiplied_def)

text \<open>C16: the modifier by balance never runs into its assertions. From any table whose bins are in range, and
  whatever the node replies about a channel that has a size, asking for the multiplier gives the ratio of the bin the table then holds for the
  peer (or 1 where nothing is known of it), keeps every bin in range, and leaves the other
  peers alone. A balance that changed moves the peer's bin to the bin of the new balance or next to it, never past
  it and never away from it.\<close>

theorem balance_multiplier_safe:
  assumes ok: "infos_ok infos" and sized: "\<And>b. cs = Some b \<Longrightarrow> cb_total b \<noteq> 0"
  shows "\<exists>m infos'. balance_multiplier ratio draw node cs infos = Inr (m, infos') \<and> infos_ok infos'
    \<and> m = (case infos' node of None \<Rightarrow> 1 | Some i \<Rightarrow> ratio (bin_percentage (bi_bin i) (bi_num_bins i)))
    \<and> (\<forall>n. n \<noteq> node \<longrightarrow> infos' n = infos n)
    \<and> (\<forall>i b. infos node = Some i \<longrightarrow> cs = Some b \<longrightarrow> bi_total i = cb_total b \<longrightarrow> bi_to_us i \<noteq> cb_to_us b \<longrightarrow>
         (\<exists>i'. infos' node = Some i' \<and>
           (let t = nat \<lfloor>the (get_bin (cb_to_us b) (cb_total b) (bi_num_bins i))\<rfloor> in
            (t \<le> bi_bin i \<longrightarrow> t \<le> bi_bin i' \<and> bi_bin i' \<le> min (bi_bin i) (t + 1))
            \<and> (bi_bin i \<le> t \<longrightarrow> max (bi_bin i) (min (t - 1) (bi_num_bins i - 1)) \<le> bi_bin i' \<and> bi_bin i' \<le> t))))"
proof (cases "infos node")
  case None
  then show ?thesis using starting_info_ok [OF ok, of cs node ratio] sized by (auto simp: balance_multiplier_def multiplied_def)
next
  case (Some i)
  have i: "info_ok i" using ok Some by (simp add: infos_ok_def)
  note r = ratio_from_ok [OF i, of ratio]
  show ?thesis
  proof (cases cs)
    case None
    then show ?thesis using Some ok r by (simp add: balance_multiplier_def)
  next
    case cs: (Some b)
    let ?a = "the (get_bin (cb_to_us b) (cb_total b) (bi_num_bins i))"
    let ?t = "nat \<lfloor>?a\<rfloor>"
    have f: "floor_bin (get_bin (cb_to_us b) (cb_total b) (bi_num_bins i)) = Inr ?t"
      using sized [OF cs] by (simp add: get_bin_def floor_bin_def)
    consider (same) "bi_to_us i = cb_to_us b" "bi_total i = cb_total b" | (resized) "bi_total i \<noteq> cb_total b"
      | (stay) "bi_total i = cb_total b" "bi_to_us i \<noteq> cb_to_us b" "?t = bi_bin i"
      | (move) "bi_total i = cb_total b" "bi_to_us i \<noteq> cb_to_us b" "?t \<noteq> bi_bin i" by blast
    then show ?thesis
    proof cases
      case same
      then show ?thesis using Some ok r cs by (simp add: balance_multiplier_def)
    next
      case resized
      then show ?thesis
        using Some cs starting_info_ok [OF ok, of cs node ratio] sized by (auto simp: balance_multiplier_def multiplied_def)
    next
      case stay
      then show ?thesis using Some ok r cs i by (auto simp: balance_multiplier_def f Let_def info_ok_def)
    next
      case move
      let ?i' = "i\<lparr>bi_to_us := cb_to_us b, bi_bin := move_bin draw ?a ?t (bi_bin i) (bi_num_bins i)\<rparr>"
      have bn: "bi_bin i < bi_num_bins i" using i by (simp add: info_ok_def)
      note mv = move_bin_between [OF bn move(3), of draw ?a]
      have i': "info_ok ?i'" using i mv(1) by (simp add: info_ok_def)
      have m: "balance_multiplier ratio draw node cs infos
          = Inr (ratio (bin_percentage (bi_bin ?i') (bi_num_bins ?i')), infos(node \<mapsto> ?i'))"
        using Some cs move ratio_from_ok [OF i', of ratio] by (simp add: balance_multiplier_def f Let_def)
      have near: "(?t \<le> bi_bin i \<longrightarrow> ?t \<le> bi_bin ?i' \<and> bi_bin ?i' \<le> min (bi_bin i) (?t + 1))
        \<and> (bi_bin i \<le> ?t \<longrightarrow> max (bi_bin i) (min (?t - 1) (bi_num_bins i - 1)) \<le> bi_bin ?i' \<and> bi_bin ?i' \<le> ?t)"
        using bn move(3) by (auto simp: move_bin_def Let_def)
      show ?thesis unfolding m using infos_ok_upd [OF ok i'] near Some cs by (simp add: Let_def)
    qed
  qed
qed

theorem balance_multiplier_safe_witness:
  "\<exists>m infos'. balance_multiplier (\<lambda>x. x) 0 (NodeId None) (Some \<lparr>cb_to_us = Amount 900, cb_total = Amount 1000\<rparr>)
      [NodeId None \<mapsto> \<lparr>bi_bin = 0, bi_num_bins = 4, bi_to_us = Amount 0, bi_total = Amount 1000\<rparr>] = Inr (m, infos')
    \<and> infos_ok infos'"
proof -
  have "infos_ok [NodeId None \<mapsto> \<lparr>bi_bin = 0, bi_num_bins = 4, bi_to_us = Amount 0, bi_total = Amount 1000\<rparr>]"
    by (simp add: infos_ok_def info_ok_def min_bins_def max_bins_def)
  then show ?thesis
    using balance_multiplier_safe [where cs = "Some \<lparr>cb_to_us = Amount 900, cb_total = Amount 1000\<rparr>"]
    by (fastforce simp: zero_amount_def)
qed

end
