(* ===== verification/Fee_Manager.thy ===== *)
theory Fee_Manager
  imports Fee_Survey Fee_Balance
begin

text \<open>
  \<open>src/Boss/Mod/ChannelFeeManager.cpp\<close>, which turns the median fees of a peer into our own, and
  \<open>src/Boss/Mod/ChannelFeeSetter.cpp\<close>, which hands them to the node. The modifiers are what the modules
  that registered them answer: a number each, in the order they registered. Conversion of a double
  outside the target's range wraps here; C++ leaves it undefined.
\<close>

subsection \<open>The fee manager\<close>

datatype zero_base_fee = ZeroBaseFee_Require | ZeroBaseFee_Allow | ZeroBaseFee_Disallow

record fee_info =
  fi_median_base :: u32
  fi_median_proportional :: u32
  fi_multiplier :: double
  fi_final_base :: u32
  fi_final_proportional :: u32

record 'm fee_manager =
  fm_initted :: bool
  fm_soliciting :: bool
  fm_modifiers :: "'m list"
  fm_zero_base_fee :: zero_base_fee
  fm_infos :: "node_id \<rightharpoonup> fee_info"

record set_channel_fee =
  sc_node :: node_id
  sc_base :: u32
  sc_proportional :: u32

definition fee_manager_init :: "'m fee_manager" where
  "fee_manager_init =
     \<lparr>fm_initted = False, fm_soliciting = False, fm_modifiers = [], fm_zero_base_fee = ZeroBaseFee_Allow, fm_infos = Map.empty\<rparr>"

text \<open>The option: the flag says whether the value is rejected.\<close>

definition on_zerobasefee :: "string \<Rightarrow> json \<Rightarrow> 'm fee_manager \<Rightarrow> bool \<times> 'm fee_manager" where
  "on_zerobasefee name value s =
     (if name \<noteq> ''clboss-zerobasefee'' then (False, s)
      else
        let svalue = (case value of JStr v \<Rightarrow> v | _ \<Rightarrow> []) in
        if svalue = ''require'' \<or> svalue = ''required'' then (False, s\<lparr>fm_zero_base_fee := ZeroBaseFee_Require\<rparr>)
        else if svalue = ''allow'' \<or> svalue = ''allowed'' then (False, s\<lparr>fm_zero_base_fee := ZeroBaseFee_Allow\<rparr>)
        else if svalue = ''disallow'' \<or> svalue = ''disallowed'' then (False, s\<lparr>fm_zero_base_fee := ZeroBaseFee_Disallow\<rparr>)
        else (True, s))"

text \<open>Soliciting the modifiers: \<open>None\<close> where the caller has to wait for another that is soliciting; the flag says
  whether the message is raised.\<close>

definition solicit :: "'m fee_manager \<Rightarrow> (bool \<times> 'm fee_manager) option" where
  "solicit s =
     (if fm_soliciting s \<and> \<not> fm_initted s then None
      else if fm_initted s then Some (False, s)
      else Some (True, s\<lparr>fm_soliciting := True\<rparr>))"

definition provide_modifier :: "'m \<Rightarrow> 'm fee_manager \<Rightarrow> 'm fee_manager" where
  "provide_modifier m s = (if fm_soliciting s then s\<lparr>fm_modifiers := fm_modifiers s @ [m]\<rparr> else s)"

definition solicited :: "'m fee_manager \<Rightarrow> 'm fee_manager" where
  "solicited s = s\<lparr>fm_soliciting := False, fm_initted := True\<rparr>"

definition u32_round :: "double \<Rightarrow> u32" where
  "u32_round x = of_int (round_double x)"

definition scale :: "double \<Rightarrow> double list \<Rightarrow> double" where
  "scale x ms = fold (\<lambda>m b. fl (b * m)) ms x"

definition final_base :: "zero_base_fee \<Rightarrow> u32 \<Rightarrow> u32" where
  "final_base zero_base_fee base =
     (let base1 = (if zero_base_fee = ZeroBaseFee_Disallow \<and> base = 0 then 1 else base)
      in if zero_base_fee = ZeroBaseFee_Require then 0 else base1)"

definition final_ppm :: "u32 \<Rightarrow> u32" where
  "final_ppm ppm = (if ppm = 0 then 1 else ppm)"

definition perform :: "node_id \<Rightarrow> u32 \<Rightarrow> u32 \<Rightarrow> double list \<Rightarrow> 'm fee_manager \<Rightarrow> set_channel_fee \<times> 'm fee_manager" where
  "perform node base ppm multipliers s =
     (let b = scale (fl (of_nat (unat base))) multipliers;
          p = scale (fl (of_nat (unat ppm))) multipliers;
          ms = scale 1 multipliers;
          base1 = final_base (fm_zero_base_fee s) (u32_round b);
          ppm1 = final_ppm (u32_round p);
          inf = \<lparr>fi_median_base = base, fi_median_proportional = ppm, fi_multiplier = ms,
                 fi_final_base = base1, fi_final_proportional = ppm1\<rparr>
      in (\<lparr>sc_node = node, sc_base = base1, sc_proportional = ppm1\<rparr>, s\<lparr>fm_infos := (fm_infos s)(node \<mapsto> inf)\<rparr>))"

subsection \<open>The fee setter\<close>

record fee_setter =
  fs_rpc :: bool
  fs_have_setchannel :: bool
  fs_pending :: "set_channel_fee list"
  fs_unmanaged :: "node_id set"

record fee_command =
  fc_command :: string
  fc_parms :: "(string \<times> json) list"

definition fee_setter_init :: fee_setter where
  "fee_setter_init = \<lparr>fs_rpc = False, fs_have_setchannel = False, fs_pending = [], fs_unmanaged = {}\<rparr>"

definition setter_available :: "string list \<Rightarrow> fee_setter \<Rightarrow> fee_setter" where
  "setter_available commands s = s\<lparr>fs_have_setchannel := (''setchannel'' \<in> set commands)\<rparr>"

definition set_fee :: "fee_setter \<Rightarrow> set_channel_fee \<Rightarrow> fee_command list" where
  "set_fee s m =
     (if sc_node m \<in> fs_unmanaged s then []
      else [\<lparr>fc_command = (if fs_have_setchannel s then ''setchannel'' else ''setchannelfee''),
             fc_parms = [(''id'', JStr (string_of_node (sc_node m))),
                         (if fs_have_setchannel s then ''feebase'' else ''base'', JNum (of_nat (unat (sc_base m)))),
                         (if fs_have_setchannel s then ''feeppm'' else ''ppm'', JNum (of_nat (unat (sc_proportional m))))]\<rparr>])"

text \<open>The monitor message follows only a command that succeeded; an RPC error is ignored.\<close>

definition set_fee_done :: "bool \<Rightarrow> set_channel_fee \<Rightarrow> set_channel_fee list" where
  "set_fee_done ok m = (if ok then [m] else [])"

definition setter_init :: "fee_setter \<Rightarrow> fee_command list \<times> fee_setter" where
  "setter_init s = (let s1 = s\<lparr>fs_rpc := True, fs_pending := []\<rparr> in (concat (map (set_fee s1) (fs_pending s)), s1))"

definition setter_on_fee :: "set_channel_fee \<Rightarrow> fee_setter \<Rightarrow> fee_command list \<times> fee_setter" where
  "setter_on_fee m s =
     (if \<not> fs_rpc s then ([], s\<lparr>fs_pending := fs_pending s @ [m]\<rparr>) else (set_fee s m, s))"

text \<open>\<open>erase\<close> of an iterator that is the end of the set is undefined.\<close>

definition setter_unmanage :: "node_id \<Rightarrow> bool \<Rightarrow> fee_setter \<Rightarrow> fee_setter result" where
  "setter_unmanage n flag s =
     (if flag then Inr (s\<lparr>fs_unmanaged := insert n (fs_unmanaged s)\<rparr>)
      else if n \<in> fs_unmanaged s then Inr (s\<lparr>fs_unmanaged := fs_unmanaged s - {n}\<rparr>)
      else Inl UndefinedBehaviour)"

subsection \<open>Final fees\<close>

lemma scale_nonneg: "0 \<le> x \<Longrightarrow> list_all (\<lambda>m. 0 \<le> m) ms \<Longrightarrow> 0 \<le> scale x ms"
  unfolding scale_def by (induction ms arbitrary: x) (simp_all add: fl_nonneg)

lemma round_double_nonneg: "0 \<le> x \<Longrightarrow> 0 \<le> round_double x"
  by (simp add: round_double_def)

lemma unat_u32_round: "0 \<le> x \<Longrightarrow> x < 2 ^ 32 - 1 / 2 \<Longrightarrow> int (unat (u32_round x)) = round_double x"
proof -
  assume x: "0 \<le> x" "x < 2 ^ 32 - 1 / 2"
  then have "round_double x < 2 ^ 32" by (simp add: round_double_def floor_less_iff)
  then show ?thesis using round_double_nonneg [OF x(1)] by (simp add: u32_round_def unsigned_of_int take_bit_int_eq_self)
qed

lemma fl_u32: "fl (of_nat (unat (w :: u32))) = of_nat (unat w)"
  by (rule fl_nat) (rule order.strict_trans [OF unsigned_less [of w]], simp)

text \<open>The product of a median and of all multipliers, up to the rounding of each multiplication.\<close>

definition scaled_by :: "nat \<Rightarrow> double list \<Rightarrow> double \<Rightarrow> bool" where
  "scaled_by n ms y =
     (of_nat n * prod_list ms * (1 - 1 / 2 ^ 53) ^ length ms \<le> y
      \<and> y \<le> of_nat n * prod_list ms * (1 + 1 / 2 ^ 53) ^ length ms)"

lemma scale_bounds:
  assumes "0 \<le> x" "list_all (\<lambda>m. 0 \<le> m) ms"
  shows "x * prod_list ms * (1 - 1 / 2 ^ 53) ^ length ms \<le> scale x ms
    \<and> scale x ms \<le> x * prod_list ms * (1 + 1 / 2 ^ 53) ^ length ms"
  using assms
proof (induction ms arbitrary: x)
  case (Cons m ms)
  define u d :: rat where "u = 1 + 1 / 2 ^ 53" and "d = 1 - 1 / 2 ^ 53"
  have ud: "0 \<le> u" "0 \<le> d" by (simp_all add: u_def d_def)
  let ?x = "fl (x * m)"
  have m: "0 \<le> x * m" "list_all (\<lambda>m. 0 \<le> m) ms" using Cons.prems by simp_all
  have p: "0 \<le> prod_list ms" using m(2) by (induction ms) simp_all
  have f: "x * m * d \<le> ?x" "?x \<le> x * m * u" "0 \<le> ?x"
    using fl_lower [OF m(1)] fl_upper [OF m(1)] fl_nonneg [OF m(1)] by (simp_all only: u_def d_def)
  note ih = Cons.IH [OF f(3) m(2), folded u_def d_def]
  have "x * prod_list (m # ms) * d ^ length (m # ms) = (x * m * d) * prod_list ms * d ^ length ms"
    by (simp add: mult.assoc mult.commute mult.left_commute)
  also have "\<dots> \<le> ?x * prod_list ms * d ^ length ms" using f(1) p ud by (intro mult_right_mono) simp_all
  finally have lo: "x * prod_list (m # ms) * d ^ length (m # ms) \<le> scale x (m # ms)"
    using ih by (simp add: scale_def)
  have "?x * prod_list ms * u ^ length ms \<le> (x * m * u) * prod_list ms * u ^ length ms"
    using f(2) p ud by (intro mult_right_mono) simp_all
  also have "\<dots> = x * prod_list (m # ms) * u ^ length (m # ms)" by (simp add: mult.assoc mult.commute mult.left_commute)
  finally have "scale x (m # ms) \<le> x * prod_list (m # ms) * u ^ length (m # ms)"
    using ih by (simp add: scale_def)
  with lo show ?case by (simp only: u_def d_def)
qed (simp add: scale_def)

lemma unat_ge_1: "(x :: u32) \<noteq> 0 \<Longrightarrow> max 1 (unat x) = unat x"
  using unat_gt_0 [of x] by simp

lemma unat_final_ppm: "unat (final_ppm x) = max 1 (unat x)"
  using unat_ge_1 [of x] by (cases "x = 0") (simp_all add: final_ppm_def)

lemma unat_final_base:
  "unat (final_base z x) = (case z of ZeroBaseFee_Require \<Rightarrow> 0 | ZeroBaseFee_Allow \<Rightarrow> unat x | ZeroBaseFee_Disallow \<Rightarrow> max 1 (unat x))"
  using unat_ge_1 [of x] by (cases z; cases "x = 0") (simp_all add: final_base_def Let_def)

text \<open>C17: the fees the manager sets, for multipliers that are not negative and products that fit in 32 bits. Base and
  proportional fee are the medians times every multiplier, up to the rounding of a double at each multiplication, rounded
  to the nearest integer; then a proportional fee of zero becomes one, and the base fee is zero where zero is required,
  at least one where zero is disallowed, and kept otherwise. What is sent is what is remembered for the peer, with the
  medians, and nothing else is changed.\<close>

theorem fee_manager_final:
  fixes s :: "'m fee_manager"
  assumes ms: "list_all (\<lambda>m. 0 \<le> m) ms"
    and fits: "of_nat (unat base) * prod_list ms * (1 + 1 / 2 ^ 53) ^ length ms < 2 ^ 32 - 1 / 2"
      "of_nat (unat ppm) * prod_list ms * (1 + 1 / 2 ^ 53) ^ length ms < 2 ^ 32 - 1 / 2"
  shows "\<exists>b p m inf. scaled_by (unat base) ms b \<and> scaled_by (unat ppm) ms p
    \<and> perform node base ppm ms s = (m, s\<lparr>fm_infos := (fm_infos s)(node \<mapsto> inf)\<rparr>)
    \<and> sc_node m = node \<and> unat (sc_proportional m) = max 1 (nat \<lfloor>p + 1 / 2\<rfloor>)
    \<and> unat (sc_base m) = (case fm_zero_base_fee s of
         ZeroBaseFee_Require \<Rightarrow> 0 | ZeroBaseFee_Allow \<Rightarrow> nat \<lfloor>b + 1 / 2\<rfloor> | ZeroBaseFee_Disallow \<Rightarrow> max 1 (nat \<lfloor>b + 1 / 2\<rfloor>))
    \<and> fi_median_base inf = base \<and> fi_median_proportional inf = ppm
    \<and> fi_final_base inf = sc_base m \<and> fi_final_proportional inf = sc_proportional m"
proof -
  let ?y = "\<lambda>w :: u32. scale (of_nat (unat w)) ms"
  have near: "scaled_by (unat w) ms (?y w)" for w :: u32
    using scale_bounds [OF of_nat_0_le_iff ms] by (simp only: scaled_by_def)
  have r: "unat (u32_round (?y w)) = nat \<lfloor>?y w + 1 / 2\<rfloor>"
    if "of_nat (unat w) * prod_list ms * (1 + 1 / 2 ^ 53) ^ length ms < 2 ^ 32 - 1 / 2" for w :: u32
  proof -
    have y: "0 \<le> ?y w" by (rule scale_nonneg [OF of_nat_0_le_iff ms])
    have "?y w < 2 ^ 32 - 1 / 2" using near [of w] that unfolding scaled_by_def by (rule_tac le_less_trans) (rule conjunct2)
    from unat_u32_round [OF y this] have "int (unat (u32_round (?y w))) = \<lfloor>?y w + 1 / 2\<rfloor>"
      using y by (simp only: round_double_def) simp
    then show ?thesis by (metis nat_int)
  qed
  define inf where "inf = \<lparr>fi_median_base = base, fi_median_proportional = ppm, fi_multiplier = scale 1 ms,
     fi_final_base = final_base (fm_zero_base_fee s) (u32_round (?y base)), fi_final_proportional = final_ppm (u32_round (?y ppm))\<rparr>"
  define m where "m = \<lparr>sc_node = node, sc_base = fi_final_base inf, sc_proportional = fi_final_proportional inf\<rparr>"
  have m: "perform node base ppm ms s = (m, s\<lparr>fm_infos := (fm_infos s)(node \<mapsto> inf)\<rparr>)"
    "sc_node m = node" "sc_proportional m = final_ppm (u32_round (?y ppm))"
    "sc_base m = final_base (fm_zero_base_fee s) (u32_round (?y base))"
    "fi_median_base inf = base" "fi_median_proportional inf = ppm"
    "fi_final_base inf = sc_base m" "fi_final_proportional inf = sc_proportional m"
    by (simp_all only: perform_def Let_def fl_u32) (simp_all add: m_def inf_def)
  show ?thesis
    by (intro exI [of _ "?y base"] exI [of _ "?y ppm"] exI [of _ m] exI [of _ inf] conjI near m)
       (simp_all only: m(3,4) unat_final_ppm unat_final_base r [OF fits(1)] r [OF fits(2)])
qed

theorem fee_manager_final_witness:
  "\<exists>b m s1. scaled_by 1000 [3] b \<and> perform (NodeId None) 1000 0 [3] (fee_manager_init :: unit fee_manager) = (m, s1)
     \<and> unat (sc_base m) = nat \<lfloor>b + 1 / 2\<rfloor> \<and> 2999 < b \<and> b < 3001"
proof -
  have z: "fm_zero_base_fee (fee_manager_init :: unit fee_manager) = ZeroBaseFee_Allow" by (simp add: fee_manager_init_def)
  have f: "of_nat (unat (1000 :: u32)) * prod_list [3] * (1 + 1 / 2 ^ 53) ^ length [3 :: rat] < (2 ^ 32 - 1 / 2 :: rat)"
    "of_nat (unat (0 :: u32)) * prod_list [3] * (1 + 1 / 2 ^ 53) ^ length [3 :: rat] < (2 ^ 32 - 1 / 2 :: rat)"
    "list_all (\<lambda>m. 0 \<le> m) [3 :: rat]" by simp_all
  note t = fee_manager_final [OF f(3,1,2), of "NodeId None" "fee_manager_init :: unit fee_manager"]
  from t obtain b m s1 where b: "scaled_by 1000 [3] b" "perform (NodeId None) 1000 0 [3] (fee_manager_init :: unit fee_manager) = (m, s1)"
    "unat (sc_base m) = nat \<lfloor>b + 1 / 2\<rfloor>" by (auto simp: z)
  then show ?thesis by (intro exI [of _ b] exI [of _ m] exI [of _ s1]) (simp add: scaled_by_def)
qed

subsection \<open>The setter's messages\<close>

datatype setter_event =
    SetterAvailable "string list"
  | SetterInit
  | SetterFee set_channel_fee

fun setter_step :: "setter_event \<Rightarrow> fee_setter \<Rightarrow> fee_command list \<times> fee_setter" where
  "setter_step (SetterAvailable cs) s = ([], setter_available cs s)"
| "setter_step SetterInit s = setter_init s"
| "setter_step (SetterFee m) s = setter_on_fee m s"

fun setter_run :: "setter_event list \<Rightarrow> fee_setter \<Rightarrow> fee_command list \<times> fee_setter" where
  "setter_run [] s = ([], s)"
| "setter_run (e # es) s = (case setter_step e s of (cs, s1) \<Rightarrow> (case setter_run es s1 of (cs', s2) \<Rightarrow> (cs @ cs', s2)))"

fun fee_of :: "setter_event \<Rightarrow> set_channel_fee option" where
  "fee_of (SetterFee m) = Some m"
| "fee_of _ = None"

definition sent :: "fee_command \<Rightarrow> json list" where
  "sent c = map snd (fc_parms c)"

definition fee_args :: "set_channel_fee \<Rightarrow> json list" where
  "fee_args m = [JStr (string_of_node (sc_node m)), JNum (of_nat (unat (sc_base m))), JNum (of_nat (unat (sc_proportional m)))]"

lemma set_fee_sent: "map sent (set_fee s m) = (if sc_node m \<in> fs_unmanaged s then [] else [fee_args m])"
  by (simp add: set_fee_def sent_def fee_args_def)

lemma setter_run_ready:
  "fs_rpc s \<Longrightarrow> fs_pending s = [] \<Longrightarrow>
   map sent (fst (setter_run es s)) = map fee_args (filter (\<lambda>m. sc_node m \<notin> fs_unmanaged s) (List.map_filter fee_of es))"
proof (induction es arbitrary: s)
  case (Cons e es)
  show ?case
  proof (cases e)
    case (SetterAvailable cs)
    then show ?thesis using Cons.IH [of "setter_available cs s"] Cons.prems
      by (simp add: setter_available_def map_filter_simps split: prod.splits)
  next
    case SetterInit
    have "setter_init s = ([], s)" using Cons.prems by (simp add: setter_init_def Let_def)
    then show ?thesis using Cons SetterInit by (simp add: map_filter_simps split: prod.splits)
  next
    case (SetterFee m)
    then show ?thesis using Cons.IH [of s] Cons.prems
      by (cases "setter_run es s") (simp add: setter_on_fee_def map_filter_simps set_fee_sent)
  qed
qed (simp add: map_filter_simps)

lemma setter_run_waiting:
  "\<not> fs_rpc s \<Longrightarrow> SetterInit \<notin> set es \<Longrightarrow>
   fst (setter_run es s) = [] \<and> \<not> fs_rpc (snd (setter_run es s)) \<and> fs_unmanaged (snd (setter_run es s)) = fs_unmanaged s
   \<and> fs_pending (snd (setter_run es s)) = fs_pending s @ List.map_filter fee_of es"
proof (induction es arbitrary: s)
  case (Cons e es)
  obtain s1 where s1: "setter_step e s = ([], s1)" "\<not> fs_rpc s1" "fs_unmanaged s1 = fs_unmanaged s"
    "fs_pending s1 = fs_pending s @ List.map_filter fee_of [e]"
    using Cons.prems by (cases e) (simp_all add: setter_available_def setter_on_fee_def map_filter_simps)
  show ?case using Cons.IH [OF s1(2)] Cons.prems(2) s1
    by (cases "setter_run es s1") (simp add: map_filter_simps split: option.splits)
qed (simp add: map_filter_simps)

lemma setter_run_append:
  "setter_run (es @ es') s = (case setter_run es s of (cs, s1) \<Rightarrow> (case setter_run es' s1 of (cs', s2) \<Rightarrow> (cs @ cs', s2)))"
  by (induction es arbitrary: s) (auto split: prod.splits)

text \<open>No fee is lost or sent early. Whatever comes first, the fees announced before the node can be reached are kept
  and sent in order when it can, later ones are sent as they come; together exactly the fees of managed
  peers are sent, in the order they were announced, with the base and the proportional fee as announced.\<close>

theorem setter_sends_all:
  assumes "SetterInit \<notin> set es" "fs_rpc s = False" "fs_pending s = []"
  shows "map sent (fst (setter_run (es @ SetterInit # es') s))
      = map fee_args (filter (\<lambda>m. sc_node m \<notin> fs_unmanaged s) (List.map_filter fee_of (es @ es')))
    \<and> fst (setter_run es s) = []"
proof -
  obtain s1 where s1: "setter_run es s = ([], s1)" "\<not> fs_rpc s1" "fs_unmanaged s1 = fs_unmanaged s" "fs_pending s1 = List.map_filter fee_of es"
    using setter_run_waiting [of s es] assms by (cases "setter_run es s") auto
  let ?s2 = "s1\<lparr>fs_rpc := True, fs_pending := []\<rparr>"
  have i: "setter_step SetterInit s1 = (concat (map (set_fee ?s2) (fs_pending s1)), ?s2)" by (simp add: setter_init_def Let_def)
  have "map sent (concat (map (set_fee ?s2) ms)) = map fee_args (filter (\<lambda>m. sc_node m \<notin> fs_unmanaged s) ms)" for ms
    by (induction ms) (simp_all add: set_fee_sent s1(3))
  moreover have "List.map_filter fee_of (es @ es') = List.map_filter fee_of es @ List.map_filter fee_of es'"
    by (simp add: List.map_filter_def)
  ultimately show ?thesis
    using setter_run_ready [of ?s2 es'] s1
    by (cases "setter_run es' ?s2") (simp add: setter_run_append i del: setter_step.simps)
qed

theorem setter_sends_all_witness:
  "map sent (fst (setter_run ([SetterFee \<lparr>sc_node = NodeId None, sc_base = 1, sc_proportional = 2\<rparr>]
      @ SetterInit # [SetterAvailable [''setchannel'']]) fee_setter_init))
    = map fee_args (filter (\<lambda>m. sc_node m \<notin> fs_unmanaged fee_setter_init)
        (List.map_filter fee_of ([SetterFee \<lparr>sc_node = NodeId None, sc_base = 1, sc_proportional = 2\<rparr>] @ [SetterAvailable [''setchannel'']])))
   \<and> fst (setter_run [SetterFee \<lparr>sc_node = NodeId None, sc_base = 1, sc_proportional = 2\<rparr>] fee_setter_init) = []"
  by (rule setter_sends_all) (simp_all add: fee_setter_init_def)

text \<open>Putting a peer back under management that was not taken out of it is undefined.\<close>

lemma setter_manage_undefined: "setter_unmanage n False fee_setter_init = Inl UndefinedBehaviour"
  by (simp add: setter_unmanage_def fee_setter_init_def)

end
