(* ===== verification/Fee_Size.thy ===== *)
theory Fee_Size
  imports Amount_Json Ln_Ids Cxx_Map
begin

text \<open>
  \<open>src/Boss/Mod/FeeModderBySize.cpp\<close>: the fee multiplier that compares our capacity with that of the other
  peers of a peer. \<open>sqrt\<close> and \<open>log\<close> are parameters. A multiplier of \<open>None\<close> is not a number. The node's replies are parameters;
  the semaphore around the table of capacities makes its operations atomic, as they are here.
\<close>

subsection \<open>The multiplier\<close>

definition calculate_multiplier :: "(double \<Rightarrow> double) \<Rightarrow> (double \<Rightarrow> double) \<Rightarrow> nat \<Rightarrow> nat \<Rightarrow> nat \<Rightarrow> double option result" where
  "calculate_multiplier sqrt_d log_d worse better tot =
     (if \<not> worse + better \<le> tot then Inl AssertFailed
      else if tot = 0 then Inr (Some 1)
      else if worse + better = 0 then Inr None
      else
        let pos = fl (fl (of_nat worse) / fl (of_nat (worse + better))) in
        let x = (if worse < better
                 then
                   let pos1 = fl (pos * 2); base = sqrt_d (1 / 2)
                   in fl (fl (base - fl (pos1 * base)) + fl (pos1 * 1))
                 else
                   let lim0 = fl (16 + log_d (fl (1 / fl (of_nat tot))));
                       lim = (if lim0 < 2 then 2 else lim0);
                       pos1 = fl (fl (pos * 2) - 1)
                   in fl (fl (1 - fl (pos1 * 1)) + fl (pos1 * sqrt_d lim)))
        in Inr (Some (fl (x * x))))"

subsection \<open>The table of capacities\<close>

type_synonym capacities = "(node_id \<times> amount) list"

definition capacity_of :: "capacities \<Rightarrow> node_id \<Rightarrow> amount" where
  "capacity_of m n = (case map_of m n of None \<Rightarrow> 0 | Some a \<Rightarrow> a)"

definition channel_capacity :: "json \<Rightarrow> (node_id \<times> amount) result" where
  "channel_capacity channel =
     rbind (rbind (rbind (json_get channel ''source'') json_string) node_of_string) (\<lambda>source.
     rbind (rbind (json_get channel ''amount_msat'') amount_object) (\<lambda>a. Inr (source, a)))"

text \<open>Loading stops at the first channel that cannot be read, with an exception; what was
  added until then stays in the table.\<close>

fun load_capacities_loop :: "json list \<Rightarrow> capacities \<Rightarrow> exn option \<times> capacities" where
  "load_capacities_loop [] m = (None, m)"
| "load_capacities_loop (c # cs) m =
     (case channel_capacity c of
        Inl e \<Rightarrow> (Some e, m)
      | Inr (source, a) \<Rightarrow> load_capacities_loop cs (map_put source (capacity_of m source + a) m))"

definition load_capacities :: "json result \<Rightarrow> exn option \<times> capacities" where
  "load_capacities reply =
     (case rbind reply (\<lambda>res. rbind (json_find res ''channels'') (\<lambda>cs.
             rbind (case cs of None \<Rightarrow> Inl JsonTypeError | Some j \<Rightarrow> json_size j) (\<lambda>_. json_elems cs))) of
        Inl e \<Rightarrow> (Some e, [])
      | Inr cs \<Rightarrow> load_capacities_loop cs [])"

text \<open>The table is \<open>None\<close> until it is asked for; it is created before the reply is read.\<close>

definition get_capacity :: "json result \<Rightarrow> node_id \<Rightarrow> capacities option \<Rightarrow> amount result \<times> capacities option" where
  "get_capacity reply node table =
     (case table of
        Some m \<Rightarrow> (Inr (capacity_of m node), table)
      | None \<Rightarrow>
          (case load_capacities reply of
             (Some e, m) \<Rightarrow> (Inl e, Some m)
           | (None, m) \<Rightarrow> (Inr (capacity_of m node), Some m)))"

subsection \<open>The competitors and the cache\<close>

fun competitors_of :: "node_id \<Rightarrow> json list \<Rightarrow> node_id set \<Rightarrow> node_id set" where
  "competitors_of self_id [] rv = rv"
| "competitors_of self_id (c # cs) rv =
     (case rbind (rbind (json_get c ''destination'') json_string) node_of_string of
        Inl _ \<Rightarrow> rv
      | Inr n \<Rightarrow> competitors_of self_id cs (if n = self_id then rv else insert n rv))"

text \<open>Any exception in the reply is logged, and what was found until then is used.\<close>

definition get_competitors :: "node_id \<Rightarrow> json result \<Rightarrow> node_id list result" where
  "get_competitors self_id reply =
     rbind reply (\<lambda>res.
       Inr (sorted_list_of_set
         (case rbind (json_find res ''channels'') json_elems of Inl _ \<Rightarrow> {} | Inr cs \<Rightarrow> competitors_of self_id cs {})))"

definition count_sizes :: "amount \<Rightarrow> amount list \<Rightarrow> nat \<times> nat \<times> nat" where
  "count_sizes my_capacity caps =
     fold (\<lambda>c (worse, better, tot).
       if c < my_capacity then (worse + 1, better, tot + 1)
       else if my_capacity < c then (worse, better + 1, tot + 1)
       else (worse, better, tot + 1)) caps (0, 0, 0)"

record size_modder =
  sz_table :: "capacities option"
  sz_multipliers :: "node_id \<rightharpoonup> double option"

fun capacities_of :: "json result \<Rightarrow> node_id list \<Rightarrow> capacities option \<Rightarrow> amount list result \<times> capacities option" where
  "capacities_of reply [] table = (Inr [], table)"
| "capacities_of reply (n # ns) table =
     (case get_capacity reply n table of
        (Inl e, t) \<Rightarrow> (Inl e, snd (capacities_of reply ns t))
      | (Inr a, t) \<Rightarrow> (case capacities_of reply ns t of (r, t') \<Rightarrow> (rbind r (\<lambda>as. Inr (a # as)), t')))"

definition compute_multiplier ::
  "(double \<Rightarrow> double) \<Rightarrow> (double \<Rightarrow> double) \<Rightarrow> node_id \<Rightarrow> json result \<Rightarrow> json result \<Rightarrow> size_modder \<Rightarrow> double option result \<times> size_modder" where
  "compute_multiplier sqrt_d log_d self_id network peer_reply s =
     (case get_competitors self_id peer_reply of
        Inl e \<Rightarrow> (Inl e, s)
      | Inr competitors \<Rightarrow>
          (case capacities_of network competitors (sz_table s) of
             (Inl e, t) \<Rightarrow> (Inl e, s\<lparr>sz_table := t\<rparr>)
           | (Inr caps, t) \<Rightarrow>
               (case get_capacity network self_id t of
                  (Inl e, t') \<Rightarrow> (Inl e, s\<lparr>sz_table := t'\<rparr>)
                | (Inr my_capacity, t') \<Rightarrow>
                    (case count_sizes my_capacity caps of (worse, better, tot) \<Rightarrow>
                       (calculate_multiplier sqrt_d log_d worse better tot, s\<lparr>sz_table := t'\<rparr>)))))"

definition get_cached_multiplier ::
  "(double \<Rightarrow> double) \<Rightarrow> (double \<Rightarrow> double) \<Rightarrow> node_id \<Rightarrow> json result \<Rightarrow> json result \<Rightarrow> node_id \<Rightarrow> size_modder \<Rightarrow> double option result \<times> size_modder" where
  "get_cached_multiplier sqrt_d log_d self_id network peer_reply peer s =
     (case sz_multipliers s peer of
        Some m \<Rightarrow> (Inr m, s)
      | None \<Rightarrow>
          (case compute_multiplier sqrt_d log_d self_id network peer_reply s of
             (Inl e, s') \<Rightarrow> (Inl e, s')
           | (Inr m, s') \<Rightarrow> (Inr m, s'\<lparr>sz_multipliers := (sz_multipliers s')(peer \<mapsto> m)\<rparr>)))"

definition size_reset :: "size_modder \<Rightarrow> size_modder" where
  "size_reset s = s\<lparr>sz_multipliers := Map.empty, sz_table := None\<rparr>"

subsection \<open>Counting\<close>

lemma count_sizes_eq:
  "count_sizes mine caps = (length (filter (\<lambda>c. c < mine) caps), length (filter (\<lambda>c. mine < c) caps), length caps)"
proof -
  have "fold (\<lambda>c (worse, better, tot).
       if c < mine then (worse + 1, better, tot + 1) else if mine < c then (worse, better + 1, tot + 1) else (worse, better, tot + 1)) caps (w, b, t)
     = (w + length (filter (\<lambda>c. c < mine) caps), b + length (filter (\<lambda>c. mine < c) caps), t + length caps)" for w b t
    by (induction caps arbitrary: w b t) auto
  then show ?thesis by (simp add: count_sizes_def)
qed

lemma count_le: "length (filter (\<lambda>c. c < mine) caps) + length (filter (\<lambda>c. mine < c) (caps :: amount list)) \<le> length caps"
  by (induction caps) auto

lemma fl_half_1: "fl (1 / 2) = 1 / 2" "fl 1 = 1" "fl (-1) = -1"
  using fl_half [of 1] fl_int [of 1] fl_int [of "-1"] by simp_all

text \<open>Comparing sizes. The assertion on the counts never fails. The multiplier is exactly one without competitors and with as many
  larger as smaller ones; the square of the root of one half when all that differ are larger. It is not a number when there are
  competitors and every one of them has exactly our capacity.\<close>

theorem size_multiplier_cases:
  assumes small: "length caps < 2 ^ 53"
  shows "case count_sizes mine caps of (w, b, t) \<Rightarrow>
      w = length (filter (\<lambda>c. c < mine) caps) \<and> b = length (filter (\<lambda>c. mine < c) caps) \<and> t = length caps
      \<and> (\<exists>r. calculate_multiplier sqrt_d log_d w b t = Inr r \<and> (r = None \<longleftrightarrow> caps \<noteq> [] \<and> (\<forall>c \<in> set caps. c = mine))
        \<and> (caps = [] \<or> 0 < w \<and> w = b \<longrightarrow> r = Some 1)
        \<and> (w = 0 \<and> 0 < b \<longrightarrow> r = (let x = fl (fl (sqrt_d (1 / 2))) in Some (fl (x * x)))))"
proof -
  define w b where "w = length (filter (\<lambda>c. c < mine) caps)" and "b = length (filter (\<lambda>c. mine < c) caps)"
  have le: "w + b \<le> length caps" unfolding w_def b_def by (rule count_le)
  have none: "w + b = 0 \<longleftrightarrow> (\<forall>c \<in> set caps. c = mine)"
    unfolding w_def b_def by (auto simp: filter_empty_conv not_less intro: order_antisym)
  have wb: "fl (of_nat w) = of_nat w" "fl (of_nat (w + b)) = of_nat (w + b)"
    using le small by (simp_all add: fl_nat del: of_nat_add)
  have pos: "fl (fl (of_nat w) / fl (of_nat (w + b))) = 1 / 2" if "0 < w" "w = b"
  proof -
    have "of_nat w / of_nat (w + b) = (1 / 2 :: rat)" using that by simp
    then show ?thesis unfolding wb by (simp only: fl_half_1)
  qed
  have e: "caps = [] \<Longrightarrow> w = 0 \<and> b = 0" by (simp add: w_def b_def)
  have equal: "calculate_multiplier sqrt_d log_d w b (length caps) = Inr (Some 1)" if "0 < w" "w = b"
    using that le pos [OF that] by (simp add: calculate_multiplier_def Let_def fl_half_1 del: of_nat_add)
  have larger: "calculate_multiplier sqrt_d log_d w b (length caps) = Inr (let x = fl (fl (sqrt_d (1 / 2))) in Some (fl (x * x)))"
    if "w = 0" "0 < b" using that le e by (auto simp: calculate_multiplier_def Let_def)
  have "calculate_multiplier sqrt_d log_d w b (length caps) = Inr None" if "caps \<noteq> []" "w + b = 0"
    using that by (simp add: calculate_multiplier_def)
  moreover have "\<exists>x. calculate_multiplier sqrt_d log_d w b (length caps) = Inr (Some x)" if "caps = [] \<or> w + b \<noteq> 0"
    using that le e by (auto simp: calculate_multiplier_def Let_def)
  moreover have "calculate_multiplier sqrt_d log_d w b (length caps) = Inr (Some 1)" if "caps = []"
    using e that by (simp add: calculate_multiplier_def)
  ultimately have "\<exists>r. calculate_multiplier sqrt_d log_d w b (length caps) = Inr r \<and> (r = None \<longleftrightarrow> caps \<noteq> [] \<and> w + b = 0)
        \<and> (caps = [] \<or> 0 < w \<and> w = b \<longrightarrow> r = Some 1) \<and> (w = 0 \<and> 0 < b \<longrightarrow> r = (let x = fl (fl (sqrt_d (1 / 2))) in Some (fl (x * x))))"
    using equal larger e by (metis (no_types, lifting) add_is_0 less_numeral_extra(3) not_None_eq sum.inject(2))
  then show ?thesis unfolding count_sizes_eq prod.case none w_def [symmetric] b_def [symmetric] by blast
qed

theorem size_multiplier_cases_witness:
  "\<exists>r. calculate_multiplier (\<lambda>x. x) (\<lambda>x. x) 0 0 2 = Inr r \<and> (r = None \<longleftrightarrow> (\<forall>c \<in> {Amount 5}. c = Amount 5))"
proof -
  have "length [Amount 5, Amount 5] = 2" by simp
  then show ?thesis using size_multiplier_cases [of "[Amount 5, Amount 5]" "Amount 5" "\<lambda>x. x" "\<lambda>x. x"] by (simp only: count_sizes_eq) simp
qed

subsection \<open>The table\<close>

text \<open>When all channels can be read, the table holds for each node the capacity of its channels, summed without wrapping.\<close>

definition total_capacity :: "node_id \<Rightarrow> json list \<Rightarrow> nat" where
  "total_capacity n cs = (\<Sum>(s, a) \<leftarrow> map (\<lambda>c. projr (channel_capacity c)) cs. if s = n then amt a else 0)"

lemma load_loop_capacity:
  assumes "list_all (\<lambda>c. is_ok (channel_capacity c)) cs" "map_wf m"
  shows "\<exists>m'. load_capacities_loop cs m = (None, m') \<and> map_wf m'
    \<and> (\<forall>n. amt (capacity_of m' n) = min (amt (capacity_of m n) + total_capacity n cs) (2 ^ 64 - 1))"
  using assms
proof (induction cs arbitrary: m)
  case Nil
  have "amt a = min (amt a) (2 ^ 64 - 1)" for a using amt_le_max [of a] by simp
  then show ?case using Nil by (simp add: total_capacity_def)
next
  case (Cons c cs)
  obtain s a where c: "channel_capacity c = Inr (s, a)" using Cons.prems(1) by (auto simp: is_ok_iff)
  let ?m = "map_put s (capacity_of m s + a) m"
  have wf: "map_wf ?m" using Cons.prems(2) by (rule map_wf_map_put)
  have cap: "capacity_of ?m n = (if n = s then capacity_of m s + a else capacity_of m n)" for n
    using Cons.prems(2) by (simp add: capacity_of_def map_of_map_put)
  obtain m' where m': "load_capacities_loop cs ?m = (None, m')" "map_wf m'"
    "\<And>n. amt (capacity_of m' n) = min (amt (capacity_of ?m n) + total_capacity n cs) (2 ^ 64 - 1)"
    using Cons.IH [OF _ wf] Cons.prems(1) by auto
  have "amt (capacity_of m' n) = min (amt (capacity_of m n) + total_capacity n (c # cs)) (2 ^ 64 - 1)" for n
    by (simp add: m'(3) cap amt_plus total_capacity_def c) (simp add: min_def)
  then show ?case using m'(1,2) c by simp
qed

text \<open>A failure while loading is reported once; from then on the partial table answers for the whole network.\<close>

lemma partial_table_used:
  assumes "load_capacities reply = (Some e, m)"
  shows "get_capacity reply n None = (Inl e, Some m)" "get_capacity reply' n' (Some m) = (Inr (capacity_of m n'), Some m)"
  using assms by (simp_all add: get_capacity_def)

text \<open>A multiplier once computed is kept until the next reset.\<close>

lemma cached_multiplier_kept:
  assumes "get_cached_multiplier sq lg self_id network reply peer s = (Inr m, s')"
  shows "get_cached_multiplier sq' lg' self_id network' reply' peer s' = (Inr m, s')"
  using assms by (auto simp: get_cached_multiplier_def split: option.splits sum.splits prod.splits)

end
