(* ===== verification/Fee_Price_Theory.thy ===== *)
theory Fee_Price_Theory
  imports Ln_Amount Ln_Ids
begin

text \<open>
  \<open>src/Boss/Mod/FeeModderByPriceTheory.cpp\<close>: the card game that searches for the price level of each
  channel. The two tables are a list of rows, in the order of their ids, and a map. \<open>std::shuffle\<close> is a
  parameter that permutes its argument, and \<open>pow\<close> a parameter of the multiplier. Where
  \<open>ORDER BY earnings\<close> meets equal earnings the row of the lowest id is taken. Prices and
  earnings are unbounded here; in the table they are signed 64-bit integers.
\<close>

subsection \<open>The tables\<close>

datatype card_pos = CardPos_Deck | CardPos_InPlay | CardPos_Discarded

record card =
  cd_id :: nat
  cd_node :: node_id
  cd_pos :: card_pos
  cd_deckorder :: nat
  cd_price :: int
  cd_lifetime :: int
  cd_earnings :: int

record price_db =
  pt_centerprice :: "node_id \<rightharpoonup> int"
  pt_cards :: "card list"

definition initial_price :: int where
  "initial_price = 0"

definition initial_lifetime :: int where
  "initial_lifetime = 288"

definition max_step :: nat where
  "max_step = 2"

definition price_to_multiplier :: "(double \<Rightarrow> double \<Rightarrow> double) \<Rightarrow> int \<Rightarrow> double" where
  "price_to_multiplier pow price =
     (if price < 0 then pow (fl (8 / 10)) (fl (of_int (- price)))
      else if price > 0 then pow (fl (12 / 10)) (fl (of_int price)) else 1)"

definition cards_at :: "node_id \<Rightarrow> card_pos \<Rightarrow> price_db \<Rightarrow> card list" where
  "cards_at node pos db = filter (\<lambda>c. cd_node c = node \<and> cd_pos c = pos) (pt_cards db)"

definition update_cards :: "(card \<Rightarrow> bool) \<Rightarrow> (card \<Rightarrow> card) \<Rightarrow> price_db \<Rightarrow> price_db" where
  "update_cards P f db = db\<lparr>pt_cards := map (\<lambda>c. if P c then f c else c) (pt_cards db)\<rparr>"

subsection \<open>Rounds\<close>

definition get_cards_left :: "node_id \<Rightarrow> price_db \<Rightarrow> nat" where
  "get_cards_left node db = length (cards_at node CardPos_Deck db)"

definition get_center_price :: "node_id \<Rightarrow> price_db \<Rightarrow> int" where
  "get_center_price node db = (case pt_centerprice db node of None \<Rightarrow> initial_price | Some p \<Rightarrow> p)"

definition best_card :: "card list \<Rightarrow> card" where
  "best_card cs = hd (sort_key (\<lambda>c. - cd_earnings c) cs)"

definition update_centerprice :: "node_id \<Rightarrow> price_db \<Rightarrow> price_db" where
  "update_centerprice node db =
     (case cards_at node CardPos_Discarded db of
        [] \<Rightarrow> db\<lparr>pt_centerprice := (pt_centerprice db)(node \<mapsto> initial_price)\<rparr>
      | c # cs \<Rightarrow>
          (let best = best_card (c # cs) in
           if cd_earnings best = 0 then db
           else db\<lparr>pt_centerprice := (pt_centerprice db)(node \<mapsto> cd_price best)\<rparr>))"

definition deck_prices :: "int \<Rightarrow> int list" where
  "deck_prices centerprice =
     centerprice # concat (map (\<lambda>i. [centerprice + int (i + 1), centerprice - int (i + 1)]) [0 ..< max_step])"

definition new_card :: "node_id \<Rightarrow> card list \<Rightarrow> nat \<Rightarrow> int \<Rightarrow> card" where
  "new_card node cards i price =
     \<lparr>cd_id = Suc (fold max (map cd_id cards) 0), cd_node = node, cd_pos = CardPos_Deck, cd_deckorder = i,
      cd_price = price, cd_lifetime = initial_lifetime, cd_earnings = 0\<rparr>"

definition insert_card :: "node_id \<Rightarrow> nat \<times> int \<Rightarrow> price_db \<Rightarrow> price_db" where
  "insert_card node ip db = db\<lparr>pt_cards := pt_cards db @ [new_card node (pt_cards db) (fst ip) (snd ip)]\<rparr>"

definition reshuffle_deck :: "(int list \<Rightarrow> int list) \<Rightarrow> node_id \<Rightarrow> price_db \<Rightarrow> price_db" where
  "reshuffle_deck shuffle node db =
     (let db1 = db\<lparr>pt_cards := filter (\<lambda>c. cd_node c \<noteq> node) (pt_cards db)\<rparr>;
          prices = shuffle (deck_prices (get_center_price node db1))
      in fold (insert_card node) (enumerate 0 prices) db1)"

definition end_game_round :: "(int list \<Rightarrow> int list) \<Rightarrow> node_id \<Rightarrow> price_db \<Rightarrow> price_db" where
  "end_game_round shuffle node db = reshuffle_deck shuffle node (update_centerprice node db)"

text \<open>The card on top of the deck has the highest deck order. Drawing from an empty deck ends the round
  and draws again; not returning is \<open>None\<close>.\<close>

partial_function (option) draw_a_card ::
  "(int list \<Rightarrow> int list) \<Rightarrow> node_id \<Rightarrow> price_db \<Rightarrow> price_db option" where
  "draw_a_card shuffle node db =
     (case sort_key (\<lambda>c. - int (cd_deckorder c)) (cards_at node CardPos_Deck db) of
        c # _ \<Rightarrow> Some (update_cards (\<lambda>x. cd_id x = cd_id c) (\<lambda>x. x\<lparr>cd_pos := CardPos_InPlay\<rparr>) db)
      | [] \<Rightarrow> draw_a_card shuffle node (end_game_round shuffle node db))"

partial_function (option) get_price ::
  "(int list \<Rightarrow> int list) \<Rightarrow> node_id \<Rightarrow> price_db \<Rightarrow> (int \<times> price_db) option" where
  "get_price shuffle node db =
     (case cards_at node CardPos_InPlay db of
        c # _ \<Rightarrow> Some (cd_price c, db)
      | [] \<Rightarrow> Option.bind (draw_a_card shuffle node db) (get_price shuffle node))"

record theory_fee =
  tf_price :: int
  tf_mult :: double
  tf_center :: int
  tf_cards_left :: nat

definition get_fee_mod ::
  "(double \<Rightarrow> double \<Rightarrow> double) \<Rightarrow> (int list \<Rightarrow> int list) \<Rightarrow> node_id \<Rightarrow> price_db \<Rightarrow> (theory_fee \<times> price_db) option" where
  "get_fee_mod pow shuffle node db =
     Option.bind (get_price shuffle node db) (\<lambda>(price, db').
       Some (\<lparr>tf_price = price, tf_mult = price_to_multiplier pow price, tf_center = get_center_price node db',
              tf_cards_left = get_cards_left node db'\<rparr>, db'))"

subsection \<open>The passing of time and earnings\<close>

definition update_10_minutes :: "node_id set \<Rightarrow> price_db \<Rightarrow> price_db" where
  "update_10_minutes conn db =
     (let db1 = update_cards (\<lambda>c. cd_pos c = CardPos_InPlay \<and> cd_node c \<in> conn)
                  (\<lambda>c. c\<lparr>cd_lifetime := cd_lifetime c - 1\<rparr>) db
      in update_cards (\<lambda>c. cd_pos c = CardPos_InPlay \<and> cd_lifetime c \<le> 0) (\<lambda>c. c\<lparr>cd_pos := CardPos_Discarded\<rparr>) db1)"

definition forward_fee :: "node_id \<Rightarrow> amount \<Rightarrow> price_db \<Rightarrow> price_db" where
  "forward_fee node fee db =
     update_cards (\<lambda>c. cd_node c = node \<and> cd_pos c = CardPos_InPlay)
       (\<lambda>c. c\<lparr>cd_earnings := cd_earnings c + int (amt fee)\<rparr>) db"

subsection \<open>The game of one node\<close>

text \<open>The specification: the cards of a round in the order they were shuffled, without their ids, and the
  centre. The top of the deck is the last card still in it.\<close>

record pcard =
  pc_pos :: card_pos
  pc_price :: int
  pc_lifetime :: int
  pc_earnings :: int

record game =
  gm_center :: "int option"
  gm_cards :: "pcard list"

definition strip :: "card \<Rightarrow> pcard" where
  "strip c = \<lparr>pc_pos = cd_pos c, pc_price = cd_price c, pc_lifetime = cd_lifetime c, pc_earnings = cd_earnings c\<rparr>"

definition node_cards :: "node_id \<Rightarrow> price_db \<Rightarrow> card list" where
  "node_cards node db = filter (\<lambda>c. cd_node c = node) (pt_cards db)"

definition game_of :: "node_id \<Rightarrow> price_db \<Rightarrow> game" where
  "game_of node db = \<lparr>gm_center = pt_centerprice db node, gm_cards = map strip (node_cards node db)\<rparr>"

definition game_tick :: "bool \<Rightarrow> game \<Rightarrow> game" where
  "game_tick conn g =
     g\<lparr>gm_cards := map (\<lambda>c. if pc_pos c = CardPos_InPlay
         then let l = pc_lifetime c - (if conn then 1 else 0)
              in c\<lparr>pc_lifetime := l, pc_pos := if l \<le> 0 then CardPos_Discarded else CardPos_InPlay\<rparr>
         else c) (gm_cards g)\<rparr>"

definition game_earn :: "int \<Rightarrow> game \<Rightarrow> game" where
  "game_earn f g = g\<lparr>gm_cards := map (\<lambda>c. if pc_pos c = CardPos_InPlay then c\<lparr>pc_earnings := pc_earnings c + f\<rparr> else c) (gm_cards g)\<rparr>"

definition game_center :: "game \<Rightarrow> int" where
  "game_center g = (case gm_center g of None \<Rightarrow> 0 | Some p \<Rightarrow> p)"

definition game_recenter :: "game \<Rightarrow> int option" where
  "game_recenter g =
     (case filter (\<lambda>c. pc_pos c = CardPos_Discarded) (gm_cards g) of
        [] \<Rightarrow> Some 0
      | c # cs \<Rightarrow> (let b = hd (sort_key (\<lambda>c. - pc_earnings c) (c # cs)) in
                  if pc_earnings b = 0 then gm_center g else Some (pc_price b)))"

definition game_deal :: "(int list \<Rightarrow> int list) \<Rightarrow> game \<Rightarrow> game" where
  "game_deal shuffle g =
     (let g1 = g\<lparr>gm_center := game_recenter g\<rparr> in
      g1\<lparr>gm_cards := map (\<lambda>p. \<lparr>pc_pos = CardPos_Deck, pc_price = p, pc_lifetime = 288, pc_earnings = 0\<rparr>)
                        (shuffle (deck_prices (game_center g1)))\<rparr>)"

fun play_last :: "pcard list \<Rightarrow> pcard list" where
  "play_last [] = []"
| "play_last (c # cs) =
     (if pc_pos c = CardPos_Deck \<and> (\<forall>x \<in> set cs. pc_pos x \<noteq> CardPos_Deck) then c\<lparr>pc_pos := CardPos_InPlay\<rparr> # cs
      else c # play_last cs)"

definition game_draw :: "(int list \<Rightarrow> int list) \<Rightarrow> game \<Rightarrow> game" where
  "game_draw shuffle g =
     (if \<exists>c \<in> set (gm_cards g). pc_pos c = CardPos_InPlay then g
      else let g1 = (if \<exists>c \<in> set (gm_cards g). pc_pos c = CardPos_Deck then g else game_deal shuffle g)
           in g1\<lparr>gm_cards := play_last (gm_cards g1)\<rparr>)"

subsection \<open>The operations refine the game\<close>

definition ids_ok :: "price_db \<Rightarrow> bool" where
  "ids_ok db \<longleftrightarrow> distinct (map cd_id (pt_cards db))
     \<and> (\<forall>node. map cd_deckorder (node_cards node db) = [0 ..< length (node_cards node db)])"

lemma filter_map_if:
  "(\<And>x. Q (f x) \<longleftrightarrow> Q x) \<Longrightarrow> filter Q (map (\<lambda>x. if P x then f x else x) xs) = map (\<lambda>x. if P x then f x else x) (filter Q xs)"
  by (induction xs) auto

lemma node_cards_update:
  "(\<And>c. cd_node (f c) = cd_node c) \<Longrightarrow>
   node_cards node (update_cards P f db) = map (\<lambda>c. if P c then f c else c) (node_cards node db)"
  by (simp add: node_cards_def update_cards_def filter_map_if)

lemma update_ids_ok:
  assumes "ids_ok db" "\<And>c. cd_node (f c) = cd_node c" "\<And>c. cd_id (f c) = cd_id c" "\<And>c. cd_deckorder (f c) = cd_deckorder c"
  shows "ids_ok (update_cards P f db)"
proof -
  have "map cd_id (pt_cards (update_cards P f db)) = map cd_id (pt_cards db)" using assms(3) by (simp add: update_cards_def)
  moreover have "map cd_deckorder (node_cards node (update_cards P f db)) = map cd_deckorder (node_cards node db)"
    "length (node_cards node (update_cards P f db)) = length (node_cards node db)" for node
    using assms(2,4) by (simp_all add: node_cards_update)
  ultimately show ?thesis using assms(1) by (simp add: ids_ok_def)
qed

lemma cards_at_node: "cards_at node pos db = filter (\<lambda>c. cd_pos c = pos) (node_cards node db)"
  by (simp add: cards_at_def node_cards_def conj_commute)

lemma update_center [simp]: "pt_centerprice (update_cards P f db) = pt_centerprice db"
  by (simp add: update_cards_def)

lemma tick_refines:
  assumes "ids_ok db"
  shows "ids_ok (update_10_minutes conn db)" "game_of node (update_10_minutes conn db) = game_tick (node \<in> conn) (game_of node db)"
proof -
  show "ids_ok (update_10_minutes conn db)" unfolding update_10_minutes_def Let_def by (intro update_ids_ok assms) simp_all
  have n: "c \<in> set (node_cards node db) \<Longrightarrow> cd_node c = node" for c by (simp add: node_cards_def)
  let ?f = "\<lambda>c. if cd_pos c = CardPos_InPlay \<and> cd_node c \<in> conn then c\<lparr>cd_lifetime := cd_lifetime c - 1\<rparr> else c"
  let ?g = "\<lambda>c. if cd_pos c = CardPos_InPlay \<and> cd_lifetime c \<le> 0 then c\<lparr>cd_pos := CardPos_Discarded\<rparr> else c"
  let ?t = "\<lambda>c. if pc_pos c = CardPos_InPlay
         then let l = pc_lifetime c - (if node \<in> conn then 1 else 0)
              in c\<lparr>pc_lifetime := l, pc_pos := if l \<le> 0 then CardPos_Discarded else CardPos_InPlay\<rparr> else c"
  have s: "strip (?g (?f c)) = ?t (strip c)" if "cd_node c = node" for c
    using that by (cases "cd_pos c"; cases "node \<in> conn"; cases "cd_lifetime c \<le> 0"; cases "cd_lifetime c \<le> 1")
      (simp_all add: strip_def)
  have "map strip (node_cards node (update_10_minutes conn db)) = map (strip \<circ> ?g \<circ> ?f) (node_cards node db)"
    by (simp add: update_10_minutes_def Let_def node_cards_update)
  also have "\<dots> = map (?t \<circ> strip) (node_cards node db)" by (rule map_cong [OF refl]) (simp add: s [OF n] del: if_split)
  finally show "game_of node (update_10_minutes conn db) = game_tick (node \<in> conn) (game_of node db)"
    by (simp add: game_of_def game_tick_def update_10_minutes_def)
qed

lemma earn_refines:
  assumes "ids_ok db"
  shows "ids_ok (forward_fee node' fee db)"
    "game_of node (forward_fee node' fee db) = (if node = node' then game_earn (int (amt fee)) (game_of node db) else game_of node db)"
proof -
  show "ids_ok (forward_fee node' fee db)" unfolding forward_fee_def by (intro update_ids_ok assms) simp_all
  have n: "c \<in> set (node_cards node db) \<Longrightarrow> cd_node c = node" for c by (simp add: node_cards_def)
  show "game_of node (forward_fee node' fee db) = (if node = node' then game_earn (int (amt fee)) (game_of node db) else game_of node db)"
    using n by (auto simp: game_of_def game_earn_def forward_fee_def node_cards_update strip_def)
qed

lemma best_card_strip: "cs \<noteq> [] \<Longrightarrow> strip (best_card cs) = hd (sort_key (\<lambda>c. - pc_earnings c) (map strip cs))"
proof -
  have "sort_key (\<lambda>c. - pc_earnings c) (map strip cs) = map strip (sort_key (\<lambda>c. - cd_earnings c) cs)" for cs
  proof (induction cs)
    case (Cons c cs)
    have "insort_key (\<lambda>c. - pc_earnings c) (strip c) (map strip ys) = map strip (insort_key (\<lambda>c. - cd_earnings c) c ys)" for ys
      by (induction ys) (simp_all add: strip_def)
    then show ?case using Cons by simp
  qed simp
  moreover assume "cs \<noteq> []"
  moreover then have "sort_key (\<lambda>c. - cd_earnings c) cs \<noteq> []" by (metis length_0_conv length_sort)
  ultimately show ?thesis by (simp add: best_card_def hd_map)
qed

lemma recenter_refines:
  "pt_centerprice (update_centerprice node db) = (pt_centerprice db)(node := game_recenter (game_of node db))"
  "pt_cards (update_centerprice node db) = pt_cards db"
proof -
  have s: "map strip (cards_at node pos db) = filter (\<lambda>c. pc_pos c = pos) (gm_cards (game_of node db))" for pos
    by (simp add: cards_at_node game_of_def filter_map comp_def strip_def)
  show "pt_centerprice (update_centerprice node db) = (pt_centerprice db)(node := game_recenter (game_of node db))"
  proof (cases "cards_at node CardPos_Discarded db")
    case Nil
    then show ?thesis using s [of CardPos_Discarded] by (simp add: update_centerprice_def game_recenter_def initial_price_def)
  next
    case (Cons c cs)
    have b: "strip (best_card (c # cs)) = hd (sort_key (\<lambda>c. - pc_earnings c) (map strip (c # cs)))" by (rule best_card_strip) simp
    have "pc_earnings (strip x) = cd_earnings x" "pc_price (strip x) = cd_price x" for x by (simp_all add: strip_def)
    note b' = this [of "best_card (c # cs)", unfolded b]
    have f: "filter (\<lambda>c. pc_pos c = CardPos_Discarded) (gm_cards (game_of node db)) = strip c # map strip cs"
      using s [of CardPos_Discarded] Cons by simp
    have "game_recenter (game_of node db)
        = (if cd_earnings (best_card (c # cs)) = 0 then pt_centerprice db node else Some (cd_price (best_card (c # cs))))"
      unfolding game_recenter_def f using b' by (simp add: Let_def game_of_def del: sort_key_simps)
    then show ?thesis by (simp add: update_centerprice_def Cons Let_def fun_upd_idem)
  qed
  show "pt_cards (update_centerprice node db) = pt_cards db"
    by (simp add: update_centerprice_def Let_def split: list.splits)
qed

text \<open>Dealing a new deck.\<close>

abbreviation new_pcard :: "int \<Rightarrow> pcard" where
  "new_pcard p \<equiv> \<lparr>pc_pos = CardPos_Deck, pc_price = p, pc_lifetime = 288, pc_earnings = 0\<rparr>"

lemma fold_max_ge: "(x :: nat) \<in> set xs \<or> x \<le> a \<Longrightarrow> x \<le> fold max xs a"
proof (induction xs arbitrary: a)
  case (Cons b xs)
  have "x \<le> fold max xs (max b a)" by (rule Cons.IH) (use Cons.prems in auto)
  then show ?case by simp
qed simp

lemma fold_insert_card:
  "\<exists>new. pt_cards (fold (insert_card node) ips db) = pt_cards db @ new \<and> pt_centerprice (fold (insert_card node) ips db) = pt_centerprice db
     \<and> list_all (\<lambda>c. cd_node c = node) new \<and> map cd_deckorder new = map fst ips \<and> map strip new = map new_pcard (map snd ips)
     \<and> (distinct (map cd_id (pt_cards db)) \<longrightarrow> distinct (map cd_id (pt_cards db @ new)))"
proof (induction ips arbitrary: db)
  case (Cons ip ips)
  define c where "c = new_card node (pt_cards db) (fst ip) (snd ip)"
  have c: "cd_id c = Suc (fold max (map cd_id (pt_cards db)) 0)" "cd_node c = node" "cd_deckorder c = fst ip" "strip c = new_pcard (snd ip)"
    unfolding c_def new_card_def strip_def initial_lifetime_def by simp_all
  have i: "pt_cards (insert_card node ip db) = pt_cards db @ [c]" "pt_centerprice (insert_card node ip db) = pt_centerprice db"
    by (simp_all add: insert_card_def c_def)
  obtain new where new: "pt_cards (fold (insert_card node) ips (insert_card node ip db)) = pt_cards db @ c # new"
      "pt_centerprice (fold (insert_card node) ips (insert_card node ip db)) = pt_centerprice db"
      "list_all (\<lambda>c. cd_node c = node) new" "map cd_deckorder new = map fst ips" "map strip new = map new_pcard (map snd ips)"
      "distinct (map cd_id (pt_cards db @ [c])) \<longrightarrow> distinct (map cd_id (pt_cards db @ c # new))"
    using Cons.IH [of "insert_card node ip db"] unfolding i append.assoc append_Cons append_Nil by (elim exE conjE) (rule that)
  have "cd_id c \<notin> cd_id ` set (pt_cards db)"
  proof
    assume "cd_id c \<in> cd_id ` set (pt_cards db)"
    then have "cd_id c \<le> fold max (map cd_id (pt_cards db)) 0" by (intro fold_max_ge) simp
    then show False by (simp add: c(1))
  qed
  then have "distinct (map cd_id (pt_cards db)) \<longrightarrow> distinct (map cd_id (pt_cards db @ [c]))" by simp
  then show ?case using new c(2-4) by (intro exI [of _ "c # new"]) (simp del: map_map)
qed simp

lemma reshuffle_refines:
  assumes "ids_ok db"
  shows "ids_ok (end_game_round shuffle node' db)"
    "game_of node (end_game_round shuffle node' db) = (if node = node' then game_deal shuffle (game_of node db) else game_of node db)"
proof -
  let ?u = "update_centerprice node' db" and ?g = "game_of node' db"
  let ?db1 = "?u\<lparr>pt_cards := filter (\<lambda>c. cd_node c \<noteq> node') (pt_cards ?u)\<rparr>"
  let ?prices = "shuffle (deck_prices (get_center_price node' ?db1))"
  have c: "get_center_price node' ?db1 = game_center (?g\<lparr>gm_center := game_recenter ?g\<rparr>)"
    by (simp add: get_center_price_def recenter_refines game_center_def initial_price_def split: option.splits)
  have e: "end_game_round shuffle node' db = fold (insert_card node') (enumerate 0 ?prices) ?db1"
    by (simp add: end_game_round_def reshuffle_deck_def Let_def)
  obtain new where new: "pt_cards (end_game_round shuffle node' db) = pt_cards ?db1 @ new"
      "pt_centerprice (end_game_round shuffle node' db) = pt_centerprice ?db1"
      "list_all (\<lambda>c. cd_node c = node') new" "map cd_deckorder new = map fst (enumerate 0 ?prices)"
      "map strip new = map new_pcard (map snd (enumerate 0 ?prices))"
      "distinct (map cd_id (pt_cards ?db1)) \<longrightarrow> distinct (map cd_id (pt_cards ?db1 @ new))"
    using fold_insert_card [of node' "enumerate 0 ?prices" ?db1] unfolding e by blast
  have cards: "pt_cards ?db1 = filter (\<lambda>c. cd_node c \<noteq> node') (pt_cards db)" by (simp add: recenter_refines)
  have strip: "map strip new = map new_pcard ?prices" using new(5) by simp
  have len: "length new = length ?prices" using map_eq_imp_length_eq [OF strip] .
  have order: "map cd_deckorder new = [0 ..< length new]" using new(4) by (simp add: len)
  have n: "node_cards n (end_game_round shuffle node' db) = (if n = node' then new else node_cards n db)" for n
  proof -
    have "filter (\<lambda>c. cd_node c = n) new = (if n = node' then new else [])"
      using new(3) by (auto simp: list_all_iff filter_empty_conv filter_id_conv)
    moreover have "filter (\<lambda>c. cd_node c = n) (pt_cards ?db1) = (if n = node' then [] else node_cards n db)"
      by (auto simp: cards node_cards_def filter_empty_conv intro!: filter_cong)
    ultimately show ?thesis by (simp add: node_cards_def [of _ "end_game_round shuffle node' db"] new(1) del: price_db.simps)
  qed
  have "distinct (map cd_id (pt_cards (end_game_round shuffle node' db)))"
    unfolding new(1) using new(6) assms distinct_map_filter by (auto simp: ids_ok_def cards)
  then show "ids_ok (end_game_round shuffle node' db)" using assms order by (simp add: ids_ok_def n)
  show "game_of node (end_game_round shuffle node' db) = (if node = node' then game_deal shuffle (game_of node db) else game_of node db)"
  proof -
    have "game_of node (end_game_round shuffle node' db)
        = \<lparr>gm_center = ((pt_centerprice db)(node' := game_recenter ?g)) node, gm_cards = map strip (if node = node' then new else node_cards node db)\<rparr>"
      by (simp add: game_of_def [of node "end_game_round shuffle node' db"] n new(2) recenter_refines)
    moreover have "game_deal shuffle ?g = \<lparr>gm_center = game_recenter ?g, gm_cards = map new_pcard ?prices\<rparr>"
      by (simp add: game_deal_def Let_def c game_of_def [of node' db])
    ultimately show ?thesis by (simp add: strip game_of_def [of node db])
  qed
qed

text \<open>Drawing a card.\<close>

lemma sort_desc_order:
  assumes "sorted_wrt (<) (map cd_deckorder ds)"
  shows "sort_key (\<lambda>c. - int (cd_deckorder c)) ds = rev ds"
proof -
  have "sorted_wrt (\<lambda>a b. - int (cd_deckorder b) \<le> - int (cd_deckorder a)) ds"
    using assms unfolding sorted_wrt_map by (rule sorted_wrt_mono_rel [rotated]) simp
  then have "sorted (map (\<lambda>c. - int (cd_deckorder c)) (rev ds))" by (simp add: sorted_map sorted_wrt_rev)
  moreover have "inj_on (\<lambda>c. - int (cd_deckorder c)) (set (rev ds))"
    using assms by (auto simp: strict_sorted_iff distinct_map inj_on_def)
  ultimately show ?thesis by (intro sort_key_inj_key_eq) simp_all
qed

lemma deck_top:
  assumes "ids_ok db"
  shows "sort_key (\<lambda>c. - int (cd_deckorder c)) (cards_at node CardPos_Deck db) = rev (cards_at node CardPos_Deck db)"
proof (rule sort_desc_order)
  have "sorted_wrt (<) (map cd_deckorder (node_cards node db))" using assms by (simp add: ids_ok_def)
  then show "sorted_wrt (<) (map cd_deckorder (cards_at node CardPos_Deck db))"
    unfolding cards_at_node sorted_wrt_map by (rule sorted_wrt_filter)
qed

lemma play_last_strip:
  assumes "distinct (map cd_id cs)" "filter (\<lambda>c. cd_pos c = CardPos_Deck) cs \<noteq> []"
  shows "map strip (map (\<lambda>x. if cd_id x = cd_id (last (filter (\<lambda>c. cd_pos c = CardPos_Deck) cs)) then x\<lparr>cd_pos := CardPos_InPlay\<rparr> else x) cs)
    = play_last (map strip cs)"
  using assms
proof (induction cs)
  case (Cons c cs)
  show ?case
  proof (cases "filter (\<lambda>c. cd_pos c = CardPos_Deck) cs = []")
    case True
    then have "cd_pos c = CardPos_Deck" "\<forall>x \<in> set cs. cd_pos x \<noteq> CardPos_Deck" using Cons.prems(2) by (auto simp: filter_empty_conv split: if_splits)
    moreover have "map (\<lambda>x. if cd_id x = cd_id c then x\<lparr>cd_pos := CardPos_InPlay\<rparr> else x) cs = cs"
      using Cons.prems(1) by (intro map_idI) (auto simp: image_iff)
    ultimately show ?thesis using True by (simp add: strip_def)
  next
    case False
    let ?l = "last (filter (\<lambda>c. cd_pos c = CardPos_Deck) cs)"
    have l: "?l \<in> set (filter (\<lambda>c. cd_pos c = CardPos_Deck) cs)" by (rule last_in_set [OF False])
    have "cd_id c \<noteq> cd_id ?l" using l Cons.prems(1) by auto
    moreover have "\<exists>x \<in> set (map strip cs). pc_pos x = CardPos_Deck" using l by (force simp: strip_def)
    ultimately show ?thesis using Cons.IH Cons.prems(1) False by auto
  qed
qed simp

lemma draw_deck:
  assumes ok: "ids_ok db" and deck: "cards_at node' CardPos_Deck db \<noteq> []"
  obtains db' where "draw_a_card shuffle node' db = Some db'" "ids_ok db'"
    "\<And>node. game_of node db' = (if node = node' then (game_of node db)\<lparr>gm_cards := play_last (gm_cards (game_of node db))\<rparr> else game_of node db)"
proof -
  let ?ds = "cards_at node' CardPos_Deck db" and ?f = "\<lambda>x. x\<lparr>cd_pos := CardPos_InPlay\<rparr>"
  let ?db' = "update_cards (\<lambda>x. cd_id x = cd_id (last ?ds)) ?f db"
  have "draw_a_card shuffle node' db = Some ?db'"
    using deck by (subst draw_a_card.simps) (auto simp: deck_top [OF ok] hd_rev neq_Nil_conv split: list.splits dest: arg_cong [of _ _ last])
  moreover have "ids_ok ?db'" by (rule update_ids_ok [OF ok]) simp_all
  moreover have "game_of node ?db' = (if node = node' then (game_of node db)\<lparr>gm_cards := play_last (gm_cards (game_of node db))\<rparr> else game_of node db)" for node
  proof -
    have l: "last ?ds \<in> set (pt_cards db)" "cd_node (last ?ds) = node'" using last_in_set [OF deck] by (auto simp: cards_at_def)
    have d: "distinct (map cd_id (pt_cards db))" using ok by (simp add: ids_ok_def)
    then have dn: "distinct (map cd_id (node_cards node db))" unfolding node_cards_def by (rule distinct_map_filter)
    have nc: "node_cards node ?db' = map (\<lambda>x. if cd_id x = cd_id (last ?ds) then ?f x else x) (node_cards node db)"
      by (rule node_cards_update) simp
    show ?thesis
    proof (cases "node = node'")
      case True
      have "map strip (node_cards node ?db') = play_last (map strip (node_cards node db))"
        unfolding nc using play_last_strip [of "node_cards node db"] dn deck True by (simp add: cards_at_node)
      then show ?thesis using True by (simp add: game_of_def)
    next
      case False
      have "x = last ?ds" if "x \<in> set (pt_cards db)" "cd_id x = cd_id (last ?ds)" for x
        using that l(1) d by (auto simp: distinct_map inj_on_def)
      then have "node_cards node ?db' = node_cards node db"
        unfolding nc using False l(2) by (intro map_idI) (auto simp: node_cards_def)
      then show ?thesis using False by (simp add: game_of_def)
    qed
  qed
  ultimately show thesis using that by blast
qed

definition permutes :: "(int list \<Rightarrow> int list) \<Rightarrow> bool" where
  "permutes shuffle \<longleftrightarrow> (\<forall>xs. mset (shuffle xs) = mset xs)"

lemma deck_prices_eq: "deck_prices c = [c, c + 1, c - 1, c + 2, c - 2]"
  by (simp add: deck_prices_def max_step_def upt_rec)

lemma cards_at_game: "cards_at node pos db \<noteq> [] \<longleftrightarrow> (\<exists>c \<in> set (gm_cards (game_of node db)). pc_pos c = pos)"
  by (auto simp: cards_at_node game_of_def filter_empty_conv strip_def)

lemma play_last_played: "(\<exists>c \<in> set cs. pc_pos c = CardPos_Deck) \<Longrightarrow> \<exists>c \<in> set (play_last cs). pc_pos c = CardPos_InPlay"
  by (induction cs) auto

lemma game_deal_deck:
  assumes "permutes shuffle"
  shows "\<exists>c \<in> set (gm_cards (game_deal shuffle g)). pc_pos c = CardPos_Deck"
proof -
  let ?ps = "shuffle (deck_prices (game_center (g\<lparr>gm_center := game_recenter g\<rparr>)))"
  have "set ?ps = set (deck_prices (game_center (g\<lparr>gm_center := game_recenter g\<rparr>)))"
    using assms by (metis permutes_def set_mset_mset)
  then have "?ps \<noteq> []" by (auto simp: deck_prices_eq)
  then show ?thesis by (cases ?ps) (simp_all add: game_deal_def Let_def)
qed

lemma draw_refines:
  assumes ok: "ids_ok db" and sh: "permutes shuffle" and none: "cards_at node' CardPos_InPlay db = []"
  obtains db' where "draw_a_card shuffle node' db = Some db'" "ids_ok db'" "cards_at node' CardPos_InPlay db' \<noteq> []"
    "\<And>node. game_of node db' = (if node = node' then game_draw shuffle (game_of node db) else game_of node db)"
proof -
  have none': "\<not> (\<exists>c \<in> set (gm_cards (game_of node' db)). pc_pos c = CardPos_InPlay)"
    using none cards_at_game [of node' CardPos_InPlay db] by simp
  show thesis
proof (cases "cards_at node' CardPos_Deck db = []")
  case False
  obtain db' where db': "draw_a_card shuffle node' db = Some db'" "ids_ok db'"
    "\<And>node. game_of node db' = (if node = node' then (game_of node db)\<lparr>gm_cards := play_last (gm_cards (game_of node db))\<rparr> else game_of node db)"
    using draw_deck [where shuffle = shuffle, OF ok False] by blast
  have "cards_at node' CardPos_InPlay db' \<noteq> []" using False play_last_played by (simp add: cards_at_game db'(3))
  moreover have "game_draw shuffle (game_of node' db) = (game_of node' db)\<lparr>gm_cards := play_last (gm_cards (game_of node' db))\<rparr>"
    using False none' cards_at_game [of node' CardPos_Deck db] by (auto simp: game_draw_def Let_def)
  ultimately show thesis using that [OF db'(1,2)] by (simp add: db'(3))
next
  case True
  let ?db1 = "end_game_round shuffle node' db"
  have g1: "game_of node ?db1 = (if node = node' then game_deal shuffle (game_of node db) else game_of node db)" for node
    by (rule reshuffle_refines(2) [OF ok])
  have deck: "cards_at node' CardPos_Deck ?db1 \<noteq> []" using game_deal_deck [OF sh] by (simp add: cards_at_game g1)
  obtain db' where db': "draw_a_card shuffle node' ?db1 = Some db'" "ids_ok db'"
    "\<And>node. game_of node db' = (if node = node' then (game_of node ?db1)\<lparr>gm_cards := play_last (gm_cards (game_of node ?db1))\<rparr> else game_of node ?db1)"
    using draw_deck [where shuffle = shuffle, OF reshuffle_refines(1) [OF ok] deck] by blast
  have d: "draw_a_card shuffle node' db = Some db'" using True db'(1) by (subst draw_a_card.simps) simp
  have "cards_at node' CardPos_InPlay db' \<noteq> []" using deck play_last_played by (simp add: cards_at_game db'(3))
  moreover have "game_draw shuffle (game_of node' db)
      = (game_deal shuffle (game_of node' db))\<lparr>gm_cards := play_last (gm_cards (game_deal shuffle (game_of node' db)))\<rparr>"
    using True none' cards_at_game [of node' CardPos_Deck db] by (auto simp: game_draw_def Let_def)
  ultimately show thesis using that [OF d db'(2)] by (simp add: db'(3) g1)
qed
qed

lemma get_price_refines:
  assumes ok: "ids_ok db" and sh: "permutes shuffle"
  obtains p db' where "get_price shuffle node' db = Some (p, db')" "ids_ok db'"
    "\<And>node. game_of node db' = (if node = node' then game_draw shuffle (game_of node db) else game_of node db)"
    "\<exists>c \<in> set (gm_cards (game_of node' db')). pc_pos c = CardPos_InPlay \<and> pc_price c = p"
proof -
  have found: "\<exists>p. get_price shuffle node' d = Some (p, d) \<and> (\<exists>c \<in> set (gm_cards (game_of node' d)). pc_pos c = CardPos_InPlay \<and> pc_price c = p)"
    if ne: "cards_at node' CardPos_InPlay d \<noteq> []" for d
  proof -
    obtain c cs where c: "cards_at node' CardPos_InPlay d = c # cs" using ne by (auto simp: neq_Nil_conv)
    then have "c \<in> set (cards_at node' CardPos_InPlay d)" by simp
    then have "strip c \<in> set (gm_cards (game_of node' d))" "pc_pos (strip c) = CardPos_InPlay"
      by (simp add: game_of_def cards_at_node, simp add: strip_def cards_at_node)
    moreover have "pc_price (strip c) = cd_price c" by (simp add: strip_def)
    moreover have "get_price shuffle node' d = Some (cd_price c, d)" by (subst get_price.simps) (simp add: c)
    ultimately show ?thesis by blast
  qed
  show thesis
  proof (cases "cards_at node' CardPos_InPlay db = []")
    case False
    then show thesis using found [OF False] that [OF _ ok] by (force simp: game_draw_def cards_at_game)
  next
    case True
    obtain db' where db': "draw_a_card shuffle node' db = Some db'" "ids_ok db'" "cards_at node' CardPos_InPlay db' \<noteq> []"
      "\<And>node. game_of node db' = (if node = node' then game_draw shuffle (game_of node db) else game_of node db)"
      using draw_refines [OF ok sh True] by blast
    have "get_price shuffle node' db = get_price shuffle node' db'" using True db'(1) by (subst get_price.simps) simp
    then show thesis using found [OF db'(3)] that [OF _ db'(2,4)] by auto
  qed
qed

subsection \<open>The invariant of a game\<close>

fun pcard_ok :: "pcard \<Rightarrow> bool" where
  "pcard_ok c =
     (case pc_pos c of
        CardPos_Deck \<Rightarrow> pc_lifetime c = 288 \<and> pc_earnings c = 0
      | CardPos_InPlay \<Rightarrow> 0 < pc_lifetime c \<and> pc_lifetime c \<le> 288 \<and> 0 \<le> pc_earnings c
      | CardPos_Discarded \<Rightarrow> pc_lifetime c = 0 \<and> 0 \<le> pc_earnings c)"

definition in_play :: "game \<Rightarrow> pcard list" where
  "in_play g = filter (\<lambda>c. pc_pos c = CardPos_InPlay) (gm_cards g)"

definition game_ok :: "game \<Rightarrow> bool" where
  "game_ok g \<longleftrightarrow> list_all pcard_ok (gm_cards g) \<and> length (in_play g) \<le> 1
     \<and> (if gm_cards g = [] then gm_center g = None
        else mset (map pc_price (gm_cards g)) = mset (deck_prices (game_center g)))"

lemma game_ok_map:
  assumes "game_ok g" "\<And>c. pcard_ok c \<Longrightarrow> pcard_ok (f c)" "\<And>c. pc_price (f c) = pc_price c"
    "\<And>c. pc_pos (f c) = CardPos_InPlay \<Longrightarrow> pc_pos c = CardPos_InPlay"
  shows "game_ok (g\<lparr>gm_cards := map f (gm_cards g)\<rparr>)"
proof -
  let ?p = "\<lambda>c. pc_pos c = CardPos_InPlay"
  have "length (filter ?p (map f cs)) \<le> length (filter ?p cs)" for cs
    using assms(4) by (induction cs) (auto simp: le_SucI)
  from order_trans [OF this [of "gm_cards g"]] have "length (in_play (g\<lparr>gm_cards := map f (gm_cards g)\<rparr>)) \<le> 1"
    using assms(1) unfolding game_ok_def in_play_def by simp
  moreover have "list_all pcard_ok (map f (gm_cards g))"
    using assms(1,2) by (simp add: game_ok_def list_all_iff del: pcard_ok.simps)
  moreover have "map pc_price (map f (gm_cards g)) = map pc_price (gm_cards g)" using assms(3) by simp
  moreover have "game_center (g\<lparr>gm_cards := map f (gm_cards g)\<rparr>) = game_center g" by (simp add: game_center_def)
  ultimately show ?thesis using assms(1) by (simp add: game_ok_def del: map_map mset_map pcard_ok.simps)
qed

lemma game_tick_ok: "game_ok g \<Longrightarrow> game_ok (game_tick conn g)"
  unfolding game_tick_def by (rule game_ok_map) (auto simp: Let_def split: if_splits)

lemma game_earn_ok: "game_ok g \<Longrightarrow> 0 \<le> f \<Longrightarrow> game_ok (game_earn f g)"
  unfolding game_earn_def by (rule game_ok_map) (auto split: if_splits)

lemma play_last_props:
  shows "map pc_price (play_last cs) = map pc_price cs" "list_all pcard_ok cs \<Longrightarrow> list_all pcard_ok (play_last cs)"
    "length (filter (\<lambda>c. pc_pos c = CardPos_InPlay) (play_last cs)) \<le> Suc (length (filter (\<lambda>c. pc_pos c = CardPos_InPlay) cs))"
    "(\<Sum>c \<leftarrow> play_last cs. pc_lifetime c) = (\<Sum>c \<leftarrow> cs. pc_lifetime c)" "play_last cs = [] \<longleftrightarrow> cs = []"
  by (induction cs) auto

lemma game_deal_ok:
  assumes "permutes shuffle"
  shows "list_all pcard_ok (gm_cards (game_deal shuffle g))" "in_play (game_deal shuffle g) = []"
    "mset (map pc_price (gm_cards (game_deal shuffle g))) = mset (deck_prices (game_center (game_deal shuffle g)))"
    "gm_cards (game_deal shuffle g) \<noteq> []"
proof -
  show "list_all pcard_ok (gm_cards (game_deal shuffle g))" "in_play (game_deal shuffle g) = []"
    by (simp_all add: game_deal_def Let_def in_play_def list_all_iff filter_map comp_def)
  show "mset (map pc_price (gm_cards (game_deal shuffle g))) = mset (deck_prices (game_center (game_deal shuffle g)))"
    using assms by (simp add: game_deal_def Let_def comp_def permutes_def game_center_def)
  show "gm_cards (game_deal shuffle g) \<noteq> []" using game_deal_deck [OF assms, of g] by auto
qed

lemma game_draw_ok:
  assumes "game_ok g" "permutes shuffle"
  shows "game_ok (game_draw shuffle g)" "length (in_play (game_draw shuffle g)) = 1" "gm_cards (game_draw shuffle g) \<noteq> []"
proof -
  let ?g1 = "if \<exists>c \<in> set (gm_cards g). pc_pos c = CardPos_Deck then g else game_deal shuffle g"
  have "game_ok (game_draw shuffle g) \<and> length (in_play (game_draw shuffle g)) = 1 \<and> gm_cards (game_draw shuffle g) \<noteq> []"
  proof (cases "\<exists>c \<in> set (gm_cards g). pc_pos c = CardPos_InPlay")
    case True
    then have "in_play g \<noteq> []" "gm_cards g \<noteq> []" by (auto simp: in_play_def filter_empty_conv)
    moreover have "length (in_play g) \<le> 1" using assms(1) by (simp add: game_ok_def)
    ultimately have "length (in_play g) = 1" by (cases "in_play g") auto
    then show ?thesis using True assms(1) \<open>gm_cards g \<noteq> []\<close> by (simp add: game_draw_def)
  next
    case False
    then have none: "in_play g = []" by (simp add: in_play_def filter_empty_conv)
    have g1: "list_all pcard_ok (gm_cards ?g1)" "in_play ?g1 = []" "gm_cards ?g1 \<noteq> []"
      "mset (map pc_price (gm_cards ?g1)) = mset (deck_prices (game_center ?g1))"
      using assms none game_deal_ok [OF assms(2), of g] by (auto simp: game_ok_def simp del: mset_map pcard_ok.simps split: if_splits)
    have "\<exists>c \<in> set (gm_cards ?g1). pc_pos c = CardPos_Deck" using game_deal_deck [OF assms(2)] by auto
    then have "filter (\<lambda>c. pc_pos c = CardPos_InPlay) (play_last (gm_cards ?g1)) \<noteq> []"
      using play_last_played by (auto simp: filter_empty_conv)
    moreover have "length (filter (\<lambda>c. pc_pos c = CardPos_InPlay) (play_last (gm_cards ?g1))) \<le> 1"
      using play_last_props(3) [of "gm_cards ?g1"] g1(2) by (simp add: in_play_def)
    ultimately have l: "length (filter (\<lambda>c. pc_pos c = CardPos_InPlay) (play_last (gm_cards ?g1))) = 1"
      by (cases "filter (\<lambda>c. pc_pos c = CardPos_InPlay) (play_last (gm_cards ?g1))") auto
    have d: "game_draw shuffle g = ?g1\<lparr>gm_cards := play_last (gm_cards ?g1)\<rparr>" using False by (simp add: game_draw_def Let_def)
    show ?thesis unfolding d using g1 l play_last_props(1,2,5) [of "gm_cards ?g1"]
      by (simp add: game_ok_def in_play_def game_center_def)
  qed
  then show "game_ok (game_draw shuffle g)" "length (in_play (game_draw shuffle g)) = 1" "gm_cards (game_draw shuffle g) \<noteq> []"
    by blast+
qed

subsection \<open>Runs of the module\<close>

inductive price_run :: "price_db \<Rightarrow> bool" where
  start: "price_run \<lparr>pt_centerprice = Map.empty, pt_cards = []\<rparr>"
| fee_mod: "price_run db \<Longrightarrow> permutes shuffle \<Longrightarrow> get_fee_mod pow shuffle node db = Some (m, db') \<Longrightarrow> price_run db'"
| ten_minutes: "price_run db \<Longrightarrow> price_run (update_10_minutes conn db)"
| forward: "price_run db \<Longrightarrow> price_run (forward_fee node fee db)"

lemma game_center_of: "game_center (game_of node db) = get_center_price node db"
  by (cases "pt_centerprice db node") (simp_all add: get_center_price_def game_center_def game_of_def initial_price_def)

lemma get_fee_mod_refines:
  assumes "ids_ok db" "permutes shuffle"
  obtains m db' where "get_fee_mod pow shuffle node' db = Some (m, db')" "ids_ok db'"
    "\<And>node. game_of node db' = (if node = node' then game_draw shuffle (game_of node db) else game_of node db)"
    "\<exists>c \<in> set (gm_cards (game_of node' db')). pc_pos c = CardPos_InPlay \<and> pc_price c = tf_price m"
    "tf_center m = game_center (game_of node' db')" "tf_mult m = price_to_multiplier pow (tf_price m)"
proof -
  obtain p db' where p: "get_price shuffle node' db = Some (p, db')" "ids_ok db'"
    "\<And>node. game_of node db' = (if node = node' then game_draw shuffle (game_of node db) else game_of node db)"
    "\<exists>c \<in> set (gm_cards (game_of node' db')). pc_pos c = CardPos_InPlay \<and> pc_price c = p"
    using get_price_refines [OF assms, of node'] by metis
  show thesis using that [OF _ p(2,3)] p(1,4) by (simp add: get_fee_mod_def game_center_of)
qed

lemma price_run_ok: "price_run db \<Longrightarrow> ids_ok db \<and> (\<forall>node. game_ok (game_of node db))"
proof (induction rule: price_run.induct)
  case start
  show ?case by (simp add: ids_ok_def node_cards_def game_of_def game_ok_def in_play_def)
next
  case (fee_mod db shuffle pow node m db')
  then have ok: "ids_ok db" by simp
  obtain m1 db1 where "get_fee_mod pow shuffle node db = Some (m1, db1)" "ids_ok db1"
    "\<And>node'. game_of node' db1 = (if node' = node then game_draw shuffle (game_of node' db) else game_of node' db)"
    using get_fee_mod_refines [where pow = pow, OF ok fee_mod.hyps(2), of node] by metis
  then show ?case using fee_mod game_draw_ok(1) by simp
next
  case (ten_minutes db conn)
  then show ?case by (simp add: tick_refines game_tick_ok)
next
  case (forward db node fee)
  then show ?case by (simp add: earn_refines game_earn_ok)
qed

lemma game_price_near: "game_ok g \<Longrightarrow> c \<in> set (gm_cards g) \<Longrightarrow> \<bar>pc_price c - game_center g\<bar> \<le> 2"
proof -
  assume g: "game_ok g" "c \<in> set (gm_cards g)"
  then have "set (map pc_price (gm_cards g)) = set (deck_prices (game_center g))"
    by (metis game_ok_def empty_iff list.set(1) set_mset_mset)
  then have "pc_price c \<in> set (deck_prices (game_center g))" using g(2) by auto
  then show ?thesis by (auto simp: deck_prices_eq)
qed

lemma hd_sort_desc:
  assumes "cs \<noteq> []"
  shows "hd (sort_key (\<lambda>c. - pc_earnings c) cs) \<in> set cs" "c \<in> set cs \<Longrightarrow> pc_earnings c \<le> pc_earnings (hd (sort_key (\<lambda>c. - pc_earnings c) cs))"
proof -
  let ?s = "sort_key (\<lambda>c. - pc_earnings c) cs"
  have ne: "?s \<noteq> []" using assms by (metis length_0_conv length_sort)
  then show "hd ?s \<in> set cs" by (metis hd_in_set set_sort)
  have "sorted (map (\<lambda>c. - pc_earnings c) ?s)" by (rule sorted_sort_key)
  moreover assume "c \<in> set cs"
  then have "c \<in> set ?s" by simp
  ultimately show "pc_earnings c \<le> pc_earnings (hd ?s)" using ne by (cases ?s) auto
qed

text \<open>How the centre moves at the end of a round: to a best earner, if anything was earned.\<close>

lemma game_recenter_best:
  assumes ok: "game_ok g" and d: "gm_cards g \<noteq> []" "\<forall>c \<in> set (gm_cards g). pc_pos c = CardPos_Discarded"
  shows "if \<forall>c \<in> set (gm_cards g). pc_earnings c = 0 then game_recenter g = gm_center g
    else \<exists>b \<in> set (gm_cards g). game_recenter g = Some (pc_price b) \<and> (\<forall>c \<in> set (gm_cards g). pc_earnings c \<le> pc_earnings b)"
proof -
  let ?b = "hd (sort_key (\<lambda>c. - pc_earnings c) (gm_cards g))"
  have "filter (\<lambda>c. pc_pos c = CardPos_Discarded) (gm_cards g) = gm_cards g" using d(2) by (simp add: filter_id_conv)
  then have r: "game_recenter g = (if pc_earnings ?b = 0 then gm_center g else Some (pc_price ?b))"
    using d(1) by (auto simp: game_recenter_def Let_def neq_Nil_conv simp del: sort_key_simps)
  note b = hd_sort_desc [OF d(1)]
  have "0 \<le> pc_earnings c" if "c \<in> set (gm_cards g)" for c
    using ok d(2) that by (auto simp: game_ok_def list_all_iff)
  then have "pc_earnings ?b = 0 \<longleftrightarrow> (\<forall>c \<in> set (gm_cards g). pc_earnings c = 0)" using b by (metis order_antisym)
  then show ?thesis using r b by auto
qed

definition time_left :: "game \<Rightarrow> int" where
  "time_left g = (\<Sum>c \<leftarrow> gm_cards g. pc_lifetime c)"

text \<open>A run with a round under way.\<close>

lemma permutes_rev: "permutes rev"
  by (simp add: permutes_def)

lemma price_run_started: "\<exists>db. price_run db \<and> node_cards (NodeId None) db \<noteq> []"
proof -
  let ?db = "\<lparr>pt_centerprice = Map.empty, pt_cards = []\<rparr>" and ?n = "NodeId None"
  have ok: "ids_ok ?db" "game_ok (game_of ?n ?db)" using price_run_ok [OF price_run.start] by auto
  obtain m db where m: "get_fee_mod (\<lambda>_ _. 1) rev ?n ?db = Some (m, db)" "game_of ?n db = game_draw rev (game_of ?n ?db)"
    using get_fee_mod_refines [where pow = "\<lambda>_ _. 1", OF ok(1) permutes_rev, of ?n] by metis
  have "price_run db" by (rule price_run.fee_mod [OF price_run.start permutes_rev m(1)])
  moreover have "gm_cards (game_of ?n db) \<noteq> []" unfolding m(2) by (rule game_draw_ok(3) [OF ok(2) permutes_rev])
  ultimately show ?thesis by (auto simp: game_of_def)
qed

text \<open>C13: every reachable state of the price tables is, for each node, a game in order: the node has no cards
  and no centre yet, or it has the five cards of one round, marked with the prices within two of
  the recorded centre; at most one is in play, with between 1 and 288 periods left; cards still in
  the deck are untouched, and the time of discarded ones is used up.\<close>

theorem price_game_invariant:
  assumes "price_run db"
  shows "list_all pcard_ok (gm_cards (game_of node db)) \<and> length (in_play (game_of node db)) \<le> 1
    \<and> (if node_cards node db = [] then pt_centerprice db node = None
       else let c = get_center_price node db in mset (map cd_price (node_cards node db)) = {#c, c + 1, c - 1, c + 2, c - 2#})"
proof -
  have g: "game_ok (game_of node db)" using price_run_ok [OF assms] by blast
  have p: "map pc_price (gm_cards (game_of node db)) = map cd_price (node_cards node db)" by (simp add: game_of_def strip_def)
  have n: "gm_cards (game_of node db) = [] \<longleftrightarrow> node_cards node db = []" "gm_center (game_of node db) = pt_centerprice db node"
    by (simp_all add: game_of_def)
  show ?thesis using g unfolding game_ok_def game_center_of p n
    by (auto simp: deck_prices_eq Let_def simp del: mset_map pcard_ok.simps split: if_splits)
qed

theorem price_game_invariant_witness:
  "\<exists>db. price_run db \<and> node_cards (NodeId None) db \<noteq> [] \<and> length (in_play (game_of (NodeId None) db)) \<le> 1
    \<and> (let c = get_center_price (NodeId None) db in mset (map cd_price (node_cards (NodeId None) db)) = {#c, c + 1, c - 1, c + 2, c - 2#})"
proof -
  obtain db where db: "price_run db" "node_cards (NodeId None) db \<noteq> []" using price_run_started by blast
  from price_game_invariant [OF db(1), of "NodeId None"] db show ?thesis by (intro exI [of _ db]) (simp del: mset_map)
qed

lemma game_draw_center:
  assumes "game_ok g"
  shows "\<bar>game_center (game_draw shuffle g) - game_center g\<bar> \<le> 2"
proof (cases "(\<exists>c \<in> set (gm_cards g). pc_pos c = CardPos_InPlay) \<or> (\<exists>c \<in> set (gm_cards g). pc_pos c = CardPos_Deck)")
  case True
  then show ?thesis by (auto simp: game_draw_def Let_def game_center_def)
next
  case False
  then have dis: "\<forall>c \<in> set (gm_cards g). pc_pos c = CardPos_Discarded" by (metis card_pos.exhaust)
  have d: "game_center (game_draw shuffle g) = game_center (g\<lparr>gm_center := game_recenter g\<rparr>)"
    using False by (auto simp: game_draw_def game_deal_def Let_def game_center_def)
  show ?thesis
  proof (cases "gm_cards g = []")
    case True
    then have "game_center g = 0" "game_recenter g = Some 0" using assms by (simp_all add: game_center_def game_recenter_def game_ok_def)
    then show ?thesis unfolding d by (simp add: game_center_def)
  next
    case ne: False
    show ?thesis
      unfolding d using game_recenter_best [OF assms ne dis] game_price_near [OF assms]
      by (auto simp: game_center_def split: if_splits)
  qed
qed

lemma sum_tick:
  "(\<Sum>c \<leftarrow> map (\<lambda>c. if pc_pos c = CardPos_InPlay
         then let l = pc_lifetime c - (if conn then 1 else 0)
              in c\<lparr>pc_lifetime := l, pc_pos := if l \<le> 0 then CardPos_Discarded else CardPos_InPlay\<rparr> else c) cs. pc_lifetime c)
   = (\<Sum>c \<leftarrow> cs. pc_lifetime c) - (if conn then int (length (filter (\<lambda>c. pc_pos c = CardPos_InPlay) cs)) else 0)"
  by (induction cs) (simp_all add: Let_def)

lemma time_left_zero:
  assumes "game_ok g"
  shows "time_left g = 0 \<longleftrightarrow> (\<forall>c \<in> set (gm_cards g). pc_pos c = CardPos_Discarded)" "0 \<le> time_left g"
proof -
  have "(\<Sum>c \<leftarrow> cs. pc_lifetime c) = 0 \<longleftrightarrow> (\<forall>c \<in> set cs. pc_pos c = CardPos_Discarded)" "0 \<le> (\<Sum>c \<leftarrow> cs. pc_lifetime c)"
    if "list_all pcard_ok cs" for cs
    using that
  proof (induction cs)
    case (Cons c cs)
    { case 1
      then show ?case using Cons.IH by (cases "pc_pos c") auto
    next
      case 2
      then show ?case using Cons.IH(2) by (cases "pc_pos c") auto }
  qed simp_all
  then show "time_left g = 0 \<longleftrightarrow> (\<forall>c \<in> set (gm_cards g). pc_pos c = CardPos_Discarded)" "0 \<le> time_left g"
    using assms by (simp_all add: time_left_def game_ok_def)
qed

lemma time_left_draw:
  assumes "game_ok g" "permutes shuffle"
  shows "time_left (game_draw shuffle g) = (if time_left g = 0 then 1440 else time_left g)"
proof (cases "time_left g = 0")
  case True
  then have dis: "\<forall>c \<in> set (gm_cards g). pc_pos c = CardPos_Discarded" using time_left_zero [OF assms(1)] by blast
  let ?ps = "shuffle (deck_prices (game_center (g\<lparr>gm_center := game_recenter g\<rparr>)))"
  have "mset ?ps = mset (deck_prices (game_center (g\<lparr>gm_center := game_recenter g\<rparr>)))" using assms(2) by (simp add: permutes_def)
  from mset_eq_length [OF this] have "length ?ps = 5" by (simp add: deck_prices_eq)
  then have "(\<Sum>c \<leftarrow> gm_cards (game_deal shuffle g). pc_lifetime c) = 1440"
    by (simp add: game_deal_def Let_def comp_def sum_list_triv)
  then show ?thesis using True dis by (auto simp: game_draw_def Let_def time_left_def play_last_props(4))
next
  case False
  then have "\<exists>c \<in> set (gm_cards g). pc_pos c \<noteq> CardPos_Discarded" using time_left_zero [OF assms(1)] by blast
  then have "(\<exists>c \<in> set (gm_cards g). pc_pos c = CardPos_InPlay) \<or> (\<exists>c \<in> set (gm_cards g). pc_pos c = CardPos_Deck)"
    by (metis card_pos.exhaust)
  then show ?thesis using False by (auto simp: game_draw_def Let_def time_left_def play_last_props(4))
qed

text \<open>C14: asking for a node's fee modifier always returns, also when the deck is empty and a new round has to
  be dealt. The price is that of the one card then in play, within two of the centre; the centre itself
  moves by at most two; the games of all other nodes are untouched.\<close>

theorem price_fee_returns:
  assumes run: "price_run db" and sh: "permutes shuffle"
  shows "\<exists>m db'. get_fee_mod pow shuffle node db = Some (m, db')
    \<and> map pc_price (in_play (game_of node db')) = [tf_price m] \<and> tf_center m = get_center_price node db'
    \<and> \<bar>tf_price m - tf_center m\<bar> \<le> 2 \<and> \<bar>tf_center m - get_center_price node db\<bar> \<le> 2
    \<and> tf_mult m = price_to_multiplier pow (tf_price m) \<and> (\<forall>n. n \<noteq> node \<longrightarrow> game_of n db' = game_of n db)"
proof -
  have ok: "ids_ok db" "game_ok (game_of node db)" using price_run_ok [OF run] by auto
  obtain m db' where m: "get_fee_mod pow shuffle node db = Some (m, db')"
    "\<And>n. game_of n db' = (if n = node then game_draw shuffle (game_of n db) else game_of n db)"
    "\<exists>c \<in> set (gm_cards (game_of node db')). pc_pos c = CardPos_InPlay \<and> pc_price c = tf_price m"
    "tf_center m = game_center (game_of node db')" "tf_mult m = price_to_multiplier pow (tf_price m)"
    using get_fee_mod_refines [where pow = pow, OF ok(1) sh, of node] by metis
  let ?g = "game_of node db'"
  have g: "?g = game_draw shuffle (game_of node db)" by (simp add: m(2))
  note d = game_draw_ok(1,2) [OF ok(2) sh, folded g]
  obtain c where c: "c \<in> set (gm_cards ?g)" "pc_pos c = CardPos_InPlay" "pc_price c = tf_price m" using m(3) by blast
  obtain x where x: "in_play ?g = [x]" using d(2) by (auto simp: length_Suc_conv)
  moreover have "c \<in> set (in_play ?g)" using c by (simp add: in_play_def)
  ultimately have "map pc_price (in_play ?g) = [tf_price m]" using c(3) by simp
  moreover have "\<bar>tf_price m - tf_center m\<bar> \<le> 2" using game_price_near [OF d(1) c(1)] c(3) m(4) by simp
  moreover have "\<bar>tf_center m - get_center_price node db\<bar> \<le> 2"
    using game_draw_center [OF ok(2), of shuffle] by (simp add: m(4) g game_center_of)
  moreover have "tf_center m = get_center_price node db'" by (simp only: m(4) game_center_of)
  ultimately show ?thesis using m(1,5) by (intro exI [of _ m] exI [of _ db']) (simp add: m(2))
qed

theorem price_fee_returns_witness:
  "\<exists>m db'. get_fee_mod (\<lambda>_ _. 1) rev (NodeId None) \<lparr>pt_centerprice = Map.empty, pt_cards = []\<rparr> = Some (m, db')
    \<and> map pc_price (in_play (game_of (NodeId None) db')) = [tf_price m] \<and> tf_center m = get_center_price (NodeId None) db'
    \<and> \<bar>tf_price m - tf_center m\<bar> \<le> 2 \<and> \<bar>tf_center m - get_center_price (NodeId None) \<lparr>pt_centerprice = Map.empty, pt_cards = []\<rparr>\<bar> \<le> 2
    \<and> tf_mult m = price_to_multiplier (\<lambda>_ _. 1) (tf_price m)
    \<and> (\<forall>n. n \<noteq> NodeId None \<longrightarrow> game_of n db' = game_of n \<lparr>pt_centerprice = Map.empty, pt_cards = []\<rparr>)"
  by (rule price_fee_returns [OF price_run.start permutes_rev])

text \<open>C10: the tables implement one game per node. Ten minutes tick the card in play of each connected
  node and no other; a forwarded fee is credited to the card in play of the node it left through;
  asking for the modifier draws the last card of the deck, when none is in play, and deals a new round when the
  deck is empty. No operation on one node touches the game of another.\<close>

theorem price_refines_game:
  assumes run: "price_run db" and sh: "permutes shuffle"
  shows "game_of node (update_10_minutes conn db) = game_tick (node \<in> conn) (game_of node db)
    \<and> game_of node (forward_fee node' fee db) = (if node = node' then game_earn (int (amt fee)) (game_of node db) else game_of node db)
    \<and> (\<exists>m db'. get_fee_mod pow shuffle node' db = Some (m, db')
         \<and> game_of node db' = (if node = node' then game_draw shuffle (game_of node db) else game_of node db))"
proof (intro conjI)
  have ok: "ids_ok db" using price_run_ok [OF run] by blast
  show "game_of node (update_10_minutes conn db) = game_tick (node \<in> conn) (game_of node db)" by (rule tick_refines(2) [OF ok])
  show "game_of node (forward_fee node' fee db) = (if node = node' then game_earn (int (amt fee)) (game_of node db) else game_of node db)"
    by (rule earn_refines(2) [OF ok])
  obtain m db' where "get_fee_mod pow shuffle node' db = Some (m, db')"
    "\<And>node. game_of node db' = (if node = node' then game_draw shuffle (game_of node db) else game_of node db)"
    using get_fee_mod_refines [where pow = pow, OF ok sh, of node'] by metis
  then show "\<exists>m db'. get_fee_mod pow shuffle node' db = Some (m, db')
      \<and> game_of node db' = (if node = node' then game_draw shuffle (game_of node db) else game_of node db)" by blast
qed

theorem price_refines_game_witness:
  "\<exists>db. price_run db \<and> node_cards (NodeId None) db \<noteq> []
    \<and> game_of (NodeId None) (update_10_minutes {NodeId None} db) = game_tick True (game_of (NodeId None) db)
    \<and> game_of (NodeId None) (forward_fee (NodeId None) (Amount 5) db) = game_earn 5 (game_of (NodeId None) db)
    \<and> (\<exists>m db'. get_fee_mod (\<lambda>_ _. 1) rev (NodeId None) db = Some (m, db') \<and> game_of (NodeId None) db' = game_draw rev (game_of (NodeId None) db))"
proof -
  obtain db where db: "price_run db" "node_cards (NodeId None) db \<noteq> []" using price_run_started by blast
  from price_refines_game [OF db(1) permutes_rev, of "NodeId None" "{NodeId None}" "NodeId None" "Amount 5" "\<lambda>_ _. 1"] db
  show ?thesis by (intro exI [of _ db]) simp
qed

lemma time_left_tick: "time_left (game_tick conn g) = time_left g - (if conn then int (length (in_play g)) else 0)"
  using sum_tick [of conn "gm_cards g"] by (simp add: time_left_def game_tick_def in_play_def)

lemma game_draw_recenter:
  assumes ok: "game_ok g"
  shows "if time_left g = 0 \<and> gm_cards g \<noteq> [] \<and> (\<exists>c \<in> set (gm_cards g). pc_earnings c \<noteq> 0)
     then \<exists>b \<in> set (gm_cards g). game_center (game_draw shuffle g) = pc_price b \<and> (\<forall>c \<in> set (gm_cards g). pc_earnings c \<le> pc_earnings b)
     else game_center (game_draw shuffle g) = game_center g"
proof (cases "time_left g = 0")
  case False
  then have "(\<exists>c \<in> set (gm_cards g). pc_pos c = CardPos_InPlay) \<or> (\<exists>c \<in> set (gm_cards g). pc_pos c = CardPos_Deck)"
    using time_left_zero(1) [OF ok] by (metis card_pos.exhaust)
  then have "game_center (game_draw shuffle g) = game_center g" by (auto simp: game_draw_def Let_def game_center_def)
  then show ?thesis using False by simp
next
  case True
  then have dis: "\<forall>c \<in> set (gm_cards g). pc_pos c = CardPos_Discarded" using time_left_zero(1) [OF ok] by blast
  have d: "game_center (game_draw shuffle g) = game_center (g\<lparr>gm_center := game_recenter g\<rparr>)"
    using dis by (auto simp: game_draw_def game_deal_def Let_def game_center_def)
  show ?thesis
  proof (cases "gm_cards g = []")
    case True
    then have "game_center g = 0" "game_recenter g = Some 0" using ok by (simp_all add: game_center_def game_recenter_def game_ok_def)
    then show ?thesis unfolding d using True by (simp add: game_center_def)
  next
    case ne: False
    show ?thesis unfolding d using game_recenter_best [OF ok ne dis] True ne
      by (cases "\<forall>c \<in> set (gm_cards g). pc_earnings c = 0") (auto simp: game_center_def)
  qed
qed

text \<open>C11: the length and the outcome of a round. The time left for a node's round shrinks by one in each ten
  minutes in which the node is connected with a card in play, and in no others; drawing a card keeps
  it, except that a finished round gives way to a new one of 1440 periods, 288 for each of five prices. The new
  round is centred on a price that earned most in the old one, or on the old centre where nothing was earned.\<close>

theorem price_round:
  assumes run: "price_run db" and sh: "permutes shuffle" and draw: "get_fee_mod pow shuffle node db = Some (m, db')"
  shows "time_left (game_of node (update_10_minutes conn db))
      = time_left (game_of node db) - (if node \<in> conn \<and> in_play (game_of node db) \<noteq> [] then 1 else 0)
    \<and> time_left (game_of node db') = (if time_left (game_of node db) = 0 then 1440 else time_left (game_of node db))
    \<and> (if time_left (game_of node db) = 0 \<and> node_cards node db \<noteq> [] \<and> (\<exists>c \<in> set (node_cards node db). cd_earnings c \<noteq> 0)
       then \<exists>b \<in> set (node_cards node db). get_center_price node db' = cd_price b \<and> (\<forall>c \<in> set (node_cards node db). cd_earnings c \<le> cd_earnings b)
       else get_center_price node db' = get_center_price node db)"
proof -
  let ?g = "game_of node db"
  have ok: "ids_ok db" "game_ok ?g" using price_run_ok [OF run] by auto
  have g': "game_of node db' = game_draw shuffle ?g"
    using get_fee_mod_refines [where pow = pow, OF ok(1) sh, of node] draw by (metis option.inject prod.inject)
  have "length (in_play ?g) \<le> 1" using ok(2) by (simp add: game_ok_def)
  then have "int (length (in_play ?g)) = (if in_play ?g \<noteq> [] then 1 else 0)" by (cases "in_play ?g") auto
  then have t: "time_left (game_of node (update_10_minutes conn db)) = time_left ?g - (if node \<in> conn \<and> in_play ?g \<noteq> [] then 1 else 0)"
    unfolding tick_refines(2) [OF ok(1)] time_left_tick by simp
  have s: "set (gm_cards ?g) = strip ` set (node_cards node db)" "gm_cards ?g = [] \<longleftrightarrow> node_cards node db = []"
    "\<And>c. pc_earnings (strip c) = cd_earnings c" "\<And>c. pc_price (strip c) = cd_price c" by (simp_all add: game_of_def strip_def)
  have c: "get_center_price node db' = game_center (game_draw shuffle ?g)" "get_center_price node db = game_center ?g"
    by (simp_all add: game_center_of flip: g')
  show ?thesis
    using t time_left_draw [OF ok(2) sh] game_draw_recenter [OF ok(2), of shuffle] unfolding c g' s(1,2) ball_simps bex_simps s(3,4) by simp
qed

theorem price_round_witness:
  "\<exists>db m db'. price_run db \<and> get_fee_mod (\<lambda>_ _. 1) rev (NodeId None) db = Some (m, db') \<and> node_cards (NodeId None) db \<noteq> []
    \<and> time_left (game_of (NodeId None) db') = (if time_left (game_of (NodeId None) db) = 0 then 1440 else time_left (game_of (NodeId None) db))"
proof -
  obtain db where db: "price_run db" "node_cards (NodeId None) db \<noteq> []" using price_run_started by blast
  have ok: "ids_ok db" using price_run_ok [OF db(1)] by blast
  obtain m db' where m: "get_fee_mod (\<lambda>_ _. 1) rev (NodeId None) db = Some (m, db')"
    using get_fee_mod_refines [where pow = "\<lambda>_ _. 1", OF ok permutes_rev, of "NodeId None"] by metis
  from price_round [OF db(1) permutes_rev m, of "{}"] show ?thesis
    using db m by (intro exI [of _ db] exI [of _ m] exI [of _ db']) (simp only: simp_thms)
qed

end
