(* ===== verification/Candidate_Secretary.thy ===== *)
theory Candidate_Secretary
  imports Channel_Proposals
begin

text \<open>
  The table of channel candidates and its keeper (\<open>Boss/Mod/ChannelCandidateInvestigator/Secretary.cpp\<close>), and
  the choice of a candidate to drop when there are too many (\<open>EvictionPolicy.cpp\<close>). A table is the list of its
  rows in the order in which the database returns them; rows of equal score keep it. Node ids are the key: the
  code stores their text, and \<open>Ln_Ids\<close> shows that it reads back. Shuffling and the random draw are parameters.
\<close>

subsection \<open>The table\<close>

record candidate =
  cand_proposal :: node_id
  cand_patron :: node_id
  cand_score :: int

type_synonym candidates = "candidate list"

definition is_candidate :: "node_id \<Rightarrow> candidates \<Rightarrow> bool" where
  "is_candidate node t = (length (filter (\<lambda>r. cand_proposal r = node) t) \<noteq> 0)"

definition add_candidate :: "node_id \<Rightarrow> node_id \<Rightarrow> candidates \<Rightarrow> candidates" where
  "add_candidate proposal patron t =
     (if proposal \<in> cand_proposal ` set t then t
      else t @ [\<lparr>cand_proposal = proposal, cand_patron = patron, cand_score = 0\<rparr>])"

definition get_nonnegative_candidates_count :: "candidates \<Rightarrow> nat" where
  "get_nonnegative_candidates_count t = length (filter (\<lambda>r. cand_score r \<ge> 0) t)"

definition get_for_investigation :: "(node_id list \<Rightarrow> node_id list) \<Rightarrow> nat \<Rightarrow> candidates \<Rightarrow> node_id list" where
  "get_for_investigation shuffle max_candidates t =
     (let proposals = map cand_proposal t
      in if length proposals \<le> max_candidates then proposals
         else take max_candidates (shuffle proposals))"

definition update_score :: "node_id \<Rightarrow> int \<Rightarrow> int \<Rightarrow> int \<Rightarrow> candidates \<Rightarrow> candidates" where
  "update_score node delta_score minimum_score maximum_score t =
     filter (\<lambda>r. \<not> (cand_proposal r = node \<and> cand_score r < minimum_score))
       (map (\<lambda>r. if cand_proposal r = node
                 then r\<lparr>cand_score := min maximum_score (cand_score r + delta_score)\<rparr> else r) t)"

text \<open>\<open>ORDER BY score DESC\<close>.\<close>

definition by_score :: "candidates \<Rightarrow> candidates" where
  "by_score t = sort_key (\<lambda>r. - cand_score r) t"

definition get_for_channeling :: "candidates \<Rightarrow> proposal list" where
  "get_for_channeling t =
     (let pair = (\<lambda>r. (cand_proposal r, cand_patron r));
          rv = map pair (by_score (filter (\<lambda>r. cand_score r > 0) t))
      in if length rv > 0 then rv else map pair (by_score t))"

definition remove_candidate :: "node_id \<Rightarrow> candidates \<Rightarrow> candidates" where
  "remove_candidate node t = filter (\<lambda>r. cand_proposal r \<noteq> node) t"

definition get_all :: "candidates \<Rightarrow> (node_id \<times> int) list" where
  "get_all t = map (\<lambda>r. (cand_proposal r, cand_score r)) (by_score t)"

definition get_all_with_patrons :: "candidates \<Rightarrow> (node_id \<times> node_id) list" where
  "get_all_with_patrons t = map (\<lambda>r. (cand_proposal r, cand_patron r)) (by_score t)"

text \<open>The report reads the score as a \<open>std::size_t\<close>.\<close>

definition report_entry :: "candidate \<Rightarrow> string" where
  "report_entry r =
     string_of_node (cand_proposal r) @ ''('' @ dec (unat (of_int (cand_score r) :: u64)) @ '')''"

definition report :: "candidates \<Rightarrow> string" where
  "report t =
     (let rows = by_score t; count = length rows
      in (case rows of [] \<Rightarrow> []
          | r # rs \<Rightarrow> ''Best candidates: '' @ report_entry r @ concat (map (\<lambda>r. '', '' @ report_entry r) (take 6 rs)))
         @ (if count = 0 then ''No candidates.'' else [])
         @ (if count \<ge> 8 then '' ... '' @ dec count @ '' candidates.'' else []))"

text \<open>A negative score comes out as a number near \<open>2 ^ 64\<close>.\<close>

lemma report_negative:
  "report_entry \<lparr>cand_proposal = n, cand_patron = p, cand_score = - 3\<rparr>
    = string_of_node n @ ''('' @ dec (2 ^ 64 - 3) @ '')''"
  by (simp add: report_entry_def)

subsection \<open>Whom to drop\<close>

text \<open>The first stratum that is not empty, and its name for the log.\<close>

definition pick_stratum :: "node_id list \<Rightarrow> (node_id \<rightharpoonup> verdict) \<Rightarrow> node_id set \<Rightarrow> node_id list \<times> string" where
  "pick_stratum pool verdicts spliceable =
     (let verdict = (\<lambda>n. case verdicts n of None \<Rightarrow> NoRecord | Some v \<Rightarrow> v);
          underperformers = filter (\<lambda>n. verdict n = Underperformer) pool;
          norecord_plain = filter (\<lambda>n. verdict n = NoRecord \<and> n \<notin> spliceable) pool;
          norecord_splice = filter (\<lambda>n. verdict n = NoRecord \<and> n \<in> spliceable) pool;
          keepers = filter (\<lambda>n. verdict n = Keeper) pool
      in if underperformers \<noteq> [] then (underperformers, ''underperformer'')
         else if norecord_plain \<noteq> [] then (norecord_plain, ''no-record'')
         else if norecord_splice \<noteq> [] then (norecord_splice, ''no-record, spliceable'')
         else (keepers, ''keeper''))"

definition pick ::
  "(nat \<Rightarrow> nat) \<Rightarrow> node_id list \<Rightarrow> (node_id \<rightharpoonup> verdict) \<Rightarrow> node_id set \<Rightarrow> (node_id \<times> string) result" where
  "pick draw pool verdicts spliceable =
     (if pool = [] then Inl AssertFailed
      else let (stratum, reason) = pick_stratum pool verdicts spliceable
           in Inr (stratum ! draw (length stratum - 1), reason))"

subsection \<open>The invariant of the table\<close>

definition cands_ok :: "int \<Rightarrow> int \<Rightarrow> candidates \<Rightarrow> bool" where
  "cands_ok lo hi t =
     (distinct (map cand_proposal t) \<and> list_all (\<lambda>r. lo \<le> cand_score r \<and> cand_score r \<le> hi) t)"

lemma cands_ok_empty [simp]: "cands_ok lo hi []"
  by (simp add: cands_ok_def)

lemma cands_ok_filter: "cands_ok lo hi t \<Longrightarrow> cands_ok lo hi (filter P t)"
  by (auto simp: cands_ok_def list_all_iff distinct_map_filter)

lemma cands_ok_remove [simp]: "cands_ok lo hi t \<Longrightarrow> cands_ok lo hi (remove_candidate n t)"
  by (simp add: remove_candidate_def cands_ok_filter)

lemma cands_ok_add [simp]: "cands_ok lo hi t \<Longrightarrow> lo \<le> 0 \<Longrightarrow> 0 \<le> hi \<Longrightarrow> cands_ok lo hi (add_candidate n p t)"
  by (auto simp: cands_ok_def add_candidate_def list_all_iff image_iff)

lemma cands_ok_update [simp]:
  assumes ok: "cands_ok lo hi t" and "\<bar>d\<bar> \<le> 1" and "lo \<le> hi"
  shows "cands_ok lo hi (update_score n d lo hi t)"
proof -
  let ?f = "\<lambda>r. if cand_proposal r = n then r\<lparr>cand_score := min hi (cand_score r + d)\<rparr> else r"
  have k: "map cand_proposal (map ?f t) = map cand_proposal t" by simp
  then have "distinct (map cand_proposal (map ?f t))" using ok unfolding cands_ok_def by argo
  moreover have "\<forall>r \<in> set (update_score n d lo hi t). lo \<le> cand_score r \<and> cand_score r \<le> hi"
    using ok by (auto simp: update_score_def cands_ok_def list_all_iff)
  ultimately show ?thesis
    unfolding cands_ok_def update_score_def list_all_iff by (simp add: distinct_map_filter)
qed

text \<open>The score of a candidate, if it is one.\<close>

definition score_of :: "candidates \<Rightarrow> node_id \<Rightarrow> int option" where
  "score_of t n = map_option cand_score (find (\<lambda>r. cand_proposal r = n) t)"

lemma score_of_simps [simp]:
  "score_of [] n = None"
  "score_of (r # t) n = (if cand_proposal r = n then Some (cand_score r) else score_of t n)"
  by (simp_all add: score_of_def)

lemma score_of_None: "score_of t n = None \<longleftrightarrow> n \<notin> cand_proposal ` set t"
  by (induction t) auto

lemma score_of_Some:
  "distinct (map cand_proposal t) \<Longrightarrow> score_of t n = Some s \<longleftrightarrow> (\<exists>r \<in> set t. cand_proposal r = n \<and> cand_score r = s)"
  by (induction t) (auto simp: image_iff)

lemma score_of_append [simp]:
  "score_of (t @ u) n = (case score_of t n of None \<Rightarrow> score_of u n | Some s \<Rightarrow> Some s)"
  by (induction t) auto

lemma is_candidate_score: "is_candidate n t \<longleftrightarrow> score_of t n \<noteq> None"
  by (induction t) (auto simp: is_candidate_def)

lemma score_remove: "score_of (remove_candidate n t) = (score_of t)(n := None)"
  by (rule ext, induction t) (auto simp: remove_candidate_def)

lemma score_add: "score_of (add_candidate n p t) = (if score_of t n = None then (score_of t)(n \<mapsto> 0) else score_of t)"
  using score_of_None [of t n]
  by (cases "score_of t n") (auto simp: add_candidate_def fun_eq_iff split: option.splits)

lemma score_update:
  assumes "distinct (map cand_proposal t)"
  shows "score_of (update_score n d lo hi t) =
    (case score_of t n of None \<Rightarrow> score_of t
     | Some s \<Rightarrow> (score_of t)(n := if min hi (s + d) < lo then None else Some (min hi (s + d))))"
proof
  fix m
  show "score_of (update_score n d lo hi t) m = (case score_of t n of None \<Rightarrow> score_of t
     | Some s \<Rightarrow> (score_of t)(n := if min hi (s + d) < lo then None else Some (min hi (s + d)))) m"
    using assms
  proof (induction t)
    case (Cons r t)
    then have "cand_proposal r = n \<Longrightarrow> score_of t n = None" by (simp add: score_of_None)
    with Cons show ?case by (auto simp: update_score_def split: option.splits)
  qed (simp add: update_score_def)
qed

subsection \<open>Scores over time\<close>

lemma score_bounds: "cands_ok lo hi t \<Longrightarrow> score_of t n = Some s \<Longrightarrow> lo \<le> s \<and> s \<le> hi"
  by (auto simp: cands_ok_def list_all_iff score_of_Some)

lemma cands_ok_iter:
  assumes "cands_ok lo hi t" "\<bar>d\<bar> \<le> 1" "lo \<le> hi"
  shows "cands_ok lo hi ((update_score n d lo hi ^^ k) t)"
  by (induction k) (use assms in simp_all)

lemma score_failures:
  assumes ok: "cands_ok lo hi t" and s: "score_of t n = Some s" and le: "lo \<le> hi"
  shows "score_of ((update_score n (- 1) lo hi ^^ k) t) n = (if int k \<le> s - lo then Some (s - int k) else None)"
proof (induction k)
  case 0
  then show ?case using score_bounds [OF ok s] s by simp
next
  case (Suc k)
  let ?t = "(update_score n (- 1) lo hi ^^ k) t"
  have "distinct (map cand_proposal ?t)" using cands_ok_iter [OF ok _ le, where d = "- 1" and n = n and k = k] by (simp add: cands_ok_def)
  from score_update [OF this, of n "- 1" lo hi] show ?case
    using Suc score_bounds [OF ok s] by (auto simp: min_def split: if_splits)
qed

lemma score_successes:
  assumes ok: "cands_ok lo hi t" and s: "score_of t n = Some s" and le: "lo \<le> hi"
  shows "score_of ((update_score n 1 lo hi ^^ k) t) n = Some (min hi (s + int k))"
proof (induction k)
  case 0
  then show ?case using score_bounds [OF ok s] s by (simp add: min_def)
next
  case (Suc k)
  let ?t = "(update_score n 1 lo hi ^^ k) t"
  have "distinct (map cand_proposal ?t)" using cands_ok_iter [OF ok _ le, where d = 1 and n = n and k = k] by (simp add: cands_ok_def)
  from score_update [OF this, of n 1 lo hi] show ?case
    using Suc score_bounds [OF ok s] le by (auto simp: min_def split: if_splits)
qed

subsection \<open>The candidates for channels\<close>

lemma by_score_facts [simp]:
  "set (by_score t) = set t" "mset (by_score t) = mset t" "length (by_score t) = length t" "by_score t = [] \<longleftrightarrow> t = []"
proof -
  show l: "length (by_score t) = length t" by (simp add: by_score_def)
  show "by_score t = [] \<longleftrightarrow> t = []" using l by (metis length_0_conv)
qed (simp_all add: by_score_def)

lemma by_score_sorted: "sorted_wrt (\<lambda>r r'. cand_score r \<ge> cand_score r') (by_score t)"
proof -
  have "sorted (map (\<lambda>r. - cand_score r) (by_score t))" by (simp add: by_score_def)
  then show ?thesis by (simp add: sorted_wrt_map)
qed

lemma distinct_by_score [simp]:
  "distinct (map cand_proposal (by_score t)) \<longleftrightarrow> distinct (map cand_proposal t)"
  using mset_eq_imp_distinct_iff [of "map cand_proposal (by_score t)" "map cand_proposal t"] by simp

text \<open>What the creator of channels gets: the rows the query selects, best first.\<close>

definition eligible :: "candidates \<Rightarrow> candidates" where
  "eligible t = (if \<exists>r \<in> set t. cand_score r > 0 then filter (\<lambda>r. cand_score r > 0) t else t)"

lemma get_for_channeling_eligible:
  "get_for_channeling t = map (\<lambda>r. (cand_proposal r, cand_patron r)) (by_score (eligible t))"
  by (auto simp: get_for_channeling_def eligible_def Let_def filter_empty_conv)

lemma channeling_distinct:
  assumes "cands_ok lo hi t"
  shows "distinct (map fst (get_for_channeling t))"
proof -
  have "distinct (map cand_proposal (eligible t))"
    using assms by (simp add: eligible_def cands_ok_def distinct_map_filter)
  then show ?thesis by (simp add: get_for_channeling_eligible comp_def)
qed

subsection \<open>The eviction policy\<close>

text \<open>How expendable a node is: the lower, the sooner it goes.\<close>

definition stratum :: "(node_id \<rightharpoonup> verdict) \<Rightarrow> node_id set \<Rightarrow> node_id \<Rightarrow> nat" where
  "stratum verdicts spliceable n =
     (case (case verdicts n of None \<Rightarrow> NoRecord | Some v \<Rightarrow> v) of
        Underperformer \<Rightarrow> 0
      | NoRecord \<Rightarrow> if n \<in> spliceable then 2 else 1
      | Keeper \<Rightarrow> 3)"

lemma stratum_cases:
  "stratum v spl n = 0 \<or> stratum v spl n = 1 \<or> stratum v spl n = 2 \<or> stratum v spl n = 3"
  by (simp add: stratum_def split: verdict.splits)

lemma pick_stratum_eq:
  "pick_stratum pool v spl =
    (if \<exists>n \<in> set pool. stratum v spl n = 0 then (filter (\<lambda>n. stratum v spl n = 0) pool, ''underperformer'')
     else if \<exists>n \<in> set pool. stratum v spl n = 1 then (filter (\<lambda>n. stratum v spl n = 1) pool, ''no-record'')
     else if \<exists>n \<in> set pool. stratum v spl n = 2 then (filter (\<lambda>n. stratum v spl n = 2) pool, ''no-record, spliceable'')
     else (filter (\<lambda>n. stratum v spl n = 3) pool, ''keeper''))"
proof -
  let ?v = "\<lambda>n. case v n of None \<Rightarrow> NoRecord | Some v \<Rightarrow> v"
  have st: "?v n = Underperformer \<longleftrightarrow> stratum v spl n = 0" "?v n = NoRecord \<and> n \<notin> spl \<longleftrightarrow> stratum v spl n = 1"
    "?v n = NoRecord \<and> n \<in> spl \<longleftrightarrow> stratum v spl n = 2" "?v n = Keeper \<longleftrightarrow> stratum v spl n = 3" for n
    by (cases "?v n"; simp add: stratum_def)+
  show ?thesis unfolding pick_stratum_def Let_def st by (simp add: filter_empty_conv)
qed

lemma pick_stratum_least:
  assumes "pool \<noteq> []"
  shows "fst (pick_stratum pool v spl) \<noteq> []
    \<and> set (fst (pick_stratum pool v spl)) = {n \<in> set pool. \<forall>m \<in> set pool. stratum v spl n \<le> stratum v spl m}"
proof -
  let ?s = "stratum v spl"
  have "Min (?s ` set pool) \<in> ?s ` set pool" using assms by (intro Min_in) auto
  then obtain n0 where n0: "n0 \<in> set pool" "?s n0 = Min (?s ` set pool)" by auto
  have least: "?s n0 \<le> ?s n" if "n \<in> set pool" for n using that by (simp add: n0(2))
  have no: "\<not> (\<exists>n \<in> set pool. ?s n = j)" if "j < ?s n0" for j using least that by fastforce
  have "fst (pick_stratum pool v spl) = filter (\<lambda>n. ?s n = ?s n0) pool"
  proof -
    consider "?s n0 = 0" | "?s n0 = 1" | "?s n0 = 2" | "?s n0 = 3" by (rule disjE [OF stratum_cases [of v spl n0]]) auto
    then show ?thesis
    proof cases
      case 1
      then have "\<exists>n \<in> set pool. ?s n = 0" using n0(1) by blast
      then show ?thesis by (simp only: pick_stratum_eq 1 if_True fst_conv)
    next
      case 2
      then have "\<exists>n \<in> set pool. ?s n = 1" using n0(1) by blast
      then show ?thesis using no [of 0] by (simp only: pick_stratum_eq 2 if_True if_False fst_conv zero_less_one simp_thms)
    next
      case 3
      then have "\<exists>n \<in> set pool. ?s n = 2" using n0(1) by blast
      then show ?thesis using no [of 0] no [of 1] unfolding pick_stratum_eq by (auto simp: 3)
    next
      case 4
      then show ?thesis using no [of 0] no [of 1] no [of 2] unfolding pick_stratum_eq by (auto simp: 4)
    qed
  qed
  moreover have "{n \<in> set pool. ?s n = ?s n0} = {n \<in> set pool. \<forall>m \<in> set pool. ?s n \<le> ?s m}"
    using least n0(1) by (auto simp: le_antisym)
  moreover have "filter (\<lambda>n. ?s n = ?s n0) pool \<noteq> []" using n0(1) by (auto simp: filter_empty_conv)
  ultimately show ?thesis by simp
qed

lemma pick_least:
  assumes "pick draw pool v spl = Inr (n, reason)" and "\<And>b. draw b \<le> b"
  shows "n \<in> set pool \<and> (\<forall>m \<in> set pool. stratum v spl n \<le> stratum v spl m)"
proof -
  obtain st where st: "pick_stratum pool v spl = (st, reason)" "n = st ! draw (length st - 1)" and pool: "pool \<noteq> []"
    using assms(1) by (auto simp: pick_def split: if_splits prod.splits)
  have "st \<noteq> []" using pick_stratum_least [OF pool, of v spl] st(1) by simp
  then have "draw (length st - 1) < length st" using assms(2) [of "length st - 1"] by (cases st) auto
  then have "n \<in> set st" using st(2) by simp
  then show ?thesis using pick_stratum_least [OF pool, of v spl] st(1) by auto
qed

end
