(* ===== verification/Candidate_Investigator.thy ===== *)
theory Candidate_Investigator
  imports Candidate_Secretary
begin

text \<open>
  The investigator of channel candidates: \<open>Manager.cpp\<close>, \<open>Gumshoe.cpp\<close> and \<open>Janitor.cpp\<close> of
  \<open>Boss/Mod/ChannelCandidateInvestigator\<close>. A handler is cut into tasks where the code waits for a database
  transaction or for an answer; any pending task may run next, so handlers interleave as they do on the event
  loop. A database transaction is exclusive, so what it does is one task, also where the janitor asks the dowser
  inside it. Logging is left out but for the hourly report.
\<close>

subsection \<open>State, tasks and messages\<close>

text \<open>\<open>iv_init\<close>: the database and the RPC object have come with \<open>Msg::Init\<close>. \<open>iv_cases\<close> belongs to the gumshoe.\<close>

record investigator =
  iv_init :: bool
  iv_offline :: bool
  iv_unmanaged :: "node_id set"
  iv_min_channel :: amount
  iv_table :: candidates
  iv_cases :: "node_id set"

datatype ci_task =
    InitTx
  | UnmanageTx node_id
  | CheckTask node_id node_id amount
  | AddTx node_id node_id
  | PatronTx node_id
  | CleanTx
  | HourlyTx
  | VictimTask "node_id list" nat "node_id list"
  | EvictTx node_id nat "node_id list"
  | HourlyRest nat "node_id list"
  | InvestigateTask node_id
  | ReportTx node_id bool bool
  | DisconnectTask node_id
  | RemoveTx "node_id list"
  | StatusTx
  | CandidatesTx

datatype inv_out =
    OutSolicitCandidates
  | OutPatronize node_id "node_id list"
  | OutRequestConnect string
  | OutDisconnect string
  | OutReport string
  | OutStatus "(string \<times> int) list"
  | OutCandidates "proposal list"

datatype inv_msg =
    AmountSettingsMsg amount
  | InitMsg bool
  | UnmanageMsg node_id bool
  | ProposeMsg node_id node_id
  | PatronlessMsg node_id
  | TwiceDailyMsg
  | HourlyMsg
  | ListpeersMsg "node_id list" "node_id list"
  | CreateResultMsg node_id
  | StatusMsg
  | ResponseConnectMsg string bool
  | GetCandidatesMsg

text \<open>What other modules, the node and the random engine answer.\<close>

record inv_env =
  ie_dowser :: "node_id \<Rightarrow> node_id \<Rightarrow> amount \<Rightarrow> amount"
  ie_records :: "node_id \<rightharpoonup> verdict"
  ie_listnodes :: "node_id \<Rightarrow> json option"
  ie_listpeers :: "node_id \<Rightarrow> json option"
  ie_online :: bool
  ie_shuffle :: "node_id list \<Rightarrow> node_id list"
  ie_draw :: "nat \<Rightarrow> nat"

type_synonym inv_next = "investigator \<times> ci_task list \<times> inv_out list"

definition min_good_candidates :: nat where "min_good_candidates = 8"
definition max_total_candidates :: nat where "max_total_candidates = 32"
definition min_score :: int where "min_score = - 3"
definition max_score :: int where "max_score = 24"
definition max_investigation :: nat where "max_investigation = 8"

subsection \<open>The janitor\<close>

text \<open>A null node id stands for a candidate to keep.\<close>

definition clean_up :: "(node_id \<Rightarrow> node_id \<Rightarrow> amount \<Rightarrow> amount) \<Rightarrow> amount \<Rightarrow> candidates \<Rightarrow> candidates" where
  "clean_up dowser min_channel t =
     (let candidates = get_all_with_patrons t;
          verdicts = map (\<lambda>(candidate, patron).
            if dowser candidate patron min_channel < min_channel then candidate else NodeId None) candidates
      in fold (\<lambda>candidate t. if candidate = NodeId None then t else remove_candidate candidate t) verdicts t)"

definition check_acceptable :: "(node_id \<Rightarrow> node_id \<Rightarrow> amount \<Rightarrow> amount) \<Rightarrow> node_id \<Rightarrow> node_id \<Rightarrow> amount \<Rightarrow> bool" where
  "check_acceptable dowser proposal patron min_channel = (\<not> dowser proposal patron min_channel < min_channel)"

subsection \<open>The gumshoe\<close>

text \<open>\<open>None\<close> is an RPC error.\<close>

definition peer_connected :: "json \<Rightarrow> bool" where
  "peer_connected peer =
     (case peer of JObj kvs \<Rightarrow> map_of kvs ''connected'' = Some (JBool True) | _ \<Rightarrow> False)"

definition is_connected :: "json option \<Rightarrow> bool" where
  "is_connected reply =
     (case reply of
        Some (JObj kvs) \<Rightarrow> (case map_of kvs ''peers'' of Some (JArr peers) \<Rightarrow> list_ex peer_connected peers | _ \<Rightarrow> False)
      | _ \<Rightarrow> False)"

definition investigate_core :: "(node_id \<Rightarrow> json option) \<Rightarrow> node_id \<Rightarrow> investigator \<Rightarrow> inv_next" where
  "investigate_core listpeers n s =
     (if is_connected (listpeers n) then (s, [ReportTx n True False], [])
      else (s\<lparr>iv_cases := insert n (iv_cases s)\<rparr>, [], [OutRequestConnect (string_of_node n)]))"

definition on_response_connect :: "string \<Rightarrow> bool \<Rightarrow> investigator \<Rightarrow> inv_next" where
  "on_response_connect node success s =
     (case node_of_string node of
        Inl _ \<Rightarrow> (s, [], [])
      | Inr n \<Rightarrow>
          if n \<notin> iv_cases s then (s, [], [])
          else (s\<lparr>iv_cases := iv_cases s - {n}\<rparr>, [ReportTx n success True], []))"

subsection \<open>Evicting a candidate\<close>

definition spliceable_among :: "(node_id \<Rightarrow> json option) \<Rightarrow> node_id list \<Rightarrow> node_id set" where
  "spliceable_among listnodes nodes = set (filter (\<lambda>n. spliceable_reply (listnodes n)) nodes)"

definition pick_eviction_victim :: "inv_env \<Rightarrow> bool \<Rightarrow> node_id list \<Rightarrow> (node_id \<times> string) result" where
  "pick_eviction_victim e rpc nodes =
     (let v = (\<lambda>n. case ie_records e n of None \<Rightarrow> NoRecord | Some v \<Rightarrow> v);
          verdicts = (\<lambda>n. if n \<in> set nodes then Some (v n) else None);
          norecord = filter (\<lambda>n. v n = NoRecord) nodes;
          have_underperformer = list_ex (\<lambda>n. v n = Underperformer) nodes
      in if have_underperformer \<or> norecord = [] \<or> \<not> rpc then pick (ie_draw e) nodes verdicts {}
         else pick (ie_draw e) nodes verdicts (spliceable_among (ie_listnodes e) norecord))"

subsection \<open>The manager\<close>

definition report_func :: "node_id \<Rightarrow> bool \<Rightarrow> candidates \<Rightarrow> candidates" where
  "report_func n success t = update_score n (if success then 1 else - 1) min_score max_score t"

definition inv_init_tx :: "investigator \<Rightarrow> inv_next" where
  "inv_init_tx s =
     (let t = filter (\<lambda>r. cand_proposal r \<notin> iv_unmanaged s) (iv_table s);
          good_candidates = get_nonnegative_candidates_count t
      in (s\<lparr>iv_table := t\<rparr>, [],
          if \<not> iv_offline s \<and> good_candidates < min_good_candidates then [OutSolicitCandidates] else []))"

definition inv_patron_tx :: "node_id \<Rightarrow> investigator \<Rightarrow> inv_next" where
  "inv_patron_tx node s =
     (if is_candidate node (iv_table s) then (s, [], [])
      else (s, [], [OutPatronize node (map fst (get_for_channeling (iv_table s)))]))"

definition inv_hourly_tx :: "inv_env \<Rightarrow> investigator \<Rightarrow> inv_next" where
  "inv_hourly_tx e s =
     (let all_nodes = map fst (get_all (iv_table s));
          good_candidates = get_nonnegative_candidates_count (iv_table s);
          cases = get_for_investigation (ie_shuffle e) max_investigation (iv_table s)
      in (s, [if length all_nodes \<le> max_total_candidates then HourlyRest good_candidates cases
              else VictimTask all_nodes good_candidates cases],
          [OutReport (report (iv_table s))]))"

definition inv_hourly_rest :: "inv_env \<Rightarrow> nat \<Rightarrow> node_id list \<Rightarrow> investigator \<Rightarrow> inv_next" where
  "inv_hourly_rest e good_candidates cases s =
     (let cases1 = (if ie_online e then cases else []);
          more = (if good_candidates < min_good_candidates then True
                  else ie_draw e (good_candidates + good_candidates div 2) = 0)
      in (s, map InvestigateTask cases1, if more then [OutSolicitCandidates] else []))"

fun inv_task_run :: "inv_env \<Rightarrow> ci_task \<Rightarrow> investigator \<Rightarrow> inv_next result" where
  "inv_task_run e InitTx s = Inr (inv_init_tx s)"
| "inv_task_run e (UnmanageTx n) s = Inr (s\<lparr>iv_table := remove_candidate n (iv_table s)\<rparr>, [], [])"
| "inv_task_run e (CheckTask n p min_channel) s =
     (if \<not> check_acceptable (ie_dowser e) n p min_channel then Inr (s, [], [])
      else if \<not> iv_init s then Inl UndefinedBehaviour
      else Inr (s, [AddTx n p], []))"
| "inv_task_run e (AddTx n p) s = Inr (s\<lparr>iv_table := add_candidate n p (iv_table s)\<rparr>, [], [])"
| "inv_task_run e (PatronTx n) s = Inr (inv_patron_tx n s)"
| "inv_task_run e CleanTx s = Inr (s\<lparr>iv_table := clean_up (ie_dowser e) (iv_min_channel s) (iv_table s)\<rparr>, [], [])"
| "inv_task_run e HourlyTx s = Inr (inv_hourly_tx e s)"
| "inv_task_run e (VictimTask nodes good cases) s =
     rbind (pick_eviction_victim e (iv_init s) nodes) (\<lambda>(victim, reason). Inr (s, [EvictTx victim good cases], []))"
| "inv_task_run e (EvictTx victim good cases) s =
     Inr (s\<lparr>iv_table := remove_candidate victim (iv_table s)\<rparr>, [HourlyRest good cases], [])"
| "inv_task_run e (HourlyRest good cases) s = Inr (inv_hourly_rest e good cases s)"
| "inv_task_run e (InvestigateTask n) s = Inr (investigate_core (ie_listpeers e) n s)"
| "inv_task_run e (ReportTx n success ours) s =
     Inr (s\<lparr>iv_table := report_func n success (iv_table s)\<rparr>, if ours \<and> success then [DisconnectTask n] else [], [])"
| "inv_task_run e (DisconnectTask n) s = Inr (s, [], [OutDisconnect (string_of_node n)])"
| "inv_task_run e (RemoveTx ns) s = Inr (s\<lparr>iv_table := fold remove_candidate ns (iv_table s)\<rparr>, [], [])"
| "inv_task_run e StatusTx s =
     Inr (s, [], [OutStatus (map (\<lambda>(n, score). (string_of_node n, score)) (get_all (iv_table s)))])"
| "inv_task_run e CandidatesTx s = Inr (s, [], [OutCandidates (get_for_channeling (iv_table s))])"

text \<open>Erasing the end iterator of a set, and a transaction before there is a database, are undefined.\<close>

definition on_unmanage :: "node_id \<Rightarrow> bool \<Rightarrow> investigator \<Rightarrow> (investigator \<times> ci_task list) result" where
  "on_unmanage n u s =
     (if u then Inr (s\<lparr>iv_unmanaged := insert n (iv_unmanaged s)\<rparr>, if \<not> iv_init s then [] else [UnmanageTx n])
      else if n \<in> iv_unmanaged s then Inr (s\<lparr>iv_unmanaged := iv_unmanaged s - {n}\<rparr>, [])
      else Inl UndefinedBehaviour)"

fun inv_message :: "inv_msg \<Rightarrow> investigator \<Rightarrow> inv_next result" where
  "inv_message (AmountSettingsMsg mn) s = Inr (s\<lparr>iv_min_channel := mn\<rparr>, [], [])"
| "inv_message (InitMsg off) s = Inr (s\<lparr>iv_init := True, iv_offline := off\<rparr>, [InitTx], [])"
| "inv_message (UnmanageMsg n u) s = rbind (on_unmanage n u s) (\<lambda>(s', ts). Inr (s', ts, []))"
| "inv_message (ProposeMsg n p) s =
     Inr (s, if n \<in> iv_unmanaged s then [] else [CheckTask n p (iv_min_channel s)], [])"
| "inv_message (PatronlessMsg n) s = (if \<not> iv_init s then Inl UndefinedBehaviour else Inr (s, [PatronTx n], []))"
| "inv_message TwiceDailyMsg s = Inr (s, if \<not> iv_init s then [] else [CleanTx], [])"
| "inv_message HourlyMsg s =
     (if iv_offline s then Inr (s, [], [])
      else if \<not> iv_init s then Inl UndefinedBehaviour else Inr (s, [HourlyTx], []))"
| "inv_message (ListpeersMsg connected_channeled disconnected_channeled) s =
     Inr (s, if \<not> iv_init s then [] else [RemoveTx (connected_channeled @ disconnected_channeled)], [])"
| "inv_message (CreateResultMsg n) s = Inr (s, if \<not> iv_init s then [] else [RemoveTx [n]], [])"
| "inv_message StatusMsg s = Inr (s, if \<not> iv_init s then [] else [StatusTx], [])"
| "inv_message (ResponseConnectMsg node success) s = Inr (on_response_connect node success s)"
| "inv_message GetCandidatesMsg s = (if \<not> iv_init s then Inl UndefinedBehaviour else Inr (s, [CandidatesTx], []))"

subsection \<open>The event loop\<close>

text \<open>The world counts, for each node, the investigations begun and the reports booked, online and offline.\<close>

record inv_world =
  iw_inv :: investigator
  iw_tasks :: "ci_task list"
  iw_out :: "inv_out list"
  iw_begun :: "node_id \<Rightarrow> nat"
  iw_online :: "node_id \<Rightarrow> nat"
  iw_offline :: "node_id \<Rightarrow> nat"

definition bump :: "bool \<Rightarrow> 'k \<Rightarrow> ('k \<Rightarrow> nat) \<Rightarrow> 'k \<Rightarrow> nat" where
  "bump b n f = (if b then f(n := f n + 1) else f)"

fun count_task :: "ci_task \<Rightarrow> inv_world \<Rightarrow> inv_world" where
  "count_task (InvestigateTask n) w = w\<lparr>iw_begun := bump True n (iw_begun w)\<rparr>"
| "count_task (ReportTx n success ours) w =
     w\<lparr>iw_online := bump success n (iw_online w), iw_offline := bump (\<not> success) n (iw_offline w)\<rparr>"
| "count_task _ w = w"

definition inv_advance :: "inv_next \<Rightarrow> inv_world \<Rightarrow> inv_world" where
  "inv_advance nx w =
     (case nx of (s, ts, out) \<Rightarrow> w\<lparr>iw_inv := s, iw_tasks := ts @ iw_tasks w, iw_out := rev out @ iw_out w\<rparr>)"

definition inv_restarted :: "investigator \<Rightarrow> investigator" where
  "inv_restarted s = s\<lparr>iv_init := False, iv_offline := False, iv_unmanaged := {}, iv_min_channel := Amount 0, iv_cases := {}\<rparr>"

definition inv_env_ok :: "inv_env \<Rightarrow> bool" where
  "inv_env_ok e = ((\<forall>b. ie_draw e b \<le> b) \<and> (\<forall>ns. mset (ie_shuffle e ns) = mset ns))"

inductive inv_step :: "inv_world \<Rightarrow> inv_world \<Rightarrow> bool" where
  task: "t \<in> set (iw_tasks w) \<Longrightarrow> inv_env_ok e \<Longrightarrow> inv_task_run e t (iw_inv w) = Inr nx \<Longrightarrow>
    inv_step w (inv_advance nx (count_task t (w\<lparr>iw_tasks := remove1 t (iw_tasks w)\<rparr>)))"
| message: "inv_message m (iw_inv w) = Inr nx \<Longrightarrow> inv_step w (inv_advance nx w)"
| restart: "inv_step w (w\<lparr>iw_inv := inv_restarted (iw_inv w), iw_tasks := []\<rparr>)"

inductive_cases inv_step_cases: "inv_step w w'"

definition inv_initial :: investigator where
  "inv_initial = \<lparr>iv_init = False, iv_offline = False, iv_unmanaged = {}, iv_min_channel = Amount 0, iv_table = [], iv_cases = {}\<rparr>"

definition iw_initial :: inv_world where
  "iw_initial = \<lparr>iw_inv = inv_initial, iw_tasks = [], iw_out = [], iw_begun = (\<lambda>_. 0), iw_online = (\<lambda>_. 0), iw_offline = (\<lambda>_. 0)\<rparr>"

definition inv_reachable :: "inv_world \<Rightarrow> bool" where
  "inv_reachable w = inv_step\<^sup>*\<^sup>* iw_initial w"

subsection \<open>What each task does to the scores\<close>

lemma cands_ok_fold_remove: "cands_ok lo hi t \<Longrightarrow> cands_ok lo hi (fold remove_candidate ns t)"
  by (induction ns arbitrary: t) auto

lemma clean_up_filter:
  "clean_up dowser mn t = filter (\<lambda>r. cand_proposal r = NodeId None
     \<or> \<not> (\<exists>q \<in> set t. cand_proposal q = cand_proposal r \<and> dowser (cand_proposal q) (cand_patron q) mn < mn)) t"
proof -
  let ?step = "\<lambda>c t. if c = NodeId None then t else remove_candidate c t"
  have f: "fold ?step cs u = filter (\<lambda>r. cand_proposal r = NodeId None \<or> cand_proposal r \<notin> set cs) u" for cs u
    by (induction cs arbitrary: u) (auto simp: remove_candidate_def intro!: filter_cong)
  let ?cs = "map (\<lambda>(c, p). if dowser c p mn < mn then c else NodeId None) (get_all_with_patrons t)"
  have "?cs = map (\<lambda>q. if dowser (cand_proposal q) (cand_patron q) mn < mn then cand_proposal q else NodeId None) (by_score t)"
    by (simp add: get_all_with_patrons_def)
  then have cs: "n \<in> set ?cs \<longleftrightarrow> (\<exists>q \<in> set t. n = (if dowser (cand_proposal q) (cand_patron q) mn < mn then cand_proposal q else NodeId None))" for n
    by (simp only: set_map by_score_facts image_iff)
  have "n \<in> set ?cs \<longleftrightarrow> (\<exists>q \<in> set t. cand_proposal q = n \<and> dowser (cand_proposal q) (cand_patron q) mn < mn)"
    if "n \<noteq> NodeId None" for n
    unfolding cs using that by (intro bex_cong refl) auto
  then show ?thesis
    unfolding clean_up_def Let_def f by (intro filter_cong refl) blast
qed

text \<open>The janitor removes exactly the candidates whose capacity to their patron is too small; a null id stays.\<close>

lemma clean_up_exact:
  assumes "distinct (map cand_proposal t)"
  shows "clean_up dowser mn t = filter (\<lambda>r. cand_proposal r = NodeId None \<or> \<not> dowser (cand_proposal r) (cand_patron r) mn < mn) t"
  unfolding clean_up_filter
proof (rule filter_cong [OF refl])
  fix r assume r: "r \<in> set t"
  then have "q = r" if "q \<in> set t" "cand_proposal q = cand_proposal r" for q
    using that assms by (auto simp: distinct_map inj_on_def)
  with r show "(cand_proposal r = NodeId None
      \<or> \<not> (\<exists>q \<in> set t. cand_proposal q = cand_proposal r \<and> dowser (cand_proposal q) (cand_patron q) mn < mn))
    = (cand_proposal r = NodeId None \<or> \<not> dowser (cand_proposal r) (cand_patron r) mn < mn)" by metis
qed

lemma task_cands_ok:
  assumes "inv_task_run e t s = Inr (s', ts, out)" "cands_ok min_score max_score (iv_table s)"
  shows "cands_ok min_score max_score (iv_table s')"
  using assms
  by (cases t)
     (auto simp: inv_init_tx_def inv_patron_tx_def inv_hourly_tx_def inv_hourly_rest_def investigate_core_def Let_def
       cands_ok_filter cands_ok_fold_remove report_func_def clean_up_filter min_score_def max_score_def
       rbind_eq_Inr split: if_splits)

text \<open>A task lowers or raises only the score it reports; any other change removes candidates or adds one at zero.\<close>

definition sub_scores :: "candidates \<Rightarrow> candidates \<Rightarrow> bool" where
  "sub_scores t t' = (\<forall>n s. score_of t' n = Some s \<longrightarrow> score_of t n = Some s \<or> s = 0)"

lemma sub_scores_refl [simp]: "sub_scores t t"
  by (simp add: sub_scores_def)

lemma sub_scores_filter: "sub_scores t (filter P t)" if "distinct (map cand_proposal t)"
  using that by (auto simp: sub_scores_def score_of_Some distinct_map_filter)

lemma sub_scores_remove [simp]: "sub_scores t (remove_candidate n t)"
  by (simp add: sub_scores_def score_remove)

lemma sub_scores_trans: "sub_scores t u \<Longrightarrow> sub_scores u v \<Longrightarrow> sub_scores t v"
  by (auto simp: sub_scores_def)

lemma sub_scores_fold_remove: "sub_scores t (fold remove_candidate ns t)"
  by (induction ns arbitrary: t) (auto intro: sub_scores_trans [OF sub_scores_remove])

lemma sub_scores_add [simp]: "sub_scores t (add_candidate n p t)"
  by (auto simp: sub_scores_def score_add)

lemma task_sub_scores:
  assumes "inv_task_run e t s = Inr (s', ts, out)" "\<And>n b d. t \<noteq> ReportTx n b d" "distinct (map cand_proposal (iv_table s))"
  shows "sub_scores (iv_table s) (iv_table s')"
  using assms
  by (cases t)
     (auto simp: inv_init_tx_def inv_patron_tx_def inv_hourly_tx_def inv_hourly_rest_def investigate_core_def Let_def
       sub_scores_filter sub_scores_fold_remove clean_up_filter rbind_eq_Inr split: if_splits)

subsection \<open>One report for one investigation\<close>

definition is_report :: "node_id \<Rightarrow> ci_task \<Rightarrow> bool" where
  "is_report n t = (case t of ReportTx m _ _ \<Rightarrow> m = n | _ \<Rightarrow> False)"

text \<open>Reports for a node that are still to come.\<close>

definition outstanding :: "node_id \<Rightarrow> investigator \<Rightarrow> ci_task list \<Rightarrow> nat" where
  "outstanding n s ts = length (filter (is_report n) ts) + (if n \<in> iv_cases s then 1 else 0)"

lemma is_report_simps [simp]:
  "is_report n (ReportTx m b d) \<longleftrightarrow> m = n" "(\<And>m b d. t \<noteq> ReportTx m b d) \<Longrightarrow> \<not> is_report n t"
  by (auto simp: is_report_def split: ci_task.splits)

lemma length_filter_remove1:
  "t \<in> set ts \<Longrightarrow> length (filter P (remove1 t ts)) + (if P t then 1 else 0) = length (filter P ts)"
  by (induction ts) auto

definition begins :: "node_id \<Rightarrow> ci_task \<Rightarrow> nat" where
  "begins n t = (if t = InvestigateTask n then 1 else 0)"

lemma begins_simps [simp]: "begins n (InvestigateTask m) = (if m = n then 1 else 0)"
  "(\<And>m. t \<noteq> InvestigateTask m) \<Longrightarrow> begins n t = 0"
  by (simp_all add: begins_def)

lemma task_outstanding:
  assumes "inv_task_run e t s = Inr (s', ts, out)"
  shows "outstanding n s' ts \<le> outstanding n s [] + begins n t"
  using assms
  by (cases t)
     (auto simp: outstanding_def inv_init_tx_def inv_patron_tx_def inv_hourly_tx_def inv_hourly_rest_def
       investigate_core_def Let_def filter_empty_conv rbind_eq_Inr split: if_splits)

lemma message_outstanding:
  assumes "inv_message m s = Inr (s', ts, out)"
  shows "outstanding n s' ts \<le> outstanding n s []"
  using assms
  by (cases m)
     (auto simp: outstanding_def on_unmanage_def on_response_connect_def rbind_eq_Inr split: if_splits sum.splits)

lemma message_table: "inv_message m s = Inr (s', ts, out) \<Longrightarrow> iv_table s' = iv_table s"
  by (cases m) (auto simp: on_unmanage_def on_response_connect_def rbind_eq_Inr split: if_splits sum.splits)

lemma message_out: "inv_message m s = Inr (s', ts, out) \<Longrightarrow> out = []"
  by (cases m) (auto simp: on_unmanage_def on_response_connect_def rbind_eq_Inr split: if_splits sum.splits)

lemma task_candidates:
  assumes "inv_task_run e t s = Inr (s', ts, out)" "cands_ok min_score max_score (iv_table s)" "OutCandidates ps \<in> set out"
  shows "distinct (map fst ps)"
  using assms channeling_distinct [OF assms(2)]
  by (cases t) (auto simp: inv_init_tx_def inv_patron_tx_def inv_hourly_tx_def inv_hourly_rest_def
      investigate_core_def Let_def rbind_eq_Inr split: if_splits)

subsection \<open>The invariant\<close>

definition scores_ok :: "inv_world \<Rightarrow> bool" where
  "scores_ok w = (\<forall>n s. score_of (iv_table (iw_inv w)) n = Some s \<longrightarrow>
     - int (iw_offline w n) \<le> s \<and> s \<le> int (iw_online w n))"

definition inv_invar :: "inv_world \<Rightarrow> bool" where
  "inv_invar w =
     (cands_ok min_score max_score (iv_table (iw_inv w)) \<and> scores_ok w
      \<and> (\<forall>n. iw_online w n + iw_offline w n + outstanding n (iw_inv w) (iw_tasks w) \<le> iw_begun w n)
      \<and> (\<forall>ps. OutCandidates ps \<in> set (iw_out w) \<longrightarrow> distinct (map fst ps)))"

lemma count_task_frame [simp]:
  "iw_inv (count_task t w) = iw_inv w" "iw_tasks (count_task t w) = iw_tasks w" "iw_out (count_task t w) = iw_out w"
  by (cases t; simp)+

lemma inv_advance_simps [simp]:
  "iw_inv (inv_advance (s, ts, out) w) = s" "iw_tasks (inv_advance (s, ts, out) w) = ts @ iw_tasks w"
  "iw_out (inv_advance (s, ts, out) w) = rev out @ iw_out w" "iw_begun (inv_advance (s, ts, out) w) = iw_begun w"
  "iw_online (inv_advance (s, ts, out) w) = iw_online w" "iw_offline (inv_advance (s, ts, out) w) = iw_offline w"
  by (simp_all add: inv_advance_def)

lemma count_task_totals:
  "iw_online (count_task t w) n + iw_offline (count_task t w) n
     = iw_online w n + iw_offline w n + (if is_report n t then 1 else 0)"
  "iw_begun (count_task t w) n = iw_begun w n + begins n t"
  by (cases t; simp add: bump_def)+

lemma outstanding_append: "outstanding n s (ts @ us) = outstanding n s ts + length (filter (is_report n) us)"
  by (simp add: outstanding_def)

lemma count_task_mono:
  "iw_online w n \<le> iw_online (count_task t w) n" "iw_offline w n \<le> iw_offline (count_task t w) n"
  by (cases t; simp add: bump_def)+

lemma report_score:
  assumes tbl: "cands_ok min_score max_score t" and x: "score_of (report_func m b t) n = Some x"
  obtains s where "score_of t n = Some s" "s \<le> x + (if n = m \<and> \<not> b then 1 else 0)"
    "x \<le> s + (if n = m \<and> b then 1 else 0)"
proof -
  have d: "distinct (map cand_proposal t)" using tbl by (simp add: cands_ok_def)
  show ?thesis
  proof (cases "score_of t m")
    case None
    then have "score_of t n = Some x" using x score_update [OF d, of m] by (simp add: report_func_def)
    then show ?thesis by (intro that) auto
  next
    case (Some s)
    note bounds = score_bounds [OF tbl Some]
    show ?thesis
    proof (cases "n = m")
      case True
      with x Some bounds score_update [OF d, of m "if b then 1 else - 1" min_score max_score]
      have "s \<le> x + (if n = m \<and> \<not> b then 1 else 0) \<and> x \<le> s + (if n = m \<and> b then 1 else 0)"
        by (auto simp: report_func_def min_def split: if_splits)
      with that Some True show ?thesis by blast
    next
      case False
      with x Some score_update [OF d, of m "if b then 1 else - 1" min_score max_score]
      have "score_of t n = Some x" by (simp add: report_func_def split: if_splits)
      then show ?thesis by (intro that) auto
    qed
  qed
qed

lemma task_scores_ok:
  assumes run: "inv_task_run e t (iw_inv w) = Inr (s', ts, out)" and ok: "scores_ok w"
    and tbl: "cands_ok min_score max_score (iv_table (iw_inv w))"
  shows "scores_ok (inv_advance (s', ts, out) (count_task t (w\<lparr>iw_tasks := us\<rparr>)))"
proof (cases "\<exists>m b d. t = ReportTx m b d")
  case True
  then obtain m b d where t: "t = ReportTx m b d" by blast
  have "iv_table s' = report_func m b (iv_table (iw_inv w))" using run t by auto
  moreover have "- int (bump (\<not> b) m (iw_offline w) n) \<le> x \<and> x \<le> int (bump b m (iw_online w) n)"
    if x: "score_of (report_func m b (iv_table (iw_inv w))) n = Some x" for n x
  proof -
    obtain s where s: "score_of (iv_table (iw_inv w)) n = Some s" "s \<le> x + (if n = m \<and> \<not> b then 1 else 0)"
      "x \<le> s + (if n = m \<and> b then 1 else 0)"
      using report_score [OF tbl x] .
    then have "- int (iw_offline w n) \<le> s \<and> s \<le> int (iw_online w n)" using ok by (simp add: scores_ok_def)
    with s(2,3) show ?thesis by (auto simp: bump_def split: if_splits)
  qed
  ultimately show ?thesis by (simp add: t scores_ok_def)
next
  case False
  have "sub_scores (iv_table (iw_inv w)) (iv_table s')"
    using task_sub_scores [OF run] False tbl by (auto simp: cands_ok_def)
  then show ?thesis
    using ok count_task_mono [of "w\<lparr>iw_tasks := us\<rparr>" _ t] unfolding scores_ok_def sub_scores_def
    by simp (smt (verit) of_nat_le_iff of_nat_0_le_iff)
qed

lemma inv_invar_step:
  assumes "inv_step w w'" "inv_invar w"
  shows "inv_invar w'"
  using assms
proof (cases rule: inv_step.cases)
  case (task t e nx)
  obtain s' ts out where nx: "nx = (s', ts, out)" by (cases nx)
  let ?v = "w\<lparr>iw_tasks := remove1 t (iw_tasks w)\<rparr>"
  have w': "w' = inv_advance (s', ts, out) (count_task t ?v)" using task nx by simp
  have run: "inv_task_run e t (iw_inv w) = Inr (s', ts, out)" using task nx by simp
  have inv: "cands_ok min_score max_score (iv_table (iw_inv w))" "scores_ok w"
    "\<And>n. iw_online w n + iw_offline w n + outstanding n (iw_inv w) (iw_tasks w) \<le> iw_begun w n"
    "\<And>ps. OutCandidates ps \<in> set (iw_out w) \<Longrightarrow> distinct (map fst ps)"
    using assms(2) by (simp_all add: inv_invar_def)
  have "iw_online w' n + iw_offline w' n + outstanding n (iw_inv w') (iw_tasks w') \<le> iw_begun w' n" for n
    using inv(3) [of n] task_outstanding [OF run, of n] length_filter_remove1 [OF task(2), of "is_report n"]
      count_task_totals [of t ?v n]
    by (simp add: w' outstanding_append) (simp add: outstanding_def split: if_splits)
  moreover have "distinct (map fst ps)" if "OutCandidates ps \<in> set (iw_out w')" for ps
    using that inv(4) task_candidates [OF run inv(1)] by (auto simp: w')
  ultimately show ?thesis
    using task_cands_ok [OF run inv(1)] task_scores_ok [OF run inv(2,1), of "remove1 t (iw_tasks w)"]
    by (simp add: inv_invar_def w')
next
  case (message m nx)
  obtain s' ts out where nx: "nx = (s', ts, out)" by (cases nx)
  with message have run: "inv_message m (iw_inv w) = Inr (s', ts, out)" by simp
  have "outstanding n s' (ts @ iw_tasks w) \<le> outstanding n (iw_inv w) (iw_tasks w)" for n
    using message_outstanding [OF run, of n] by (simp add: outstanding_def split: if_splits)
  then have "iw_online w n + iw_offline w n + outstanding n s' (ts @ iw_tasks w) \<le> iw_begun w n" for n
    using assms(2) by (meson add_left_mono inv_invar_def le_trans)
  then show ?thesis
    using assms(2) message_table [OF run] message_out [OF run]
    by (simp add: message(1) nx inv_invar_def scores_ok_def)
next
  case restart
  then show ?thesis
    using assms(2) by (auto simp: inv_invar_def scores_ok_def inv_restarted_def outstanding_def dest: spec intro: add_leD1)
qed

lemma inv_invar_reachable: "inv_reachable w \<Longrightarrow> inv_invar w"
  unfolding inv_reachable_def
proof (induction rule: rtranclp_induct)
  case base
  show ?case by (simp add: iw_initial_def inv_initial_def inv_invar_def scores_ok_def outstanding_def)
next
  case (step y z)
  then show ?case using inv_invar_step by blast
qed

subsection \<open>Results\<close>

text \<open>C23: the table of candidates, however the handlers of the investigator interleave and whenever the program
  restarts: no node is in it twice, every score lies between -3 and 24, a score is no higher than the number of
  times the node was found online and no lower than minus the number of times it was found offline, and these
  findings together are never more than the investigations begun: no investigation counts twice.\<close>

theorem candidate_scores:
  assumes "inv_reachable w"
  shows "distinct (map cand_proposal (iv_table (iw_inv w)))
    \<and> (\<forall>n s. score_of (iv_table (iw_inv w)) n = Some s \<longrightarrow>
         - 3 \<le> s \<and> s \<le> 24 \<and> - int (iw_offline w n) \<le> s \<and> s \<le> int (iw_online w n))
    \<and> (\<forall>n. iw_online w n + iw_offline w n \<le> iw_begun w n)"
proof -
  have i: "inv_invar w" using inv_invar_reachable [OF assms] .
  then have tbl: "cands_ok min_score max_score (iv_table (iw_inv w))" by (simp add: inv_invar_def)
  have "- 3 \<le> s \<and> s \<le> 24 \<and> - int (iw_offline w n) \<le> s \<and> s \<le> int (iw_online w n)"
    if s: "score_of (iv_table (iw_inv w)) n = Some s" for n s
    using i score_bounds [OF tbl s] s by (auto simp: inv_invar_def scores_ok_def min_score_def max_score_def)
  moreover have "iw_online w n + iw_offline w n \<le> iw_begun w n" for n
    using i unfolding inv_invar_def by (meson add_leD1)
  ultimately show ?thesis using tbl by (simp add: cands_ok_def)
qed

lemma candidates_distinct:
  "inv_reachable w \<Longrightarrow> OutCandidates ps \<in> set (iw_out w) \<Longrightarrow> distinct (map fst ps)"
  using inv_invar_reachable by (simp add: inv_invar_def)

text \<open>C26: how long a candidate lasts. Found online \<open>k\<close> times its score rises by that many, up to 24; found
  offline \<open>j\<close> times after that it is still a candidate exactly when its score stays at -3 or above.\<close>

theorem candidate_lifetime:
  assumes "cands_ok min_score max_score t" "score_of t n = Some s"
  shows "score_of ((report_func n False ^^ j) ((report_func n True ^^ k) t)) n =
    (let p = min 24 (s + int k) in if int j \<le> p + 3 then Some (p - int j) else None)"
proof -
  have r: "report_func n b = update_score n (if b then 1 else - 1) min_score max_score" for b
    by (simp add: fun_eq_iff report_func_def)
  let ?t = "(update_score n 1 min_score max_score ^^ k) t"
  have le: "min_score \<le> max_score" by (simp add: min_score_def max_score_def)
  have "cands_ok min_score max_score ?t" using cands_ok_iter [OF assms(1) _ le, where d = 1 and n = n and k = k] by simp
  from score_failures [OF this score_successes [OF assms le] le, of j] show ?thesis
    by (simp add: r Let_def min_score_def max_score_def)
qed

lemma pick_cong:
  assumes "\<And>n. n \<in> set pool \<Longrightarrow> stratum v spl n = stratum v' spl' n"
  shows "pick draw pool v spl = pick draw pool v' spl'"
proof -
  have f: "filter (\<lambda>n. stratum v spl n = k) pool = filter (\<lambda>n. stratum v' spl' n = k) pool" for k
    using assms by (intro filter_cong) simp_all
  have e: "(\<exists>n \<in> set pool. stratum v spl n = k) \<longleftrightarrow> (\<exists>n \<in> set pool. stratum v' spl' n = k)" for k
    using assms by (intro bex_cong) simp_all
  show ?thesis unfolding pick_def pick_stratum_eq f e ..
qed

lemma pick_underperformer:
  assumes n: "n \<in> set pool" "stratum v spl n = 0" and z: "\<And>n. stratum v spl n = 0 \<longleftrightarrow> stratum v' spl' n = 0"
  shows "pick draw pool v spl = pick draw pool v' spl'"
proof -
  have "\<exists>n \<in> set pool. stratum v' spl' n = 0" "\<exists>n \<in> set pool. stratum v spl n = 0" using n z by auto
  then show ?thesis by (simp only: pick_def pick_stratum_eq z if_True)
qed

text \<open>C25: the candidate dropped when there are too many. Asking the node about splicing only where it can matter
  changes nothing: the choice is the one made with the answers for every node. A victim is always found, and no
  candidate is more expendable: an underperformer goes before a node without a record, one that cannot splice
  before one that can, and a keeper goes only when there are only keepers.\<close>

theorem eviction_victim:
  assumes "nodes \<noteq> []" "inv_env_ok e"
  shows "pick_eviction_victim e True nodes = pick (ie_draw e) nodes (ie_records e) {m. spliceable_reply (ie_listnodes e m)}
    \<and> (\<exists>n reason. pick_eviction_victim e True nodes = Inr (n, reason) \<and> n \<in> set nodes
       \<and> (\<forall>m \<in> set nodes. stratum (ie_records e) {m. spliceable_reply (ie_listnodes e m)} n
                            \<le> stratum (ie_records e) {m. spliceable_reply (ie_listnodes e m)} m))"
proof -
  let ?v = "\<lambda>n. case ie_records e n of None \<Rightarrow> NoRecord | Some v \<Rightarrow> v"
  let ?vs = "\<lambda>n. if n \<in> set nodes then Some (?v n) else None"
  let ?spl = "{m. spliceable_reply (ie_listnodes e m)}"
  have eq: "pick_eviction_victim e True nodes = pick (ie_draw e) nodes (ie_records e) ?spl"
  proof (cases "(\<exists>n \<in> set nodes. ?v n = Underperformer) \<or> (\<forall>n \<in> set nodes. ?v n \<noteq> NoRecord)")
    case True
    then have "pick_eviction_victim e True nodes = pick (ie_draw e) nodes ?vs {}"
      by (auto simp: pick_eviction_victim_def Let_def list_ex_iff filter_empty_conv)
    also have "\<dots> = pick (ie_draw e) nodes (ie_records e) {}"
      by (rule pick_cong) (simp add: stratum_def)
    also have "\<dots> = pick (ie_draw e) nodes (ie_records e) ?spl"
    proof (cases "\<exists>n \<in> set nodes. ?v n = Underperformer")
      case True
      then obtain n where "n \<in> set nodes" "?v n = Underperformer" by blast
      then show ?thesis
        by (intro pick_underperformer [of n]) (simp_all add: stratum_def split: verdict.splits)
    next
      case False
      then have "\<forall>n \<in> set nodes. ?v n \<noteq> NoRecord" using True by blast
      then show ?thesis by (intro pick_cong) (simp add: stratum_def split: verdict.splits)
    qed
    finally show ?thesis .
  next
    case False
    then have "pick_eviction_victim e True nodes
        = pick (ie_draw e) nodes ?vs (spliceable_among (ie_listnodes e) (filter (\<lambda>n. ?v n = NoRecord) nodes))"
      by (auto simp: pick_eviction_victim_def Let_def list_ex_iff filter_empty_conv)
    also have "\<dots> = pick (ie_draw e) nodes (ie_records e) ?spl"
      by (rule pick_cong) (simp add: stratum_def spliceable_among_def split: verdict.splits)
    finally show ?thesis .
  qed
  obtain n reason where p: "pick (ie_draw e) nodes (ie_records e) ?spl = Inr (n, reason)"
    using assms(1) by (cases "pick_stratum nodes (ie_records e) ?spl") (simp add: pick_def)
  have "n \<in> set nodes \<and> (\<forall>m \<in> set nodes. stratum (ie_records e) ?spl n \<le> stratum (ie_records e) ?spl m)"
    using assms(2) by (intro pick_least [OF p]) (simp add: inv_env_ok_def)
  with eq p show ?thesis by simp
qed

subsection \<open>Examples\<close>

definition ex_inv_env :: inv_env where
  "ex_inv_env = \<lparr>ie_dowser = (\<lambda>_ _ _. Amount 1000), ie_records = (\<lambda>_. None), ie_listnodes = (\<lambda>_. None),
     ie_listpeers = (\<lambda>_. None), ie_online = True, ie_shuffle = (\<lambda>ns. ns), ie_draw = (\<lambda>b. 0)\<rparr>"

lemma ex_inv_env_ok: "inv_env_ok ex_inv_env"
  by (simp add: inv_env_ok_def ex_inv_env_def)

lemma inv_reachable_step: "inv_reachable w \<Longrightarrow> inv_step w w' \<Longrightarrow> inv_reachable w'"
  by (simp add: inv_reachable_def)

lemma inv_reachable_message:
  assumes "inv_reachable w" "inv_message m (iw_inv w) = Inr nx"
  shows "inv_reachable (inv_advance nx w)"
  using inv_reachable_step [OF assms(1)] inv_step.message [OF assms(2)] by blast

lemma inv_reachable_task:
  assumes "inv_reachable w" "t \<in> set (iw_tasks w)" "inv_task_run ex_inv_env t (iw_inv w) = Inr nx"
  shows "inv_reachable (inv_advance nx (count_task t (w\<lparr>iw_tasks := remove1 t (iw_tasks w)\<rparr>)))"
  using inv_reachable_step [OF assms(1)] inv_step.task [OF assms(2) ex_inv_env_ok assms(3)] by blast

text \<open>A node taken out of management while its proposal is being checked becomes a candidate all the same, and
  nothing is pending that would remove it.\<close>

definition ex_unmanaged :: inv_world where
  "ex_unmanaged = iw_initial\<lparr>iw_inv := \<lparr>iv_init = True, iv_offline = True, iv_unmanaged = {NodeId None}, iv_min_channel = Amount 0,
     iv_table = [\<lparr>cand_proposal = NodeId None, cand_patron = NodeId None, cand_score = 0\<rparr>], iv_cases = {}\<rparr>\<rparr>"

lemma unmanaged_candidate: "inv_reachable ex_unmanaged"
proof -
  let ?n = "NodeId None"
  let ?s = "inv_initial\<lparr>iv_init := True, iv_offline := True\<rparr>"
  note defs = inv_advance_def iw_initial_def inv_initial_def
  have 0: "inv_reachable iw_initial" by (simp add: inv_reachable_def)
  have 1: "inv_reachable (iw_initial\<lparr>iw_inv := ?s, iw_tasks := [InitTx]\<rparr>)"
    using inv_reachable_message [OF 0, of "InitMsg True"] by (simp add: defs)
  have 2: "inv_reachable (iw_initial\<lparr>iw_inv := ?s\<rparr>)"
    using inv_reachable_task [OF 1, of InitTx] by (simp add: defs inv_init_tx_def)
  have 3: "inv_reachable (iw_initial\<lparr>iw_inv := ?s, iw_tasks := [CheckTask ?n ?n (Amount 0)]\<rparr>)"
    using inv_reachable_message [OF 2, of "ProposeMsg ?n ?n"] by (simp add: defs)
  let ?u = "?s\<lparr>iv_unmanaged := {?n}\<rparr>"
  have 4: "inv_reachable (iw_initial\<lparr>iw_inv := ?u, iw_tasks := [UnmanageTx ?n, CheckTask ?n ?n (Amount 0)]\<rparr>)"
    using inv_reachable_message [OF 3, of "UnmanageMsg ?n True"] by (simp add: defs on_unmanage_def)
  have 5: "inv_reachable (iw_initial\<lparr>iw_inv := ?u, iw_tasks := [CheckTask ?n ?n (Amount 0)]\<rparr>)"
    using inv_reachable_task [OF 4, of "UnmanageTx ?n"] by (simp add: defs remove_candidate_def)
  have 6: "inv_reachable (iw_initial\<lparr>iw_inv := ?u, iw_tasks := [AddTx ?n ?n]\<rparr>)"
    using inv_reachable_task [OF 5, of "CheckTask ?n ?n (Amount 0)"]
    by (simp add: defs check_acceptable_def ex_inv_env_def amount_order)
  show ?thesis
    using inv_reachable_task [OF 6, of "AddTx ?n ?n"] by (simp add: defs add_candidate_def ex_unmanaged_def)
qed

theorem candidate_scores_witness:
  "score_of (iv_table (iw_inv ex_unmanaged)) (NodeId None) = Some 0 \<and> iw_online ex_unmanaged (NodeId None) = 0
   \<and> distinct (map cand_proposal (iv_table (iw_inv ex_unmanaged)))"
  using candidate_scores [OF unmanaged_candidate] by (simp add: ex_unmanaged_def iw_initial_def)

theorem candidate_lifetime_witness:
  "score_of ((report_func (NodeId None) False ^^ 30) ((report_func (NodeId None) True ^^ 100)
     [\<lparr>cand_proposal = NodeId None, cand_patron = NodeId None, cand_score = 0\<rparr>])) (NodeId None) = None"
  using candidate_lifetime [of "[\<lparr>cand_proposal = NodeId None, cand_patron = NodeId None, cand_score = 0\<rparr>]" "NodeId None" 0 30 100]
  by (simp add: cands_ok_def min_score_def max_score_def)

theorem eviction_victim_witness:
  "\<exists>n reason. pick_eviction_victim ex_inv_env True [NodeId None, NodeId (Some [2])] = Inr (n, reason)
     \<and> n \<in> set [NodeId None, NodeId (Some [2])]"
  using eviction_victim [of "[NodeId None, NodeId (Some [2])]", OF _ ex_inv_env_ok] by blast

end
