(* ===== verification/Unmanaged_Manager.thy ===== *)
theory Unmanaged_Manager
  imports Fee_Manager Candidate_Investigator "HOL-Library.List_Lexorder" "HOL-Library.Char_ord"
begin

text \<open>
  Taking nodes out of management: \<open>Boss/Mod/UnmanagedManager.cpp\<close> with its command \<open>clboss-unmanage\<close> and tables, and
  the four modules it informs: the fee setter (\<open>lnfee\<close>), the investigator of candidates (\<open>open\<close>),
  \<open>RebalanceUnmanager.cpp\<close> (\<open>balance\<close>) and \<open>PeerComplaintsDesk/Unmanager.cpp\<close> (\<open>close\<close>). A module relies on being
  told only what changes; the locale \<open>unmanage_client\<close> states what it promises for that. A set of tags is the
  sorted list of its elements, the order in which the code goes through it.
\<close>

subsection \<open>Tags\<close>

fun split_comma :: "string \<Rightarrow> string list" where
  "split_comma [] = [[]]"
| "split_comma (c # cs) =
     (if c = CHR '','' then [] # split_comma cs
      else case split_comma cs of [] \<Rightarrow> [[c]] | f # fs \<Rightarrow> (c # f) # fs)"

definition tag_set :: "string list \<Rightarrow> string list" where
  "tag_set ts = remdups (sort ts)"

definition split_tags :: "string \<Rightarrow> string list" where
  "split_tags tagspec = tag_set (filter (\<lambda>t. t \<noteq> []) (split_comma tagspec))"

definition combine_tags :: "string list \<Rightarrow> string" where
  "combine_tags tags = (case tags of [] \<Rightarrow> [] | t # ts \<Rightarrow> t @ concat (map (\<lambda>t. '', '' @ t) ts))"

subsection \<open>The tables\<close>

record unmanaged_db =
  ud_nodes :: "(nat \<times> node_id) list"
  ud_tags :: "(nat \<times> string) list"

text \<open>A \<open>NULL\<close> key becomes one more than the largest.\<close>

definition next_dbid :: "(nat \<times> node_id) list \<Rightarrow> nat" where
  "next_dbid ns = Suc (foldr max (map fst ns) 0)"

definition get_nodedbid :: "node_id \<Rightarrow> unmanaged_db \<Rightarrow> nat \<times> unmanaged_db" where
  "get_nodedbid n d =
     (case find (\<lambda>r. snd r = n) (ud_nodes d) of
        Some r \<Rightarrow> (fst r, d)
      | None \<Rightarrow> (next_dbid (ud_nodes d), d\<lparr>ud_nodes := ud_nodes d @ [(next_dbid (ud_nodes d), n)]\<rparr>))"

definition get_tags :: "node_id \<Rightarrow> unmanaged_db \<Rightarrow> string list \<times> unmanaged_db" where
  "get_tags n d =
     (let (i, d1) = get_nodedbid n d in (tag_set (map snd (filter (\<lambda>r. fst r = i) (ud_tags d1))), d1))"

definition set_tags :: "node_id \<Rightarrow> string list \<Rightarrow> unmanaged_db \<Rightarrow> unmanaged_db" where
  "set_tags n tags d =
     (let (i, d1) = get_nodedbid n d
      in d1\<lparr>ud_tags := filter (\<lambda>r. fst r \<noteq> i) (ud_tags d1) @ map (\<lambda>t. (i, t)) tags\<rparr>)"

subsection \<open>The modules that are informed\<close>

definition rebalance_unmanage :: "node_id \<Rightarrow> bool \<Rightarrow> node_id set \<Rightarrow> node_id set" where
  "rebalance_unmanage n unmanage unmanaged = (if unmanage then insert n unmanaged else unmanaged - {n})"

definition desk_unmanage :: "node_id \<Rightarrow> bool \<Rightarrow> node_id set \<Rightarrow> node_id set result" where
  "desk_unmanage node is_unmanaged unmanaged =
     (if is_unmanaged then Inr (insert node unmanaged)
      else if node \<in> unmanaged then Inr (unmanaged - {node}) else Inl UndefinedBehaviour)"

record unmanage_clients =
  uc_setter :: fee_setter
  uc_open :: investigator
  uc_balance :: "node_id set"
  uc_close :: "node_id set"

text \<open>The functions in the map \<open>tag_informs\<close>; \<open>operator[]\<close> puts an empty one for a tag that is not there.\<close>

datatype inform_fun = InformLnfee | InformOpen | InformBalance | InformClose | InformEmpty

text \<open>Calling one: what it does at once, and the tasks of the action it returns.\<close>

fun inform :: "inform_fun \<Rightarrow> node_id \<Rightarrow> bool \<Rightarrow> unmanage_clients \<Rightarrow> (unmanage_clients \<times> ci_task list) result" where
  "inform InformLnfee n u c = rbind (setter_unmanage n u (uc_setter c)) (\<lambda>s. Inr (c\<lparr>uc_setter := s\<rparr>, []))"
| "inform InformOpen n u c = rbind (on_unmanage n u (uc_open c)) (\<lambda>(s, ts). Inr (c\<lparr>uc_open := s\<rparr>, ts))"
| "inform InformBalance n u c = Inr (c\<lparr>uc_balance := rebalance_unmanage n u (uc_balance c)\<rparr>, [])"
| "inform InformClose n u c = rbind (desk_unmanage n u (uc_close c)) (\<lambda>s. Inr (c\<lparr>uc_close := s\<rparr>, []))"
| "inform InformEmpty n u c = Inl BadFunctionCall"

subsection \<open>The manager\<close>

record unmanaged_manager =
  um_db :: unmanaged_db
  um_soliciting :: bool
  um_informs :: "string \<rightharpoonup> inform_fun"
  um_clients :: unmanage_clients

definition tag_inform :: "string \<Rightarrow> unmanaged_manager \<Rightarrow> inform_fun \<times> unmanaged_manager" where
  "tag_inform tag s =
     (case um_informs s tag of
        Some f \<Rightarrow> (f, s)
      | None \<Rightarrow> (InformEmpty, s\<lparr>um_informs := (um_informs s)(tag \<mapsto> InformEmpty)\<rparr>))"

definition nodes_with_tag :: "string \<Rightarrow> unmanaged_db \<Rightarrow> node_id list" where
  "nodes_with_tag tag d = map snd (filter (\<lambda>(i, n). (i, tag) \<in> set (ud_tags d)) (ud_nodes d))"

fun initial_informs :: "inform_fun \<Rightarrow> node_id list \<Rightarrow> unmanage_clients \<Rightarrow> (unmanage_clients \<times> ci_task list) result" where
  "initial_informs f [] c = Inr (c, [])"
| "initial_informs f (n # ns) c =
     rbind (inform f n True c) (\<lambda>(c1, ts). rbind (initial_informs f ns c1) (\<lambda>(c2, us). Inr (c2, ts @ us)))"

definition on_provide_unmanagement ::
  "string \<Rightarrow> inform_fun \<Rightarrow> unmanaged_manager \<Rightarrow> (unmanaged_manager \<times> ci_task list) result" where
  "on_provide_unmanagement tag f s =
     (if \<not> um_soliciting s then Inr (s, [])
      else rbind (initial_informs f (nodes_with_tag tag (um_db s)) (um_clients s)) (\<lambda>(c, ts).
        Inr (s\<lparr>um_informs := (um_informs s)(tag \<mapsto> f), um_clients := c\<rparr>, ts)))"

text \<open>The answers to \<open>SolicitUnmanagement\<close>.\<close>

definition tag_providers :: "(string \<times> inform_fun) list" where
  "tag_providers = [(''lnfee'', InformLnfee), (''open'', InformOpen), (''balance'', InformBalance), (''close'', InformClose)]"

fun provide_all ::
  "(string \<times> inform_fun) list \<Rightarrow> unmanaged_manager \<Rightarrow> (unmanaged_manager \<times> ci_task list) result" where
  "provide_all [] s = Inr (s, [])"
| "provide_all ((tag, f) # ps) s =
     rbind (on_provide_unmanagement tag f s) (\<lambda>(s1, ts). rbind (provide_all ps s1) (\<lambda>(s2, us). Inr (s2, ts @ us)))"

definition solicit_unmanagement :: "unmanaged_manager \<Rightarrow> (unmanaged_manager \<times> ci_task list) result" where
  "solicit_unmanagement s =
     rbind (provide_all tag_providers (s\<lparr>um_soliciting := True\<rparr>)) (\<lambda>(s1, ts). Inr (s1\<lparr>um_soliciting := False\<rparr>, ts))"

definition parse_params :: "(string \<rightharpoonup> inform_fun) \<Rightarrow> json \<Rightarrow> (node_id \<times> string list) result" where
  "parse_params informs params =
     rbind (case params of
              JArr _ \<Rightarrow> rbind (json_at params 0) (\<lambda>a. rbind (json_at params 1) (\<lambda>b. Inr (a, b)))
            | _ \<Rightarrow> rbind (json_get params ''nodeid'') (\<lambda>a. rbind (json_get params ''tags'') (\<lambda>b. Inr (a, b))))
       (\<lambda>(nodeid_j, tags_j).
          rbind (rbind (json_string nodeid_j) node_of_string) (\<lambda>nodeid.
          rbind (json_string tags_j) (\<lambda>spec.
            case find (\<lambda>t. informs t = None) (split_tags spec) of
              Some t \<Rightarrow> Inl (RuntimeError (''Unknown tag: '' @ t))
            | None \<Rightarrow> Inr (nodeid, split_tags spec))))"

text \<open>The calls of one command, up to the first exception; what was called keeps its effect.\<close>

fun inform_all :: "(string \<times> bool) list \<Rightarrow> node_id \<Rightarrow> unmanaged_manager \<Rightarrow> exn option \<times> unmanaged_manager \<times> ci_task list" where
  "inform_all [] n s = (None, s, [])"
| "inform_all ((tag, u) # calls) n s =
     (let (f, s1) = tag_inform tag s
      in case inform f n u (um_clients s1) of
           Inl x \<Rightarrow> (Some x, s1, [])
         | Inr (c, ts) \<Rightarrow> (case inform_all calls n (s1\<lparr>um_clients := c\<rparr>) of (x, s2, us) \<Rightarrow> (x, s2, ts @ us)))"

datatype um_answer = CommandResponse | CommandFail exn

text \<open>An exception rolls the transaction back and drops the actions collected so far.\<close>

definition unmanage :: "json \<Rightarrow> unmanaged_manager \<Rightarrow> (unmanaged_manager \<times> ci_task list \<times> um_answer) result" where
  "unmanage params s =
     (case parse_params (um_informs s) params of
        Inl x \<Rightarrow> Inr (s, [], CommandFail x)
      | Inr (nodeid, new_tags) \<Rightarrow>
          (let (old_tags, d1) = get_tags nodeid (um_db s);
               calls = map (\<lambda>t. (t, False)) (filter (\<lambda>t. t \<notin> set new_tags) old_tags)
                     @ map (\<lambda>t. (t, True)) (filter (\<lambda>t. t \<notin> set old_tags) new_tags)
           in case inform_all calls nodeid s of
                (None, s1, ts) \<Rightarrow> Inr (s1\<lparr>um_db := set_tags nodeid new_tags d1\<rparr>, ts, CommandResponse)
              | (Some x, s1, ts) \<Rightarrow>
                  if x = UndefinedBehaviour then Inl UndefinedBehaviour else Inr (s1, [], CommandFail x)))"

subsection \<open>What an informed module promises\<close>

locale unmanage_client =
  fixes tell :: "node_id \<Rightarrow> bool \<Rightarrow> 's \<Rightarrow> 's result"
    and view :: "'s \<Rightarrow> node_id set"
  assumes tell_unmanage: "\<exists>s'. tell n True s = Inr s' \<and> view s' = insert n (view s)"
    and tell_manage: "n \<in> view s \<Longrightarrow> \<exists>s'. tell n False s = Inr s' \<and> view s' = view s - {n}"
begin

text \<open>Told only of changes, it never fails and knows them.\<close>

lemma tell_change:
  assumes "u \<noteq> (n \<in> view s)"
  shows "\<exists>s'. tell n u s = Inr s' \<and> (\<forall>m. m \<in> view s' \<longleftrightarrow> (if m = n then u else m \<in> view s))"
proof (cases u)
  case True
  with tell_unmanage [of n s] show ?thesis by auto
next
  case False
  with tell_manage [of n s] assms obtain s' where "tell n u s = Inr s'" "view s' = view s - {n}" by auto
  with False show ?thesis by auto
qed

end

interpretation lnfee: unmanage_client setter_unmanage fs_unmanaged
  by unfold_locales (simp_all add: setter_unmanage_def)

interpretation candidacy: unmanage_client "\<lambda>n u s. rbind (on_unmanage n u s) (\<lambda>r. Inr (fst r))" iv_unmanaged
  by unfold_locales (simp_all add: on_unmanage_def)

interpretation balance: unmanage_client "\<lambda>n u s. Inr (rebalance_unmanage n u s)" "\<lambda>s. s"
  by unfold_locales (simp_all add: rebalance_unmanage_def)

interpretation closing: unmanage_client desk_unmanage "\<lambda>s. s"
  by unfold_locales (simp_all add: desk_unmanage_def)

fun client_view :: "inform_fun \<Rightarrow> unmanage_clients \<Rightarrow> node_id set" where
  "client_view InformLnfee c = fs_unmanaged (uc_setter c)"
| "client_view InformOpen c = iv_unmanaged (uc_open c)"
| "client_view InformBalance c = uc_balance c"
| "client_view InformClose c = uc_close c"
| "client_view InformEmpty c = {}"

lemma client_view_upd [simp]:
  "client_view g (c\<lparr>uc_setter := s\<rparr>) = (if g = InformLnfee then fs_unmanaged s else client_view g c)"
  "client_view g (c\<lparr>uc_open := i\<rparr>) = (if g = InformOpen then iv_unmanaged i else client_view g c)"
  "client_view g (c\<lparr>uc_balance := b\<rparr>) = (if g = InformBalance then b else client_view g c)"
  "client_view g (c\<lparr>uc_close := b\<rparr>) = (if g = InformClose then b else client_view g c)"
  by (cases g; simp)+

lemma inform_change:
  assumes "f \<noteq> InformEmpty" "u \<noteq> (n \<in> client_view f c)"
  obtains c' ts where "inform f n u c = Inr (c', ts)"
    "\<And>g m. m \<in> client_view g c' \<longleftrightarrow> (if g = f \<and> m = n then u else m \<in> client_view g c)"
proof (cases f)
  case InformLnfee
  from lnfee.tell_change [of u n "uc_setter c"] assms(2) obtain s' where
    "setter_unmanage n u (uc_setter c) = Inr s'" "\<forall>m. m \<in> fs_unmanaged s' \<longleftrightarrow> (if m = n then u else m \<in> fs_unmanaged (uc_setter c))"
    by (auto simp: InformLnfee)
  then show ?thesis by (intro that [of "c\<lparr>uc_setter := s'\<rparr>" "[]"]) (auto simp: InformLnfee)
next
  case InformOpen
  from candidacy.tell_change [of u n "uc_open c"] assms(2) obtain s' ts where
    "on_unmanage n u (uc_open c) = Inr (s', ts)" "\<forall>m. m \<in> iv_unmanaged s' \<longleftrightarrow> (if m = n then u else m \<in> iv_unmanaged (uc_open c))"
    by (auto simp: InformOpen rbind_eq_Inr)
  then show ?thesis by (intro that [of "c\<lparr>uc_open := s'\<rparr>" ts]) (auto simp: InformOpen)
next
  case InformBalance
  from balance.tell_change [of u n "uc_balance c"] assms(2)
  have "\<forall>m. m \<in> rebalance_unmanage n u (uc_balance c) \<longleftrightarrow> (if m = n then u else m \<in> uc_balance c)"
    by (auto simp: InformBalance)
  then show ?thesis
    by (intro that [of "c\<lparr>uc_balance := rebalance_unmanage n u (uc_balance c)\<rparr>" "[]"])
       (auto simp: InformBalance)
next
  case InformClose
  from closing.tell_change [of u n "uc_close c"] assms(2) obtain s' where
    "desk_unmanage n u (uc_close c) = Inr s'" "\<forall>m. m \<in> s' \<longleftrightarrow> (if m = n then u else m \<in> uc_close c)"
    by (auto simp: InformClose)
  then show ?thesis by (intro that [of "c\<lparr>uc_close := s'\<rparr>" "[]"]) (auto simp: InformClose)
qed (use assms in simp)

text \<open>At the start a node may be announced twice.\<close>

lemma inform_unmanage:
  assumes "f \<noteq> InformEmpty"
  obtains c' ts where "inform f n True c = Inr (c', ts)"
    "\<And>g m. m \<in> client_view g c' \<longleftrightarrow> (g = f \<and> m = n) \<or> m \<in> client_view g c"
proof -
  have "\<exists>c' ts. inform f n True c = Inr (c', ts) \<and> (\<forall>g m. m \<in> client_view g c' \<longleftrightarrow> (g = f \<and> m = n) \<or> m \<in> client_view g c)"
    using assms by (cases f) (auto simp: setter_unmanage_def on_unmanage_def rebalance_unmanage_def desk_unmanage_def)
  with that show ?thesis by blast
qed

lemma initial_informs_view:
  assumes "f \<noteq> InformEmpty"
  obtains c' ts where "initial_informs f ns c = Inr (c', ts)"
    "\<And>g m. m \<in> client_view g c' \<longleftrightarrow> (g = f \<and> m \<in> set ns) \<or> m \<in> client_view g c"
proof -
  have "\<exists>c' ts. initial_informs f ns c = Inr (c', ts)
    \<and> (\<forall>g m. m \<in> client_view g c' \<longleftrightarrow> (g = f \<and> m \<in> set ns) \<or> m \<in> client_view g c)"
  proof (induction ns arbitrary: c)
    case (Cons n ns)
    obtain c1 ts where 1: "inform f n True c = Inr (c1, ts)"
      "\<And>g m. m \<in> client_view g c1 \<longleftrightarrow> (g = f \<and> m = n) \<or> m \<in> client_view g c"
      using inform_unmanage [OF assms] by blast
    from Cons [of c1] obtain c2 us where 2: "initial_informs f ns c1 = Inr (c2, us)"
      "\<forall>g m. m \<in> client_view g c2 \<longleftrightarrow> (g = f \<and> m \<in> set ns) \<or> m \<in> client_view g c1" by blast
    then show ?case using 1 by auto
  qed simp
  with that show ?thesis by blast
qed

subsection \<open>The tables and the tags of a node\<close>

definition db_ok :: "unmanaged_db \<Rightarrow> bool" where
  "db_ok d = (distinct (map fst (ud_nodes d)) \<and> distinct (map snd (ud_nodes d)) \<and> fst ` set (ud_tags d) \<subseteq> fst ` set (ud_nodes d))"

definition db_tags :: "unmanaged_db \<Rightarrow> node_id \<Rightarrow> string set" where
  "db_tags d n = {t. \<exists>i. (i, n) \<in> set (ud_nodes d) \<and> (i, t) \<in> set (ud_tags d)}"

lemma set_tag_set [simp]: "set (tag_set ts) = set ts" "distinct (tag_set ts)"
  by (simp_all add: tag_set_def)

lemma le_foldr_max: "x \<in> set xs \<Longrightarrow> x \<le> foldr max xs (0 :: nat)"
  by (induction xs) (auto simp: max_def)

lemma next_dbid_fresh: "next_dbid ns \<notin> fst ` set ns"
proof
  assume "next_dbid ns \<in> fst ` set ns"
  then have "next_dbid ns \<le> foldr max (map fst ns) 0" by (intro le_foldr_max) simp
  then show False by (simp add: next_dbid_def)
qed

lemma get_nodedbid_ok:
  assumes ok: "db_ok d" and g: "get_nodedbid n d = (i, d1)"
  shows "db_ok d1 \<and> (i, n) \<in> set (ud_nodes d1) \<and> ud_tags d1 = ud_tags d \<and> db_tags d1 = db_tags d"
proof (cases "find (\<lambda>r. snd r = n) (ud_nodes d)")
  case (Some r)
  then have "r \<in> set (ud_nodes d)" "snd r = n" by (auto simp: find_Some_iff)
  with Some g ok show ?thesis by (auto simp: get_nodedbid_def)
next
  case None
  let ?i = "next_dbid (ud_nodes d)"
  have new: "?i \<notin> fst ` set (ud_nodes d)" by (rule next_dbid_fresh)
  then have "?i \<notin> fst ` set (ud_tags d)" using ok by (auto simp: db_ok_def)
  moreover have "n \<notin> snd ` set (ud_nodes d)" using None by (auto simp: find_None_iff)
  moreover have d1: "i = ?i" "d1 = d\<lparr>ud_nodes := ud_nodes d @ [(?i, n)]\<rparr>" using None g by (auto simp: get_nodedbid_def)
  ultimately have "db_ok d1" using ok new by (simp add: db_ok_def image_iff) blast
  moreover have "(?i, t) \<notin> set (ud_tags d)" for t using \<open>?i \<notin> fst ` set (ud_tags d)\<close> by force
  then have "db_tags d1 m = db_tags d m" for m unfolding db_tags_def d1(2) by auto
  ultimately show ?thesis using d1 by auto
qed

lemma db_ok_unique: "db_ok d \<Longrightarrow> (i, n) \<in> set (ud_nodes d) \<Longrightarrow> (j, n) \<in> set (ud_nodes d) \<Longrightarrow> i = j"
  unfolding db_ok_def distinct_map inj_on_def by fastforce

lemma db_ok_unique_node: "db_ok d \<Longrightarrow> (i, n) \<in> set (ud_nodes d) \<Longrightarrow> (i, m) \<in> set (ud_nodes d) \<Longrightarrow> n = m"
  unfolding db_ok_def distinct_map inj_on_def by fastforce

lemma get_tags_ok:
  assumes ok: "db_ok d" and g: "get_tags n d = (ts, d1)"
  shows "set ts = db_tags d n \<and> distinct ts \<and> db_ok d1 \<and> db_tags d1 = db_tags d"
proof -
  obtain i where i: "get_nodedbid n d = (i, d1)" "ts = tag_set (map snd (filter (\<lambda>r. fst r = i) (ud_tags d1)))"
    using g by (auto simp: get_tags_def split: prod.splits)
  note o = get_nodedbid_ok [OF ok i(1)]
  have "set ts = {t. (i, t) \<in> set (ud_tags d1)}" by (auto simp: i(2) image_iff)
  also have "\<dots> = db_tags d1 n" unfolding db_tags_def using o by (blast dest: db_ok_unique)
  finally show ?thesis using o i(2) by simp
qed

lemma set_tags_ok:
  assumes ok: "db_ok d"
  shows "db_ok (set_tags n ts d) \<and> db_tags (set_tags n ts d) = (db_tags d)(n := set ts)"
proof -
  obtain i d1 where i: "get_nodedbid n d = (i, d1)" by (cases "get_nodedbid n d")
  note o = get_nodedbid_ok [OF ok i]
  let ?d = "d1\<lparr>ud_tags := filter (\<lambda>r. fst r \<noteq> i) (ud_tags d1) @ map (\<lambda>t. (i, t)) ts\<rparr>"
  have eq: "set_tags n ts d = ?d" by (simp add: set_tags_def i)
  have "db_ok ?d" using o by (force simp: db_ok_def)
  moreover have "db_tags ?d m = ((db_tags d)(n := set ts)) m" for m
  proof (cases "m = n")
    case True
    have "j = i" if "(j, n) \<in> set (ud_nodes d1)" for j using o that by (blast dest: db_ok_unique)
    then show ?thesis using o True by (auto simp: db_tags_def)
  next
    case False
    then have "(i, m) \<notin> set (ud_nodes d1)" using o db_ok_unique_node [of d1 i n m] by blast
    then have "db_tags ?d m = db_tags d1 m" unfolding db_tags_def by auto
    with False o show ?thesis by simp
  qed
  ultimately show ?thesis unfolding eq by blast
qed

subsection \<open>The manager and its modules agree\<close>

definition um_ok :: "unmanaged_manager \<Rightarrow> bool" where
  "um_ok s = (db_ok (um_db s) \<and> um_informs s = map_of tag_providers
     \<and> (\<forall>n. db_tags (um_db s) n \<subseteq> fst ` set tag_providers)
     \<and> (\<forall>(t, f) \<in> set tag_providers. client_view f (um_clients s) = {n. t \<in> db_tags (um_db s) n}))"

lemma tag_providers_facts:
  "map_of tag_providers t = Some f \<longleftrightarrow> (t, f) \<in> set tag_providers"
  "(t, f) \<in> set tag_providers \<Longrightarrow> f \<noteq> InformEmpty"
  "(t, f) \<in> set tag_providers \<Longrightarrow> (t', f) \<in> set tag_providers \<Longrightarrow> t = t'"
  by (auto simp: tag_providers_def)

lemma inform_all_ok:
  assumes "um_informs s = map_of tag_providers" "distinct (map fst calls)"
    and "\<forall>(t, u) \<in> set calls. \<exists>f. (t, f) \<in> set tag_providers \<and> u \<noteq> (n \<in> client_view f (um_clients s))"
  shows "\<exists>c' us. inform_all calls n s = (None, s\<lparr>um_clients := c'\<rparr>, us)
    \<and> (\<forall>(t, f) \<in> set tag_providers. \<forall>m. m \<in> client_view f c' \<longleftrightarrow>
         (if m = n \<and> map_of calls t \<noteq> None then the (map_of calls t) else m \<in> client_view f (um_clients s)))"
  using assms
proof (induction calls arbitrary: s)
  case (Cons call calls)
  obtain t u where call: "call = (t, u)" by (cases call)
  from Cons.prems(3) call obtain f where f: "(t, f) \<in> set tag_providers" "u \<noteq> (n \<in> client_view f (um_clients s))" by auto
  have look: "tag_inform t s = (f, s)" using f(1) tag_providers_facts(1) [of t f] by (simp add: tag_inform_def Cons.prems(1))
  obtain c ts where c: "inform f n u (um_clients s) = Inr (c, ts)"
    "\<And>g m. m \<in> client_view g c \<longleftrightarrow> (if g = f \<and> m = n then u else m \<in> client_view g (um_clients s))"
    using inform_change [OF tag_providers_facts(2) [OF f(1)] f(2)] by blast
  let ?s = "s\<lparr>um_clients := c\<rparr>"
  have other: "client_view g c = client_view g (um_clients s)" if "(t', g) \<in> set tag_providers" "t' \<noteq> t" for t' g
  proof -
    have "g \<noteq> f" using that tag_providers_facts(3) [OF f(1), of t'] by blast
    then show ?thesis using c(2) [of _ g] by (simp add: set_eq_iff)
  qed
  have p3: "\<forall>(t', u') \<in> set calls. \<exists>g. (t', g) \<in> set tag_providers \<and> u' \<noteq> (n \<in> client_view g (um_clients ?s))"
  proof clarify
    fix t' u' assume tu: "(t', u') \<in> set calls"
    then have "t' \<noteq> t" using Cons.prems(2) call by force
    from tu Cons.prems(3) obtain g where "(t', g) \<in> set tag_providers" "u' \<noteq> (n \<in> client_view g (um_clients s))" by fastforce
    with other \<open>t' \<noteq> t\<close> show "\<exists>g. (t', g) \<in> set tag_providers \<and> u' \<noteq> (n \<in> client_view g (um_clients ?s))" by auto
  qed
  have p1: "um_informs ?s = map_of tag_providers" and p2: "distinct (map fst calls)"
    using Cons.prems(1,2) call by simp_all
  from Cons.IH [OF p1 p2 p3] obtain c' us where ih: "inform_all calls n ?s = (None, ?s\<lparr>um_clients := c'\<rparr>, us)"
    "\<forall>(t, f) \<in> set tag_providers. \<forall>m. m \<in> client_view f c' \<longleftrightarrow>
       (if m = n \<and> map_of calls t \<noteq> None then the (map_of calls t) else m \<in> client_view f (um_clients ?s))" by blast
  have "map_of calls t = None" using Cons.prems(2) call by (simp add: map_of_eq_None_iff)
  then have view: "m \<in> client_view g c' \<longleftrightarrow>
      (if m = n \<and> map_of (call # calls) t' \<noteq> None then the (map_of (call # calls) t') else m \<in> client_view g (um_clients s))"
    if tg: "(t', g) \<in> set tag_providers" for t' g m
  proof -
    have v: "m \<in> client_view g c' \<longleftrightarrow> (if m = n \<and> map_of calls t' \<noteq> None then the (map_of calls t') else m \<in> client_view g c)"
      using bspec [OF ih(2) tg] by auto
    show ?thesis
    proof (cases "t' = t")
      case True
      then have "g = f" using tg f(1) tag_providers_facts(1) [of t] by (metis option.inject)
      then show ?thesis using v c(2) [of m f] True \<open>map_of calls t = None\<close> by (simp add: call)
    next
      case False
      then show ?thesis using v other [OF tg] by (cases "map_of calls t'") (simp_all add: call)
    qed
  qed
  have "inform_all (call # calls) n s = (None, s\<lparr>um_clients := c'\<rparr>, ts @ us)"
    using ih(1) by (simp add: call look c(1))
  moreover have "\<forall>(t', g) \<in> set tag_providers. \<forall>m. m \<in> client_view g c' \<longleftrightarrow>
      (if m = n \<and> map_of (call # calls) t' \<noteq> None then the (map_of (call # calls) t') else m \<in> client_view g (um_clients s))"
    using view by blast
  ultimately show ?case by blast
next
  case Nil
  show ?case by (intro exI [of _ "um_clients s"] exI [of _ "[]"]) simp
qed
subsection \<open>Commands and startup\<close>

lemma parse_params_tags:
  assumes "parse_params informs params = Inr (n, new)"
  shows "distinct new \<and> (\<forall>t \<in> set new. informs t \<noteq> None)"
  using assms by (auto simp: parse_params_def rbind_eq_Inr find_None_iff split_tags_def split: json.splits option.splits)

lemma unmanage_ok:
  assumes ok: "um_ok s"
  shows "\<exists>s' ts a. unmanage params s = Inr (s', ts, a) \<and> um_ok s' \<and>
    (case parse_params (um_informs s) params of
       Inl x \<Rightarrow> a = CommandFail x \<and> s' = s
     | Inr (n, new) \<Rightarrow> a = CommandResponse \<and> db_tags (um_db s') = (db_tags (um_db s))(n := set new))"
proof (cases "parse_params (um_informs s) params")
  case (Inl x)
  then show ?thesis using ok by (simp add: unmanage_def)
next
  case (Inr r)
  obtain n new where r: "r = (n, new)" by (cases r)
  have new: "distinct new" "\<forall>t \<in> set new. um_informs s t \<noteq> None" using parse_params_tags Inr r by blast+
  have s: "db_ok (um_db s)" "um_informs s = map_of tag_providers" "\<And>n. db_tags (um_db s) n \<subseteq> fst ` set tag_providers"
    "\<And>t f. (t, f) \<in> set tag_providers \<Longrightarrow> client_view f (um_clients s) = {n. t \<in> db_tags (um_db s) n}"
    using ok by (auto simp: um_ok_def)
  obtain old d1 where old: "get_tags n (um_db s) = (old, d1)" by (cases "get_tags n (um_db s)")
  note g = get_tags_ok [OF s(1) old]
  let ?calls = "map (\<lambda>t. (t, False)) (filter (\<lambda>t. t \<notin> set new) old) @ map (\<lambda>t. (t, True)) (filter (\<lambda>t. t \<notin> set old) new)"
  have dist: "distinct (map fst ?calls)" using g new(1) by (auto simp: comp_def)
  have called: "\<forall>(t, u) \<in> set ?calls. \<exists>f. (t, f) \<in> set tag_providers \<and> u \<noteq> (n \<in> client_view f (um_clients s))"
  proof clarify
    fix t u assume tu: "(t, u) \<in> set ?calls"
    have "t \<in> fst ` set tag_providers"
      using tu g s(2) s(3) [of n] new(2) by (auto simp: map_of_eq_None_iff)
    then obtain f where f: "(t, f) \<in> set tag_providers" by auto
    have "u \<noteq> (n \<in> client_view f (um_clients s))" using tu g unfolding s(4) [OF f] by auto
    with f show "\<exists>f. (t, f) \<in> set tag_providers \<and> u \<noteq> (n \<in> client_view f (um_clients s))" by blast
  qed
  from inform_all_ok [OF s(2) dist called] obtain c' us where
    c': "inform_all ?calls n s = (None, s\<lparr>um_clients := c'\<rparr>, us)"
    "\<forall>(t, f) \<in> set tag_providers. \<forall>m. m \<in> client_view f c' \<longleftrightarrow>
       (if m = n \<and> map_of ?calls t \<noteq> None then the (map_of ?calls t) else m \<in> client_view f (um_clients s))"
    by blast
  let ?s = "s\<lparr>um_clients := c', um_db := set_tags n new d1\<rparr>"
  have run: "unmanage params s = Inr (?s, us, CommandResponse)"
    by (simp add: unmanage_def Inr r old Let_def c'(1))
  note d = set_tags_ok [of d1 n new] g
  have tags: "db_tags (um_db ?s) = (db_tags (um_db s))(n := set new)" using d by simp
  have look: "map_of ?calls t = (if t \<in> set old \<and> t \<notin> set new then Some False else if t \<in> set new \<and> t \<notin> set old then Some True else None)" for t
  proof -
    have "(t, False) \<in> set ?calls" if "t \<in> set old \<and> t \<notin> set new" using that by auto
    moreover have "(t, True) \<in> set ?calls" if "t \<in> set new \<and> t \<notin> set old" using that by auto
    moreover have "map_of ?calls t = None" if "(t \<in> set old) = (t \<in> set new)" using that by (auto simp: map_of_eq_None_iff)
    ultimately show ?thesis using map_of_is_SomeI [OF dist] by auto
  qed
  have "client_view f c' = {m. t \<in> db_tags (um_db ?s) m}" if tf: "(t, f) \<in> set tag_providers" for t f
  proof -
    have v: "m \<in> client_view f c' \<longleftrightarrow> (if m = n \<and> map_of ?calls t \<noteq> None then the (map_of ?calls t) else t \<in> db_tags (um_db s) m)" for m
      using bspec [OF c'(2) tf] s(4) [OF tf] by (simp only: split_conv mem_Collect_eq)
    have "m \<in> client_view f c' \<longleftrightarrow> t \<in> db_tags (um_db ?s) m" for m
      unfolding v tags look using g by (cases "m = n") auto
    then show ?thesis by auto
  qed
  moreover have "db_tags (um_db ?s) m \<subseteq> fst ` set tag_providers" for m
    using s(2) s(3) [of m] new(2) unfolding tags by (auto simp: map_of_eq_None_iff)
  ultimately have "um_ok ?s" using d s(2) unfolding um_ok_def by auto
  with run tags show ?thesis by (simp add: Inr r)
qed
text \<open>The state before the modules are asked, with what an earlier run left in the tables.\<close>

definition um_start :: "unmanaged_db \<Rightarrow> unmanaged_manager" where
  "um_start d = \<lparr>um_db = d, um_soliciting = False, um_informs = Map.empty,
     um_clients = \<lparr>uc_setter = fee_setter_init, uc_open = inv_initial, uc_balance = {}, uc_close = {}\<rparr>\<rparr>"

fun um_commands :: "json list \<Rightarrow> unmanaged_manager \<Rightarrow> (unmanaged_manager \<times> ci_task list \<times> um_answer list) result" where
  "um_commands [] s = Inr (s, [], [])"
| "um_commands (p # ps) s =
     rbind (unmanage p s) (\<lambda>(s1, ts, a). rbind (um_commands ps s1) (\<lambda>(s2, us, as). Inr (s2, ts @ us, a # as)))"

text \<open>The specification: which tags each node has, and a command replaces those of one node.\<close>

definition spec_command :: "json \<Rightarrow> (node_id \<Rightarrow> string set) \<Rightarrow> node_id \<Rightarrow> string set" where
  "spec_command params tags =
     (case parse_params (map_of tag_providers) params of Inl _ \<Rightarrow> tags | Inr (n, new) \<Rightarrow> tags(n := set new))"

lemma set_nodes_with_tag [simp]: "set (nodes_with_tag t d) = {n. t \<in> db_tags d n}"
  by (auto simp: nodes_with_tag_def db_tags_def image_iff)

lemma provide_all_ok:
  assumes "um_soliciting s" "\<forall>(t, f) \<in> set ps. f \<noteq> InformEmpty" "distinct (map fst ps)"
  shows "\<exists>c ts. provide_all ps s = Inr (s\<lparr>um_informs := um_informs s ++ map_of ps, um_clients := c\<rparr>, ts)
    \<and> (\<forall>g m. m \<in> client_view g c \<longleftrightarrow> m \<in> client_view g (um_clients s) \<or> (\<exists>t. (t, g) \<in> set ps \<and> t \<in> db_tags (um_db s) m))"
  using assms
proof (induction ps arbitrary: s)
  case Nil
  show ?case by (intro exI [of _ "um_clients s"] exI [of _ "[]"]) simp
next
  case (Cons p ps)
  obtain t f where p: "p = (t, f)" by (cases p)
  have f: "f \<noteq> InformEmpty" using Cons.prems(2) p by auto
  obtain c ts where c: "initial_informs f (nodes_with_tag t (um_db s)) (um_clients s) = Inr (c, ts)"
    "\<And>g m. m \<in> client_view g c \<longleftrightarrow> (g = f \<and> m \<in> set (nodes_with_tag t (um_db s))) \<or> m \<in> client_view g (um_clients s)"
    using initial_informs_view [OF f] by blast
  let ?s = "s\<lparr>um_informs := (um_informs s)(t \<mapsto> f), um_clients := c\<rparr>"
  have "on_provide_unmanagement t f s = Inr (?s, ts)" using Cons.prems(1) c(1) by (simp add: on_provide_unmanagement_def)
  moreover obtain c' us where ih: "provide_all ps ?s = Inr (?s\<lparr>um_informs := um_informs ?s ++ map_of ps, um_clients := c'\<rparr>, us)"
    "\<forall>g m. m \<in> client_view g c' \<longleftrightarrow> m \<in> client_view g (um_clients ?s) \<or> (\<exists>t. (t, g) \<in> set ps \<and> t \<in> db_tags (um_db ?s) m)"
  proof -
    have "um_soliciting ?s" "\<forall>(t, f) \<in> set ps. f \<noteq> InformEmpty" "distinct (map fst ps)" using Cons.prems by auto
    from Cons.IH [OF this] that show ?thesis by blast
  qed
  moreover have "(um_informs s)(t \<mapsto> f) ++ map_of ps = um_informs s ++ map_of (p # ps)"
  proof -
    have "map_of ps t = None" using Cons.prems(3) p by (simp add: map_of_eq_None_iff)
    then show ?thesis by (auto simp: p map_add_def fun_eq_iff split: option.splits)
  qed
  ultimately have "provide_all (p # ps) s = Inr (s\<lparr>um_informs := um_informs s ++ map_of (p # ps), um_clients := c'\<rparr>, ts @ us)"
    by (simp add: p)
  moreover have "m \<in> client_view g c' \<longleftrightarrow> m \<in> client_view g (um_clients s) \<or> (\<exists>t. (t, g) \<in> set (p # ps) \<and> t \<in> db_tags (um_db s) m)" for g m
    using ih(2) c(2) [of m g] by (auto simp: p)
  ultimately show ?case by blast
qed

lemma solicit_ok:
  assumes "db_ok d" "\<forall>n. db_tags d n \<subseteq> fst ` set tag_providers"
  obtains s ts where "solicit_unmanagement (um_start d) = Inr (s, ts)" "um_ok s" "um_db s = d"
proof -
  let ?s = "(um_start d)\<lparr>um_soliciting := True\<rparr>"
  have "um_soliciting ?s" "\<forall>(t, f) \<in> set tag_providers. f \<noteq> InformEmpty" "distinct (map fst tag_providers)"
    by (simp_all add: tag_providers_def)
  from provide_all_ok [OF this] obtain c ts where
    c: "provide_all tag_providers ?s = Inr (?s\<lparr>um_informs := um_informs ?s ++ map_of tag_providers, um_clients := c\<rparr>, ts)"
    "\<forall>g m. m \<in> client_view g c \<longleftrightarrow> m \<in> client_view g (um_clients ?s) \<or> (\<exists>t. (t, g) \<in> set tag_providers \<and> t \<in> db_tags (um_db ?s) m)"
    by blast
  have none: "client_view g (um_clients ?s) = {}" for g
    by (cases g) (simp_all add: um_start_def fee_setter_init_def inv_initial_def)
  let ?t = "?s\<lparr>um_informs := map_of tag_providers, um_clients := c, um_soliciting := False\<rparr>"
  have "client_view f c = {n. t \<in> db_tags d n}" if "(t, f) \<in> set tag_providers" for t f
  proof -
    have "m \<in> client_view f c \<longleftrightarrow> (\<exists>t'. (t', f) \<in> set tag_providers \<and> t' \<in> db_tags d m)" for m
      using c(2) none by (simp add: um_start_def)
    moreover have "(\<exists>t'. (t', f) \<in> set tag_providers \<and> t' \<in> db_tags d m) \<longleftrightarrow> t \<in> db_tags d m" for m
      using that tag_providers_facts(3) [OF that] by blast
    ultimately show ?thesis by blast
  qed
  then have "um_ok ?t" using assms by (auto simp: um_ok_def um_start_def)
  moreover have "solicit_unmanagement (um_start d) = Inr (?t, ts)"
    using c(1) by (simp add: solicit_unmanagement_def um_start_def)
  ultimately show ?thesis using that by (simp add: um_start_def)
qed

lemma um_commands_ok:
  assumes "um_ok s"
  shows "\<exists>s' ts as. um_commands ps s = Inr (s', ts, as) \<and> um_ok s'
    \<and> db_tags (um_db s') = fold spec_command ps (db_tags (um_db s))"
  using assms
proof (induction ps arbitrary: s)
  case (Cons p ps)
  have i: "um_informs s = map_of tag_providers" using Cons.prems by (simp add: um_ok_def)
  obtain s1 ts a where 1: "unmanage p s = Inr (s1, ts, a)" "um_ok s1"
    "db_tags (um_db s1) = spec_command p (db_tags (um_db s))"
  proof (cases "parse_params (map_of tag_providers) p")
    case (Inl x)
    then show ?thesis using that unmanage_ok [OF Cons.prems, of p] unfolding i by (auto simp: spec_command_def)
  next
    case (Inr r)
    then show ?thesis using that unmanage_ok [OF Cons.prems, of p] unfolding i by (cases r) (auto simp: spec_command_def)
  qed
  from Cons.IH [OF 1(2)] obtain s2 us as where "um_commands ps s1 = Inr (s2, us, as)" "um_ok s2"
    "db_tags (um_db s2) = fold spec_command ps (db_tags (um_db s1))" by blast
  with 1 show ?case by simp
qed simp

text \<open>C24: taking nodes out of management and putting them back. Started on tables whose tags are those of the four
  modules, whatever commands follow, none runs into undefined behaviour, the tags of each node are those of the
  last good command for it, and after every command each module holds exactly the nodes that have its tag.\<close>

theorem unmanaged_agree:
  assumes "db_ok d" "\<forall>n. db_tags d n \<subseteq> {''lnfee'', ''open'', ''balance'', ''close''}"
  shows "\<exists>s ts s' us as. solicit_unmanagement (um_start d) = Inr (s, ts) \<and> um_commands ps s = Inr (s', us, as)
    \<and> db_tags (um_db s') = fold spec_command ps (db_tags d)
    \<and> fs_unmanaged (uc_setter (um_clients s')) = {n. ''lnfee'' \<in> db_tags (um_db s') n}
    \<and> iv_unmanaged (uc_open (um_clients s')) = {n. ''open'' \<in> db_tags (um_db s') n}
    \<and> uc_balance (um_clients s') = {n. ''balance'' \<in> db_tags (um_db s') n}
    \<and> uc_close (um_clients s') = {n. ''close'' \<in> db_tags (um_db s') n}"
proof -
  have "fst ` set tag_providers = {''lnfee'', ''open'', ''balance'', ''close''}" by (auto simp: tag_providers_def)
  with assms obtain s ts where s: "solicit_unmanagement (um_start d) = Inr (s, ts)" "um_ok s" "um_db s = d"
    using solicit_ok [OF assms(1)] by metis
  from um_commands_ok [OF s(2), of ps] obtain s' us as where s': "um_commands ps s = Inr (s', us, as)" "um_ok s'"
    "db_tags (um_db s') = fold spec_command ps (db_tags d)" unfolding s(3) by blast
  have view: "(t, f) \<in> set tag_providers \<Longrightarrow> client_view f (um_clients s') = {n. t \<in> db_tags (um_db s') n}" for t f
    using s'(2) by (auto simp: um_ok_def)
  show ?thesis
    using s s' view [of "''lnfee''" InformLnfee] view [of "''open''" InformOpen] view [of "''balance''" InformBalance]
      view [of "''close''" InformClose] by (simp add: tag_providers_def)
qed
subsection \<open>Where they do not agree\<close>

text \<open>A tag in the tables that no module provides: the first command that drops it calls an empty function after the
  module of a tag before it was informed, and is rolled back; the same command again erases the end of a set.\<close>

definition ex_db :: unmanaged_db where
  "ex_db = \<lparr>ud_nodes = [(1, NodeId None)], ud_tags = [(1, ''open''), (1, ''other'')]\<rparr>"

definition ex_params :: json where
  "ex_params = JArr [JStr ''000000000000000000000000000000000000000000000000000000000000000000'', JStr '''']"

lemma ex_parse_params: "parse_params informs ex_params = Inr (NodeId None, [])"
proof -
  have "node_of_string (string_of_node (NodeId None)) = Inr (NodeId None)" by code_simp
  then show ?thesis
    by (simp add: ex_params_def parse_params_def json_at_def json_string_def split_tags_def tag_set_def string_of_node_def)
qed

lemma ex_tags: "get_tags (NodeId None) ex_db = ([''open'', ''other''], ex_db)"
  by code_simp

lemma unknown_tag_undefined:
  "\<exists>s ts s1. solicit_unmanagement (um_start ex_db) = Inr (s, ts)
     \<and> unmanage ex_params s = Inr (s1, [], CommandFail BadFunctionCall) \<and> um_db s1 = um_db s
     \<and> unmanage ex_params s1 = Inl UndefinedBehaviour"
proof -
  define s where "s = (um_start ex_db)\<lparr>um_informs := map_of tag_providers,
    um_clients := (um_clients (um_start ex_db))\<lparr>uc_open := inv_initial\<lparr>iv_unmanaged := {NodeId None}\<rparr>\<rparr>\<rparr>"
  define s1 where "s1 = (um_start ex_db)\<lparr>um_informs := (map_of tag_providers)(''other'' \<mapsto> InformEmpty)\<rparr>"
  have other: "map_of tag_providers ''other'' = None" "map_of tag_providers ''open'' = Some InformOpen"
    by (simp_all add: tag_providers_def)
  have "solicit_unmanagement (um_start ex_db) = Inr (s, [])"
    by (simp add: solicit_unmanagement_def tag_providers_def on_provide_unmanagement_def nodes_with_tag_def
        um_start_def ex_db_def on_unmanage_def inv_initial_def s_def fun_eq_iff)
  moreover have "unmanage ex_params s = Inr (s1, [], CommandFail BadFunctionCall)"
    by (simp add: unmanage_def ex_parse_params ex_tags s_def s1_def um_start_def tag_inform_def other on_unmanage_def inv_initial_def)
  moreover have "unmanage ex_params s1 = Inl UndefinedBehaviour"
    by (simp add: unmanage_def ex_parse_params ex_tags s1_def um_start_def tag_inform_def other on_unmanage_def inv_initial_def)
  moreover have "um_db s1 = um_db s" by (simp add: s_def s1_def)
  ultimately show ?thesis by blast
qed

text \<open>The text of the status report is not one the command reads back.\<close>

lemma combine_not_read_back: "split_tags (combine_tags [''close'', ''open'']) = ['' open'', ''close'']"
  by code_simp

theorem unmanaged_agree_witness:
  "\<exists>s ts s' us as. solicit_unmanagement (um_start \<lparr>ud_nodes = [(1, NodeId None)], ud_tags = [(1, ''open'')]\<rparr>) = Inr (s, ts)
    \<and> um_commands [ex_params] s = Inr (s', us, as) \<and> iv_unmanaged (uc_open (um_clients s')) = {}"
proof -
  let ?d = "\<lparr>ud_nodes = [(1, NodeId None)], ud_tags = [(1, ''open'')]\<rparr>"
  have d: "db_ok ?d" "\<forall>n. db_tags ?d n \<subseteq> {''lnfee'', ''open'', ''balance'', ''close''}"
    by (auto simp: db_ok_def db_tags_def)
  have "fold spec_command [ex_params] (db_tags ?d) n = {}" for n
    by (auto simp: spec_command_def ex_parse_params db_tags_def)
  then show ?thesis using unmanaged_agree [OF d, of "[ex_params]"] by auto
qed

end
