(* ===== verification/Complaint_Records.thy ===== *)
theory Complaint_Records
  imports Unmanaged_Manager
begin

text \<open>
  The tables of the peer complaints desk (\<open>Boss/Mod/PeerComplaintsDesk/Recorder.cpp\<close>) and the peers against which
  complaints do not count (\<open>Exempter.cpp\<close>). Tables are lists of rows; the time is a \<open>double\<close> that the caller
  gives, and \<open>Util::date\<close> is a parameter of the reports. Deleting a peer deletes the rows that refer to it.
\<close>

subsection \<open>Tables\<close>

record complaint =
  cp_peer :: nat
  cp_time :: double
  cp_text :: string
  cp_ignored :: bool
  cp_reason :: string

record closed_complaint =
  cc_peer :: nat
  cc_time :: double
  cc_closedtime :: double
  cc_text :: string

record complaints_db =
  co_peers :: "(nat \<times> node_id) list"
  co_complaints :: "complaint list"
  co_closed :: "closed_complaint list"
  co_pending :: "(nat \<times> double) list"

definition co_empty :: complaints_db where
  "co_empty = \<lparr>co_peers = [], co_complaints = [], co_closed = [], co_pending = []\<rparr>"

subsection \<open>Queries and updates\<close>

definition get_peerdbid :: "node_id \<Rightarrow> complaints_db \<Rightarrow> nat \<times> complaints_db" where
  "get_peerdbid nid d =
     (case find (\<lambda>r. snd r = nid) (co_peers d) of
        Some r \<Rightarrow> (fst r, d)
      | None \<Rightarrow> (next_dbid (co_peers d), d\<lparr>co_peers := co_peers d @ [(next_dbid (co_peers d), nid)]\<rparr>))"

text \<open>Deleting a peer, with what the foreign keys cascade to.\<close>

definition delete_peer :: "nat \<Rightarrow> complaints_db \<Rightarrow> complaints_db" where
  "delete_peer i d =
     \<lparr>co_peers = filter (\<lambda>r. fst r \<noteq> i) (co_peers d), co_complaints = filter (\<lambda>c. cp_peer c \<noteq> i) (co_complaints d),
      co_closed = filter (\<lambda>c. cc_peer c \<noteq> i) (co_closed d), co_pending = filter (\<lambda>r. fst r \<noteq> i) (co_pending d)\<rparr>"

definition drop_if_quiet :: "nat \<Rightarrow> complaints_db \<Rightarrow> complaints_db" where
  "drop_if_quiet i d =
     (if length (filter (\<lambda>c. cp_peer c = i) (co_complaints d)) \<noteq> 0 then d
      else if length (filter (\<lambda>c. cc_peer c = i) (co_closed d)) \<noteq> 0 then d
      else delete_peer i d)"

definition recorder_cleanup :: "double \<Rightarrow> double \<Rightarrow> double \<Rightarrow> complaints_db \<Rightarrow> complaints_db" where
  "recorder_cleanup now complaint_age closed_age d =
     (let d1 = d\<lparr>co_complaints := filter (\<lambda>c. \<not> cp_time c < fl (now - complaint_age)) (co_complaints d)\<rparr>;
          d2 = d1\<lparr>co_closed := filter (\<lambda>c. \<not> cc_time c < fl (now - closed_age)) (co_closed d1)\<rparr>
      in fold drop_if_quiet (map fst (co_peers d2)) d2)"

definition add_complaint :: "double \<Rightarrow> node_id \<Rightarrow> string \<Rightarrow> complaints_db \<Rightarrow> complaints_db" where
  "add_complaint now peer text d =
     (let (i, d1) = get_peerdbid peer d
      in d1\<lparr>co_complaints := co_complaints d1
           @ [\<lparr>cp_peer = i, cp_time = now, cp_text = text, cp_ignored = False, cp_reason = []\<rparr>]\<rparr>)"

definition add_ignored_complaint :: "double \<Rightarrow> node_id \<Rightarrow> string \<Rightarrow> string \<Rightarrow> complaints_db \<Rightarrow> complaints_db" where
  "add_ignored_complaint now peer text reason d =
     (let (i, d1) = get_peerdbid peer d
      in d1\<lparr>co_complaints := co_complaints d1
           @ [\<lparr>cp_peer = i, cp_time = now, cp_text = text, cp_ignored = True, cp_reason = reason\<rparr>]\<rparr>)"

text \<open>A natural join with the peers: the rows with their node.\<close>

definition join_peers :: "(nat \<times> node_id) list \<Rightarrow> ('r \<Rightarrow> nat) \<Rightarrow> 'r list \<Rightarrow> (node_id \<times> 'r) list" where
  "join_peers peers key rows = concat (map (\<lambda>(i, n). map (Pair n) (filter (\<lambda>r. key r = i) rows)) peers)"

definition count_complaint :: "node_id \<Rightarrow> (node_id \<times> nat) list \<Rightarrow> (node_id \<times> nat) list" where
  "count_complaint peer rv = map_put peer (case map_of rv peer of None \<Rightarrow> 1 | Some k \<Rightarrow> Suc k) rv"

definition check_complaints :: "complaints_db \<Rightarrow> (node_id \<times> nat) list" where
  "check_complaints d =
     fold (\<lambda>(peer, c). count_complaint peer)
       (join_peers (co_peers d) cp_peer (filter (\<lambda>c. \<not> cp_ignored c) (co_complaints d))) []"

definition complaint_text :: "(double \<Rightarrow> string) \<Rightarrow> complaint \<Rightarrow> string" where
  "complaint_text date c =
     date (cp_time c) @ '': '' @ cp_text c @ (if cp_ignored c then '' [IGNORED: '' @ cp_reason c @ '']'' else [])"

definition push_entry :: "node_id \<Rightarrow> string \<Rightarrow> (node_id \<times> string list) list \<Rightarrow> (node_id \<times> string list) list" where
  "push_entry peer s rv = map_put peer ((case map_of rv peer of None \<Rightarrow> [] | Some ss \<Rightarrow> ss) @ [s]) rv"

definition get_all_complaints :: "(double \<Rightarrow> string) \<Rightarrow> complaints_db \<Rightarrow> (node_id \<times> string list) list" where
  "get_all_complaints date d =
     fold (\<lambda>(peer, c). push_entry peer (complaint_text date c))
       (sort_key (\<lambda>(peer, c). cp_time c) (join_peers (co_peers d) cp_peer (co_complaints d))) []"

definition channel_closed :: "double \<Rightarrow> node_id \<Rightarrow> complaints_db \<Rightarrow> complaints_db" where
  "channel_closed now nid d =
     (let (i, d1) = get_peerdbid nid d;
          moved = filter (\<lambda>c. cp_peer c = i \<and> \<not> cp_ignored c) (co_complaints d1)
      in d1\<lparr>co_closed := co_closed d1
             @ map (\<lambda>c. \<lparr>cc_peer = cp_peer c, cc_time = cp_time c, cc_closedtime = now, cc_text = cp_text c\<rparr>) moved,
           co_complaints := filter (\<lambda>c. cp_peer c \<noteq> i) (co_complaints d1)\<rparr>)"

definition note_close_pending :: "double \<Rightarrow> node_id \<Rightarrow> complaints_db \<Rightarrow> complaints_db" where
  "note_close_pending since peer d =
     (let (i, d1) = get_peerdbid peer d
      in if i \<in> fst ` set (co_pending d1) then d1 else d1\<lparr>co_pending := co_pending d1 @ [(i, since)]\<rparr>)"

definition get_close_pendings :: "complaints_db \<Rightarrow> (node_id \<times> double) list" where
  "get_close_pendings d = fold (\<lambda>(n, r). map_put n (snd r)) (join_peers (co_peers d) fst (co_pending d)) []"

definition get_close_pending :: "node_id \<Rightarrow> complaints_db \<Rightarrow> double option" where
  "get_close_pending peer d =
     fold (\<lambda>(n, r) rv. if n = peer then Some (snd r) else rv) (join_peers (co_peers d) fst (co_pending d)) None"

definition clear_close_pending :: "node_id \<Rightarrow> complaints_db \<Rightarrow> complaints_db" where
  "clear_close_pending peer d =
     (case find (\<lambda>r. snd r = peer) (co_peers d) of
        None \<Rightarrow> d
      | Some r \<Rightarrow> d\<lparr>co_pending := filter (\<lambda>q. fst q \<noteq> fst r) (co_pending d)\<rparr>)"

definition closed_text :: "(double \<Rightarrow> string) \<Rightarrow> closed_complaint \<Rightarrow> string" where
  "closed_text date c = ''Closed '' @ date (cc_closedtime c) @ '': '' @ date (cc_time c) @ '': '' @ cc_text c"

definition get_closed_complaints :: "(double \<Rightarrow> string) \<Rightarrow> complaints_db \<Rightarrow> (node_id \<times> string list) list" where
  "get_closed_complaints date d =
     fold (\<lambda>(peer, c). push_entry peer (closed_text date c))
       (sort_key (\<lambda>(peer, c). cc_time c) (join_peers (co_peers d) cc_peer (co_closed d))) []"

subsection \<open>Exemptions\<close>

record peer_metrics =
  pm_age :: double
  pm_in_fee :: double
  pm_out_fee :: double

type_synonym metrics = "(node_id \<times> peer_metrics) list"

definition min_age :: double where "min_age = 2 * 24 * 60 * 60"
definition high_earner_percentile :: double where "high_earner_percentile = 40"

definition add_exempt :: "node_id \<Rightarrow> string \<Rightarrow> (node_id \<times> string) list \<Rightarrow> (node_id \<times> string) list" where
  "add_exempt nid why rv =
     map_put nid (case map_of rv nid of None \<Rightarrow> why | Some s \<Rightarrow> s @ ''; '' @ why) rv"

definition percentile_index :: "nat \<Rightarrow> nat" where
  "percentile_index k =
     (let ind = nat \<lceil>fl (fl (high_earner_percentile * fl (of_nat k)) / 100)\<rceil>
      in if ind = k then k - 1 else ind)"

definition exempt_top_earner ::
  "string \<Rightarrow> (peer_metrics \<Rightarrow> double) \<Rightarrow> metrics \<Rightarrow> (node_id \<times> string) list \<Rightarrow> (node_id \<times> string) list" where
  "exempt_top_earner what scorer metrics rv =
     (if metrics = [] then rv
      else let full_reason = ''node is in top 40% of highest '' @ what @ '' earners'';
               peers = sort_key (\<lambda>p. - snd p) (map (\<lambda>(n, m). (n, scorer m)) metrics);
               least_score = snd (peers ! percentile_index (length peers))
           in if least_score = 0 then fold (\<lambda>(n, s) rv. if s \<le> 0 then rv else add_exempt n full_reason rv) peers rv
              else fold (\<lambda>(n, s) rv. if s < least_score then rv else add_exempt n full_reason rv) peers rv)"

definition get_exemptions :: "metrics \<Rightarrow> node_id set \<Rightarrow> (node_id \<times> string) list" where
  "get_exemptions metrics unmanaged =
     (let rv1 = fold (\<lambda>(n, m) rv. if pm_age m < min_age
                  then add_exempt n ''channel is younger than two days'' rv else rv) metrics [];
          has_nonzero_in = list_ex (\<lambda>(n, m). pm_in_fee m > 0) metrics;
          has_nonzero_out = list_ex (\<lambda>(n, m). pm_out_fee m > 0) metrics;
          rv2 = (if has_nonzero_in then exempt_top_earner ''incoming fee'' pm_in_fee metrics rv1 else rv1);
          rv3 = (if has_nonzero_out then exempt_top_earner ''outgoing fee'' pm_out_fee metrics rv2 else rv2)
      in fold (\<lambda>n. add_exempt n ''node has `close` unmanagement tag'') (sorted_list_of_set unmanaged) rv3)"

subsection \<open>The invariant of the tables\<close>

definition co_ok :: "complaints_db \<Rightarrow> bool" where
  "co_ok d =
     (distinct (map fst (co_peers d)) \<and> distinct (map snd (co_peers d))
      \<and> (\<forall>c \<in> set (co_complaints d). cp_peer c \<in> fst ` set (co_peers d))
      \<and> (\<forall>c \<in> set (co_closed d). cc_peer c \<in> fst ` set (co_peers d))
      \<and> (\<forall>r \<in> set (co_pending d). fst r \<in> fst ` set (co_peers d)) \<and> distinct (map fst (co_pending d)))"

text \<open>The complaints that count against a node.\<close>

definition count_of :: "complaints_db \<Rightarrow> node_id \<Rightarrow> nat" where
  "count_of d n = length (filter (\<lambda>c. \<not> cp_ignored c \<and> (cp_peer c, n) \<in> set (co_peers d)) (co_complaints d))"

definition pending_since :: "complaints_db \<Rightarrow> node_id \<Rightarrow> double \<Rightarrow> bool" where
  "pending_since d n s = (\<exists>i. (i, n) \<in> set (co_peers d) \<and> (i, s) \<in> set (co_pending d))"

lemma co_ok_empty [simp]: "co_ok co_empty" "count_of co_empty n = 0"
  by (simp_all add: co_ok_def co_empty_def count_of_def)

lemma co_ok_node: "co_ok d \<Longrightarrow> (i, n) \<in> set (co_peers d) \<Longrightarrow> (i, m) \<in> set (co_peers d) \<Longrightarrow> n = m"
  unfolding co_ok_def by (blast dest: eq_key_imp_eq_value)

lemma co_ok_id:
  assumes "co_ok d" "(i, n) \<in> set (co_peers d)" "(j, n) \<in> set (co_peers d)"
  shows "i = j"
proof -
  have "inj_on snd (set (co_peers d))" using assms(1) by (simp add: co_ok_def distinct_map)
  from inj_onD [OF this _ assms(2,3)] show ?thesis by simp
qed

lemma record_frames [simp]:
  "pending_since (d\<lparr>co_complaints := cs\<rparr>) = pending_since d" "pending_since (d\<lparr>co_closed := ks\<rparr>) = pending_since d"
  "count_of (d\<lparr>co_pending := ps\<rparr>) = count_of d" "count_of (d\<lparr>co_closed := ks\<rparr>) = count_of d"
  by (simp_all add: fun_eq_iff pending_since_def count_of_def)

text \<open>Looking an id up may add a peer, and changes nothing else.\<close>

lemma get_peerdbid_ok:
  assumes ok: "co_ok d" and g: "get_peerdbid n d = (i, d1)"
  shows "co_ok d1" "(i, n) \<in> set (co_peers d1)" "count_of d1 = count_of d" "pending_since d1 = pending_since d"
    "co_complaints d1 = co_complaints d" "co_closed d1 = co_closed d" "co_pending d1 = co_pending d"
proof -
  have "co_ok d1 \<and> (i, n) \<in> set (co_peers d1) \<and> count_of d1 = count_of d \<and> pending_since d1 = pending_since d
    \<and> co_complaints d1 = co_complaints d \<and> co_closed d1 = co_closed d \<and> co_pending d1 = co_pending d"
  proof (cases "find (\<lambda>r. snd r = n) (co_peers d)")
    case (Some r)
    then have "r \<in> set (co_peers d)" "snd r = n" by (auto simp: find_Some_iff)
    with Some g ok show ?thesis by (auto simp: get_peerdbid_def)
  next
    case None
    let ?i = "next_dbid (co_peers d)"
    have new: "?i \<notin> fst ` set (co_peers d)" by (rule next_dbid_fresh)
    have d1: "i = ?i" "d1 = d\<lparr>co_peers := co_peers d @ [(?i, n)]\<rparr>" using None g by (auto simp: get_peerdbid_def)
    have "n \<notin> snd ` set (co_peers d)" using None by (auto simp: find_None_iff)
    then have "co_ok d1" using ok new unfolding d1(2) co_ok_def by simp
    moreover have c: "cp_peer c \<noteq> ?i" if "c \<in> set (co_complaints d)" for c using ok that new unfolding co_ok_def by metis
    have "count_of d1 m = count_of d m" for m
      unfolding count_of_def d1(2) using c by (intro arg_cong [where f = length] filter_cong) auto
    moreover have p: "j \<noteq> ?i" if js: "(j, s) \<in> set (co_pending d)" for j s
    proof -
      have "\<forall>r \<in> set (co_pending d). fst r \<in> fst ` set (co_peers d)" using ok by (simp add: co_ok_def)
      from bspec [OF this js] new show ?thesis by (metis fst_conv)
    qed
    have "pending_since d1 m s = pending_since d m s" for m s
      unfolding pending_since_def d1(2) using p by (intro ex_cong1) auto
    ultimately show ?thesis using d1 by (intro conjI ext) simp_all
  qed
  then show "co_ok d1" "(i, n) \<in> set (co_peers d1)" "count_of d1 = count_of d" "pending_since d1 = pending_since d"
    "co_complaints d1 = co_complaints d" "co_closed d1 = co_closed d" "co_pending d1 = co_pending d" by simp_all
qed

lemma get_peerdbid_mem: "co_ok d \<Longrightarrow> get_peerdbid n d = (i, d1) \<Longrightarrow> i \<in> fst ` set (co_peers d1)"
  using get_peerdbid_ok(2) by force

lemma add_complaint_ok:
  assumes "co_ok d"
  shows "co_ok (add_complaint now p text d)"
    and "count_of (add_complaint now p text d) n = count_of d n + (if n = p then 1 else 0)"
    and "pending_since (add_complaint now p text d) = pending_since d"
proof -
  obtain i d1 where g: "get_peerdbid p d = (i, d1)" by (cases "get_peerdbid p d")
  note o = get_peerdbid_ok [OF assms g]
  have eq: "add_complaint now p text d = d1\<lparr>co_complaints := co_complaints d1
      @ [\<lparr>cp_peer = i, cp_time = now, cp_text = text, cp_ignored = False, cp_reason = []\<rparr>]\<rparr>"
    by (simp add: add_complaint_def g)
  show "co_ok (add_complaint now p text d)" using o(1) get_peerdbid_mem [OF assms g] by (simp add: eq co_ok_def)
  have "(i, n) \<in> set (co_peers d1) \<longleftrightarrow> n = p" using o(2) co_ok_node [OF o(1), of i p n] by blast
  then have "count_of (add_complaint now p text d) n = count_of d1 n + (if n = p then 1 else 0)"
    by (simp add: eq count_of_def)
  then show "count_of (add_complaint now p text d) n = count_of d n + (if n = p then 1 else 0)" using o(3) by simp
  show "pending_since (add_complaint now p text d) = pending_since d"
    using o(4) by (simp add: eq)
qed

lemma add_ignored_complaint_ok:
  assumes "co_ok d"
  shows "co_ok (add_ignored_complaint now p text why d)"
    and "count_of (add_ignored_complaint now p text why d) = count_of d"
    and "pending_since (add_ignored_complaint now p text why d) = pending_since d"
proof -
  obtain i d1 where g: "get_peerdbid p d = (i, d1)" by (cases "get_peerdbid p d")
  note o = get_peerdbid_ok [OF assms g]
  have eq: "add_ignored_complaint now p text why d = d1\<lparr>co_complaints := co_complaints d1
      @ [\<lparr>cp_peer = i, cp_time = now, cp_text = text, cp_ignored = True, cp_reason = why\<rparr>]\<rparr>"
    by (simp add: add_ignored_complaint_def g)
  show "co_ok (add_ignored_complaint now p text why d)" using o(1) get_peerdbid_mem [OF assms g] by (simp add: eq co_ok_def)
  show "count_of (add_ignored_complaint now p text why d) = count_of d"
    using o(3) by (simp add: eq count_of_def fun_eq_iff)
  show "pending_since (add_ignored_complaint now p text why d) = pending_since d"
    using o(4) by (simp add: eq)
qed

lemma note_close_pending_ok:
  assumes "co_ok d"
  shows "co_ok (note_close_pending now p d)" and "count_of (note_close_pending now p d) = count_of d"
    and "pending_since (note_close_pending now p d) n s
      \<longleftrightarrow> pending_since d n s \<or> (n = p \<and> s = now \<and> (\<forall>t. \<not> pending_since d p t))"
proof -
  obtain i d1 where g: "get_peerdbid p d = (i, d1)" by (cases "get_peerdbid p d")
  note o = get_peerdbid_ok [OF assms g]
  let ?d = "d1\<lparr>co_pending := co_pending d1 @ [(i, now)]\<rparr>"
  have eq: "note_close_pending now p d = (if i \<in> fst ` set (co_pending d1) then d1 else ?d)"
    by (simp add: note_close_pending_def g)
  have "i \<notin> fst ` set (co_pending d1) \<Longrightarrow> co_ok ?d" using o(1) get_peerdbid_mem [OF assms g] by (simp add: co_ok_def)
  then show "co_ok (note_close_pending now p d)" using o(1) by (simp add: eq)
  show "count_of (note_close_pending now p d) = count_of d" using o(3) by (simp add: eq)
  have i: "i \<in> fst ` set (co_pending d1) \<longleftrightarrow> (\<exists>t. pending_since d1 p t)"
  proof
    assume "i \<in> fst ` set (co_pending d1)"
    then obtain t where "(i, t) \<in> set (co_pending d1)" by auto
    with o(2) show "\<exists>t. pending_since d1 p t" unfolding pending_since_def by blast
  next
    assume "\<exists>t. pending_since d1 p t"
    then obtain j t where j: "(j, p) \<in> set (co_peers d1)" "(j, t) \<in> set (co_pending d1)" unfolding pending_since_def by blast
    with co_ok_id [OF o(1,2) j(1)] show "i \<in> fst ` set (co_pending d1)" by force
  qed
  have "(j, n) \<in> set (co_peers d1) \<and> (j = i \<and> s = now) \<longleftrightarrow> j = i \<and> n = p \<and> s = now" for j
    using o(2) co_ok_node [OF o(1,2), of n] by blast
  then have "pending_since ?d n s \<longleftrightarrow> pending_since d1 n s \<or> (n = p \<and> s = now)"
    by (simp add: pending_since_def conj_disj_distribL ex_disj_distrib disj_commute)
  then show "pending_since (note_close_pending now p d) n s
      \<longleftrightarrow> pending_since d n s \<or> (n = p \<and> s = now \<and> (\<forall>t. \<not> pending_since d p t))"
    using i by (simp add: eq o(4)) blast
qed
lemma clear_close_pending_ok:
  assumes "co_ok d"
  shows "co_ok (clear_close_pending p d)" and "count_of (clear_close_pending p d) = count_of d"
    and "pending_since (clear_close_pending p d) n s \<longleftrightarrow> pending_since d n s \<and> n \<noteq> p"
proof -
  have "co_ok (clear_close_pending p d) \<and> count_of (clear_close_pending p d) = count_of d
    \<and> (pending_since (clear_close_pending p d) n s \<longleftrightarrow> pending_since d n s \<and> n \<noteq> p)"
  proof (cases "find (\<lambda>r. snd r = p) (co_peers d)")
    case None
    then have "\<not> pending_since d p s" by (auto simp: find_None_iff pending_since_def)
    then show ?thesis using None assms by (auto simp: clear_close_pending_def)
  next
    case (Some r)
    let ?d = "d\<lparr>co_pending := filter (\<lambda>q. fst q \<noteq> fst r) (co_pending d)\<rparr>"
    have "r \<in> set (co_peers d)" "snd r = p" using Some by (auto simp: find_Some_iff)
    then have r: "(fst r, p) \<in> set (co_peers d)" by (metis prod.collapse)
    have "co_ok ?d" using assms by (simp add: co_ok_def distinct_map_filter)
    moreover have "(j, n) \<in> set (co_peers d) \<and> j \<noteq> fst r \<longleftrightarrow> (j, n) \<in> set (co_peers d) \<and> n \<noteq> p" for j
      using co_ok_node [OF assms, of "fst r" p n] co_ok_id [OF assms r, of j] r by blast
    then have "pending_since ?d n s \<longleftrightarrow> pending_since d n s \<and> n \<noteq> p"
      unfolding pending_since_def by simp metis
    ultimately show ?thesis using Some by (simp add: clear_close_pending_def)
  qed
  then show "co_ok (clear_close_pending p d)" "count_of (clear_close_pending p d) = count_of d"
    "pending_since (clear_close_pending p d) n s \<longleftrightarrow> pending_since d n s \<and> n \<noteq> p" by simp_all
qed

subsection \<open>Counting\<close>

lemma map_of_count_complaint:
  "map_wf rv \<Longrightarrow> map_of (count_complaint p rv) n = (if n = p then Some (case map_of rv p of None \<Rightarrow> 1 | Some k \<Rightarrow> Suc k) else map_of rv n)"
  "map_wf rv \<Longrightarrow> map_wf (count_complaint p rv)"
  by (simp_all add: count_complaint_def map_of_map_put map_wf_map_put)

lemma fold_count:
  assumes "map_wf rv"
  shows "map_wf (fold (\<lambda>(p, c). count_complaint p) xs rv) \<and>
    map_of (fold (\<lambda>(p, c). count_complaint p) xs rv) n =
      (if count_list (map fst xs) n = 0 then map_of rv n
       else Some (count_list (map fst xs) n + (case map_of rv n of None \<Rightarrow> 0 | Some k \<Rightarrow> k)))"
  using assms
proof (induction xs arbitrary: rv)
  case (Cons x xs)
  obtain p c where x: "x = (p, c)" by (cases x)
  show ?case
    using Cons.IH [OF map_of_count_complaint(2) [OF Cons.prems, of p]]
    by (cases "n = p") (auto simp: x map_of_count_complaint(1) [OF Cons.prems] split: option.splits)
qed simp

lemma count_join:
  assumes "distinct (map fst ps)" "distinct (map snd ps)"
  shows "count_list (map fst (join_peers ps key rows)) n = length (filter (\<lambda>r. (key r, n) \<in> set ps) rows)"
  using assms
proof (induction ps)
  case (Cons p ps)
  obtain i m where p: "p = (i, m)" by (cases p)
  have c: "count_list (map (fst \<circ> Pair m) (filter Q rows)) n = (if n = m then length (filter Q rows) else 0)" for Q
    by (induction rows) auto
  have "length (filter (\<lambda>r. (key r, n) \<in> set (p # ps)) rows)
      = (if n = m then length (filter (\<lambda>r. key r = i) rows) else 0) + length (filter (\<lambda>r. (key r, n) \<in> set ps) rows)"
  proof (cases "n = m")
    case True
    then have "n \<notin> snd ` set ps" using Cons.prems(2) p by simp
    then have "\<not> (key r, n) \<in> set ps" for r by force
    then show ?thesis using True p by (simp add: eq_commute)
  qed (auto simp: p)
  then show ?case using Cons c by (simp add: p join_peers_def)
qed (simp add: join_peers_def)

lemma check_complaints_count:
  assumes "co_ok d"
  shows "map_of (check_complaints d) n = (if count_of d n = 0 then None else Some (count_of d n))"
    and "map_wf (check_complaints d)"
proof -
  let ?xs = "join_peers (co_peers d) cp_peer (filter (\<lambda>c. \<not> cp_ignored c) (co_complaints d))"
  have "count_list (map fst ?xs) n = count_of d n"
    using assms by (simp add: count_join co_ok_def count_of_def conj_commute)
  moreover have "map_wf []" by (simp add: map_wf_def)
  note f = fold_count [OF this, of ?xs n]
  ultimately show "map_of (check_complaints d) n = (if count_of d n = 0 then None else Some (count_of d n))"
    using f by (simp add: check_complaints_def)
  show "map_wf (check_complaints d)" using f by (simp add: check_complaints_def)
qed

lemma check_complaints_set:
  assumes "co_ok d"
  shows "(n, k) \<in> set (check_complaints d) \<longleftrightarrow> k = count_of d n \<and> k \<noteq> 0"
  using check_complaints_count(1) [OF assms, of n] omap.entries_get [OF check_complaints_count(2) [OF assms], of n k] by auto

text \<open>The pending closes: at most one for a peer.\<close>

lemma join_mem: "(n, r) \<in> set (join_peers ps key rows) \<longleftrightarrow> (key r, n) \<in> set ps \<and> r \<in> set rows"
  by (auto simp: join_peers_def)

lemma pending_unique: "co_ok d \<Longrightarrow> pending_since d n s \<Longrightarrow> pending_since d n t \<Longrightarrow> s = t"
  unfolding pending_since_def using co_ok_id by (metis co_ok_def eq_key_imp_eq_value)

lemma fold_last_match:
  "fold (\<lambda>(n, r) rv. if n = p then Some (g r) else rv) xs rv
    = (if \<exists>r. (p, r) \<in> set xs then Some (g (snd (last (filter (\<lambda>x. fst x = p) xs)))) else rv)"
proof (induction xs arbitrary: rv)
  case (Cons x xs)
  obtain n r where x: "x = (n, r)" by (cases x)
  have "filter (\<lambda>x. fst x = p) xs = [] \<longleftrightarrow> \<not> (\<exists>r. (p, r) \<in> set xs)" by (force simp: filter_empty_conv)
  then show ?case using Cons by (auto simp: x)
qed simp

lemma get_close_pending_since:
  assumes "co_ok d"
  shows "get_close_pending n d = Some s \<longleftrightarrow> pending_since d n s"
proof -
  let ?xs = "join_peers (co_peers d) fst (co_pending d)"
  have mem: "(n, r) \<in> set ?xs \<longleftrightarrow> (fst r, n) \<in> set (co_peers d) \<and> r \<in> set (co_pending d)" for r by (simp add: join_mem)
  show ?thesis
  proof (cases "\<exists>r. (n, r) \<in> set ?xs")
    case True
    let ?l = "last (filter (\<lambda>x. fst x = n) ?xs)"
    have "filter (\<lambda>x. fst x = n) ?xs \<noteq> []" using True by (force simp: filter_empty_conv)
    then have "?l \<in> set (filter (\<lambda>x. fst x = n) ?xs)" by (rule last_in_set)
    then have "?l \<in> set ?xs \<and> fst ?l = n" by (simp only: set_filter mem_Collect_eq simp_thms)
    then have "(n, snd ?l) \<in> set ?xs" by (metis prod.collapse)
    then have "pending_since d n (snd (snd ?l))" unfolding mem pending_since_def by (metis prod.collapse)
    moreover have "get_close_pending n d = Some (snd (snd ?l))"
      using True unfolding get_close_pending_def fold_last_match by simp
    ultimately show ?thesis using pending_unique [OF assms] by auto
  next
    case False
    then have "get_close_pending n d = None" unfolding get_close_pending_def fold_last_match by simp
    moreover have "\<not> pending_since d n s" using False unfolding mem pending_since_def by force
    ultimately show ?thesis by simp
  qed
qed
subsection \<open>Cleaning up and closing\<close>

lemma drop_if_quiet_ok:
  assumes "co_ok d"
  shows "co_ok (drop_if_quiet i d) \<and> count_of (drop_if_quiet i d) = count_of d
    \<and> co_complaints (drop_if_quiet i d) = co_complaints d \<and> co_closed (drop_if_quiet i d) = co_closed d"
proof (cases "(\<exists>c \<in> set (co_complaints d). cp_peer c = i) \<or> (\<exists>c \<in> set (co_closed d). cc_peer c = i)")
  case True
  then have "drop_if_quiet i d = d" by (auto simp: drop_if_quiet_def filter_empty_conv)
  then show ?thesis using assms by simp
next
  case False
  then have quiet: "\<forall>c \<in> set (co_complaints d). cp_peer c \<noteq> i" "\<forall>c \<in> set (co_closed d). cc_peer c \<noteq> i" by auto
  then have eq: "drop_if_quiet i d = delete_peer i d" by (simp add: drop_if_quiet_def filter_empty_conv)
  have same: "filter (\<lambda>c. cp_peer c \<noteq> i) (co_complaints d) = co_complaints d" "filter (\<lambda>c. cc_peer c \<noteq> i) (co_closed d) = co_closed d"
    using quiet by (simp_all add: filter_id_conv)
  have ids: "fst ` set (filter (\<lambda>r. fst r \<noteq> i) xs) = fst ` set xs - {i}" for xs :: "(nat \<times> node_id) list" by force
  have "co_ok (delete_peer i d)"
    using assms quiet unfolding co_ok_def delete_peer_def complaints_db.simps same ids
    by (simp add: distinct_map_filter)
  moreover have "count_of (delete_peer i d) n = count_of d n" for n
    unfolding count_of_def delete_peer_def complaints_db.simps same
    using quiet by (intro arg_cong [where f = length] filter_cong) auto
  ultimately show ?thesis unfolding eq by (auto simp: delete_peer_def same)
qed

lemma fold_drop_if_quiet_ok:
  "co_ok d \<Longrightarrow> co_ok (fold drop_if_quiet is d) \<and> count_of (fold drop_if_quiet is d) = count_of d
    \<and> co_complaints (fold drop_if_quiet is d) = co_complaints d \<and> co_closed (fold drop_if_quiet is d) = co_closed d"
proof (induction "is" arbitrary: d)
  case (Cons i "is")
  from Cons.IH [of "drop_if_quiet i d"] drop_if_quiet_ok [OF Cons.prems, of i] show ?case by simp
qed simp

lemma length_filter_filter_le: "length (filter P (filter Q xs)) \<le> length (filter P xs)"
  by (induction xs) auto

lemma recorder_cleanup_ok:
  assumes "co_ok d"
  shows "co_ok (recorder_cleanup now a b d)" and "count_of (recorder_cleanup now a b d) n \<le> count_of d n"
    and "co_complaints (recorder_cleanup now a b d) = filter (\<lambda>c. \<not> cp_time c < fl (now - a)) (co_complaints d)"
    and "co_closed (recorder_cleanup now a b d) = filter (\<lambda>c. \<not> cc_time c < fl (now - b)) (co_closed d)"
proof -
  let ?d = "d\<lparr>co_complaints := filter (\<lambda>c. \<not> cp_time c < fl (now - a)) (co_complaints d),
    co_closed := filter (\<lambda>c. \<not> cc_time c < fl (now - b)) (co_closed d)\<rparr>"
  have ok: "co_ok ?d" using assms by (simp add: co_ok_def)
  have "count_of ?d n \<le> count_of d n" by (simp add: count_of_def length_filter_filter_le del: filter_filter)
  moreover have "recorder_cleanup now a b d = fold drop_if_quiet (map fst (co_peers ?d)) ?d"
    by (simp add: recorder_cleanup_def Let_def)
  moreover note fold_drop_if_quiet_ok [OF ok, of "map fst (co_peers ?d)"]
  ultimately show "co_ok (recorder_cleanup now a b d)" "count_of (recorder_cleanup now a b d) n \<le> count_of d n"
    "co_complaints (recorder_cleanup now a b d) = filter (\<lambda>c. \<not> cp_time c < fl (now - a)) (co_complaints d)"
    "co_closed (recorder_cleanup now a b d) = filter (\<lambda>c. \<not> cc_time c < fl (now - b)) (co_closed d)"
    by simp_all
qed

lemma channel_closed_ok:
  assumes "co_ok d"
  shows "co_ok (channel_closed now p d)" and "count_of (channel_closed now p d) n = (if n = p then 0 else count_of d n)"
    and "length (co_closed (channel_closed now p d)) = length (co_closed d) + count_of d p"
proof -
  obtain i d1 where g: "get_peerdbid p d = (i, d1)" by (cases "get_peerdbid p d")
  note o = get_peerdbid_ok [OF assms g]
  let ?moved = "filter (\<lambda>c. cp_peer c = i \<and> \<not> cp_ignored c) (co_complaints d1)"
  let ?d = "d1\<lparr>co_closed := co_closed d1
       @ map (\<lambda>c. \<lparr>cc_peer = cp_peer c, cc_time = cp_time c, cc_closedtime = now, cc_text = cp_text c\<rparr>) ?moved,
     co_complaints := filter (\<lambda>c. cp_peer c \<noteq> i) (co_complaints d1)\<rparr>"
  have eq: "channel_closed now p d = ?d" by (simp add: channel_closed_def g Let_def)
  show "co_ok (channel_closed now p d)" using o(1) get_peerdbid_mem [OF assms g] unfolding eq by (auto simp: co_ok_def)
  have at: "(j, p) \<in> set (co_peers d1) \<longleftrightarrow> j = i" for j using o(2) co_ok_id [OF o(1,2)] by blast
  have not: "(i, n) \<in> set (co_peers d1) \<longleftrightarrow> n = p" using o(2) co_ok_node [OF o(1,2)] by blast
  have "count_of ?d n = (if n = p then 0 else count_of d1 n)"
  proof (cases "n = p")
    case True
    then show ?thesis by (auto simp: count_of_def at filter_empty_conv)
  next
    case False
    then have "cp_peer c \<noteq> i" if "(cp_peer c, n) \<in> set (co_peers d1)" for c using that not by metis
    then have "filter (\<lambda>c. (cp_peer c \<noteq> i) \<and> \<not> cp_ignored c \<and> (cp_peer c, n) \<in> set (co_peers d1)) (co_complaints d1)
        = filter (\<lambda>c. \<not> cp_ignored c \<and> (cp_peer c, n) \<in> set (co_peers d1)) (co_complaints d1)"
      by (intro filter_cong) auto
    then show ?thesis using False by (simp add: count_of_def conj_ac)
  qed
  then show "count_of (channel_closed now p d) n = (if n = p then 0 else count_of d n)" unfolding eq using o(3) by simp
  have "length ?moved = count_of d1 p" by (simp add: count_of_def at conj_commute)
  then show "length (co_closed (channel_closed now p d)) = length (co_closed d) + count_of d p"
    unfolding eq using o(3,6) by simp
qed

lemmas recorder_ok = add_complaint_ok(1) add_ignored_complaint_ok(1) note_close_pending_ok(1) clear_close_pending_ok(1)
  recorder_cleanup_ok(1) channel_closed_ok(1)

subsection \<open>Who is exempt\<close>

text \<open>The score the code compares with.\<close>

definition percentile_score :: "(peer_metrics \<Rightarrow> double) \<Rightarrow> metrics \<Rightarrow> double" where
  "percentile_score scorer ms =
     rev (sort (map (scorer \<circ> snd) ms)) ! percentile_index (length ms)"

lemma sort_desc_scores:
  "map snd (sort_key (\<lambda>p. - snd p) (xs :: ('k \<times> double) list)) = rev (sort (map snd xs))"
proof -
  have "sorted (map (\<lambda>p. - snd p) (sort_key (\<lambda>p. - snd p) xs))" by simp
  then have "sorted (rev (map snd (sort_key (\<lambda>p. - snd p) xs)))"
    by (simp add: sorted_wrt_map sorted_wrt_rev)
  moreover have "mset (rev (map snd (sort_key (\<lambda>p. - snd p) xs))) = mset (map snd xs)" by simp
  ultimately have "rev (map snd (sort_key (\<lambda>p. - snd p) xs)) = sort (map snd xs)"
    by (metis properties_for_sort)
  then show ?thesis by (metis rev_rev_ident)
qed

lemma keys_add_exempt: "keys (add_exempt n why rv) = insert n (keys rv)"
  by (simp add: add_exempt_def keys_map_put)

lemma keys_fold_exempt:
  "n \<in> keys (fold (\<lambda>(n, x) rv. if Q x then rv else add_exempt n why rv) xs rv) \<longleftrightarrow>
    n \<in> keys rv \<or> (\<exists>x. (n, x) \<in> set xs \<and> \<not> Q x)"
proof (induction xs arbitrary: rv)
  case (Cons p xs)
  obtain m x where p: "p = (m, x)" by (cases p)
  show ?case
  proof (cases "Q x")
    case True
    then show ?thesis by (auto simp: p Cons)
  next
    case False
    then show ?thesis unfolding p by (simp add: Cons keys_add_exempt) blast
  qed
qed simp

lemma percentile_index_less: "0 < k \<Longrightarrow> percentile_index k < k \<or> k < percentile_index k"
  by (auto simp: percentile_index_def Let_def)

lemma keys_exempt_top_earner:
  assumes "ms \<noteq> []" "percentile_index (length ms) < length ms"
  shows "keys (exempt_top_earner what scorer ms rv) = keys rv \<union> {n. \<exists>x. (n, x) \<in> set ms
     \<and> (if percentile_score scorer ms = 0 then 0 < scorer x else percentile_score scorer ms \<le> scorer x)}"
proof -
  let ?ps = "map (\<lambda>(n, m). (n, scorer m)) ms"
  let ?peers = "sort_key (\<lambda>p. - snd p) ?ps"
  have "snd (?peers ! percentile_index (length ?peers)) = map snd ?peers ! percentile_index (length ms)"
    using assms(2) by simp
  also have "\<dots> = percentile_score scorer ms"
    by (simp add: sort_desc_scores percentile_score_def comp_def case_prod_beta)
  finally have thr: "snd (?peers ! percentile_index (length ?peers)) = percentile_score scorer ms" .
  have mem: "(n, s) \<in> set ?peers \<longleftrightarrow> (\<exists>x. (n, x) \<in> set ms \<and> s = scorer x)" for n s by force
  have "n \<in> keys (exempt_top_earner what scorer ms rv) \<longleftrightarrow> n \<in> keys rv \<or> (\<exists>x. (n, x) \<in> set ms
     \<and> (if percentile_score scorer ms = 0 then 0 < scorer x else percentile_score scorer ms \<le> scorer x))" for n
  proof (cases "percentile_score scorer ms = 0")
    case True
    then show ?thesis using assms(1) unfolding exempt_top_earner_def Let_def thr
      by (simp only: if_False if_True simp_thms keys_fold_exempt mem not_le) blast
  next
    case False
    then show ?thesis using assms(1) unfolding exempt_top_earner_def Let_def thr
      by (simp only: if_False keys_fold_exempt mem not_less) blast
  qed
  then show ?thesis by blast
qed
lemma fl_between:
  assumes "rat_of_nat m + 1 / 8 \<le> x" "x \<le> rat_of_nat (Suc m)" "m < 2 ^ 45"
  shows "\<lceil>fl x\<rceil> = int (Suc m)"
proof -
  have "fl x \<le> rat_of_nat (Suc m)" using assms by (intro fl_le_nat) auto
  moreover have "rat_of_nat m < fl x"
  proof -
    have y: "rat_of_nat m + 1 / 8 = of_int (8 * int m + 1) * 2 powi (- 3)" by (simp add: power_int_minus field_simps)
    have "fl (rat_of_nat m + 1 / 8) = rat_of_nat m + 1 / 8" unfolding y using assms(3) by (intro fl_exact) simp
    moreover have "fl (rat_of_nat m + 1 / 8) \<le> fl x" using assms(1) by (intro fl_mono) auto
    ultimately show ?thesis by linarith
  qed
  ultimately show ?thesis by (simp add: ceiling_eq_iff)
qed

text \<open>The index at the percentile is \<open>40%\<close> of the number of peers, rounded up.\<close>

lemma percentile_index_eq:
  assumes "2 \<le> k" "k < 2 ^ 40"
  shows "percentile_index k = (2 * k + 4) div 5"
proof -
  have "fl (high_earner_percentile * fl (of_nat k)) = rat_of_nat (40 * k)"
  proof -
    have "fl (of_nat k) = rat_of_nat k" using assms by (intro fl_nat) simp
    moreover have "fl (rat_of_nat (40 * k)) = rat_of_nat (40 * k)" using assms by (intro fl_nat) simp
    ultimately show ?thesis by (simp add: high_earner_percentile_def)
  qed
  then have x: "fl (fl (high_earner_percentile * fl (of_nat k)) / 100) = fl (rat_of_nat (2 * k) / 5)" by simp
  define m where "m = (2 * k + 4) div 5 - 1"
  have m: "5 * m + 1 \<le> 2 * k" "2 * k \<le> 5 * Suc m" "m < 2 ^ 45" "Suc m = (2 * k + 4) div 5" "Suc m < k"
    using assms unfolding m_def by auto
  have "rat_of_nat (5 * m + 1) \<le> rat_of_nat (2 * k)" "rat_of_nat (2 * k) \<le> rat_of_nat (5 * Suc m)"
    using m(1,2) by (simp_all only: of_nat_le_iff)
  then have "\<lceil>fl (rat_of_nat (2 * k) / 5)\<rceil> = int (Suc m)"
    using m(3) by (intro fl_between) (simp_all add: field_simps)
  then show ?thesis using m(4,5) by (simp add: percentile_index_def x Let_def)
qed

lemma percentile_index_1: "percentile_index 1 = 0"
proof -
  have "fl 1 = 1" using fl_nat [of 1] by simp
  moreover have "fl 40 = 40" using fl_nat [of 40] by simp
  moreover have "\<lceil>fl (40 / 100)\<rceil> = int (Suc 0)" by (rule fl_between) simp_all
  ultimately show ?thesis by (simp add: percentile_index_def high_earner_percentile_def)
qed

lemma percentile_index_bound: "0 < k \<Longrightarrow> k < 2 ^ 40 \<Longrightarrow> percentile_index k < k"
  using percentile_index_eq [of k] percentile_index_1 by (cases "k = 1") auto

lemma keys_fold_if: "keys (fold (\<lambda>(n, x) rv. if Q x then add_exempt n why rv else rv) xs rv)
    = keys rv \<union> {n. \<exists>x. (n, x) \<in> set xs \<and> Q x}"
proof -
  have "(\<lambda>(n, x) rv. if Q x then add_exempt n why rv else rv) = (\<lambda>(n, x) rv. if \<not> Q x then rv else add_exempt n why rv)"
    by (simp add: fun_eq_iff)
  then show ?thesis using keys_fold_exempt [where Q = "\<lambda>x. \<not> Q x"] by (simp add: set_eq_iff)
qed

lemma keys_fold_all: "keys (fold (\<lambda>n. add_exempt n why) ns rv) = keys rv \<union> set ns"
  by (induction ns arbitrary: rv) (simp_all add: keys_add_exempt)

text \<open>The rank of a score: how many peers earn strictly more. A peer is a top earner when it earns anything and at most
  two fifths of the peers, rounded up, earn more.\<close>

definition earning_more :: "(peer_metrics \<Rightarrow> double) \<Rightarrow> metrics \<Rightarrow> peer_metrics \<Rightarrow> nat" where
  "earning_more scorer ms x = length (filter (\<lambda>(m, y). scorer x < scorer y) ms)"

definition top_earner :: "(peer_metrics \<Rightarrow> double) \<Rightarrow> metrics \<Rightarrow> node_id \<Rightarrow> bool" where
  "top_earner scorer ms n =
     (\<exists>x. (n, x) \<in> set ms \<and> 0 < scorer x \<and> 5 * earning_more scorer ms x < 2 * length ms + 5)"

lemma rank_of_score:
  fixes xs :: "double list"
  assumes "i < length xs"
  shows "rev (sort xs) ! i \<le> x \<longleftrightarrow> length (filter (\<lambda>y. x < y) xs) \<le> i"
proof -
  let ?D = "rev (sort xs)" and ?P = "\<lambda>y. x < y"
  let ?c = "length (takeWhile ?P ?D)"
  have "mset (filter ?P xs) = mset (filter ?P ?D)" by (simp add: mset_filter)
  then have "length (filter ?P xs) = length (filter ?P ?D)" by (rule mset_eq_length)
  also have "filter ?P ?D = takeWhile ?P ?D"
    using filter_equals_takeWhile_sorted_rev [of "\<lambda>y. y" ?D x] by simp
  finally have c: "length (filter ?P xs) = ?c" .
  show ?thesis
  proof (cases "?c \<le> i")
    case True
    then have "\<not> ?P (?D ! ?c)" using assms nth_length_takeWhile [of ?P ?D] by simp
    moreover have "?D ! i \<le> ?D ! ?c"
      using True assms sorted_nth_mono [of "sort xs" "length xs - Suc i" "length xs - Suc ?c"] by (simp add: rev_nth)
    ultimately show ?thesis using True c by simp
  next
    case False
    then have "takeWhile ?P ?D ! i \<in> set (takeWhile ?P ?D)" by simp
    then have "?P (?D ! i)" using False takeWhile_nth [of i ?P ?D] set_takeWhileD by fastforce
    then show ?thesis using False c by simp
  qed
qed

lemma rank_of_percentile:
  assumes "(n, x) \<in> set ms" "length ms < 2 ^ 40"
  shows "percentile_score scorer ms \<le> scorer x \<longleftrightarrow> 5 * earning_more scorer ms x < 2 * length ms + 5"
proof -
  let ?xs = "map (scorer \<circ> snd) ms" and ?i = "percentile_index (length ms)"
  have k: "0 < length ms" using assms(1) by (cases ms) simp_all
  have "earning_more scorer ms x = length (filter (\<lambda>y. scorer x < y) ?xs)"
    by (simp add: earning_more_def filter_map o_def case_prod_unfold)
  then have r: "percentile_score scorer ms \<le> scorer x \<longleftrightarrow> earning_more scorer ms x \<le> ?i"
    using rank_of_score [of ?i ?xs "scorer x"] percentile_index_bound [OF k assms(2)] by (simp add: percentile_score_def)
  show ?thesis
  proof (cases "length ms = 1")
    case True
    then have "ms = [(n, x)]" using assms(1) by (auto simp: length_Suc_conv)
    then have "earning_more scorer ms x = 0" by (simp add: earning_more_def)
    then show ?thesis using True r by simp
  next
    case False
    then have "2 \<le> length ms" using k by linarith
    then have "?i = (2 * length ms + 4) div 5" using assms(2) by (intro percentile_index_eq)
    then show ?thesis using r by auto
  qed
qed


definition ex_metrics :: metrics where
  "ex_metrics = map (\<lambda>k. (NodeId (Some [of_nat k]), \<lparr>pm_age = 172800, pm_in_fee = of_nat k, pm_out_fee = 0\<rparr>)) [1, 2, 3, 4, 5]"

lemma top_earner_set:
  "{n. top_earner scorer ms n}
     = fst ` set (filter (\<lambda>(n, x). 0 < scorer x \<and> 5 * earning_more scorer ms x < 2 * length ms + 5) ms)"
proof (intro set_eqI iffI)
  fix n assume "n \<in> {n. top_earner scorer ms n}"
  then obtain x where "(n, x) \<in> set (filter (\<lambda>(n, x). 0 < scorer x \<and> 5 * earning_more scorer ms x < 2 * length ms + 5) ms)"
    by (auto simp: top_earner_def)
  from imageI [OF this, of fst]
  show "n \<in> fst ` set (filter (\<lambda>(n, x). 0 < scorer x \<and> 5 * earning_more scorer ms x < 2 * length ms + 5) ms)" by simp
qed (auto simp: top_earner_def)


end
