(* ===== verification/Complaints_Desk.thy ===== *)
theory Complaints_Desk
  imports Complaint_Records
begin

text \<open>
  The peer complaints desk (\<open>Boss/Mod/PeerComplaintsDesk/Main.cpp\<close>): rounds of complaints, and the closing of channels
  with peers that too many complaints count against. Handlers are cut into tasks where the code waits; any task
  may run next, any message may come in between, and the program may restart. The clock is read once for a task.
  Complaints come as messages; the metrics and the replies of the node are parameters. Logs are left out.
\<close>

subsection \<open>State, tasks and messages\<close>

record desk =
  dk_enabled :: bool
  dk_db :: bool
  dk_rpc :: bool
  dk_soliciting :: bool
  dk_fees_low :: bool
  dk_exempted :: "(node_id \<times> string) list"
  dk_complaints :: "(node_id \<times> string) list"
  dk_unmanaged :: "node_id set"
  dk_tables :: complaints_db

datatype desk_task =
    ExemptTask
  | SolicitTask
  | RecordTx
  | CleanupTx
  | CheckTx
  | CloseTask node_id
  | ClearTx node_id
  | PendingTx node_id
  | DecideTask node_id double
  | DestroyTx node_id
  | DeskStatusTx

datatype desk_out =
    OutSolicitComplaints metrics
  | OutClose node_id
  | OutComplaints "(node_id \<times> string list) list" "(node_id \<times> string list) list"

datatype desk_msg =
    AutoCloseOption json
  | DeskDbMsg
  | DeskInitMsg
  | OnchainFeeMsg bool
  | DeskTwiceDailyMsg
  | TenMinutesMsg
  | ComplaintMsg node_id string
  | DestructionMsg node_id
  | DeskStatusMsg
  | CloseTagMsg node_id bool

record desk_env =
  de_now :: double
  de_metrics :: metrics
  de_listpeerchannels :: "node_id \<Rightarrow> json option"
  de_date :: "double \<Rightarrow> string"

type_synonym desk_next = "desk \<times> desk_task list \<times> desk_out list"

definition max_complaint_age :: double where "max_complaint_age = 7 * 24 * 60 * 60"
definition max_closed_complaint_age :: double where "max_closed_complaint_age = 90 * 24 * 60 * 60"
definition max_acceptable_complaints :: nat where "max_acceptable_complaints = 5"
definition close_patience :: double where "close_patience = 3 * 24 * 60 * 60"

definition desk_start :: desk where
  "desk_start = \<lparr>dk_enabled = False, dk_db = False, dk_rpc = False, dk_soliciting = False, dk_fees_low = False,
     dk_exempted = [], dk_complaints = [], dk_unmanaged = {}, dk_tables = co_empty\<rparr>"

subsection \<open>A round of complaints\<close>

text \<open>The flag is set when the round is asked for, not when it begins to run.\<close>

definition desk_solicit :: "desk \<Rightarrow> desk_next" where
  "desk_solicit s =
     (if dk_soliciting s then (s, [], [])
      else (s\<lparr>dk_soliciting := True, dk_complaints := []\<rparr>, [ExemptTask], []))"

definition on_complaint :: "node_id \<Rightarrow> string \<Rightarrow> desk \<Rightarrow> desk" where
  "on_complaint peer text s =
     (if \<not> dk_soliciting s then s
      else s\<lparr>dk_complaints := map_put peer
             (case map_of (dk_complaints s) peer of None \<Rightarrow> text | Some old \<Rightarrow> old @ ''; '' @ text) (dk_complaints s)\<rparr>)"

definition record_one :: "double \<Rightarrow> (node_id \<times> string) list \<Rightarrow> node_id \<times> string \<Rightarrow> complaints_db \<Rightarrow> complaints_db" where
  "record_one now exempted c d =
     (case map_of exempted (fst c) of
        None \<Rightarrow> add_complaint now (fst c) (snd c) d
      | Some why \<Rightarrow> add_ignored_complaint now (fst c) (snd c) why d)"

definition record_complaints :: "double \<Rightarrow> desk \<Rightarrow> desk" where
  "record_complaints now s =
     s\<lparr>dk_tables := fold (record_one now (dk_exempted s)) (dk_complaints s) (dk_tables s),
       dk_soliciting := False, dk_exempted := [], dk_complaints := []\<rparr>"

subsection \<open>Closing channels\<close>

definition close_candidates :: "node_id set \<Rightarrow> complaints_db \<Rightarrow> node_id list" where
  "close_candidates unmanaged d =
     map fst (filter (\<lambda>c. fst c \<notin> unmanaged \<and> snd c \<ge> max_acceptable_complaints) (check_complaints d))"

definition check_close :: "desk \<Rightarrow> desk_next" where
  "check_close s =
     (let to_close = close_candidates (dk_unmanaged s) (dk_tables s);
          t1 = fold (\<lambda>(n, since) d. if n \<in> set to_close then d else clear_close_pending n d)
                 (get_close_pendings (dk_tables s)) (dk_tables s)
      in (s\<lparr>dk_tables := t1\<rparr>, if dk_enabled s then map CloseTask to_close else [], []))"

fun any_connected :: "json list \<Rightarrow> bool result" where
  "any_connected [] = Inr False"
| "any_connected (c # cs) =
     rbind (json_has c ''peer_connected'') (\<lambda>h.
       if \<not> h then any_connected cs
       else rbind (json_get c ''peer_connected'') (\<lambda>conn.
         if conn = JBool True then Inr True else any_connected cs))"

definition reply_connected :: "json \<Rightarrow> bool result" where
  "reply_connected res =
     rbind (json_has res ''channels'') (\<lambda>h.
       if \<not> h then Inr False
       else rbind (json_find res ''channels'') (\<lambda>cs. rbind (json_elems cs) any_connected))"

text \<open>An RPC error ends the attempt; a reply of the wrong type throws.\<close>

definition close_channel :: "json option \<Rightarrow> node_id \<Rightarrow> desk \<Rightarrow> desk_next result" where
  "close_channel reply p s =
     (case reply of
        None \<Rightarrow> Inr (s, [], [])
      | Some res \<Rightarrow> rbind (reply_connected res) (\<lambda>connected.
          Inr (s, [if connected then ClearTx p else PendingTx p], [])))"

definition defer_close :: "double \<Rightarrow> node_id \<Rightarrow> desk \<Rightarrow> desk_next result" where
  "defer_close now p s =
     (let d = note_close_pending now p (dk_tables s)
      in case get_close_pending p d of
           None \<Rightarrow> Inl AssertFailed
         | Some since \<Rightarrow> Inr (s\<lparr>dk_tables := d\<rparr>, [DecideTask p since], []))"

definition decide_close :: "double \<Rightarrow> node_id \<Rightarrow> double \<Rightarrow> desk \<Rightarrow> desk_next" where
  "decide_close now p since s =
     (if fl (now - since) < close_patience then (s, [], [])
      else if \<not> dk_fees_low s then (s, [], [])
      else (s, [], [OutClose p]))"

fun desk_task_run :: "desk_env \<Rightarrow> desk_task \<Rightarrow> desk \<Rightarrow> desk_next result" where
  "desk_task_run e ExemptTask s =
     Inr (s\<lparr>dk_exempted := get_exemptions (de_metrics e) (dk_unmanaged s)\<rparr>, [SolicitTask], [])"
| "desk_task_run e SolicitTask s =
     (if \<not> dk_db s then Inl UndefinedBehaviour else Inr (s, [RecordTx], [OutSolicitComplaints (de_metrics e)]))"
| "desk_task_run e RecordTx s = Inr (record_complaints (de_now e) s, [], [])"
| "desk_task_run e CleanupTx s =
     Inr (s\<lparr>dk_tables := recorder_cleanup (de_now e) max_complaint_age max_closed_complaint_age (dk_tables s)\<rparr>, [], [])"
| "desk_task_run e CheckTx s = Inr (check_close s)"
| "desk_task_run e (CloseTask p) s = close_channel (de_listpeerchannels e p) p s"
| "desk_task_run e (ClearTx p) s = Inr (s\<lparr>dk_tables := clear_close_pending p (dk_tables s)\<rparr>, [], [OutClose p])"
| "desk_task_run e (PendingTx p) s = defer_close (de_now e) p s"
| "desk_task_run e (DecideTask p since) s = Inr (decide_close (de_now e) p since s)"
| "desk_task_run e (DestroyTx p) s =
     Inr (s\<lparr>dk_tables := channel_closed (de_now e) p (clear_close_pending p (dk_tables s))\<rparr>, [], [])"
| "desk_task_run e DeskStatusTx s =
     Inr (s, [], [OutComplaints (get_all_complaints (de_date e) (dk_tables s)) (get_closed_complaints (de_date e) (dk_tables s))])"

definition on_auto_close :: "json \<Rightarrow> desk \<Rightarrow> bool \<times> desk" where
  "on_auto_close v s =
     (case v of
        JBool b \<Rightarrow> (False, s\<lparr>dk_enabled := b\<rparr>)
      | JStr t \<Rightarrow> if t = ''true'' \<or> t = ''false'' then (False, s\<lparr>dk_enabled := (t = ''true'')\<rparr>) else (True, s)
      | _ \<Rightarrow> (True, s))"

fun desk_message :: "desk_msg \<Rightarrow> desk \<Rightarrow> desk_next result" where
  "desk_message (AutoCloseOption v) s = Inr (snd (on_auto_close v s), [], [])"
| "desk_message DeskDbMsg s = Inr (s\<lparr>dk_db := True\<rparr>, [], [])"
| "desk_message DeskInitMsg s = Inr (s\<lparr>dk_rpc := True\<rparr>, [], [])"
| "desk_message (OnchainFeeMsg low) s = Inr (s\<lparr>dk_fees_low := low\<rparr>, [], [])"
| "desk_message DeskTwiceDailyMsg s =
     (if \<not> dk_db s then Inl UndefinedBehaviour
      else case desk_solicit s of (s1, ts, out) \<Rightarrow> Inr (s1, ts @ [CleanupTx], out))"
| "desk_message TenMinutesMsg s =
     (if \<not> dk_rpc s then Inr (s, [], [])
      else if \<not> dk_db s then Inl UndefinedBehaviour else Inr (s, [CheckTx], []))"
| "desk_message (ComplaintMsg p text) s = Inr (on_complaint p text s, [], [])"
| "desk_message (DestructionMsg p) s = (if \<not> dk_db s then Inl UndefinedBehaviour else Inr (s, [DestroyTx p], []))"
| "desk_message DeskStatusMsg s = (if \<not> dk_db s then Inl UndefinedBehaviour else Inr (s, [DeskStatusTx], []))"
| "desk_message (CloseTagMsg n u) s =
     rbind (desk_unmanage n u (dk_unmanaged s)) (\<lambda>un. Inr (s\<lparr>dk_unmanaged := un\<rparr>, [], []))"

subsection \<open>The event loop\<close>

text \<open>Besides the state, the world remembers the checks made while closing was enabled, with the tables and the
  unmanaged peers they saw, and how many rounds recorded a complaint that counts against each peer.\<close>

record desk_world =
  dw_desk :: desk
  dw_tasks :: "desk_task list"
  dw_out :: "desk_out list"
  dw_checks :: "(complaints_db \<times> node_id set) list"
  dw_rounds :: "node_id \<Rightarrow> nat"

fun observe :: "desk_task \<Rightarrow> desk_world \<Rightarrow> desk_world" where
  "observe CheckTx w =
     (if dk_enabled (dw_desk w)
      then w\<lparr>dw_checks := (dk_tables (dw_desk w), dk_unmanaged (dw_desk w)) # dw_checks w\<rparr> else w)"
| "observe RecordTx w =
     w\<lparr>dw_rounds := (\<lambda>n. dw_rounds w n
         + (if n \<in> keys (dk_complaints (dw_desk w)) \<and> n \<notin> keys (dk_exempted (dw_desk w)) then 1 else 0))\<rparr>"
| "observe _ w = w"

definition desk_advance :: "desk_next \<Rightarrow> desk_world \<Rightarrow> desk_world" where
  "desk_advance nx w =
     (case nx of (s, ts, out) \<Rightarrow> w\<lparr>dw_desk := s, dw_tasks := ts @ dw_tasks w, dw_out := rev out @ dw_out w\<rparr>)"

definition desk_restarted :: "desk \<Rightarrow> desk" where
  "desk_restarted s = desk_start\<lparr>dk_tables := dk_tables s\<rparr>"

inductive desk_step :: "desk_world \<Rightarrow> desk_world \<Rightarrow> bool" where
  task: "t \<in> set (dw_tasks w) \<Longrightarrow> desk_task_run e t (dw_desk w) = Inr nx \<Longrightarrow>
    desk_step w (desk_advance nx (observe t (w\<lparr>dw_tasks := remove1 t (dw_tasks w)\<rparr>)))"
| message: "desk_message m (dw_desk w) = Inr nx \<Longrightarrow> desk_step w (desk_advance nx w)"
| restart: "desk_step w (w\<lparr>dw_desk := desk_restarted (dw_desk w), dw_tasks := []\<rparr>)"

inductive_cases desk_step_cases: "desk_step w w'"

definition dw_start :: desk_world where
  "dw_start = \<lparr>dw_desk = desk_start, dw_tasks = [], dw_out = [], dw_checks = [], dw_rounds = (\<lambda>_. 0)\<rparr>"

definition desk_reachable :: "desk_world \<Rightarrow> bool" where
  "desk_reachable w = desk_step\<^sup>*\<^sup>* dw_start w"

subsection \<open>Recording a round\<close>

lemma record_one_ok:
  assumes "co_ok d"
  shows "co_ok (record_one now ex c d)"
    and "count_of (record_one now ex c d) n = count_of d n + (if n = fst c \<and> fst c \<notin> keys ex then 1 else 0)"
proof -
  have "map_of ex (fst c) = None \<longleftrightarrow> fst c \<notin> keys ex" by (simp add: map_of_eq_None_iff)
  then show "co_ok (record_one now ex c d)"
    "count_of (record_one now ex c d) n = count_of d n + (if n = fst c \<and> fst c \<notin> keys ex then 1 else 0)"
    using add_complaint_ok(1,2) [OF assms] add_ignored_complaint_ok(1,2) [OF assms]
    by (auto simp: record_one_def split: option.splits)
qed

lemma fold_record_ok:
  assumes "co_ok d" "distinct (map fst cs)"
  shows "co_ok (fold (record_one now ex) cs d) \<and>
    count_of (fold (record_one now ex) cs d) n = count_of d n + (if n \<in> keys cs \<and> n \<notin> keys ex then 1 else 0)"
  using assms
proof (induction cs arbitrary: d)
  case (Cons c cs)
  from Cons.IH [OF record_one_ok(1) [OF Cons.prems(1), of now ex c]] Cons.prems(2)
  show ?case by (auto simp: record_one_ok(2) [OF Cons.prems(1)])
qed simp

subsection \<open>Checking\<close>

lemma close_candidates_set:
  assumes "co_ok d"
  shows "set (close_candidates u d) = {n. n \<notin> u \<and> 5 \<le> count_of d n}"
proof -
  have "n \<in> set (close_candidates u d) \<longleftrightarrow> n \<notin> u \<and> 5 \<le> count_of d n" for n
  proof -
    have "n \<in> set (close_candidates u d) \<longleftrightarrow> (\<exists>k. (n, k) \<in> set (check_complaints d) \<and> n \<notin> u \<and> 5 \<le> k)"
      by (force simp: close_candidates_def max_acceptable_complaints_def)
    then show ?thesis unfolding check_complaints_set [OF assms] by auto
  qed
  then show ?thesis by blast
qed

lemma fold_clear_ok:
  assumes "co_ok d"
  shows "co_ok (fold (\<lambda>(n, since) d. if n \<in> K then d else clear_close_pending n d) xs d)
    \<and> count_of (fold (\<lambda>(n, since) d. if n \<in> K then d else clear_close_pending n d) xs d) = count_of d"
  using assms
proof (induction xs arbitrary: d)
  case (Cons x xs)
  obtain n s where x: "x = (n, s)" by (cases x)
  show ?case
    using Cons.IH [OF Cons.prems] Cons.IH [OF clear_close_pending_ok(1) [OF Cons.prems, of n]]
      clear_close_pending_ok(2) [OF Cons.prems, of n] by (simp add: x)
qed simp

subsection \<open>The invariant\<close>

fun round_task :: "desk_task \<Rightarrow> bool" where
  "round_task ExemptTask = True"
| "round_task SolicitTask = True"
| "round_task RecordTx = True"
| "round_task _ = False"

fun close_task :: "desk_task \<Rightarrow> node_id option" where
  "close_task (CloseTask p) = Some p"
| "close_task (ClearTx p) = Some p"
| "close_task (PendingTx p) = Some p"
| "close_task (DecideTask p _) = Some p"
| "close_task _ = None"

text \<open>A peer is condemned when a check found five complaints against it while it was managed.\<close>

definition condemned :: "desk_world \<Rightarrow> node_id \<Rightarrow> bool" where
  "condemned w p = (5 \<le> dw_rounds w p \<and> (\<exists>(d, u) \<in> set (dw_checks w). p \<notin> u \<and> 5 \<le> count_of d p))"

definition desk_invar :: "desk_world \<Rightarrow> bool" where
  "desk_invar w =
     (co_ok (dk_tables (dw_desk w)) \<and> map_wf (dk_complaints (dw_desk w))
      \<and> (\<forall>n. count_of (dk_tables (dw_desk w)) n \<le> dw_rounds w n)
      \<and> length (filter round_task (dw_tasks w)) = (if dk_soliciting (dw_desk w) then 1 else 0)
      \<and> (\<not> dk_soliciting (dw_desk w) \<longrightarrow> dk_complaints (dw_desk w) = [])
      \<and> (\<forall>t \<in> set (dw_tasks w). \<forall>p. close_task t = Some p \<longrightarrow> condemned w p)
      \<and> (\<forall>p. OutClose p \<in> set (dw_out w) \<longrightarrow> condemned w p))"

lemmas desk_task_defs = record_complaints_def check_close_def close_channel_def defer_close_def decide_close_def Let_def

lemma desk_task_tables:
  assumes "desk_task_run e t s = Inr (s', ts, out)" "co_ok (dk_tables s)" "map_wf (dk_complaints s)"
  shows "co_ok (dk_tables s') \<and> map_wf (dk_complaints s') \<and> count_of (dk_tables s') n \<le> count_of (dk_tables s) n
    + (if t = RecordTx \<and> n \<in> keys (dk_complaints s) \<and> n \<notin> keys (dk_exempted s) then 1 else 0)"
proof (cases t)
  case RecordTx
  then show ?thesis
  proof -
    have "s' = record_complaints (de_now e) s" using assms(1) RecordTx by simp
    then show ?thesis
      using fold_record_ok [OF assms(2) map_wf_distinct [OF assms(3)], of "de_now e" "dk_exempted s" n]
      by (simp add: RecordTx record_complaints_def map_wf_def)
  qed
next
  case CleanupTx
  then show ?thesis using assms recorder_cleanup_ok(1,2) [OF assms(2)] by auto
next
  case CheckTx
  have "s' = s\<lparr>dk_tables := fold (\<lambda>(n, since) d. if n \<in> set (close_candidates (dk_unmanaged s) (dk_tables s)) then d
      else clear_close_pending n d) (get_close_pendings (dk_tables s)) (dk_tables s)\<rparr>"
    using assms(1) CheckTx by (simp add: check_close_def Let_def)
  then show ?thesis
    using assms(3) fold_clear_ok [OF assms(2), of "set (close_candidates (dk_unmanaged s) (dk_tables s))" "get_close_pendings (dk_tables s)"]
    by simp
next
  case (PendingTx p)
  then show ?thesis
    using assms note_close_pending_ok(1,2) [OF assms(2)] by (auto simp: defer_close_def Let_def split: option.splits)
next
  case (ClearTx p)
  then show ?thesis using assms clear_close_pending_ok(1,2) [OF assms(2)] by auto
next
  case (DestroyTx p)
  let ?d = "clear_close_pending p (dk_tables s)"
  have "co_ok ?d" "count_of ?d = count_of (dk_tables s)" using clear_close_pending_ok(1,2) [OF assms(2)] by auto
  then show ?thesis using assms(1,3) channel_closed_ok(1,2) [of ?d] by (auto simp: DestroyTx)
qed (use assms in \<open>auto simp: close_channel_def decide_close_def rbind_eq_Inr split: option.splits if_splits\<close>)


lemma desk_task_flag:
  assumes "desk_task_run e t s = Inr (s', ts, out)"
  shows "length (filter round_task ts) = (if t = ExemptTask \<or> t = SolicitTask then 1 else 0)"
    and "dk_soliciting s' \<longleftrightarrow> dk_soliciting s \<and> t \<noteq> RecordTx"
    and "dk_complaints s' = (if t = RecordTx then [] else dk_complaints s)"
  using assms
  by (cases t; auto simp: desk_task_defs rbind_eq_Inr filter_empty_conv split: option.splits if_splits)+

lemma desk_task_closes:
  assumes "desk_task_run e t s = Inr (s', ts, out)" "u \<in> set ts \<and> close_task u = Some p \<or> OutClose p \<in> set out"
  shows "close_task t = Some p \<or> (t = CheckTx \<and> dk_enabled s \<and> p \<in> set (close_candidates (dk_unmanaged s) (dk_tables s)))"
  using assms
  by (cases t) (auto simp: desk_task_defs rbind_eq_Inr split: option.splits if_splits)
lemma desk_message_frame:
  assumes "desk_message m s = Inr (s', ts, out)"
  shows "dk_tables s' = dk_tables s" "out = []" "\<forall>t \<in> set ts. close_task t = None"
    "length (filter round_task ts) + (if dk_soliciting s then 1 else 0) = (if dk_soliciting s' then 1 else 0)"
    "map_wf (dk_complaints s) \<Longrightarrow> map_wf (dk_complaints s')"
    "(\<not> dk_soliciting s \<longrightarrow> dk_complaints s = []) \<Longrightarrow> (\<not> dk_soliciting s' \<longrightarrow> dk_complaints s' = [])"
  using assms
  by (cases m; auto simp: on_auto_close_def desk_solicit_def on_complaint_def rbind_eq_Inr map_wf_map_put map_wf_def [of "[]"]
      split: json.splits if_splits)+

lemma observe_frame [simp]:
  "dw_desk (observe t w) = dw_desk w" "dw_tasks (observe t w) = dw_tasks w" "dw_out (observe t w) = dw_out w"
  by (cases t; simp)+

lemma observe_rounds:
  "dw_rounds (observe t w) n = dw_rounds w n
    + (if t = RecordTx \<and> n \<in> keys (dk_complaints (dw_desk w)) \<and> n \<notin> keys (dk_exempted (dw_desk w)) then 1 else 0)"
  by (cases t) (simp_all del: image_iff)

lemma observe_checks: "set (dw_checks w) \<subseteq> set (dw_checks (observe t w))"
  by (cases t) auto

lemma condemned_observe: "condemned w p \<Longrightarrow> condemned (observe t w) p"
  using observe_checks [of w t] by (auto simp: condemned_def observe_rounds intro: trans_le_add1)

lemma desk_advance_simps [simp]:
  "dw_desk (desk_advance (s, ts, out) w) = s" "dw_tasks (desk_advance (s, ts, out) w) = ts @ dw_tasks w"
  "dw_out (desk_advance (s, ts, out) w) = rev out @ dw_out w" "dw_rounds (desk_advance (s, ts, out) w) = dw_rounds w"
  "dw_checks (desk_advance (s, ts, out) w) = dw_checks w"
  by (simp_all add: desk_advance_def)

lemma condemned_frame [simp]:
  "condemned (desk_advance nx w) = condemned w" "condemned (w\<lparr>dw_tasks := ts\<rparr>) = condemned w" "condemned (w\<lparr>dw_desk := s\<rparr>) = condemned w"
  by (cases nx; simp add: condemned_def fun_eq_iff)+

lemma desk_invar_task:
  assumes inv: "desk_invar w" and t: "t \<in> set (dw_tasks w)" and run: "desk_task_run e t (dw_desk w) = Inr (s', ts, out)"
  shows "desk_invar (desk_advance (s', ts, out) (observe t (w\<lparr>dw_tasks := remove1 t (dw_tasks w)\<rparr>)))" (is "desk_invar ?w")
proof -
  let ?s = "dw_desk w" and ?v = "w\<lparr>dw_tasks := remove1 t (dw_tasks w)\<rparr>"
  have i: "co_ok (dk_tables ?s)" "map_wf (dk_complaints ?s)" "\<And>n. count_of (dk_tables ?s) n \<le> dw_rounds w n"
    "length (filter round_task (dw_tasks w)) = (if dk_soliciting ?s then 1 else 0)"
    "\<not> dk_soliciting ?s \<longrightarrow> dk_complaints ?s = []"
    "\<And>u p. u \<in> set (dw_tasks w) \<Longrightarrow> close_task u = Some p \<Longrightarrow> condemned w p"
    "\<And>p. OutClose p \<in> set (dw_out w) \<Longrightarrow> condemned w p"
    using inv by (auto simp: desk_invar_def)
  have old: "condemned w p \<Longrightarrow> condemned ?w p" for p using condemned_observe [of ?v p t] by simp
  have new: "condemned ?w p" if "u \<in> set ts \<and> close_task u = Some p \<or> OutClose p \<in> set out" for u p
  proof (cases "close_task t = Some p")
    case True
    then show ?thesis using i(6) t old by blast
  next
    case False
    with desk_task_closes [OF run that] have c: "t = CheckTx" "dk_enabled ?s"
      "p \<notin> dk_unmanaged ?s" "5 \<le> count_of (dk_tables ?s) p" using close_candidates_set [OF i(1)] by auto
    moreover have "5 \<le> dw_rounds w p" using c(4) i(3) le_trans by blast
    ultimately show ?thesis by (simp add: condemned_def)
  qed
  have "count_of (dk_tables s') n \<le> dw_rounds ?w n" for n
    using desk_task_tables [OF run i(1,2), of n] i(3) [of n] by (simp add: observe_rounds split: if_splits)
  moreover have "length (filter round_task (dw_tasks ?w)) = (if dk_soliciting s' then 1 else 0)"
  proof -
    have "length (filter round_task (remove1 t (dw_tasks w))) + (if round_task t then 1 else 0) = (if dk_soliciting ?s then 1 else 0)"
      using length_filter_remove1 [OF t, of round_task] i(4) by simp
    then show ?thesis using desk_task_flag(1,2) [OF run] by (cases t) (auto split: if_splits)
  qed
  moreover have "\<not> dk_soliciting s' \<longrightarrow> dk_complaints s' = []" using desk_task_flag(2,3) [OF run] i(5) by auto
  moreover have "condemned ?w p" if "u \<in> set (dw_tasks ?w)" "close_task u = Some p" for u p
    using that new old i(6) set_remove1_subset [of t "dw_tasks w"] by auto
  moreover have "condemned ?w p" if "OutClose p \<in> set (dw_out ?w)" for p
    using that new old i(7) by auto
  ultimately show ?thesis using desk_task_tables [OF run i(1,2)] by (simp add: desk_invar_def del: observe.simps condemned_frame)
qed

lemma desk_invar_step:
  assumes "desk_step w w'" "desk_invar w"
  shows "desk_invar w'"
  using assms
proof (cases rule: desk_step.cases)
  case (task t e nx)
  then show ?thesis using desk_invar_task [OF assms(2)] by (cases nx) auto
next
  case (message m nx)
  obtain s' ts out where nx: "nx = (s', ts, out)" by (cases nx)
  with message have run: "desk_message m (dw_desk w) = Inr (s', ts, out)" by simp
  note f = desk_message_frame [OF run]
  show ?thesis using assms(2) f by (auto simp: message(1) nx desk_invar_def)
next
  case restart
  then show ?thesis
    using assms(2) by (auto simp: desk_invar_def desk_restarted_def desk_start_def map_wf_def)
qed

lemma desk_invar_reachable: "desk_reachable w \<Longrightarrow> desk_invar w"
  unfolding desk_reachable_def
proof (induction rule: rtranclp_induct)
  case base
  show ?case by (simp add: desk_invar_def dw_start_def desk_start_def map_wf_def)
next
  case (step y z)
  then show ?case using desk_invar_step by blast
qed
subsection \<open>Results\<close>

text \<open>C19: a channel is only closed for cause. Whatever messages arrive, however the tasks of the desk interleave and
  whenever the program restarts, a request to close the channels with a peer is only ever made after at least
  five rounds recorded a complaint against it while it was not exempt, and after a check that was made with closing
  enabled, found five such complaints still on record and the peer not withheld from closing.\<close>

theorem close_only_for_cause:
  assumes "desk_reachable w" "OutClose p \<in> set (dw_out w)"
  shows "5 \<le> dw_rounds w p \<and> (\<exists>(d, u) \<in> set (dw_checks w). p \<notin> u \<and> 5 \<le> count_of d p)"
  using desk_invar_reachable [OF assms(1)] assms(2) by (simp add: desk_invar_def condemned_def)

text \<open>C21: at most one round of complaints is in progress, the flag is set exactly while one is, and complaints are
  kept only during a round; no row of the tables refers to a peer that is not there, and no peer has two closes
  deferred.\<close>

theorem complaint_rounds:
  assumes "desk_reachable w"
  shows "length (filter round_task (dw_tasks w)) = (if dk_soliciting (dw_desk w) then 1 else 0)
    \<and> (dk_complaints (dw_desk w) \<noteq> [] \<longrightarrow> dk_soliciting (dw_desk w)) \<and> co_ok (dk_tables (dw_desk w))"
  using desk_invar_reachable [OF assms] by (auto simp: desk_invar_def)

text \<open>C20: a peer that is not connected. The assertion never fails; the close is deferred from the first time the peer
  was found offline, however often it is found offline again, and is made exactly when it has waited three days
  and fees are low.\<close>

theorem offline_close_waits:
  assumes "co_ok (dk_tables s)"
  shows "\<exists>since. defer_close now p s = Inr (s\<lparr>dk_tables := note_close_pending now p (dk_tables s)\<rparr>, [DecideTask p since], [])
      \<and> (case get_close_pending p (dk_tables s) of None \<Rightarrow> since = now | Some t \<Rightarrow> since = t)
      \<and> get_close_pending p (note_close_pending now p (dk_tables s)) = Some since
      \<and> (OutClose p \<in> set (snd (snd (decide_close later p since s')))
          \<longleftrightarrow> 3 * 24 * 60 * 60 \<le> fl (later - since) \<and> dk_fees_low s')"
proof -
  let ?d = "note_close_pending now p (dk_tables s)"
  note n = note_close_pending_ok [OF assms, of now p]
  note g = get_close_pending_since [OF assms] get_close_pending_since [OF n(1)]
  obtain since where since: "get_close_pending p ?d = Some since"
    "case get_close_pending p (dk_tables s) of None \<Rightarrow> since = now | Some t \<Rightarrow> since = t"
  proof (cases "get_close_pending p (dk_tables s)")
    case None
    then have "\<not> pending_since (dk_tables s) p t" for t using g(1) [of p t] by simp
    then have "pending_since ?d p now" using n(3) by blast
    then show ?thesis using that [of now] None g(2) by simp
  next
    case (Some t)
    then have "pending_since ?d p t" using n(3) g(1) by blast
    then show ?thesis using that [of t] Some g(2) by simp
  qed
  then show ?thesis
    by (intro exI [of _ since]) (auto simp: defer_close_def Let_def decide_close_def close_patience_def)
qed

text \<open>When all channels with a peer are gone, what was held against it moves to the closed complaints, and it
  starts anew.\<close>

lemma destroyed_starts_anew:
  assumes "co_ok (dk_tables s)" "desk_task_run e (DestroyTx p) s = Inr (s', ts, out)"
  shows "count_of (dk_tables s') p = 0 \<and> get_close_pending p (dk_tables (s\<lparr>dk_tables := clear_close_pending p (dk_tables s)\<rparr>)) = None
    \<and> length (co_closed (dk_tables s')) = length (co_closed (clear_close_pending p (dk_tables s))) + count_of (dk_tables s) p"
proof -
  note c = clear_close_pending_ok [OF assms(1), of p]
  have "get_close_pending p (clear_close_pending p (dk_tables s)) = None"
    using get_close_pending_since [OF c(1), of p] c(3) by (metis not_None_eq)
  then show ?thesis using assms(2) channel_closed_ok(2,3) [OF c(1), of "de_now e" p] c(2) by auto
qed

subsection \<open>A channel that is closed\<close>

definition ex_peer :: node_id where "ex_peer = NodeId None"

definition ex_desk_env :: desk_env where
  "ex_desk_env = \<lparr>de_now = 0, de_metrics = [], de_listpeerchannels = (\<lambda>_. Some (JObj [(''channels'',
     JArr [JObj [(''peer_connected'', JBool True)]])])), de_date = (\<lambda>_. [])\<rparr>"

definition ex_tables :: "nat \<Rightarrow> complaints_db" where
  "ex_tables k = (add_complaint 0 ex_peer ''slow'' ^^ k) co_empty"

definition ex_desk :: "nat \<Rightarrow> desk" where
  "ex_desk k = desk_start\<lparr>dk_enabled := True, dk_db := True, dk_rpc := True, dk_tables := ex_tables k\<rparr>"

definition ex_world :: "nat \<Rightarrow> desk_world" where
  "ex_world k = \<lparr>dw_desk = ex_desk k, dw_tasks = replicate k CleanupTx, dw_out = replicate k (OutSolicitComplaints []),
     dw_checks = [], dw_rounds = (\<lambda>n. if n = ex_peer then k else 0)\<rparr>"

lemma desk_reach_step: "desk_reachable w \<Longrightarrow> desk_step w w' \<Longrightarrow> desk_reachable w'"
  unfolding desk_reachable_def by (rule rtranclp.rtrancl_into_rtrancl)

lemma desk_reach_message:
  assumes "desk_reachable w" "desk_message m (dw_desk w) = Inr nx"
  shows "desk_reachable (desk_advance nx w)"
  using desk_reach_step [OF assms(1) desk_step.message [OF assms(2)]] .

lemma desk_reach_task:
  assumes "desk_reachable w" "t \<in> set (dw_tasks w)" "desk_task_run ex_desk_env t (dw_desk w) = Inr nx"
  shows "desk_reachable (desk_advance nx (observe t (w\<lparr>dw_tasks := remove1 t (dw_tasks w)\<rparr>)))"
  using desk_reach_step [OF assms(1) desk_step.task [OF assms(2,3)]] .

lemmas ex_defs = desk_advance_def ex_desk_def desk_start_def ex_desk_env_def

lemma ex_world_0: "desk_reachable (ex_world 0)"
proof -
  have 0: "desk_reachable dw_start" by (simp add: desk_reachable_def)
  have 1: "desk_reachable (dw_start\<lparr>dw_desk := desk_start\<lparr>dk_enabled := True\<rparr>\<rparr>)"
    using desk_reach_message [OF 0, of "AutoCloseOption (JBool True)"] by (simp add: dw_start_def ex_defs on_auto_close_def)
  have 2: "desk_reachable (dw_start\<lparr>dw_desk := desk_start\<lparr>dk_enabled := True, dk_db := True\<rparr>\<rparr>)"
    using desk_reach_message [OF 1, of DeskDbMsg] by (simp add: dw_start_def ex_defs)
  show ?thesis
    using desk_reach_message [OF 2, of DeskInitMsg]
    by (simp add: dw_start_def ex_defs ex_world_def ex_tables_def)
qed

lemma ex_world_Suc:
  assumes "desk_reachable (ex_world k)"
  shows "desk_reachable (ex_world (Suc k))"
proof -
  let ?s = "(ex_desk k)\<lparr>dk_soliciting := True\<rparr>" and ?w = "ex_world k"
  have 1: "desk_reachable (?w\<lparr>dw_desk := ?s, dw_tasks := ExemptTask # CleanupTx # replicate k CleanupTx\<rparr>)"
    using desk_reach_message [OF assms, of DeskTwiceDailyMsg] by (simp add: ex_world_def ex_defs desk_solicit_def)
  have "get_exemptions [] {} = []" by (simp add: get_exemptions_def)
  then have 2: "desk_reachable (?w\<lparr>dw_desk := ?s, dw_tasks := SolicitTask # CleanupTx # replicate k CleanupTx\<rparr>)"
    using desk_reach_task [OF 1, of ExemptTask] by (simp add: ex_world_def ex_defs)
  have 3: "desk_reachable (?w\<lparr>dw_desk := ?s, dw_tasks := RecordTx # CleanupTx # replicate k CleanupTx,
      dw_out := OutSolicitComplaints [] # dw_out ?w\<rparr>)"
    using desk_reach_task [OF 2, of SolicitTask] by (simp add: ex_world_def ex_defs)
  have 4: "desk_reachable (?w\<lparr>dw_desk := ?s\<lparr>dk_complaints := [(ex_peer, ''slow'')]\<rparr>,
      dw_tasks := RecordTx # CleanupTx # replicate k CleanupTx, dw_out := OutSolicitComplaints [] # dw_out ?w\<rparr>)"
    using desk_reach_message [OF 3, of "ComplaintMsg ex_peer ''slow''"] by (simp add: ex_world_def ex_defs on_complaint_def)
  have "(\<lambda>n. (if n = ex_peer then k else 0) + (if n = ex_peer then 1 else 0)) = (\<lambda>n. if n = ex_peer then Suc k else 0)" by auto
  with desk_reach_task [OF 4, of RecordTx] show ?thesis
    by (simp add: ex_world_def ex_defs record_complaints_def record_one_def ex_tables_def)
qed

lemma ex_world_reachable: "desk_reachable (ex_world k)"
  by (induction k) (simp_all add: ex_world_0 ex_world_Suc)

lemma ex_candidates: "close_candidates {} (ex_tables 5) = [ex_peer]"
  by code_simp

theorem close_only_for_cause_witness:
  "\<exists>w. desk_reachable w \<and> OutClose ex_peer \<in> set (dw_out w) \<and> 5 \<le> dw_rounds w ex_peer"
proof -
  let ?w = "ex_world 5"
  have 1: "desk_reachable (?w\<lparr>dw_tasks := CheckTx # dw_tasks ?w\<rparr>)"
    using desk_reach_message [OF ex_world_reachable, of TenMinutesMsg 5] by (simp add: ex_world_def ex_defs)
  obtain s cs where 2: "desk_reachable (?w\<lparr>dw_desk := s, dw_tasks := CloseTask ex_peer # dw_tasks ?w, dw_checks := cs\<rparr>)"
    using desk_reach_task [OF 1, of CheckTx] by (simp add: ex_world_def ex_defs check_close_def Let_def ex_candidates)
  obtain s cs where 3: "desk_reachable (?w\<lparr>dw_desk := s, dw_tasks := ClearTx ex_peer # dw_tasks ?w, dw_checks := cs\<rparr>)"
    using desk_reach_task [OF 2, of "CloseTask ex_peer"]
    by (simp add: ex_world_def ex_defs close_channel_def reply_connected_def json_has_def json_find_def json_elems_def json_get_def)
  obtain w where w: "desk_reachable w" "OutClose ex_peer \<in> set (dw_out w)"
    using desk_reach_task [OF 3, of "ClearTx ex_peer"] by (auto simp: desk_advance_def ex_world_def)
  from close_only_for_cause [OF w] w show ?thesis by blast
qed

theorem complaint_rounds_witness:
  "length (filter round_task (dw_tasks (ex_world 3))) = (if dk_soliciting (dw_desk (ex_world 3)) then 1 else 0)"
  using complaint_rounds [OF ex_world_reachable] by blast

theorem offline_close_waits_witness:
  "\<exists>since. defer_close 7 ex_peer (ex_desk 1)
     = Inr ((ex_desk 1)\<lparr>dk_tables := note_close_pending 7 ex_peer (ex_tables 1)\<rparr>, [DecideTask ex_peer since], [])"
proof -
  have "dk_tables (ex_desk 1) = ex_tables 1" by (simp add: ex_desk_def desk_start_def)
  moreover have "co_ok (ex_tables 1)" by (simp add: ex_tables_def add_complaint_ok(1))
  ultimately show ?thesis using offline_close_waits [of "ex_desk 1" 7 ex_peer] by auto
qed

end
