(* ===== verification/Earnings_Tracker.thy ===== *)
theory Earnings_Tracker
  imports Jsmn_Object Ln_Amount Ln_Ids "HOL-Library.List_Lexorder" "HOL-Library.Char_ord"
begin

text \<open>
  \<open>src/Boss/Mod/EarningsTracker.cpp\<close>: what each peer earned in forwarding fees and cost in rebalancing, in buckets of
  one day. The columns of the table are integers of the database, read into \<open>uint64_t\<close> fields by the reports, so
  the record of the eight sums is polymorphic. Sums that leave the 64 bits of the database are outside the model;
  the time of an event is the caller's. The lemmas show that a windowed sum of the table is the sum over the events of
  the window, that every fee is booked once on each side, and that the totals of the reports are the sums of the table.
\<close>

subsection \<open>Data\<close>

record 'a earnings_data =
  in_earnings :: 'a
  in_forwarded :: 'a
  in_expenditures :: 'a
  in_rebalanced :: 'a
  out_earnings :: 'a
  out_forwarded :: 'a
  out_expenditures :: 'a
  out_rebalanced :: 'a

definition ed_zero :: "'a::zero earnings_data" where
  "ed_zero = \<lparr>in_earnings = 0, in_forwarded = 0, in_expenditures = 0, in_rebalanced = 0,
     out_earnings = 0, out_forwarded = 0, out_expenditures = 0, out_rebalanced = 0\<rparr>"

definition ed_plus :: "'a::plus earnings_data \<Rightarrow> 'a earnings_data \<Rightarrow> 'a earnings_data" where
  "ed_plus a b =
     \<lparr>in_earnings = in_earnings a + in_earnings b, in_forwarded = in_forwarded a + in_forwarded b,
      in_expenditures = in_expenditures a + in_expenditures b, in_rebalanced = in_rebalanced a + in_rebalanced b,
      out_earnings = out_earnings a + out_earnings b, out_forwarded = out_forwarded a + out_forwarded b,
      out_expenditures = out_expenditures a + out_expenditures b, out_rebalanced = out_rebalanced a + out_rebalanced b\<rparr>"

text \<open>The columns of a fetched row as the fields of the structure.\<close>

definition from_row :: "int earnings_data \<Rightarrow> u64 earnings_data" where
  "from_row d =
     \<lparr>in_earnings = of_int (in_earnings d), in_forwarded = of_int (in_forwarded d),
      in_expenditures = of_int (in_expenditures d), in_rebalanced = of_int (in_rebalanced d),
      out_earnings = of_int (out_earnings d), out_forwarded = of_int (out_forwarded d),
      out_expenditures = of_int (out_expenditures d), out_rebalanced = of_int (out_rebalanced d)\<rparr>"

record earnings_row =
  er_node :: string
  er_bucket :: double
  er_data :: "int earnings_data"

type_synonym earnings = "earnings_row list"

text \<open>The \<open>SUM\<close> of each column.\<close>

definition ed_sum :: "'a::monoid_add earnings_data list \<Rightarrow> 'a earnings_data" where
  "ed_sum ds = foldr ed_plus ds ed_zero"

subsection \<open>The table\<close>

definition bucket_time :: "double \<Rightarrow> double" where
  "bucket_time input_time = fl (of_int \<lfloor>fl (input_time / 86400)\<rfloor> * 86400)"

text \<open>The table as the startup may find it. A table of buckets with missing columns gets them with value 0.\<close>

record legacy_row =
  lr_node :: string
  lr_in_earnings :: int
  lr_in_expenditures :: int
  lr_out_earnings :: int
  lr_out_expenditures :: int

datatype earnings_table = NoTable | LegacyTable "legacy_row list" | BucketTable earnings

definition migrate_row :: "legacy_row \<Rightarrow> earnings_row" where
  "migrate_row r =
     \<lparr>er_node = lr_node r, er_bucket = 0,
      er_data = \<lparr>in_earnings = lr_in_earnings r, in_forwarded = 0, in_expenditures = lr_in_expenditures r,
        in_rebalanced = 0, out_earnings = lr_out_earnings r, out_forwarded = 0,
        out_expenditures = lr_out_expenditures r, out_rebalanced = 0\<rparr>\<rparr>"

definition earnings_init :: "earnings_table \<Rightarrow> earnings" where
  "earnings_init t = (case t of BucketTable rs \<Rightarrow> rs | LegacyTable ls \<Rightarrow> map migrate_row ls | NoTable \<Rightarrow> [])"

definition ensure :: "string \<Rightarrow> double \<Rightarrow> earnings \<Rightarrow> earnings" where
  "ensure node bucket t =
     (if \<exists>r \<in> set t. er_node r = node \<and> er_bucket r = bucket then t
      else t @ [\<lparr>er_node = node, er_bucket = bucket, er_data = ed_zero\<rparr>])"

text \<open>\<open>UPDATE \<dots> WHERE node = :node AND time_bucket = :bucket\<close>.\<close>

definition update_row :: "string \<Rightarrow> double \<Rightarrow> (int earnings_data \<Rightarrow> int earnings_data) \<Rightarrow> earnings \<Rightarrow> earnings" where
  "update_row node bucket f t =
     map (\<lambda>r. if er_node r = node \<and> er_bucket r = bucket then r\<lparr>er_data := f (er_data r)\<rparr> else r) t"

definition earnings_forward_fee :: "double \<Rightarrow> node_id \<Rightarrow> node_id \<Rightarrow> amount \<Rightarrow> amount \<Rightarrow> earnings \<Rightarrow> earnings" where
  "earnings_forward_fee now i ou fee amount t =
     (let bucket = bucket_time now;
          t1 = ensure (string_of_node ou) bucket (ensure (string_of_node i) bucket t);
          t2 = update_row (string_of_node i) bucket
                 (\<lambda>d. d\<lparr>in_earnings := in_earnings d + int (amt fee), in_forwarded := in_forwarded d + int (amt amount)\<rparr>) t1
      in update_row (string_of_node ou) bucket
           (\<lambda>d. d\<lparr>out_earnings := out_earnings d + int (amt fee), out_forwarded := out_forwarded d + int (amt amount)\<rparr>) t2)"

text \<open>A null node is false in a condition.\<close>

definition xrebalance_attribution ::
  "double \<Rightarrow> node_id \<Rightarrow> node_id \<Rightarrow> amount \<Rightarrow> amount \<Rightarrow> earnings \<Rightarrow> earnings" where
  "xrebalance_attribution now source destination amount fee t =
     (let bucket = bucket_time now;
          t1 = (if source = NodeId None then t
                else update_row (string_of_node source) bucket
                  (\<lambda>d. d\<lparr>in_expenditures := in_expenditures d + int (amt fee), in_rebalanced := in_rebalanced d + int (amt amount)\<rparr>)
                  (ensure (string_of_node source) bucket t))
      in if destination = NodeId None then t1
         else update_row (string_of_node destination) bucket
           (\<lambda>d. d\<lparr>out_expenditures := out_expenditures d + int (amt fee), out_rebalanced := out_rebalanced d + int (amt amount)\<rparr>)
           (ensure (string_of_node destination) bucket t1))"

subsection \<open>Queries and reports\<close>

definition node_rows :: "string \<Rightarrow> earnings \<Rightarrow> earnings" where
  "node_rows node t = filter (\<lambda>r. er_node r = node) t"

definition rows_since :: "double \<Rightarrow> earnings \<Rightarrow> earnings" where
  "rows_since cutoff t = filter (\<lambda>r. er_bucket r \<ge> cutoff) t"

text \<open>\<open>GROUP BY node\<close>; the sum of no rows is \<open>NULL\<close>, which is read as 0.\<close>

definition group_by_node :: "earnings \<Rightarrow> (string \<times> int earnings_data) list" where
  "group_by_node t =
     map (\<lambda>node. (node, ed_sum (map er_data (node_rows node t)))) (sort (remdups (map er_node t)))"

record earnings_info =
  ei_node :: node_id
  ei_in_earnings :: amount
  ei_in_expenditures :: amount
  ei_out_earnings :: amount
  ei_out_expenditures :: amount
  ei_in_forwarded :: amount
  ei_in_rebalanced :: amount
  ei_out_forwarded :: amount
  ei_out_rebalanced :: amount

definition request_earnings_info :: "node_id \<Rightarrow> earnings \<Rightarrow> earnings_info" where
  "request_earnings_info node t =
     (let e = from_row (ed_sum (map er_data (node_rows (string_of_node node) t)))
      in \<lparr>ei_node = node, ei_in_earnings = amount_msat (in_earnings e), ei_in_expenditures = amount_msat (in_expenditures e),
          ei_out_earnings = amount_msat (out_earnings e), ei_out_expenditures = amount_msat (out_expenditures e),
          ei_in_forwarded = amount_msat (in_forwarded e), ei_in_rebalanced = amount_msat (in_rebalanced e),
          ei_out_forwarded = amount_msat (out_forwarded e), ei_out_rebalanced = amount_msat (out_rebalanced e)\<rparr>)"

text \<open>A report is its rows and the total that the loop over them accumulates.\<close>

definition report_total :: "u64 earnings_data list \<Rightarrow> u64 earnings_data" where
  "report_total es = foldl ed_plus ed_zero es"

type_synonym node_table = "(string \<times> u64 earnings_data) list \<times> u64 earnings_data"

definition node_report :: "(string \<times> int earnings_data) list \<Rightarrow> node_table" where
  "node_report gs = (let rows = map (\<lambda>(node, d). (node, from_row d)) gs in (rows, report_total (map snd rows)))"

definition earnings_status :: "earnings \<Rightarrow> node_table" where
  "earnings_status t = node_report (group_by_node t)"

definition net_earnings :: "int earnings_data \<Rightarrow> int" where
  "net_earnings d = in_earnings d - in_expenditures d + out_earnings d - out_expenditures d"

definition recent_earnings_report :: "double \<Rightarrow> double \<Rightarrow> earnings \<Rightarrow> node_table" where
  "recent_earnings_report now days t =
     (let cutoff = fl (bucket_time now - fl (fl (fl (days * 24) * 60) * 60))
      in node_report (sort_key (\<lambda>g. - net_earnings (snd g)) (group_by_node (rows_since cutoff t))))"

record history_entry =
  he_bucket_time :: u64
  he_node :: "string option"
  he_data :: "u64 earnings_data"

definition history_rows :: "string \<Rightarrow> bool \<Rightarrow> earnings \<Rightarrow> (double \<times> string option \<times> int earnings_data) list" where
  "history_rows nodeid by_node t =
     (if by_node then map (\<lambda>r. (er_bucket r, Some (er_node r), er_data r)) (sort_key er_bucket (sort_key er_node t))
      else if nodeid = [] then
        map (\<lambda>b. (b, None, ed_sum (map er_data (filter (\<lambda>r. er_bucket r = b) t)))) (sort (remdups (map er_bucket t)))
      else map (\<lambda>r. (er_bucket r, None, er_data r)) (sort_key er_bucket (node_rows nodeid t)))"

definition earnings_history_report :: "string \<Rightarrow> bool \<Rightarrow> earnings \<Rightarrow> history_entry list \<times> u64 earnings_data" where
  "earnings_history_report nodeid by_node t =
     (let history = map (\<lambda>(b, n, d). \<lparr>he_bucket_time = of_int (trunc_double b), he_node = n, he_data = from_row d\<rparr>)
            (history_rows nodeid by_node t)
      in (history, report_total (map he_data history)))"

subsection \<open>Commands\<close>

datatype earnings_reply =
    RecentEarnings node_table
  | EarningsHistory "history_entry list \<times> u64 earnings_data"
  | ParamFail
  | NotOurs

text \<open>The single optional parameter of both commands; \<open>None\<close> is a failure.\<close>

definition one_param :: "string \<Rightarrow> json \<Rightarrow> json option" where
  "one_param name params =
     (case params of
        JObj kvs \<Rightarrow>
          if length kvs > 1 then None
          else if length kvs = 1 then map_of kvs name
          else Some JNull
      | JArr xs \<Rightarrow>
          if length xs > 1 then None
          else if length xs = 1 then Some (xs ! 0)
          else Some JNull
      | _ \<Rightarrow> Some JNull)"

definition on_earnings_command :: "double \<Rightarrow> string \<Rightarrow> json \<Rightarrow> earnings \<Rightarrow> earnings_reply" where
  "on_earnings_command now command params t =
     (if command = ''clboss-recent-earnings'' then
        (case one_param ''days'' params of
           None \<Rightarrow> ParamFail
         | Some JNull \<Rightarrow> RecentEarnings (recent_earnings_report now 14 t)
         | Some (JNum days) \<Rightarrow> RecentEarnings (recent_earnings_report now days t)
         | _ \<Rightarrow> ParamFail)
      else if command = ''clboss-earnings-history'' then
        (case one_param ''nodeid'' params of
           None \<Rightarrow> ParamFail
         | Some JNull \<Rightarrow> EarningsHistory (earnings_history_report [] False t)
         | Some (JStr nodeid) \<Rightarrow>
             EarningsHistory (if nodeid = ''all'' then earnings_history_report [] True t
                              else earnings_history_report nodeid False t)
         | _ \<Rightarrow> ParamFail)
      else NotOurs)"

subsection \<open>Events\<close>

datatype earnings_event =
    ForwardFee double node_id node_id amount amount
  | Attribution double node_id node_id amount amount

fun on_earnings_event :: "earnings_event \<Rightarrow> earnings \<Rightarrow> earnings" where
  "on_earnings_event (ForwardFee now i ou fee amount) t = earnings_forward_fee now i ou fee amount t"
| "on_earnings_event (Attribution now source destination amount fee) t =
     xrebalance_attribution now source destination amount fee t"

fun event_time :: "earnings_event \<Rightarrow> double" where
  "event_time (ForwardFee now _ _ _ _) = now"
| "event_time (Attribution now _ _ _ _) = now"

text \<open>What an event books for a node, and the books of a run from an empty table.\<close>

fun books :: "string \<Rightarrow> earnings_event \<Rightarrow> int earnings_data" where
  "books s (ForwardFee now i ou fee amount) =
     ed_plus
       (if string_of_node i = s then ed_zero\<lparr>in_earnings := int (amt fee), in_forwarded := int (amt amount)\<rparr> else ed_zero)
       (if string_of_node ou = s then ed_zero\<lparr>out_earnings := int (amt fee), out_forwarded := int (amt amount)\<rparr> else ed_zero)"
| "books s (Attribution now source destination amount fee) =
     ed_plus
       (if source \<noteq> NodeId None \<and> string_of_node source = s
        then ed_zero\<lparr>in_expenditures := int (amt fee), in_rebalanced := int (amt amount)\<rparr> else ed_zero)
       (if destination \<noteq> NodeId None \<and> string_of_node destination = s
        then ed_zero\<lparr>out_expenditures := int (amt fee), out_rebalanced := int (amt amount)\<rparr> else ed_zero)"

definition earnings_run :: "earnings_event list \<Rightarrow> earnings \<Rightarrow> earnings" where
  "earnings_run evs t = fold on_earnings_event evs t"

subsection \<open>The monoid of the sums\<close>

lemma ed_plus_fields [simp]:
  "in_earnings (ed_plus a b) = in_earnings a + in_earnings b"
  "in_forwarded (ed_plus a b) = in_forwarded a + in_forwarded b"
  "in_expenditures (ed_plus a b) = in_expenditures a + in_expenditures b"
  "in_rebalanced (ed_plus a b) = in_rebalanced a + in_rebalanced b"
  "out_earnings (ed_plus a b) = out_earnings a + out_earnings b"
  "out_forwarded (ed_plus a b) = out_forwarded a + out_forwarded b"
  "out_expenditures (ed_plus a b) = out_expenditures a + out_expenditures b"
  "out_rebalanced (ed_plus a b) = out_rebalanced a + out_rebalanced b"
  by (simp_all add: ed_plus_def)

lemma ed_zero_fields [simp]:
  "in_earnings ed_zero = 0" "in_forwarded ed_zero = 0" "in_expenditures ed_zero = 0" "in_rebalanced ed_zero = 0"
  "out_earnings ed_zero = 0" "out_forwarded ed_zero = 0" "out_expenditures ed_zero = 0" "out_rebalanced ed_zero = 0"
  by (simp_all add: ed_zero_def)

lemma ed_plus_zero [simp]:
  fixes a :: "'a::monoid_add earnings_data"
  shows "ed_plus ed_zero a = a" "ed_plus a ed_zero = a"
  by simp_all

lemma ed_plus_assoc: "ed_plus (ed_plus a b) (c :: 'a::monoid_add earnings_data) = ed_plus a (ed_plus b c)"
  by (simp add: add.assoc)

lemma ed_plus_commute: "ed_plus a (b :: 'a::comm_monoid_add earnings_data) = ed_plus b a"
  by (simp add: add.commute)

lemma ed_plus_left_commute: "ed_plus a (ed_plus b (c :: 'a::comm_monoid_add earnings_data)) = ed_plus b (ed_plus a c)"
  by (simp add: add.left_commute)

lemmas ed_plus_ac = ed_plus_assoc ed_plus_commute ed_plus_left_commute

lemma ed_sum_simps [simp]: "ed_sum [] = ed_zero" "ed_sum (d # ds) = ed_plus d (ed_sum ds)"
  by (simp_all add: ed_sum_def)

lemma ed_sum_append [simp]: "ed_sum (ds @ es) = ed_plus (ed_sum ds) (ed_sum (es :: 'a::monoid_add earnings_data list))"
  by (induction ds) (simp_all add: ed_plus_assoc)

lemma ed_sum_fields:
  "in_earnings (ed_sum ds) = sum_list (map in_earnings ds)"
  "in_forwarded (ed_sum ds) = sum_list (map in_forwarded ds)"
  "in_expenditures (ed_sum ds) = sum_list (map in_expenditures ds)"
  "in_rebalanced (ed_sum ds) = sum_list (map in_rebalanced ds)"
  "out_earnings (ed_sum ds) = sum_list (map out_earnings ds)"
  "out_forwarded (ed_sum ds) = sum_list (map out_forwarded ds)"
  "out_expenditures (ed_sum ds) = sum_list (map out_expenditures ds)"
  "out_rebalanced (ed_sum ds) = sum_list (map out_rebalanced ds)"
  by (induction ds) simp_all

lemma ed_sum_mset:
  fixes ds :: "'a::comm_monoid_add earnings_data list"
  assumes "mset ds = mset es"
  shows "ed_sum ds = ed_sum es"
proof -
  have "mset (map f ds) = mset (map f es)" for f :: "'a earnings_data \<Rightarrow> 'a" using assms by simp
  then have "sum_list (map f ds) = sum_list (map f es)" for f :: "'a earnings_data \<Rightarrow> 'a"
    using sum_mset_sum_list by metis
  then show ?thesis by (intro earnings_data.equality) (simp_all add: ed_sum_fields)
qed

lemma from_row_zero [simp]: "from_row ed_zero = ed_zero"
  by (simp add: from_row_def ed_zero_def)

lemma from_row_plus: "from_row (ed_plus a b) = ed_plus (from_row a) (from_row b)"
  by (simp add: from_row_def ed_plus_def)

lemma report_total_from_row: "report_total (map from_row ds) = from_row (ed_sum ds)"
proof -
  have "foldl ed_plus a (map from_row ds) = ed_plus a (from_row (ed_sum ds))" for a
    by (induction ds arbitrary: a) (simp_all add: from_row_plus ed_plus_assoc)
  then show ?thesis by (simp add: report_total_def)
qed

subsection \<open>Rows\<close>

definition row_key :: "earnings_row \<Rightarrow> string \<times> double" where
  "row_key r = (er_node r, er_bucket r)"

definition earnings_ok :: "earnings \<Rightarrow> bool" where
  "earnings_ok t = distinct (map row_key t)"

lemma ensure_ok [simp]: "earnings_ok t \<Longrightarrow> earnings_ok (ensure n b t)"
  by (auto simp: earnings_ok_def ensure_def row_key_def)

lemma ensure_keys: "row_key ` set (ensure n b t) = insert (n, b) (row_key ` set t)"
  by (auto simp: ensure_def row_key_def image_iff)

lemma update_row_keys [simp]: "map row_key (update_row n b f t) = map row_key t"
  by (simp add: update_row_def row_key_def)

lemma update_row_ok [simp]: "earnings_ok (update_row n b f t) = earnings_ok t"
  unfolding earnings_ok_def by simp

lemma update_row_key_set [simp]: "row_key ` set (update_row n b f t) = row_key ` set t"
  by (metis list.set_map update_row_keys)

text \<open>The sum over the rows whose key satisfies a condition.\<close>

definition sum_where :: "(string \<times> double \<Rightarrow> bool) \<Rightarrow> earnings \<Rightarrow> int earnings_data" where
  "sum_where q t = ed_sum (map er_data (filter (\<lambda>r. q (row_key r)) t))"

lemma sum_where_ensure [simp]: "sum_where q (ensure n b t) = sum_where q t"
  by (simp add: sum_where_def ensure_def)

lemma update_row_other:
  "(n, b) \<notin> row_key ` set t \<Longrightarrow> update_row n b f t = t"
  by (induction t) (auto simp: update_row_def row_key_def)

lemma sum_where_update:
  assumes "earnings_ok t" "(n, b) \<in> row_key ` set t" "\<And>d. f d = ed_plus d delta"
  shows "sum_where q (update_row n b f t) = ed_plus (sum_where q t) (if q (n, b) then delta else ed_zero)"
  using assms(1,2)
proof (induction t)
  case (Cons r t)
  note u = update_row_def [of n b f "r # t"] update_row_def [of n b f t]
  have ok: "earnings_ok t" using Cons.prems(1) by (simp add: earnings_ok_def)
  have s: "sum_where q (x # y) = (if q (row_key x) then ed_plus (er_data x) (sum_where q y) else sum_where q y)" for x y
    by (simp add: sum_where_def)
  show ?case
  proof (cases "row_key r = (n, b)")
    case True
    then have "(n, b) \<notin> row_key ` set t" using Cons.prems(1) by (auto simp: earnings_ok_def)
    then have "update_row n b f (r # t) = r\<lparr>er_data := f (er_data r)\<rparr> # t"
      using True update_row_other [of n b t f] by (simp add: update_row_def row_key_def)
    moreover have "row_key (r\<lparr>er_data := f (er_data r)\<rparr>) = (n, b)" using True by (simp add: row_key_def)
    ultimately show ?thesis using True by (simp add: s assms(3) [of "er_data r"] ed_plus_ac)
  next
    case False
    then have "update_row n b f (r # t) = r # update_row n b f t" by (auto simp: update_row_def row_key_def)
    moreover have "(n, b) \<in> row_key ` set t" using Cons.prems(2) False by auto
    ultimately show ?thesis using Cons.IH [OF ok] by (simp add: s ed_plus_assoc)
  qed
qed simp

lemma sum_where_forward:
  assumes t: "earnings_ok t"
  shows "sum_where q (earnings_forward_fee now i ou fee amount t)
    = ed_plus (sum_where q t)
        (ed_plus
          (if q (string_of_node i, bucket_time now) then ed_zero\<lparr>in_earnings := int (amt fee), in_forwarded := int (amt amount)\<rparr> else ed_zero)
          (if q (string_of_node ou, bucket_time now) then ed_zero\<lparr>out_earnings := int (amt fee), out_forwarded := int (amt amount)\<rparr> else ed_zero))"
    and "earnings_ok (earnings_forward_fee now i ou fee amount t)"
proof -
  let ?b = "bucket_time now"
  let ?t1 = "ensure (string_of_node ou) ?b (ensure (string_of_node i) ?b t)"
  have ok: "earnings_ok ?t1" using t by simp
  then show "earnings_ok (earnings_forward_fee now i ou fee amount t)" by (simp add: earnings_forward_fee_def Let_def)
  have k: "(string_of_node i, ?b) \<in> row_key ` set ?t1" "(string_of_node ou, ?b) \<in> row_key ` set ?t1"
    by (simp_all add: ensure_keys)
  let ?fi = "\<lambda>d :: int earnings_data. d\<lparr>in_earnings := in_earnings d + int (amt fee), in_forwarded := in_forwarded d + int (amt amount)\<rparr>"
  let ?fo = "\<lambda>d :: int earnings_data. d\<lparr>out_earnings := out_earnings d + int (amt fee), out_forwarded := out_forwarded d + int (amt amount)\<rparr>"
  let ?di = "ed_zero\<lparr>in_earnings := int (amt fee), in_forwarded := int (amt amount)\<rparr>"
  let ?do = "ed_zero\<lparr>out_earnings := int (amt fee), out_forwarded := int (amt amount)\<rparr>"
  let ?t2 = "update_row (string_of_node i) ?b ?fi ?t1"
  have s1: "sum_where q ?t2 = ed_plus (sum_where q t) (if q (string_of_node i, ?b) then ?di else ed_zero)"
    using sum_where_update [OF ok k(1), of ?fi ?di q] by (simp add: ed_plus_def ed_zero_def)
  have "earnings_ok ?t2" "(string_of_node ou, ?b) \<in> row_key ` set ?t2" using ok k(2) by simp_all
  from sum_where_update [OF this, of ?fo ?do q]
  have s2: "sum_where q (update_row (string_of_node ou) ?b ?fo ?t2)
      = ed_plus (sum_where q ?t2) (if q (string_of_node ou, ?b) then ?do else ed_zero)"
    by (simp add: ed_plus_def ed_zero_def)
  show "sum_where q (earnings_forward_fee now i ou fee amount t)
    = ed_plus (sum_where q t)
        (ed_plus
          (if q (string_of_node i, ?b) then ed_zero\<lparr>in_earnings := int (amt fee), in_forwarded := int (amt amount)\<rparr> else ed_zero)
          (if q (string_of_node ou, ?b) then ed_zero\<lparr>out_earnings := int (amt fee), out_forwarded := int (amt amount)\<rparr> else ed_zero))"
    using s2 s1 by (simp add: earnings_forward_fee_def Let_def ed_plus_assoc)
qed

lemma sum_where_ensure_update:
  assumes "earnings_ok t" "\<And>d. f d = ed_plus d delta"
  shows "sum_where q (update_row n b f (ensure n b t)) = ed_plus (sum_where q t) (if q (n, b) then delta else ed_zero)"
  using sum_where_update [of "ensure n b t" n b f delta q] assms by (simp add: ensure_keys)

lemma sum_where_attribution:
  assumes t: "earnings_ok t"
  shows "sum_where q (xrebalance_attribution now source destination amount fee t)
    = ed_plus (sum_where q t)
        (ed_plus
          (if source \<noteq> NodeId None \<and> q (string_of_node source, bucket_time now)
           then ed_zero\<lparr>in_expenditures := int (amt fee), in_rebalanced := int (amt amount)\<rparr> else ed_zero)
          (if destination \<noteq> NodeId None \<and> q (string_of_node destination, bucket_time now)
           then ed_zero\<lparr>out_expenditures := int (amt fee), out_rebalanced := int (amt amount)\<rparr> else ed_zero))"
    and "earnings_ok (xrebalance_attribution now source destination amount fee t)"
proof -
  let ?b = "bucket_time now"
  let ?fs = "\<lambda>d :: int earnings_data. d\<lparr>in_expenditures := in_expenditures d + int (amt fee), in_rebalanced := in_rebalanced d + int (amt amount)\<rparr>"
  let ?fd = "\<lambda>d :: int earnings_data. d\<lparr>out_expenditures := out_expenditures d + int (amt fee), out_rebalanced := out_rebalanced d + int (amt amount)\<rparr>"
  let ?ds = "ed_zero\<lparr>in_expenditures := int (amt fee), in_rebalanced := int (amt amount)\<rparr>"
  let ?dd = "ed_zero\<lparr>out_expenditures := int (amt fee), out_rebalanced := int (amt amount)\<rparr>"
  define t1 where "t1 = (if source = NodeId None then t else update_row (string_of_node source) ?b ?fs (ensure (string_of_node source) ?b t))"
  have x: "xrebalance_attribution now source destination amount fee t
      = (if destination = NodeId None then t1 else update_row (string_of_node destination) ?b ?fd (ensure (string_of_node destination) ?b t1))"
    by (simp add: xrebalance_attribution_def t1_def Let_def)
  have ok: "earnings_ok t1" using t by (simp add: t1_def)
  then show "earnings_ok (xrebalance_attribution now source destination amount fee t)" by (simp add: x)
  have s1: "sum_where q t1 = ed_plus (sum_where q t) (if source \<noteq> NodeId None \<and> q (string_of_node source, ?b) then ?ds else ed_zero)"
    using sum_where_ensure_update [OF t, of ?fs ?ds q "string_of_node source" ?b] by (simp add: t1_def ed_plus_def ed_zero_def)
  show "sum_where q (xrebalance_attribution now source destination amount fee t)
    = ed_plus (sum_where q t)
        (ed_plus (if source \<noteq> NodeId None \<and> q (string_of_node source, ?b) then ?ds else ed_zero)
          (if destination \<noteq> NodeId None \<and> q (string_of_node destination, ?b) then ?dd else ed_zero))"
    using sum_where_ensure_update [OF ok, of ?fd ?dd q "string_of_node destination" ?b]
    by (simp add: x s1 ed_plus_assoc)
qed

subsection \<open>The table against the events\<close>

definition booked :: "(string \<times> double \<Rightarrow> bool) \<Rightarrow> earnings_event \<Rightarrow> int earnings_data" where
  "booked q ev = sum_where q (on_earnings_event ev [])"

lemma on_event_facts:
  assumes "earnings_ok t"
  shows "earnings_ok (on_earnings_event ev t)"
    and "sum_where q (on_earnings_event ev t) = ed_plus (sum_where q t) (booked q ev)"
proof -
  have e: "earnings_ok []" "sum_where q [] = ed_zero" by (simp_all add: earnings_ok_def sum_where_def)
  show "earnings_ok (on_earnings_event ev t)"
    using sum_where_forward(2) [OF assms] sum_where_attribution(2) [OF assms] by (cases ev) simp_all
  show "sum_where q (on_earnings_event ev t) = ed_plus (sum_where q t) (booked q ev)"
    unfolding booked_def
    by (cases ev) (simp_all add: sum_where_forward(1) [OF assms] sum_where_attribution(1) [OF assms]
        sum_where_forward(1) [OF e(1)] sum_where_attribution(1) [OF e(1)] e(2))
qed

lemma booked_books:
  "booked (\<lambda>k. fst k = s \<and> snd k \<ge> c) ev = (if bucket_time (event_time ev) \<ge> c then books s ev else ed_zero)"
proof -
  have e: "earnings_ok []" "sum_where q [] = ed_zero" for q by (simp_all add: earnings_ok_def sum_where_def)
  show ?thesis
    unfolding booked_def
    by (cases ev) (simp_all add: sum_where_forward(1) [OF e(1)] sum_where_attribution(1) [OF e(1)] e(2))
qed

lemma booked_balanced:
  "in_earnings (booked (\<lambda>k. snd k \<ge> c) ev) = out_earnings (booked (\<lambda>k. snd k \<ge> c) ev)"
  "in_forwarded (booked (\<lambda>k. snd k \<ge> c) ev) = out_forwarded (booked (\<lambda>k. snd k \<ge> c) ev)"
proof -
  have e: "earnings_ok []" "sum_where q [] = ed_zero" for q by (simp_all add: earnings_ok_def sum_where_def)
  show "in_earnings (booked (\<lambda>k. snd k \<ge> c) ev) = out_earnings (booked (\<lambda>k. snd k \<ge> c) ev)"
    "in_forwarded (booked (\<lambda>k. snd k \<ge> c) ev) = out_forwarded (booked (\<lambda>k. snd k \<ge> c) ev)"
    unfolding booked_def
    by (cases ev; simp add: sum_where_forward(1) [OF e(1)] sum_where_attribution(1) [OF e(1)] e(2))+
qed

lemma earnings_run_facts:
  "earnings_ok t \<Longrightarrow> earnings_ok (earnings_run evs t)
     \<and> sum_where q (earnings_run evs t) = ed_plus (sum_where q t) (ed_sum (map (booked q) evs))"
proof (induction evs arbitrary: t)
  case (Cons ev evs)
  from Cons.IH [OF on_event_facts(1) [OF Cons.prems]] show ?case
    by (simp add: earnings_run_def on_event_facts(2) [OF Cons.prems] ed_plus_assoc)
qed (simp add: earnings_run_def)

subsection \<open>Totals of the reports\<close>

lemma ed_sum_one_group:
  fixes g :: "'k \<Rightarrow> int earnings_data"
  assumes "distinct ks" "k \<in> set ks"
  shows "ed_sum (map (\<lambda>n. if n = k then ed_plus d (g n) else g n) ks) = ed_plus d (ed_sum (map g ks))"
  using assms
proof (induction ks)
  case (Cons n ks)
  show ?case
  proof (cases "n = k")
    case True
    then have "map (\<lambda>n. if n = k then ed_plus d (g n) else g n) ks = map g ks"
      using Cons.prems by (intro map_cong refl) auto
    then show ?thesis using True by (simp only: list.map ed_sum_simps ed_plus_assoc if_True refl)
  next
    case False
    then show ?thesis using Cons by (simp add: ed_plus_left_commute)
  qed
qed simp

lemma ed_sum_groups:
  fixes f :: "'r \<Rightarrow> int earnings_data"
  assumes "distinct ks" "key ` set rs \<subseteq> set ks"
  shows "ed_sum (map (\<lambda>k. ed_sum (map f (filter (\<lambda>r. key r = k) rs))) ks) = ed_sum (map f rs)"
  using assms(2)
proof (induction rs)
  case Nil
  have "ed_sum (map (\<lambda>k. ed_zero) ks) = (ed_zero :: int earnings_data)" by (induction ks) simp_all
  then show ?case by simp
next
  case (Cons r rs)
  let ?g = "\<lambda>k. ed_sum (map f (filter (\<lambda>r. key r = k) rs))"
  have m: "map (\<lambda>k. ed_sum (map f (filter (\<lambda>r. key r = k) (r # rs)))) ks
      = map (\<lambda>k. if k = key r then ed_plus (f r) (?g k) else ?g k) ks" by (intro map_cong refl) auto
  have "ed_sum (map (\<lambda>k. if k = key r then ed_plus (f r) (?g k) else ?g k) ks) = ed_plus (f r) (ed_sum (map ?g ks))"
    using Cons.prems by (intro ed_sum_one_group [OF assms(1)]) simp
  then show ?case unfolding m using Cons by simp
qed

lemma group_by_node_sum: "ed_sum (map snd (group_by_node t)) = ed_sum (map er_data t)"
proof -
  let ?ks = "sort (remdups (map er_node t))"
  have "map snd (group_by_node t) = map (\<lambda>k. ed_sum (map er_data (filter (\<lambda>r. er_node r = k) t))) ?ks"
    by (simp add: group_by_node_def node_rows_def)
  then show ?thesis using ed_sum_groups [of ?ks er_node t er_data] by simp
qed

lemma node_report_total: "snd (node_report gs) = from_row (ed_sum (map snd gs))"
proof -
  have "map snd (map (\<lambda>(node, d). (node, from_row d)) gs) = map from_row (map snd gs)"
    by (auto simp: case_prod_beta)
  then show ?thesis by (simp only: node_report_def Let_def snd_conv report_total_from_row)
qed

lemma history_rows_sum:
  "ed_sum (map (\<lambda>(b, n, d). d) (history_rows nodeid by_node t))
     = ed_sum (map er_data (if by_node \<or> nodeid = [] then t else node_rows nodeid t))"
proof -
  consider (all) "by_node" | (buckets) "\<not> by_node" "nodeid = []" | (one) "\<not> by_node" "nodeid \<noteq> []" by blast
  then show ?thesis
  proof cases
    case all
    have "mset (map er_data (sort_key er_bucket (sort_key er_node t))) = mset (map er_data t)" by simp
    from ed_sum_mset [OF this] show ?thesis using all by (simp add: history_rows_def o_def)
  next
    case buckets
    let ?ks = "sort (remdups (map er_bucket t))"
    show ?thesis using buckets ed_sum_groups [of ?ks er_bucket t er_data]
      by (simp add: history_rows_def o_def)
  next
    case one
    have "mset (map er_data (sort_key er_bucket (node_rows nodeid t))) = mset (map er_data (node_rows nodeid t))" by simp
    from ed_sum_mset [OF this] show ?thesis using one by (simp add: history_rows_def o_def)
  qed
qed

text \<open>The total of each report is the sum of the table, or of the part of it the report is about.\<close>

lemma earnings_report_totals:
  "snd (earnings_status t) = from_row (ed_sum (map er_data t))"
  "\<exists>c. snd (recent_earnings_report now days t) = from_row (ed_sum (map er_data (rows_since c t)))"
  "snd (earnings_history_report nodeid by_node t)
     = from_row (ed_sum (map er_data (if by_node \<or> nodeid = [] then t else node_rows nodeid t)))"
proof -
  show "snd (earnings_status t) = from_row (ed_sum (map er_data t))"
    by (simp add: earnings_status_def node_report_total group_by_node_sum)
  have "mset (map snd (sort_key k (group_by_node u))) = mset (map snd (group_by_node u))" for k :: "_ \<Rightarrow> int" and u by simp
  from ed_sum_mset [OF this]
  show "\<exists>c. snd (recent_earnings_report now days t) = from_row (ed_sum (map er_data (rows_since c t)))"
    by (auto simp: recent_earnings_report_def Let_def node_report_total group_by_node_sum)
  have "map he_data (map (\<lambda>(b, n, d). \<lparr>he_bucket_time = of_int (trunc_double b), he_node = n, he_data = from_row d\<rparr>) hs)
      = map from_row (map (\<lambda>(b, n, d). d) hs)" for hs by (induction hs) auto
  then show "snd (earnings_history_report nodeid by_node t)
     = from_row (ed_sum (map er_data (if by_node \<or> nodeid = [] then t else node_rows nodeid t)))"
    by (simp only: earnings_history_report_def Let_def snd_conv report_total_from_row history_rows_sum)
qed

text \<open>The start of a bucket: a later time is never in an earlier bucket, and the bucket of a time of whole seconds is
  the last midnight not after it.\<close>

lemma bucket_time_mono: "0 \<le> a \<Longrightarrow> a \<le> b \<Longrightarrow> bucket_time a \<le> bucket_time b"
proof -
  assume ab: "0 \<le> a" "a \<le> b"
  then have "fl (a / 86400) \<le> fl (b / 86400)" "0 \<le> fl (a / 86400)"
    by (simp_all add: fl_mono fl_nonneg divide_right_mono)
  then have "\<lfloor>fl (a / 86400)\<rfloor> \<le> \<lfloor>fl (b / 86400)\<rfloor>" "0 \<le> \<lfloor>fl (a / 86400)\<rfloor>" by (simp_all add: floor_mono)
  then show ?thesis unfolding bucket_time_def by (intro fl_mono) simp_all
qed

lemma bucket_time_day:
  assumes "n < 2 ^ 53"
  shows "bucket_time (of_nat n) = of_nat (n div 86400 * 86400)"
proof -
  let ?k = "n div 86400"
  have "?k * 86400 \<le> n" "n \<le> ?k * 86400 + 86399" by simp_all
  then have "(of_nat (?k * 86400) :: rat) \<le> of_nat n" "(of_nat n :: rat) \<le> of_nat (?k * 86400 + 86399)"
    by (simp_all only: of_nat_le_iff)
  then have n: "of_nat ?k \<le> (of_nat n :: rat) / 86400" "(of_nat n :: rat) / 86400 + 1 / 86400 \<le> of_nat ?k + 1"
    by (simp_all add: field_simps)
  have k: "?k < 2 ^ 53" using assms by linarith
  have "(of_nat n :: rat) < 2 ^ 53" using assms by (metis of_nat_less_iff of_nat_numeral of_nat_power)
  then have "(of_nat n :: rat) / 86400 * (1 / 2 ^ 53) < 1 / 86400" by (simp add: field_simps)
  moreover have "fl (of_nat n / 86400) \<le> of_nat n / 86400 * (1 + 1 / 2 ^ 53)" by (rule fl_upper) simp
  ultimately have "fl (of_nat n / 86400) < of_nat ?k + 1" using n(2) by (simp add: algebra_simps)
  moreover have "of_nat ?k \<le> fl (of_nat n / 86400)" using fl_ge_nat [OF n(1) k] .
  ultimately have "\<lfloor>fl (of_nat n / 86400)\<rfloor> = int ?k" by (simp add: floor_eq_iff)
  moreover have "?k * 86400 < 2 ^ 53" using assms by linarith
  then have "fl (of_nat (?k * 86400)) = of_nat (?k * 86400)" by (rule fl_nat)
  ultimately show ?thesis by (simp add: bucket_time_def)
qed

lemma migrate_keeps_sums:
  "in_earnings (ed_sum (map er_data (node_rows s (earnings_init (LegacyTable ls)))))
     = sum_list (map lr_in_earnings (filter (\<lambda>l. lr_node l = s) ls))"
  "out_expenditures (ed_sum (map er_data (node_rows s (earnings_init (LegacyTable ls)))))
     = sum_list (map lr_out_expenditures (filter (\<lambda>l. lr_node l = s) ls))"
  by (induction ls) (simp_all add: earnings_init_def node_rows_def migrate_row_def)

subsection \<open>Properties\<close>

text \<open>The ledger of earnings. After any sequence of forwards and of rebalancing payments, in any order of times, the
  table has one row for a node and a day; the sums for a node over the days from a cutoff on are the sums of what
  the events of those days book for it (a forward books its fee and amount as incoming for one peer and as
  outgoing for the other, a payment its cost for the two ends that are known); and the total of the report on recent
  earnings has as much earned and forwarded on the incoming as on the outgoing side, whatever the window.\<close>

theorem earnings_ledger:
  "let t = earnings_run evs [] in
     distinct (map (\<lambda>r. (er_node r, er_bucket r)) t)
     \<and> ed_sum (map er_data (node_rows s (rows_since c t)))
         = ed_sum (map (books s) (filter (\<lambda>ev. bucket_time (event_time ev) \<ge> c) evs))
     \<and> in_earnings (snd (recent_earnings_report now days t)) = out_earnings (snd (recent_earnings_report now days t))
     \<and> in_forwarded (snd (recent_earnings_report now days t)) = out_forwarded (snd (recent_earnings_report now days t))"
proof -
  let ?t = "earnings_run evs []"
  have e: "earnings_ok []" "sum_where q [] = ed_zero" for q by (simp_all add: earnings_ok_def sum_where_def)
  note run = earnings_run_facts [OF e(1), of evs]
  have d: "distinct (map (\<lambda>r. (er_node r, er_bucket r)) ?t)"
    using run by (simp add: earnings_ok_def row_key_def [abs_def])
  have w: "sum_where (\<lambda>k. fst k = s \<and> snd k \<ge> c) ?t = ed_sum (map er_data (node_rows s (rows_since c ?t)))"
    by (simp add: sum_where_def node_rows_def rows_since_def row_key_def filter_filter conj_commute)
  have "ed_sum (map (booked (\<lambda>k. fst k = s \<and> snd k \<ge> c)) evs)
      = ed_sum (map (books s) (filter (\<lambda>ev. bucket_time (event_time ev) \<ge> c) evs))"
    by (induction evs) (simp_all add: booked_books)
  then have l: "ed_sum (map er_data (node_rows s (rows_since c ?t)))
         = ed_sum (map (books s) (filter (\<lambda>ev. bucket_time (event_time ev) \<ge> c) evs))"
    using run [of "\<lambda>k. fst k = s \<and> snd k \<ge> c"] by (simp add: w e(2))
  obtain c' where c': "snd (recent_earnings_report now days ?t) = from_row (ed_sum (map er_data (rows_since c' ?t)))"
    using earnings_report_totals(2) by blast
  have "ed_sum (map er_data (rows_since c' ?t)) = sum_where (\<lambda>k. snd k \<ge> c') ?t"
    by (simp add: sum_where_def rows_since_def row_key_def)
  also have "\<dots> = ed_sum (map (booked (\<lambda>k. snd k \<ge> c')) evs)" using run by (simp add: e(2))
  finally have s: "ed_sum (map er_data (rows_since c' ?t)) = ed_sum (map (booked (\<lambda>k. snd k \<ge> c')) evs)" .
  have "in_earnings (ed_sum (map (booked (\<lambda>k. snd k \<ge> c')) evs)) = out_earnings (ed_sum (map (booked (\<lambda>k. snd k \<ge> c')) evs))"
    "in_forwarded (ed_sum (map (booked (\<lambda>k. snd k \<ge> c')) evs)) = out_forwarded (ed_sum (map (booked (\<lambda>k. snd k \<ge> c')) evs))"
    by (induction evs) (simp_all add: booked_balanced)
  then show ?thesis using d l by (simp add: c' s Let_def) (simp add: from_row_def)
qed

end
