(* ===== verification/Xrebalance_Plan.thy ===== *)
theory Xrebalance_Plan
  imports Earnings_Tracker Channel_Balance Cxx_Map "HOL-Library.Sublist"
begin

text \<open>
  The planning half of \<open>src/Boss/Mod/XRebalancer.cpp\<close>: from the channels of the node and the table of earnings to
  the request for one rebalancing. Channels are gathered into peers, peers with too little or too much of our funds and
  a positive net rate make the two pools, and a cycle either moves the largest volume whose joint marginal
  rate clears a floor or fills one peer on demand. Satoshis are \<open>int64_t\<close> and stay far below its range, so they are
  integers here; rates are doubles with their rounding. Random draws and the clock are arguments.
\<close>

subsection \<open>Settings and channels\<close>

record xr_settings =
  xs_per_hour :: double
  xs_floor_ppm :: double
  xs_window_days :: double
  xs_fill_band :: double
  xs_drain_band :: double
  xs_maxparts :: u32
  xs_grant_ppm :: double
  xs_grant_weight :: double
  xs_gain :: double
  xs_floor_auto :: bool

definition xs_default :: xr_settings where
  "xs_default = \<lparr>xs_per_hour = 24, xs_floor_ppm = 50, xs_window_days = 90, xs_fill_band = 25, xs_drain_band = 75,
     xs_maxparts = 80, xs_grant_ppm = 0, xs_grant_weight = 25, xs_gain = 1, xs_floor_auto = True\<rparr>"

record chan =
  ch_scid :: string
  ch_node :: node_id
  ch_online :: bool
  ch_cap :: int
  ch_local :: int

abbreviation has_all :: "json \<Rightarrow> string list \<Rightarrow> bool result" where
  "has_all c ks \<equiv> foldr (\<lambda>k r. rbind (json_has c k) (\<lambda>h. if h then r else Inr False)) ks (Inr True)"

definition chan_online :: "json \<Rightarrow> bool result" where
  "chan_online c =
     rbind (json_has c ''peer_connected'') (\<lambda>h.
       if \<not> h then Inr False
       else rbind (json_get c ''peer_connected'') (\<lambda>b. case b of JBool v \<Rightarrow> Inr v | _ \<Rightarrow> Inr False))"

text \<open>One entry of the reply; \<open>Inr None\<close> is an entry that is passed over.\<close>

definition build_chan :: "json \<Rightarrow> chan option result" where
  "build_chan c =
     rbind (json_has c ''state'') (\<lambda>h.
       if \<not> h then Inr None
       else rbind (rbind (json_get c ''state'') json_string) (\<lambda>state.
         if state \<noteq> ''CHANNELD_NORMAL'' then Inr None
         else rbind (has_all c [''short_channel_id'', ''peer_id'', ''to_us_msat'', ''total_msat'']) (\<lambda>h.
           if \<not> h then Inr None
           else rbind (channel_balance c) (\<lambda>(to_us, tot).
             let cap = int (amt tot) div 1000; loc = int (amt to_us) div 1000
             in if cap \<le> 0 then Inr None
                else rbind (chan_online c) (\<lambda>online.
                  rbind (rbind (json_get c ''short_channel_id'') json_string) (\<lambda>scid.
                  rbind (rbind (rbind (json_get c ''peer_id'') json_string) node_of_string) (\<lambda>node.
                    Inr (Some \<lparr>ch_scid = scid, ch_node = node, ch_online = online, ch_cap = cap, ch_local = loc\<rparr>))))))))"

text \<open>An exception ends the loop; the channels before it are used.\<close>

fun build_chan_loop :: "json list \<Rightarrow> chan list" where
  "build_chan_loop [] = []"
| "build_chan_loop (c # cs) =
     (case build_chan c of
        Inl _ \<Rightarrow> []
      | Inr None \<Rightarrow> build_chan_loop cs
      | Inr (Some ch) \<Rightarrow> ch # build_chan_loop cs)"

definition build_chans :: "json \<Rightarrow> chan list" where
  "build_chans res =
     (case res of
        JObj kvs \<Rightarrow> (case map_of kvs ''channels'' of Some (JArr cs) \<Rightarrow> build_chan_loop cs | _ \<Rightarrow> [])
      | _ \<Rightarrow> [])"

subsection \<open>Net rates\<close>

record net_ppm =
  np_in :: "double option"
  np_out :: "double option"

definition joined :: "xr_settings \<Rightarrow> double \<Rightarrow> double \<Rightarrow> double \<Rightarrow> double \<Rightarrow> double option" where
  "joined s e x f cm =
     (let g = (if xs_grant_ppm s > 0
               then let w = fl (fl (cm * xs_grant_weight s) / 100) in if w > f then fl (w - f) else 0
               else 0)
      in if \<not> fl (f + g) > 0 then None
         else Some (fl (fl (fl (fl (fl (e - x) + fl (fl (g * xs_grant_ppm s) / 1000000)) * 1000000) / fl (f + g)) * xs_gain s)))"

definition cap_msat :: "chan list \<Rightarrow> (node_id \<times> double) list" where
  "cap_msat chans =
     fold (\<lambda>c m. map_put (ch_node c)
       (fl ((case map_of m (ch_node c) of None \<Rightarrow> 0 | Some v \<Rightarrow> v) + fl (fl (of_int (ch_cap c)) * 1000))) m) chans []"

definition net_of_row :: "xr_settings \<Rightarrow> (node_id \<times> double) list \<Rightarrow> node_id \<Rightarrow> int earnings_data \<Rightarrow> net_ppm" where
  "net_of_row s caps node d =
     (let cm = (case map_of caps node of None \<Rightarrow> 0 | Some v \<Rightarrow> v);
          dbl = (\<lambda>i. fl (of_int i))
      in \<lparr>np_in = joined s (dbl (in_earnings d)) (dbl (in_expenditures d)) (dbl (in_forwarded d)) cm,
          np_out = joined s (dbl (out_earnings d)) (dbl (out_expenditures d)) (dbl (out_forwarded d)) cm\<rparr>)"

fun net_rows ::
  "xr_settings \<Rightarrow> (node_id \<times> double) list \<Rightarrow> (string \<times> int earnings_data) list \<Rightarrow> (node_id \<times> net_ppm) list \<Rightarrow>
   (node_id \<times> net_ppm) list result" where
  "net_rows s caps [] net = Inr net"
| "net_rows s caps ((name, d) # gs) net =
     rbind (node_of_string name) (\<lambda>node. net_rows s caps gs (map_put node (net_of_row s caps node d) net))"

definition window_cutoff :: "xr_settings \<Rightarrow> double \<Rightarrow> double" where
  "window_cutoff s now = fl (now - fl (fl (fl (xs_window_days s * 24) * 60) * 60))"

definition join_net :: "xr_settings \<Rightarrow> double \<Rightarrow> chan list \<Rightarrow> earnings \<Rightarrow> (node_id \<times> net_ppm) list result" where
  "join_net s now chans t =
     (let caps = cap_msat chans
      in rbind (net_rows s caps (group_by_node (rows_since (window_cutoff s now) t)) []) (\<lambda>net.
           Inr (if xs_grant_ppm s > 0
                then fold (\<lambda>(node, cm) net. if map_of net node \<noteq> None then net
                       else map_put node \<lparr>np_in = joined s 0 0 0 cm, np_out = joined s 0 0 0 cm\<rparr> net) caps net
                else net)))"

subsection \<open>Peers and their caps\<close>

record peer =
  pe_node :: node_id
  pe_chans :: "chan list"
  pe_cap :: int
  pe_local :: int
  pe_online :: bool

text \<open>The targets and the percentage are functions of the aggregate.\<close>

definition band_edge :: "int \<Rightarrow> double \<Rightarrow> int" where
  "band_edge cap band = trunc_double (fl (fl (fl (of_int cap) * band) / 100))"

definition pct_local :: "peer \<Rightarrow> double" where
  "pct_local p = fl (fl (100 * fl (of_int (pe_local p))) / fl (of_int (pe_cap p)))"

definition tgt_fill :: "xr_settings \<Rightarrow> peer \<Rightarrow> int" where
  "tgt_fill s p = (let tf = band_edge (pe_cap p) (xs_fill_band s) - pe_local p in if tf > 0 then tf else 0)"

definition tgt_drain :: "xr_settings \<Rightarrow> peer \<Rightarrow> int" where
  "tgt_drain s p = (let td = pe_local p - band_edge (pe_cap p) (xs_drain_band s) in if td > 0 then td else 0)"

definition add_chan :: "chan \<Rightarrow> (node_id \<times> peer) list \<Rightarrow> (node_id \<times> peer) list" where
  "add_chan c m =
     (let p = (case map_of m (ch_node c) of
                 None \<Rightarrow> \<lparr>pe_node = ch_node c, pe_chans = [], pe_cap = 0, pe_local = 0, pe_online = False\<rparr>
               | Some p \<Rightarrow> p)
      in map_put (ch_node c)
           \<lparr>pe_node = ch_node c, pe_chans = pe_chans p @ [c], pe_cap = pe_cap p + ch_cap c,
            pe_local = pe_local p + ch_local c, pe_online = (pe_online p \<or> ch_online c)\<rparr> m)"

definition aggregate :: "chan list \<Rightarrow> peer list" where
  "aggregate chans = filter (\<lambda>p. pe_cap p > 0) (map snd (fold add_chan chans []))"

type_synonym scid_cap = "string \<times> int"

definition min_cap_sat :: int where "min_cap_sat = 1000"

definition headroom :: "double \<Rightarrow> bool \<Rightarrow> chan \<Rightarrow> int" where
  "headroom band_pct fill_side c =
     (let edge = band_edge (ch_cap c) band_pct; v = (if fill_side then edge - ch_local c else ch_local c - edge)
      in if v > 0 then v else 0)"

definition distribute_caps :: "peer \<Rightarrow> double \<Rightarrow> bool \<Rightarrow> int \<Rightarrow> scid_cap list" where
  "distribute_caps p band_pct fill_side deficit_sat =
     (let h = map (headroom band_pct fill_side) (pe_chans p);
          tot = foldl (\<lambda>tot v. fl (tot + fl (of_int v))) 0 h
      in if tot \<le> 0 \<or> deficit_sat \<le> 0 then []
         else List.map_filter (\<lambda>(c, v).
           if v \<le> 0 then None
           else let cap = trunc_double (fl (fl (fl (of_int deficit_sat) * fl (of_int v)) / tot))
                in if cap < min_cap_sat then None else Some (ch_scid c, cap)) (zip (pe_chans p) h))"

subsection \<open>Pools\<close>

record pool_item =
  pi_peer :: peer
  pi_ppm :: double
  pi_deficit :: int
  pi_caps :: "scid_cap list"

definition fill_tier :: "xr_settings \<Rightarrow> net_ppm \<Rightarrow> peer \<Rightarrow> bool" where
  "fill_tier s np p =
     (pct_local p \<le> xs_fill_band s \<and> (case np_out np of None \<Rightarrow> False | Some r \<Rightarrow> r > 0) \<and> tgt_fill s p > 0)"

definition drain_tier :: "xr_settings \<Rightarrow> net_ppm \<Rightarrow> peer \<Rightarrow> bool" where
  "drain_tier s np p =
     (pct_local p \<ge> xs_drain_band s \<and> (case np_in np of None \<Rightarrow> False | Some r \<Rightarrow> r > 0) \<and> tgt_drain s p > 0)"

definition pool_eligible :: "(node_id \<times> net_ppm) list \<Rightarrow> node_id set \<Rightarrow> peer \<Rightarrow> net_ppm option" where
  "pool_eligible net unmanaged p =
     (if \<not> pe_online p then None else if pe_node p \<in> unmanaged then None else map_of net (pe_node p))"

definition fill_item :: "xr_settings \<Rightarrow> (node_id \<times> net_ppm) list \<Rightarrow> node_id set \<Rightarrow> peer \<Rightarrow> pool_item option" where
  "fill_item s net unmanaged p =
     (case pool_eligible net unmanaged p of
        None \<Rightarrow> None
      | Some np \<Rightarrow>
          if fill_tier s np p
          then let caps = distribute_caps p (xs_fill_band s) True (tgt_fill s p)
               in if caps = [] then None
                  else Some \<lparr>pi_peer = p, pi_ppm = the (np_out np), pi_deficit = tgt_fill s p, pi_caps = caps\<rparr>
          else None)"

text \<open>A peer in both tiers is a candidate for filling only, also when it gets no caps there.\<close>

definition drain_item :: "xr_settings \<Rightarrow> (node_id \<times> net_ppm) list \<Rightarrow> node_id set \<Rightarrow> peer \<Rightarrow> pool_item option" where
  "drain_item s net unmanaged p =
     (case pool_eligible net unmanaged p of
        None \<Rightarrow> None
      | Some np \<Rightarrow>
          if fill_tier s np p then None
          else if drain_tier s np p
          then let caps = distribute_caps p (xs_drain_band s) False (tgt_drain s p)
               in if caps = [] then None
                  else Some \<lparr>pi_peer = p, pi_ppm = the (np_in np), pi_deficit = tgt_drain s p, pi_caps = caps\<rparr>
          else None)"

definition by_ppm :: "pool_item list \<Rightarrow> pool_item list" where
  "by_ppm pool = sort_key (\<lambda>i. - pi_ppm i) pool"

definition fill_pool :: "xr_settings \<Rightarrow> chan list \<Rightarrow> (node_id \<times> net_ppm) list \<Rightarrow> node_id set \<Rightarrow> pool_item list" where
  "fill_pool s chans net unmanaged = by_ppm (List.map_filter (fill_item s net unmanaged) (aggregate chans))"

definition drain_pool :: "xr_settings \<Rightarrow> chan list \<Rightarrow> (node_id \<times> net_ppm) list \<Rightarrow> node_id set \<Rightarrow> pool_item list" where
  "drain_pool s chans net unmanaged = by_ppm (List.map_filter (drain_item s net unmanaged) (aggregate chans))"

subsection \<open>The curve of matched volumes and its ladder of floors\<close>

fun cum :: "int \<Rightarrow> pool_item list \<Rightarrow> (int \<times> double) list" where
  "cum acc [] = []"
| "cum acc (i # pool) = (acc + pi_deficit i, pi_ppm i) # cum (acc + pi_deficit i) pool"

fun threshold_at :: "(int \<times> double) list \<Rightarrow> int \<Rightarrow> double" where
  "threshold_at [] target = - 1"
| "threshold_at (e # c) target = (if target \<le> fst e then snd e else threshold_at c target)"

record curve_point =
  cv_n :: int
  cv_fill :: double
  cv_drain :: double
  cv_joint :: double

fun curve_loop :: "(int \<times> double) list \<Rightarrow> (int \<times> double) list \<Rightarrow> int list \<Rightarrow> curve_point list" where
  "curve_loop fc dc [] = []"
| "curve_loop fc dc (n # bps) =
     (let f = threshold_at fc n; d = threshold_at dc n
      in if f < 0 \<or> d < 0 then []
         else \<lparr>cv_n = n, cv_fill = f, cv_drain = d, cv_joint = fl (f + d)\<rparr> # curve_loop fc dc bps)"

definition breakpoints :: "(int \<times> double) list \<Rightarrow> (int \<times> double) list \<Rightarrow> int list" where
  "breakpoints fc dc = remdups_adj (sort (map fst fc @ map fst dc))"

definition joint_curve :: "pool_item list \<Rightarrow> pool_item list \<Rightarrow> curve_point list" where
  "joint_curve fill drain =
     (let fc = cum 0 fill; dc = cum 0 drain in curve_loop fc dc (breakpoints fc dc))"

definition noise_ppm :: double where "noise_ppm = 10"
definition ladder_ratio :: double where "ladder_ratio = fl (8 / 5)"
definition min_gap :: double where "min_gap = 5 / 4"

definition useful_index :: "curve_point list \<Rightarrow> nat" where
  "useful_index curve = length (takeWhile (\<lambda>p. cv_fill p \<ge> noise_ppm \<and> cv_drain p \<ge> noise_ppm) curve) - 1"

text \<open>The loop over the targets ends only when the target has fallen to the useful floor; not ending is \<open>None\<close>.\<close>

partial_function (option) ladder_targets :: "double \<Rightarrow> double \<Rightarrow> double list option" where
  "ladder_targets t useful =
     (if t > useful
      then Option.bind (ladder_targets (fl (t / ladder_ratio)) useful) (\<lambda>ts. Some (t # ts))
      else Some [useful])"

definition snap :: "curve_point list \<Rightarrow> nat \<Rightarrow> double \<Rightarrow> curve_point" where
  "snap curve useful_idx tgt =
     last (hd curve # takeWhile (\<lambda>p. cv_joint p \<ge> tgt) (take (useful_idx + 1) curve))"

definition already :: "curve_point list \<Rightarrow> int \<Rightarrow> bool" where
  "already ladder n = list_ex (\<lambda>p. cv_n p = n) ladder"

fun ladder_loop :: "curve_point list \<Rightarrow> nat \<Rightarrow> double list \<Rightarrow> curve_point list \<Rightarrow> double \<Rightarrow> curve_point list" where
  "ladder_loop curve u [] ladder last_joint = ladder"
| "ladder_loop curve u (tgt # tgts) ladder last_joint =
     (let p = snap curve u tgt
      in if already ladder (cv_n p) then ladder_loop curve u tgts ladder last_joint
         else if last_joint > 0 \<and> cv_joint p > fl (last_joint / min_gap) then ladder_loop curve u tgts ladder last_joint
         else ladder_loop curve u tgts (ladder @ [p]) (cv_joint p))"

definition derive_ladder :: "curve_point list \<Rightarrow> curve_point list option" where
  "derive_ladder curve =
     (if curve = [] then Some []
      else let u = useful_index curve; useful = curve ! u
           in Option.bind (ladder_targets (cv_joint (curve ! 0)) (cv_joint useful)) (\<lambda>targets.
                let ladder = ladder_loop curve u targets [] (- 1)
                in Some (if already ladder (cv_n useful) then ladder else ladder @ [useful])))"

subsection \<open>Requests\<close>

record xr_request =
  rq_sources :: "(string \<times> u64) list"
  rq_destinations :: "(string \<times> u64) list"
  rq_amount :: u64
  rq_maxfee :: u32
  rq_maxparts :: u32

datatype xr_plan = NoCandidates | NoViable double | NotFillCandidate | ExecuteCycle xr_request

definition llround :: "double \<Rightarrow> int" where
  "llround x = (if x \<ge> 0 then \<lfloor>x + 1 / 2\<rfloor> else \<lceil>x - 1 / 2\<rceil>)"

definition execute_request ::
  "xr_settings \<Rightarrow> scid_cap list \<Rightarrow> scid_cap list \<Rightarrow> int \<Rightarrow> u32 \<Rightarrow> xr_request" where
  "execute_request s source_caps dest_caps requested_sat maxfee_ppm =
     \<lparr>rq_sources = map (\<lambda>(scid, c). (scid, of_int c * 1000)) source_caps,
      rq_destinations = map (\<lambda>(scid, c). (scid, of_int c * 1000)) dest_caps,
      rq_amount = of_int requested_sat * 1000, rq_maxfee = maxfee_ppm, rq_maxparts = xs_maxparts s\<rparr>"

text \<open>The largest row of the curve that clears the floor.\<close>

definition best_cut :: "double \<Rightarrow> curve_point list \<Rightarrow> curve_point option" where
  "best_cut effective_floor curve =
     (case rev (takeWhile (\<lambda>p. cv_joint p \<ge> effective_floor) curve) of [] \<Rightarrow> None | p # _ \<Rightarrow> Some p)"

fun pick_caps :: "int \<Rightarrow> int \<Rightarrow> pool_item list \<Rightarrow> scid_cap list" where
  "pick_caps best_n acc [] = []"
| "pick_caps best_n acc (i # pool) = (if acc \<ge> best_n then [] else pi_caps i @ pick_caps best_n (acc + pi_deficit i) pool)"

text \<open>The draw of a number up to a bound is a parameter.\<close>

definition effective_floor :: "xr_settings \<Rightarrow> (nat \<Rightarrow> nat) \<Rightarrow> curve_point list \<Rightarrow> double" where
  "effective_floor s draw ladder =
     (if xs_floor_auto s \<and> ladder \<noteq> [] then cv_joint (ladder ! draw (length ladder - 1)) else xs_floor_ppm s)"

definition plan_matched :: "xr_settings \<Rightarrow> (nat \<Rightarrow> nat) \<Rightarrow> pool_item list \<Rightarrow> pool_item list \<Rightarrow> xr_plan option" where
  "plan_matched s draw fill drain =
     (let curve = joint_curve fill drain
      in Option.bind (derive_ladder curve) (\<lambda>ladder.
           let flr = effective_floor s draw ladder
           in case best_cut flr curve of
                None \<Rightarrow> Some (NoViable flr)
              | Some p \<Rightarrow>
                  if cv_n p \<le> 0 then Some (NoViable flr)
                  else Some (ExecuteCycle (execute_request s (pick_caps (cv_n p) 0 drain) (pick_caps (cv_n p) 0 fill)
                         (cv_n p) (of_int (llround (cv_joint p)))))))"

definition demand_target :: "string \<Rightarrow> pool_item list \<Rightarrow> pool_item option" where
  "demand_target scid fill = find (\<lambda>i. list_ex (\<lambda>c. ch_scid c = scid) (pe_chans (pi_peer i))) fill"

definition keep_sources :: "double \<Rightarrow> nat \<Rightarrow> nat" where
  "keep_sources rung len =
     (let keep = nat \<lceil>fl (fl (fl (of_nat len) * rung) / 100)\<rceil>;
          keep = (if keep < 1 then 1 else keep)
      in if keep > len then len else keep)"

definition plan_demand :: "xr_settings \<Rightarrow> (nat \<Rightarrow> nat) \<Rightarrow> pool_item list \<Rightarrow> pool_item list \<Rightarrow> string \<Rightarrow> xr_plan" where
  "plan_demand s draw fill drain scid =
     (case demand_target scid fill of
        None \<Rightarrow> NotFillCandidate
      | Some target \<Rightarrow>
          (let rung = [20, 50, 80] ! draw 2;
               keep = keep_sources rung (length drain);
               min_offered = pi_ppm (drain ! (keep - 1));
               maxfee = of_int (llround (fl (pi_ppm target + min_offered)))
           in ExecuteCycle (execute_request s (concat (map pi_caps (take keep drain))) (pi_caps target)
                (pi_deficit target) maxfee)))"

definition plan_cycle ::
  "xr_settings \<Rightarrow> (nat \<Rightarrow> nat) \<Rightarrow> chan list \<Rightarrow> (node_id \<times> net_ppm) list \<Rightarrow> string \<Rightarrow> node_id set \<Rightarrow> xr_plan option" where
  "plan_cycle s draw chans net demand_scid unmanaged =
     (let fill = fill_pool s chans net unmanaged; drain = drain_pool s chans net unmanaged
      in if fill = [] \<or> drain = [] then Some NoCandidates
         else if demand_scid \<noteq> [] then Some (plan_demand s draw fill drain demand_scid)
         else plan_matched s draw fill drain)"

subsection \<open>Band edges and caps\<close>

lemma trunc_double_nonneg: "0 \<le> d \<Longrightarrow> trunc_double d = \<lfloor>d\<rfloor>"
  by (simp add: trunc_double_def)

lemma band_edge_bounds:
  assumes "0 \<le> cap" "cap < 2 ^ 46" "0 \<le> band" "band \<le> 100"
  shows "0 \<le> band_edge cap band" "band_edge cap band \<le> cap"
proof -
  have c: "fl (of_int cap) = of_int cap" using assms(1,2) by (intro fl_int) simp
  have x0: "0 \<le> of_int cap * band" using assms by simp
  have "of_int cap * band \<le> of_int (cap * 100)" using assms by (simp add: mult_left_mono)
  then have "fl (of_int cap * band) \<le> fl (of_int (cap * 100))" using x0 by (intro fl_mono)
  moreover have "fl (of_int (cap * 100)) = of_int (cap * 100)" using assms by (intro fl_int) simp
  ultimately have "fl (of_int cap * band) / 100 \<le> of_int cap" by simp
  moreover have y0: "0 \<le> fl (of_int cap * band) / 100" using fl_nonneg [OF x0] by simp
  ultimately have "fl (fl (of_int cap * band) / 100) \<le> of_int cap" using fl_mono c by metis
  moreover have "0 \<le> fl (fl (of_int cap * band) / 100)" by (rule fl_nonneg [OF y0])
  ultimately have "0 \<le> \<lfloor>fl (fl (of_int cap * band) / 100)\<rfloor>" "\<lfloor>fl (fl (of_int cap * band) / 100)\<rfloor> \<le> cap"
    by (simp_all add: floor_le_iff)
  then show "0 \<le> band_edge cap band" "band_edge cap band \<le> cap"
    using \<open>0 \<le> fl (fl (of_int cap * band) / 100)\<close> by (simp_all add: band_edge_def c trunc_double_nonneg)
qed

text \<open>The rounding moves the edge of a band by less than a satoshi.\<close>

lemma band_edge_near:
  assumes "0 \<le> cap" "cap < 2 ^ 46" "0 \<le> band" "band \<le> 100"
  shows "of_int (band_edge cap band) \<le> of_int cap * band / 100 + 1" "of_int cap * band / 100 \<le> of_int (band_edge cap band) + 2"
proof -
  let ?x = "of_int cap * band" let ?y = "fl ?x / 100"
  have c: "fl (of_int cap) = of_int cap" using assms(1,2) by (intro fl_int) simp
  have x: "0 \<le> ?x" "?x \<le> 2 ^ 53"
  proof -
    have "(of_int cap :: rat) \<le> of_int (2 ^ 46)" using assms(2) by (simp only: of_int_le_iff)
    then have "?x \<le> 2 ^ 46 * 100" using assms by (intro mult_mono) simp_all
    then show "?x \<le> 2 ^ 53" by simp
  qed (use assms in simp)
  have e1: "\<bar>fl ?x - ?x\<bar> \<le> 1" using fl_error [OF x(1)] x(2) by (simp add: field_simps)
  have y: "0 \<le> ?y" using fl_nonneg [OF x(1)] by simp
  have e2: "\<bar>fl ?y - ?y\<bar> \<le> 1 / 2"
  proof -
    have "?y / 2 ^ 53 \<le> 1 / 2" using e1 x(2) by (simp add: field_simps)
    then show ?thesis using fl_error [OF y] by linarith
  qed
  have "band_edge cap band = \<lfloor>fl ?y\<rfloor>" using fl_nonneg [OF y] by (simp add: band_edge_def c trunc_double_nonneg)
  then have "of_int (band_edge cap band) \<le> fl ?y" "fl ?y < of_int (band_edge cap band) + 1" by linarith+
  then show "of_int (band_edge cap band) \<le> ?x / 100 + 1" "?x / 100 \<le> of_int (band_edge cap band) + 2"
    using e1 e2 by linarith+
qed

lemma headroom_nonneg [simp]: "0 \<le> headroom b s c"
  by (simp add: headroom_def Let_def)

lemma total_exact:
  assumes "\<forall>v \<in> set vs. 0 \<le> v" "0 \<le> a" "a + sum_list vs < 2 ^ 53"
  shows "foldl (\<lambda>tot v. fl (tot + fl (of_int v))) (of_int a) vs = of_int (a + sum_list vs)"
  using assms
proof (induction vs arbitrary: a)
  case (Cons v vs)
  have s: "0 \<le> sum_list vs" using Cons.prems(1) by (intro sum_list_nonneg) simp
  have b: "0 \<le> v" "v < 2 ^ 53" "0 \<le> a + v" "a + v < 2 ^ 53" using Cons.prems s by simp_all
  have "fl (of_int v) = of_int v" "fl (of_int (a + v)) = of_int (a + v)" using b by (intro fl_int; simp)+
  then have "fl (of_int a + fl (of_int v)) = of_int (a + v)" by simp
  then show ?case using Cons.IH [of "a + v"] Cons.prems b by (simp add: add.assoc)
qed simp

text \<open>One share: its rounding error is relative, so it does not add up to a satoshi over all shares.\<close>

definition share :: "int \<Rightarrow> int \<Rightarrow> int \<Rightarrow> int" where
  "share deficit tot v = trunc_double (fl (fl (fl (of_int deficit) * fl (of_int v)) / of_int tot))"

lemma share_bounds:
  assumes "0 \<le> d" "d < 2 ^ 51" "0 \<le> v" "v < 2 ^ 53" "0 < tot"
  shows "0 \<le> share d tot v"
    and "(of_int (share d tot v) :: rat) \<le> of_int d * of_int v / of_int tot * (1 + 1 / 2 ^ 52 + 1 / 2 ^ 104)"
proof -
  have e: "fl (of_int d) = of_int d" "fl (of_int v) = of_int v" using assms by (intro fl_int; simp)+
  let ?x = "of_int d * of_int v :: rat"
  have x0: "0 \<le> ?x" using assms by simp
  have t: "0 < (of_int tot :: rat)" using assms by simp
  let ?y = "fl ?x / of_int tot"
  have y0: "0 \<le> ?y" using fl_nonneg [OF x0] t by simp
  have s: "share d tot v = \<lfloor>fl ?y\<rfloor>" using fl_nonneg [OF y0] by (simp add: share_def e trunc_double_nonneg)
  show "0 \<le> share d tot v" using fl_nonneg [OF y0] by (simp add: s)
  have "of_int (share d tot v) \<le> fl ?y" by (simp add: s)
  also have "\<dots> \<le> ?y * (1 + 1 / 2 ^ 53)" by (rule fl_upper [OF y0])
  also have "\<dots> \<le> ?x * (1 + 1 / 2 ^ 53) / of_int tot * (1 + 1 / 2 ^ 53)"
    using fl_upper [OF x0] t by (intro mult_right_mono divide_right_mono) simp_all
  also have "\<dots> \<le> ?x / of_int tot * (1 + 1 / 2 ^ 52 + 1 / 2 ^ 104)"
  proof -
    have "?x * (1 + 1 / 2 ^ 53) / of_int tot * (1 + 1 / 2 ^ 53) = ?x / of_int tot * ((1 + 1 / 2 ^ 53) * (1 + 1 / 2 ^ 53))"
      by (simp only: times_divide_eq_left times_divide_eq_right mult.assoc mult.commute mult.left_commute)
    also have "\<dots> \<le> ?x / of_int tot * (1 + 1 / 2 ^ 52 + 1 / 2 ^ 104)"
      using x0 t by (intro mult_left_mono) simp_all
    finally show ?thesis .
  qed
  finally show "(of_int (share d tot v) :: rat) \<le> ?x / of_int tot * (1 + 1 / 2 ^ 52 + 1 / 2 ^ 104)" .
qed

lemma shares_sum:
  assumes "0 \<le> d" "d < 2 ^ 51" "\<forall>v \<in> set vs. 0 \<le> v" "sum_list vs = tot" "0 < tot" "tot < 2 ^ 53"
  shows "sum_list (map (share d tot) vs) \<le> d"
proof -
  have v: "v < 2 ^ 53" if "v \<in> set vs" for v
    using member_le_sum_list [of v vs] that assms(3,4,6) by fastforce
  define c :: rat where "c = 1 + 1 / 2 ^ 52 + 1 / 2 ^ 104"
  have t: "0 < (of_int tot :: rat)" using assms by simp
  have b: "(of_int (share d tot v) :: rat) \<le> of_int v * (of_int d / of_int tot * c)" if "v \<in> set vs" for v
    using share_bounds(2) [OF assms(1,2) _ v [OF that] assms(5)] assms(3) that
    unfolding c_def [symmetric] by (simp add: mult.commute mult.left_commute)
  have "(of_int (sum_list (map (share d tot) vs)) :: rat) = sum_list (map (\<lambda>v. of_int (share d tot v)) vs)"
    by (induction vs) simp_all
  also have "\<dots> \<le> sum_list (map (\<lambda>v. of_int v * (of_int d / of_int tot * c)) vs)"
    using b by (intro sum_list_mono) simp
  also have "\<dots> = of_int (sum_list vs) * (of_int d / of_int tot * c)"
    by (induction vs) (simp_all add: distrib_right add_divide_distrib)
  also have "\<dots> = of_int d * c" using t assms(4) by simp
  also have "\<dots> < of_int (d + 1)"
  proof -
    have "(of_int d :: rat) < 2 ^ 51" using assms(2) by (metis of_int_less_iff of_int_numeral of_int_power)
    then have "of_int d * (1 / 2 ^ 52 + 1 / 2 ^ 104) \<le> 2 ^ 51 * (1 / 2 ^ 52 + 1 / 2 ^ 104 :: rat)"
      by (intro mult_right_mono) simp_all
    also have "\<dots> < 1" by simp
    finally have "of_int d * (1 / 2 ^ 52 + 1 / 2 ^ 104) < (1 :: rat)" .
    then show ?thesis by (simp only: c_def distrib_left)
  qed
  finally show ?thesis by (simp only: of_int_less_iff zless_add1_eq order_le_less)
qed

lemma distribute_caps_shares:
  assumes "sum_list (map (headroom b side) (pe_chans p)) < 2 ^ 53"
  shows "distribute_caps p b side d =
    (let tot = sum_list (map (headroom b side) (pe_chans p))
     in if tot \<le> 0 \<or> d \<le> 0 then []
        else List.map_filter (\<lambda>c. if headroom b side c \<le> 0 \<or> share d tot (headroom b side c) < min_cap_sat then None
               else Some (ch_scid c, share d tot (headroom b side c))) (pe_chans p))"
proof -
  let ?h = "map (headroom b side) (pe_chans p)"
  let ?g = "\<lambda>tot (c, v). if v \<le> 0 then None
           else let cap = trunc_double (fl (fl (fl (of_int d) * fl (of_int v)) / tot))
                in if cap < min_cap_sat then None else Some (ch_scid c, cap)"
  have t: "foldl (\<lambda>tot v. fl (tot + fl (of_int v))) 0 ?h = of_int (sum_list ?h)"
    using total_exact [of ?h 0] assms by simp
  have z: "List.map_filter (?g (of_int k)) (zip xs (map (headroom b side) xs))
      = List.map_filter (\<lambda>c. if headroom b side c \<le> 0 \<or> share d k (headroom b side c) < min_cap_sat then None
               else Some (ch_scid c, share d k (headroom b side c))) xs" for xs k
    by (induction xs) (auto simp: List.map_filter_def share_def Let_def)
  show ?thesis
    unfolding distribute_caps_def Let_def t z [of "sum_list ?h" "pe_chans p", unfolded Let_def] of_int_le_0_iff by (rule refl)
qed

lemma sum_map_filter_le:
  assumes "\<And>x. x \<in> set xs \<Longrightarrow> 0 \<le> g x" "\<And>x y. x \<in> set xs \<Longrightarrow> f x = Some y \<Longrightarrow> h y = g x"
  shows "sum_list (map h (List.map_filter f xs)) \<le> (sum_list (map g xs) :: int)"
  using assms
proof (induction xs)
  case (Cons x xs)
  then have "sum_list (map h (List.map_filter f xs)) \<le> sum_list (map g xs)" by simp
  then show ?case using Cons.prems [of x] by (cases "f x") (auto simp: List.map_filter_simps)
qed simp

lemma distribute_caps_sum:
  assumes "sum_list (map (headroom b side) (pe_chans p)) < 2 ^ 53" "0 \<le> d" "d < 2 ^ 51"
  shows "sum_list (map snd (distribute_caps p b side d)) \<le> d"
proof -
  let ?h = "map (headroom b side) (pe_chans p)"
  let ?t = "sum_list ?h"
  show ?thesis
  proof (cases "?t \<le> 0 \<or> d \<le> 0")
    case True
    then show ?thesis using assms(2) by (auto simp: distribute_caps_shares [OF assms(1)])
  next
    case False
    have v: "v < 2 ^ 53" if "v \<in> set ?h" for v
      using member_le_sum_list [OF that] assms(1) by fastforce
    have "sum_list (map snd (distribute_caps p b side d)) \<le> sum_list (map (\<lambda>c. share d ?t (headroom b side c)) (pe_chans p))"
      using False share_bounds(1) [OF assms(2,3)] v
      by (simp only: distribute_caps_shares [OF assms(1)] Let_def if_False, intro sum_map_filter_le) (auto split: if_splits)
    also have "\<dots> = sum_list (map (share d ?t) ?h)" by (simp add: o_def)
    also have "\<dots> \<le> d" using False assms by (intro shares_sum) auto
    finally show ?thesis .
  qed
qed

lemma distribute_caps_member:
  assumes "(scid, c) \<in> set (distribute_caps p b side d)"
  shows "min_cap_sat \<le> c" "\<exists>ch \<in> set (pe_chans p). ch_scid ch = scid \<and> 0 < headroom b side ch"
proof -
  from assms obtain ch v where "(ch, v) \<in> set (zip (pe_chans p) (map (headroom b side) (pe_chans p)))" "\<not> v \<le> 0"
    "ch_scid ch = scid" "\<not> c < min_cap_sat"
    by (auto simp: distribute_caps_def Let_def List.map_filter_def split: if_splits)
  moreover from this(1) have "ch \<in> set (pe_chans p)" "v = headroom b side ch"
    by (auto simp: set_zip)
  ultimately show "min_cap_sat \<le> c" "\<exists>ch \<in> set (pe_chans p). ch_scid ch = scid \<and> 0 < headroom b side ch" by auto
qed

text \<open>Channels of a size that doubles hold exactly, with room for percentages: below \<open>2 ^ 46\<close> satoshis in all.\<close>

definition chans_small :: "chan list \<Rightarrow> bool" where
  "chans_small cs =
     (list_all (\<lambda>c. 0 \<le> ch_cap c \<and> 0 \<le> ch_local c) cs
      \<and> sum_list (map ch_cap cs) < 2 ^ 46 \<and> sum_list (map ch_local cs) < 2 ^ 46)"

lemma headroom_le:
  assumes "0 \<le> b" "b \<le> 100" "0 \<le> ch_cap c" "ch_cap c < 2 ^ 46" "0 \<le> ch_local c"
  shows "headroom b side c \<le> ch_cap c + ch_local c"
  using band_edge_bounds [OF assms(3,4,1,2)] assms by (simp add: headroom_def Let_def)

lemma headroom_sum:
  assumes "chans_small cs" "0 \<le> b" "b \<le> 100"
  shows "sum_list (map (headroom b side) cs) < 2 ^ 53"
proof -
  have pos: "0 \<le> ch_cap c" "0 \<le> ch_local c" if "c \<in> set cs" for c
    using that assms(1) by (simp_all add: chans_small_def list_all_iff)
  have "ch_cap c \<le> sum_list (map ch_cap cs)" if "c \<in> set cs" for c
    using that pos by (intro member_le_sum_list) auto
  then have c: "0 \<le> ch_cap c" "0 \<le> ch_local c" "ch_cap c < 2 ^ 46" if "c \<in> set cs" for c
    using that pos assms(1) by (fastforce simp: chans_small_def)+
  have "sum_list (map (headroom b side) cs) \<le> sum_list (map (\<lambda>c. ch_cap c + ch_local c) cs)"
    using c assms(2,3) by (intro sum_list_mono headroom_le) auto
  also have "\<dots> < 2 ^ 47" using assms(1) by (simp add: chans_small_def sum_list_addf)
  finally show ?thesis by simp
qed

subsection \<open>Aggregation\<close>

text \<open>The reference: a peer is the sum of its channels.\<close>

definition peer_of :: "node_id \<Rightarrow> chan list \<Rightarrow> peer" where
  "peer_of n cs = \<lparr>pe_node = n, pe_chans = cs, pe_cap = sum_list (map ch_cap cs), pe_local = sum_list (map ch_local cs),
     pe_online = list_ex ch_online cs\<rparr>"

lemma add_chan_peer_of:
  assumes "map_wf m" "map_of m (ch_node c) = (if cs = [] then None else Some (peer_of (ch_node c) cs))"
  shows "map_of (add_chan c m) = (map_of m)(ch_node c \<mapsto> peer_of (ch_node c) (cs @ [c]))"
  using assms by (auto simp: add_chan_def map_of_map_put peer_of_def Let_def)

lemma fold_add_chan:
  assumes "map_wf m" "\<forall>n. map_of m n = (if filter (\<lambda>c. ch_node c = n) ds = [] then None
      else Some (peer_of n (filter (\<lambda>c. ch_node c = n) ds)))"
  shows "map_wf (fold add_chan cs m)
    \<and> (\<forall>n. map_of (fold add_chan cs m) n = (if filter (\<lambda>c. ch_node c = n) (ds @ cs) = [] then None
      else Some (peer_of n (filter (\<lambda>c. ch_node c = n) (ds @ cs)))))"
  using assms
proof (induction cs arbitrary: m ds)
  case (Cons c cs)
  have wf: "map_wf (add_chan c m)" using Cons.prems(1) by (simp add: add_chan_def map_wf_map_put Let_def)
  have "\<forall>n. map_of (add_chan c m) n = (if filter (\<lambda>c. ch_node c = n) (ds @ [c]) = [] then None
      else Some (peer_of n (filter (\<lambda>c. ch_node c = n) (ds @ [c]))))"
    using add_chan_peer_of [OF Cons.prems(1), of c "filter (\<lambda>d. ch_node d = ch_node c) ds"] Cons.prems(2) by auto
  from Cons.IH [OF wf this] show ?case by simp
qed simp

lemma aggregated:
  "map_wf (fold add_chan chans [])"
  "map_of (fold add_chan chans []) n = (if filter (\<lambda>c. ch_node c = n) chans = [] then None
      else Some (peer_of n (filter (\<lambda>c. ch_node c = n) chans)))"
  using fold_add_chan [of "[]" "[]" chans] by (simp_all add: map_wf_def)

lemma aggregate_member:
  "p \<in> set (aggregate chans) \<longleftrightarrow>
     (\<exists>n. p = peer_of n (filter (\<lambda>c. ch_node c = n) chans) \<and> filter (\<lambda>c. ch_node c = n) chans \<noteq> [] \<and> pe_cap p > 0)"
proof -
  let ?m = "fold add_chan chans []"
  have "p \<in> snd ` set ?m \<longleftrightarrow> (\<exists>n. (n, p) \<in> set ?m)" 
    by (rule iffI, elim imageE) (metis prod.collapse, force)
  also have "\<dots> \<longleftrightarrow> (\<exists>n. map_of ?m n = Some p)"
    by (simp only: map_of_eq_Some_iff [OF map_wf_distinct [OF aggregated(1)]])
  finally have "p \<in> snd ` set ?m \<longleftrightarrow> (\<exists>n. map_of ?m n = Some p)" .
  moreover have "(if A then None else Some x) = Some p \<longleftrightarrow> p = x \<and> \<not> A" for A and x :: peer by auto
  ultimately show ?thesis unfolding aggregate_def set_filter set_map mem_Collect_eq aggregated(2) by blast
qed

lemma aggregate_distinct: "distinct (map pe_node (aggregate chans))"
proof -
  let ?m = "fold add_chan chans []"
  have "pe_node (snd e) = fst e" if "e \<in> set ?m" for e
  proof -
    have "map_of ?m (fst e) = Some (snd e)" using that map_wf_distinct [OF aggregated(1)] by simp
    then have "snd e = peer_of (fst e) (filter (\<lambda>c. ch_node c = fst e) chans)"
      by (simp add: aggregated(2) split: if_splits)
    then show ?thesis by (simp add: peer_of_def)
  qed
  then have "map pe_node (map snd ?m) = map fst ?m" by simp
  then have "distinct (map pe_node (map snd ?m))" using map_wf_distinct [OF aggregated(1)] by (simp only:)
  then show ?thesis unfolding aggregate_def by (rule distinct_map_filter)
qed

lemma sum_list_filter_le: "\<forall>x \<in> set xs. 0 \<le> f x \<Longrightarrow> sum_list (map f (filter q xs)) \<le> (sum_list (map f xs) :: int)"
  by (induction xs) auto

lemma chans_small_filter: "chans_small cs \<Longrightarrow> chans_small (filter q cs)"
  using sum_list_filter_le [of cs ch_cap q] sum_list_filter_le [of cs ch_local q]
  by (auto simp: chans_small_def list_all_iff)

lemma aggregate_small: "chans_small chans \<Longrightarrow> p \<in> set (aggregate chans) \<Longrightarrow> chans_small (pe_chans p)"
  by (auto simp: aggregate_member peer_of_def chans_small_filter)

subsection \<open>Who is in the pools\<close>

lemma mem_map_filter: "y \<in> set (List.map_filter f xs) \<longleftrightarrow> (\<exists>x \<in> set xs. f x = Some y)"
  by (induction xs) (auto simp: List.map_filter_simps split: option.splits)

lemma by_ppm_facts [simp]: "set (by_ppm pool) = set pool" "mset (by_ppm pool) = mset pool"
  by (simp_all add: by_ppm_def)

lemma by_ppm_sorted: "sorted_wrt (\<lambda>a b. pi_ppm b \<le> pi_ppm a) (by_ppm pool)"
  using sorted_sort_key [of "\<lambda>i. - pi_ppm i" pool] by (simp add: by_ppm_def sorted_wrt_map)

text \<open>What makes a peer a candidate, apart from the side.\<close>

definition rebalance_candidate :: "chan list \<Rightarrow> (node_id \<times> net_ppm) list \<Rightarrow> node_id set \<Rightarrow> peer \<Rightarrow> bool" where
  "rebalance_candidate chans net unmanaged p =
     (p = peer_of (pe_node p) (filter (\<lambda>c. ch_node c = pe_node p) chans) \<and> p \<in> set (aggregate chans)
      \<and> list_ex ch_online (pe_chans p) \<and> pe_node p \<notin> unmanaged \<and> pe_node p \<in> keys net)"

lemma eligible_candidate:
  assumes "pool_eligible net unmanaged p = Some np" "p \<in> set (aggregate chans)"
  shows "rebalance_candidate chans net unmanaged p" "map_of net (pe_node p) = Some np"
proof -
  obtain n where p: "p = peer_of n (filter (\<lambda>c. ch_node c = n) chans)"
    using assms(2) unfolding aggregate_member by (elim exE conjE)
  have n: "pe_node p = n" "pe_online p = list_ex ch_online (pe_chans p)" by (simp_all add: p peer_of_def)
  have e: "pe_online p" "pe_node p \<notin> unmanaged" "map_of net (pe_node p) = Some np"
    using assms(1) by (auto simp: pool_eligible_def split: if_splits)
  have "pe_node p \<in> keys net" using map_of_SomeD [OF e(3)] by force
  then show "rebalance_candidate chans net unmanaged p" using e assms(2) n p by (simp add: rebalance_candidate_def)
  show "map_of net (pe_node p) = Some np" by (rule e(3))
qed

lemma fill_pool_item:
  assumes "i \<in> set (fill_pool s chans net unmanaged)"
  shows "rebalance_candidate chans net unmanaged (pi_peer i)" "0 < pi_ppm i" "pct_local (pi_peer i) \<le> xs_fill_band s"
    "\<exists>np. map_of net (pe_node (pi_peer i)) = Some np \<and> np_out np = Some (pi_ppm i) \<and> fill_tier s np (pi_peer i)"
    "pi_deficit i = tgt_fill s (pi_peer i)" "0 < pi_deficit i"
    "pi_caps i = distribute_caps (pi_peer i) (xs_fill_band s) True (pi_deficit i)"
proof -
  from assms obtain p where p: "p \<in> set (aggregate chans)" "fill_item s net unmanaged p = Some i"
    by (auto simp: fill_pool_def mem_map_filter)
  then obtain np where np: "pool_eligible net unmanaged p = Some np" "fill_tier s np p"
    "i = \<lparr>pi_peer = p, pi_ppm = the (np_out np), pi_deficit = tgt_fill s p,
          pi_caps = distribute_caps p (xs_fill_band s) True (tgt_fill s p)\<rparr>"
    by (auto simp: fill_item_def Let_def split: option.splits if_splits)
  note c = eligible_candidate [OF np(1) p(1)]
  show "rebalance_candidate chans net unmanaged (pi_peer i)" "0 < pi_ppm i" "pct_local (pi_peer i) \<le> xs_fill_band s"
    "\<exists>np. map_of net (pe_node (pi_peer i)) = Some np \<and> np_out np = Some (pi_ppm i) \<and> fill_tier s np (pi_peer i)"
    "pi_deficit i = tgt_fill s (pi_peer i)" "0 < pi_deficit i"
    "pi_caps i = distribute_caps (pi_peer i) (xs_fill_band s) True (pi_deficit i)"
    using c np(2) by (auto simp: np(3) fill_tier_def split: option.splits)
qed

lemma drain_pool_item:
  assumes "i \<in> set (drain_pool s chans net unmanaged)"
  shows "rebalance_candidate chans net unmanaged (pi_peer i)" "0 < pi_ppm i" "xs_drain_band s \<le> pct_local (pi_peer i)"
    "\<exists>np. map_of net (pe_node (pi_peer i)) = Some np \<and> np_in np = Some (pi_ppm i) \<and> \<not> fill_tier s np (pi_peer i)"
    "pi_deficit i = tgt_drain s (pi_peer i)" "0 < pi_deficit i"
    "pi_caps i = distribute_caps (pi_peer i) (xs_drain_band s) False (pi_deficit i)"
proof -
  from assms obtain p where p: "p \<in> set (aggregate chans)" "drain_item s net unmanaged p = Some i"
    by (auto simp: drain_pool_def mem_map_filter)
  then obtain np where np: "pool_eligible net unmanaged p = Some np" "\<not> fill_tier s np p" "drain_tier s np p"
    "i = \<lparr>pi_peer = p, pi_ppm = the (np_in np), pi_deficit = tgt_drain s p,
          pi_caps = distribute_caps p (xs_drain_band s) False (tgt_drain s p)\<rparr>"
    by (auto simp: drain_item_def Let_def split: option.splits if_splits)
  note c = eligible_candidate [OF np(1) p(1)]
  show "rebalance_candidate chans net unmanaged (pi_peer i)" "0 < pi_ppm i" "xs_drain_band s \<le> pct_local (pi_peer i)"
    "\<exists>np. map_of net (pe_node (pi_peer i)) = Some np \<and> np_in np = Some (pi_ppm i) \<and> \<not> fill_tier s np (pi_peer i)"
    "pi_deficit i = tgt_drain s (pi_peer i)" "0 < pi_deficit i"
    "pi_caps i = distribute_caps (pi_peer i) (xs_drain_band s) False (pi_deficit i)"
    using c np(2,3) by (auto simp: np(4) drain_tier_def split: option.splits)
qed

lemma pools_disjoint:
  assumes "i \<in> set (fill_pool s chans net unmanaged)" "j \<in> set (drain_pool s chans net unmanaged)"
  shows "pe_node (pi_peer i) \<noteq> pe_node (pi_peer j)"
proof
  assume n: "pe_node (pi_peer i) = pe_node (pi_peer j)"
  have "pi_peer i = pi_peer j"
    using fill_pool_item(1) [OF assms(1)] drain_pool_item(1) [OF assms(2)] n unfolding rebalance_candidate_def by metis
  then show False using fill_pool_item(4) [OF assms(1)] drain_pool_item(4) [OF assms(2)] by auto
qed

definition bands_ok :: "xr_settings \<Rightarrow> bool" where
  "bands_ok s = (0 \<le> xs_fill_band s \<and> xs_fill_band s \<le> 100 \<and> 0 \<le> xs_drain_band s \<and> xs_drain_band s \<le> 100)"

lemma candidate_small:
  assumes "rebalance_candidate chans net unmanaged p" "chans_small chans"
  shows "chans_small (pe_chans p)" "0 \<le> pe_cap p" "pe_cap p < 2 ^ 46" "0 \<le> pe_local p" "pe_local p < 2 ^ 46"
proof -
  have p: "p \<in> set (aggregate chans)" "p = peer_of (pe_node p) (filter (\<lambda>c. ch_node c = pe_node p) chans)"
    using assms(1) by (simp_all add: rebalance_candidate_def)
  show s: "chans_small (pe_chans p)" by (rule aggregate_small [OF assms(2) p(1)])
  have c: "pe_cap p = sum_list (map ch_cap (pe_chans p))" "pe_local p = sum_list (map ch_local (pe_chans p))"
    using arg_cong [OF p(2), of pe_cap] arg_cong [OF p(2), of pe_local] arg_cong [OF p(2), of pe_chans]
    by (simp_all add: peer_of_def)
  show "0 \<le> pe_cap p" "pe_cap p < 2 ^ 46" "0 \<le> pe_local p" "pe_local p < 2 ^ 46"
    using s unfolding c by (auto simp: chans_small_def list_all_iff intro!: sum_list_nonneg)
qed

text \<open>No peer is taken past the edge of its band.\<close>

lemma fill_within_band:
  assumes "i \<in> set (fill_pool s chans net unmanaged)" "chans_small chans" "bands_ok s"
  shows "pe_local (pi_peer i) + sum_list (map snd (pi_caps i)) \<le> band_edge (pe_cap (pi_peer i)) (xs_fill_band s)"
proof -
  let ?p = "pi_peer i"
  note f = fill_pool_item [OF assms(1)] and small = candidate_small [OF fill_pool_item(1) [OF assms(1)] assms(2)]
  have b: "0 \<le> xs_fill_band s" "xs_fill_band s \<le> 100" using assms(3) by (simp_all add: bands_ok_def)
  note e = band_edge_bounds [OF small(2,3) b]
  have d: "pi_deficit i = band_edge (pe_cap ?p) (xs_fill_band s) - pe_local ?p"
    using f(5,6) by (auto simp: tgt_fill_def Let_def split: if_splits)
  then have "pi_deficit i < 2 ^ 51" using e small by simp
  from distribute_caps_sum [OF headroom_sum [OF small(1) b, of True] _ this]
  have "sum_list (map snd (pi_caps i)) \<le> pi_deficit i" using f(6,7) by simp
  then show ?thesis using d by simp
qed

lemma drain_within_band:
  assumes "i \<in> set (drain_pool s chans net unmanaged)" "chans_small chans" "bands_ok s"
  shows "band_edge (pe_cap (pi_peer i)) (xs_drain_band s) \<le> pe_local (pi_peer i) - sum_list (map snd (pi_caps i))"
proof -
  let ?p = "pi_peer i"
  note f = drain_pool_item [OF assms(1)] and small = candidate_small [OF drain_pool_item(1) [OF assms(1)] assms(2)]
  have b: "0 \<le> xs_drain_band s" "xs_drain_band s \<le> 100" using assms(3) by (simp_all add: bands_ok_def)
  note e = band_edge_bounds [OF small(2,3) b]
  have d: "pi_deficit i = pe_local ?p - band_edge (pe_cap ?p) (xs_drain_band s)"
    using f(5,6) by (auto simp: tgt_drain_def Let_def split: if_splits)
  then have "pi_deficit i < 2 ^ 51" using e small by simp
  from distribute_caps_sum [OF headroom_sum [OF small(1) b, of False] _ this]
  have "sum_list (map snd (pi_caps i)) \<le> pi_deficit i" using f(6,7) by simp
  then show ?thesis using d by simp
qed

subsection \<open>Marginal rates\<close>

text \<open>Cumulative volumes rise and marginal rates fall.\<close>

definition steps :: "(int \<times> double) list \<Rightarrow> bool" where
  "steps c = (sorted_wrt (\<lambda>a b. fst a < fst b \<and> snd b \<le> snd a) c \<and> (\<forall>e \<in> set c. 0 < snd e))"

lemma steps_Cons:
  "steps (e # c) \<longleftrightarrow> 0 < snd e \<and> (\<forall>e' \<in> set c. fst e < fst e' \<and> snd e' \<le> snd e) \<and> steps c"
  by (auto simp: steps_def)

lemma cum_bounds:
  "\<forall>i \<in> set pool. 0 < pi_deficit i \<Longrightarrow> e \<in> set (cum acc pool) \<Longrightarrow> acc < fst e"
  by (induction pool arbitrary: acc) (auto, fastforce)

lemma cum_ppm: "snd ` set (cum acc pool) = pi_ppm ` set pool"
  by (induction pool arbitrary: acc) auto

lemma steps_cum:
  assumes "sorted_wrt (\<lambda>a b. pi_ppm b \<le> pi_ppm a) pool" "\<forall>i \<in> set pool. 0 < pi_deficit i \<and> 0 < pi_ppm i"
  shows "steps (cum acc pool)"
  using assms
proof (induction pool arbitrary: acc)
  case (Cons i pool)
  have b: "acc + pi_deficit i < fst e" if "e \<in> set (cum (acc + pi_deficit i) pool)" for e
    using cum_bounds [OF _ that] Cons.prems(2) by simp
  have r: "snd e \<le> pi_ppm i" if "e \<in> set (cum (acc + pi_deficit i) pool)" for e
  proof -
    have "snd e \<in> pi_ppm ` set pool" using that cum_ppm [of "acc + pi_deficit i" pool] by (metis image_eqI)
    then show ?thesis using Cons.prems(1) by auto
  qed
  show ?case using Cons b r by (simp add: steps_Cons)
qed (simp add: steps_def)

lemma cum_Nil [simp]: "cum acc pool = [] \<longleftrightarrow> pool = []"
  by (cases pool) simp_all

lemma last_cum: "pool \<noteq> [] \<Longrightarrow> fst (last (cum acc pool)) = acc + sum_list (map pi_deficit pool)"
proof (induction pool arbitrary: acc)
  case (Cons i pool)
  then show ?case by (cases "pool = []") (simp_all add: add.assoc)
qed simp

lemma threshold_nonneg:
  "steps c \<Longrightarrow> 0 \<le> threshold_at c v \<longleftrightarrow> (c \<noteq> [] \<and> v \<le> fst (last c))"
proof (induction c)
  case (Cons e c)
  then have s: "0 < snd e" "\<forall>e' \<in> set c. fst e < fst e'" "steps c" by (simp_all add: steps_Cons)
  show ?case
  proof (cases "c = []")
    case False
    then have "fst e < fst (last c)" using s by simp
    then show ?thesis using Cons.IH [OF s(3)] s(1) False by auto
  qed (use s in simp)
qed simp

lemma threshold_mem: "0 \<le> threshold_at c v \<Longrightarrow> \<exists>e \<in> set c. threshold_at c v = snd e \<and> v \<le> fst e"
  by (induction c) (auto split: if_splits)

lemma threshold_antimono:
  assumes "steps c" "u \<le> v"
  shows "threshold_at c v \<le> threshold_at c u"
  using assms
proof (induction c)
  case (Cons e c)
  then have s: "0 < snd e" "\<forall>e' \<in> set c. snd e' \<le> snd e" "steps c" by (simp_all add: steps_Cons)
  have "threshold_at c v \<le> snd e"
    using threshold_mem [of c v] s(1,2) by (cases "0 \<le> threshold_at c v") auto
  then show ?case using Cons.IH [OF s(3) Cons.prems(2)] Cons.prems(2) by auto
qed simp

lemma threshold_between:
  assumes "u \<le> v" "\<forall>e \<in> set c. \<not> (u \<le> fst e \<and> fst e < v)"
  shows "threshold_at c u = threshold_at c v"
  using assms by (induction c) auto

text \<open>The items a volume takes from a pool.\<close>

fun picked :: "int \<Rightarrow> int \<Rightarrow> pool_item list \<Rightarrow> pool_item list" where
  "picked n acc [] = []"
| "picked n acc (i # pool) = (if acc \<ge> n then [] else i # picked n (acc + pi_deficit i) pool)"

lemma pick_caps_picked: "pick_caps n acc pool = concat (map pi_caps (picked n acc pool))"
  by (induction pool arbitrary: acc) auto

lemma picked_subset: "set (picked n acc pool) \<subseteq> set pool"
  by (induction pool arbitrary: acc) auto

lemma picked_covers: "n \<le> acc + sum_list (map pi_deficit pool) \<Longrightarrow> n \<le> acc + sum_list (map pi_deficit (picked n acc pool))"
  by (induction pool arbitrary: acc) (auto simp: add.assoc [symmetric])

lemma picked_rate:
  "steps (cum acc pool) \<Longrightarrow> i \<in> set (picked n acc pool) \<Longrightarrow> threshold_at (cum acc pool) n \<le> pi_ppm i"
proof (induction pool arbitrary: acc)
  case (Cons j pool)
  let ?c = "cum (acc + pi_deficit j) pool"
  have s: "steps ?c" "0 < pi_ppm j" "\<forall>e \<in> set ?c. acc + pi_deficit j < fst e \<and> snd e \<le> pi_ppm j"
    using Cons.prems(1) by (simp_all add: steps_Cons)
  have t: "threshold_at ?c n \<le> pi_ppm j"
    using threshold_mem [of ?c n] s(2,3) by (cases "0 \<le> threshold_at ?c n") auto
  show ?case
  proof (cases "i = j")
    case True
    then show ?thesis using t by simp
  next
    case False
    then have i: "i \<in> set (picked n (acc + pi_deficit j) pool)" using Cons.prems(2) by (auto split: if_splits)
    then have "\<not> n \<le> acc + pi_deficit j" by (cases pool) (auto split: if_splits)
    then show ?thesis using Cons.IH [OF s(1) i] by simp
  qed
qed simp

subsection \<open>The cut\<close>

definition joint_at :: "(int \<times> double) list \<Rightarrow> (int \<times> double) list \<Rightarrow> int \<Rightarrow> double" where
  "joint_at fc dc v = fl (threshold_at fc v + threshold_at dc v)"

definition point_at :: "(int \<times> double) list \<Rightarrow> (int \<times> double) list \<Rightarrow> int \<Rightarrow> curve_point" where
  "point_at fc dc n = \<lparr>cv_n = n, cv_fill = threshold_at fc n, cv_drain = threshold_at dc n, cv_joint = joint_at fc dc n\<rparr>"

text \<open>The volumes that both sides can supply.\<close>

definition matched :: "(int \<times> double) list \<Rightarrow> (int \<times> double) list \<Rightarrow> int \<Rightarrow> bool" where
  "matched fc dc v = (v \<le> fst (last fc) \<and> v \<le> fst (last dc))"

lemma takeWhile_falling:
  assumes "sorted_wrt (<) ns" "\<And>a b. a \<in> set ns \<Longrightarrow> b \<in> set ns \<Longrightarrow> a \<le> b \<Longrightarrow> P b \<Longrightarrow> P a"
  shows "takeWhile P ns = filter P (ns :: int list)"
  using assms
proof (induction ns)
  case (Cons n ns)
  show ?case
  proof (cases "P n")
    case True
    have "takeWhile P ns = filter P ns"
    proof (rule Cons.IH)
      show "sorted_wrt (<) ns" using Cons.prems(1) by simp
      show "P a" if "a \<in> set ns" "b \<in> set ns" "a \<le> b" "P b" for a b
        using Cons.prems(2) [of a b] that by simp
    qed
    then show ?thesis using True by simp
  next
    case False
    then have "\<not> P m" if "m \<in> set ns" for m
      using Cons.prems(1) Cons.prems(2) [of n m] that by (auto simp: less_imp_le)
    then have "filter P ns = []" by (simp add: filter_empty_conv)
    then show ?thesis using False by simp
  qed
qed simp

lemma sorted_remdups_adj_strict: "sorted xs \<Longrightarrow> sorted_wrt (<) (remdups_adj (xs :: int list))"
proof (induction xs rule: remdups_adj.induct)
  case (3 x y xs)
  then show ?case
  proof (cases "x = y")
    case False
    then have "\<forall>z \<in> set (y # xs). x < z" using 3(3) by auto
    then show ?thesis using 3 False by simp
  qed simp
qed simp_all

lemma breakpoints_facts:
  "set (breakpoints fc dc) = fst ` set fc \<union> fst ` set dc" "sorted_wrt (<) (breakpoints fc dc)"
  by (simp_all add: breakpoints_def sorted_remdups_adj_strict image_Un)

lemma joint_antimono:
  assumes "steps fc" "steps dc" "fc \<noteq> []" "dc \<noteq> []" "u \<le> v" "matched fc dc v"
  shows "joint_at fc dc v \<le> joint_at fc dc u"
proof -
  have "0 \<le> threshold_at fc v" "0 \<le> threshold_at dc v"
    using assms by (simp_all add: threshold_nonneg matched_def)
  then show ?thesis unfolding joint_at_def
    using threshold_antimono [OF assms(1,5)] threshold_antimono [OF assms(2,5)] by (intro fl_mono) simp_all
qed

lemma curve_points:
  assumes "steps fc" "steps dc" "fc \<noteq> []" "dc \<noteq> []" "sorted_wrt (<) ns"
  shows "curve_loop fc dc ns = map (point_at fc dc) (filter (matched fc dc) ns)"
proof -
  have "curve_loop fc dc ms = map (point_at fc dc) (takeWhile (matched fc dc) ms)" for ms
    using assms(3,4) threshold_nonneg [OF assms(1)] threshold_nonneg [OF assms(2)]
    by (induction ms) (simp_all add: Let_def point_at_def joint_at_def matched_def not_le [symmetric] del: not_le)
  moreover have "takeWhile (matched fc dc) ns = filter (matched fc dc) ns"
    using assms(5) by (rule takeWhile_falling) (auto simp: matched_def)
  ultimately show ?thesis by simp
qed

lemma best_cut_spec:
  assumes st: "steps fc" "steps dc" "fc \<noteq> []" "dc \<noteq> []" and ns: "sorted_wrt (<) ns" "\<forall>n \<in> set ns. matched fc dc n"
  shows "case best_cut flr (map (point_at fc dc) ns) of
      None \<Rightarrow> \<forall>n \<in> set ns. joint_at fc dc n < flr
    | Some p \<Rightarrow> \<exists>n \<in> set ns. p = point_at fc dc n \<and> flr \<le> joint_at fc dc n
        \<and> (\<forall>m \<in> set ns. flr \<le> joint_at fc dc m \<longrightarrow> m \<le> n)"
proof -
  let ?P = "\<lambda>n. flr \<le> joint_at fc dc n"
  have "takeWhile ?P ns = filter ?P ns"
    using ns(1) by (rule takeWhile_falling) (use ns(2) joint_antimono [OF st] order_trans in blast)
  moreover have "takeWhile (\<lambda>p. flr \<le> cv_joint p) (map (point_at fc dc) ns) = map (point_at fc dc) (takeWhile ?P ns)"
    by (simp add: takeWhile_map o_def point_at_def)
  ultimately have b: "best_cut flr (map (point_at fc dc) ns)
      = (case rev (map (point_at fc dc) (filter ?P ns)) of [] \<Rightarrow> None | p # _ \<Rightarrow> Some p)"
    by (simp add: best_cut_def)
  show ?thesis
  proof (cases "filter ?P ns" rule: rev_cases)
    case Nil
    then have "\<forall>n \<in> set ns. \<not> ?P n" by (simp add: filter_empty_conv)
    then show ?thesis using Nil by (simp add: b not_le)
  next
    case (snoc ms n)
    have "sorted_wrt (<) (filter ?P ns)" using ns(1) by (rule sorted_wrt_filter)
    then have "\<forall>m \<in> set (filter ?P ns). m \<le> n" unfolding snoc by (auto simp: sorted_wrt_append)
    moreover have "n \<in> set (filter ?P ns)" unfolding snoc by simp
    ultimately have "n \<in> set ns" "?P n" "\<forall>m \<in> set ns. ?P m \<longrightarrow> m \<le> n" by simp_all
    moreover have "best_cut flr (map (point_at fc dc) ns) = Some (point_at fc dc n)" unfolding b snoc by simp
    ultimately show ?thesis by auto
  qed
qed

text \<open>Between breakpoints nothing changes, so the row found decides every volume.\<close>

lemma cut_decides:
  assumes st: "steps fc" "steps dc" "fc \<noteq> []" "dc \<noteq> []"
    and p: "best_cut flr (curve_loop fc dc (breakpoints fc dc)) = Some p"
    and v: "matched fc dc v"
  shows "flr \<le> joint_at fc dc v \<longleftrightarrow> v \<le> cv_n p"
proof -
  let ?ns = "filter (matched fc dc) (breakpoints fc dc)"
  have ns: "sorted_wrt (<) ?ns" "\<forall>n \<in> set ?ns. matched fc dc n"
    using breakpoints_facts(2) by (auto intro: sorted_wrt_filter)
  have b: "best_cut flr (map (point_at fc dc) ?ns) = Some p"
    using p by (simp add: curve_points [OF st breakpoints_facts(2)])
  obtain n where n: "n \<in> set ?ns" "p = point_at fc dc n" "flr \<le> joint_at fc dc n"
    "\<forall>m \<in> set ?ns. flr \<le> joint_at fc dc m \<longrightarrow> m \<le> n"
    using best_cut_spec [OF st ns, of flr] by (auto simp: b)
  have pn: "cv_n p = n" by (simp add: n(2) point_at_def)
  show ?thesis
  proof
    assume "v \<le> cv_n p"
    then show "flr \<le> joint_at fc dc v" using joint_antimono [OF st, of v n] n(1,3) pn by auto
  next
    assume f: "flr \<le> joint_at fc dc v"
    let ?M = "{m \<in> set (breakpoints fc dc). v \<le> m}"
    have l: "fst (last fc) \<in> ?M" "fst (last dc) \<in> ?M"
      using v st(3,4) by (simp_all add: breakpoints_facts(1) matched_def)
    have fin: "finite ?M" "?M \<noteq> {}" using l(1) by auto
    define m where "m = Min ?M"
    have m: "m \<in> ?M" "\<And>k. k \<in> ?M \<Longrightarrow> m \<le> k" using Min_in [OF fin] Min_le [OF fin(1)] by (auto simp: m_def)
    have mm: "m \<in> set ?ns" using m(1) m(2) [OF l(1)] m(2) [OF l(2)] by (simp add: matched_def)
    have "\<not> (v \<le> fst e \<and> fst e < m)" if "e \<in> set fc \<union> set dc" for e
      using m(2) [of "fst e"] that by (auto simp: breakpoints_facts(1))
    then have "threshold_at fc v = threshold_at fc m" "threshold_at dc v = threshold_at dc m"
      using m(1) by (intro threshold_between; simp)+
    then have "flr \<le> joint_at fc dc m" using f by (simp add: joint_at_def)
    then show "v \<le> cv_n p" using n(4) mm m(1) pn by auto
  qed
qed

subsection \<open>The ladder\<close>

lemma ladder_ratio_bounds: "4 / 3 + 1 / 10 \<le> ladder_ratio"
  using fl_lower [of "8 / 5"] by (simp add: ladder_ratio_def)

lemma ladder_shrinks:
  assumes "0 < t"
  shows "0 < fl (t / ladder_ratio)" "fl (t / ladder_ratio) \<le> t * (3 / 4)"
proof -
  have r: "0 < ladder_ratio" using ladder_ratio_bounds by simp
  then show "0 < fl (t / ladder_ratio)" using assms by (intro fl_pos) simp
  have "t / ladder_ratio \<le> t / (4 / 3 + 1 / 10)"
    using assms ladder_ratio_bounds r by (intro divide_left_mono) simp_all
  moreover have "fl (t / ladder_ratio) \<le> t / ladder_ratio * (1 + 1 / 2 ^ 53)"
    using assms r by (intro fl_upper) simp
  moreover have "t / ladder_ratio * (1 + 1 / 2 ^ 53) \<le> t / ladder_ratio * (43 / 40)"
    using assms r by (intro mult_left_mono) simp_all
  ultimately show "fl (t / ladder_ratio) \<le> t * (3 / 4)" by (simp add: field_simps)
qed

lemma ladder_targets_bounded:
  assumes "0 < t" "0 < u" "t \<le> u * (4 / 3) ^ k"
  shows "\<exists>ts. ladder_targets t u = Some ts"
  using assms
proof (induction k arbitrary: t)
  case 0
  then show ?case by (simp add: ladder_targets.simps)
next
  case (Suc k)
  show ?case
  proof (cases "t > u")
    case True
    have "fl (t / ladder_ratio) \<le> u * (4 / 3) ^ k"
      using ladder_shrinks(2) [OF Suc.prems(1)] Suc.prems(3) by simp
    then obtain ts where "ladder_targets (fl (t / ladder_ratio)) u = Some ts"
      using Suc.IH ladder_shrinks(1) [OF Suc.prems(1)] Suc.prems(2) by blast
    then show ?thesis using True by (simp add: ladder_targets.simps [of t])
  qed (simp add: ladder_targets.simps)
qed

lemma pow_grows: "1 + of_nat k / 3 \<le> ((4 / 3) ^ k :: rat)"
proof (induction k)
  case (Suc k)
  have "1 + of_nat (Suc k) / 3 \<le> (1 + of_nat k / 3) * (4 / 3 :: rat)" by (simp add: field_simps)
  also have "\<dots> \<le> (4 / 3) ^ k * (4 / 3)" using Suc by (intro mult_right_mono) simp_all
  finally show ?case by (simp add: mult.commute)
qed simp

lemma ladder_targets_return:
  assumes "0 < t" "0 < u"
  shows "\<exists>ts. ladder_targets t u = Some ts"
proof -
  obtain n where n: "t / u < of_nat n" using reals_Archimedean2 by blast
  have "of_nat n \<le> 1 + of_nat (3 * n) / (3 :: rat)" by simp
  also have "\<dots> \<le> (4 / 3) ^ (3 * n)" by (rule pow_grows)
  finally have "t / u \<le> (4 / 3) ^ (3 * n)" using n by linarith
  then have "t \<le> u * (4 / 3) ^ (3 * n)" using assms by (simp add: pos_divide_le_eq mult.commute)
  then show ?thesis by (rule ladder_targets_bounded [OF assms])
qed

lemma snap_mem: "curve \<noteq> [] \<Longrightarrow> snap curve u tgt \<in> set curve"
proof -
  assume c: "curve \<noteq> []"
  have "snap curve u tgt \<in> set (hd curve # takeWhile (\<lambda>p. cv_joint p \<ge> tgt) (take (u + 1) curve))"
    unfolding snap_def by (rule last_in_set) simp
  moreover have "set (takeWhile (\<lambda>p. cv_joint p \<ge> tgt) (take (u + 1) curve)) \<subseteq> set curve"
    using set_takeWhileD in_set_takeD by fast
  ultimately show ?thesis using c by auto
qed

lemma already_iff: "already ladder n \<longleftrightarrow> n \<in> cv_n ` set ladder"
  by (auto simp: already_def list_ex_iff)

lemma ladder_loop_facts:
  assumes "curve \<noteq> []" "set ladder \<subseteq> set curve" "distinct (map cv_n ladder)"
  shows "set (ladder_loop curve u tgts ladder lj) \<subseteq> set curve \<and> distinct (map cv_n (ladder_loop curve u tgts ladder lj))"
  using assms
proof (induction tgts arbitrary: ladder lj)
  case (Cons tgt tgts)
  then show ?case using snap_mem [OF assms(1), of u tgt] by (auto simp: Let_def already_iff)
qed simp

lemma useful_index_less: "curve \<noteq> [] \<Longrightarrow> useful_index curve < length curve"
  using length_takeWhile_le [of "\<lambda>p. cv_fill p \<ge> noise_ppm \<and> cv_drain p \<ge> noise_ppm" curve]
  unfolding useful_index_def length_greater_0_conv [symmetric] by arith

lemma derive_ladder_facts:
  assumes "curve \<noteq> []" "\<forall>p \<in> set curve. 0 < cv_joint p"
  obtains ladder where "derive_ladder curve = Some ladder" "ladder \<noteq> []" "set ladder \<subseteq> set curve"
    "distinct (map cv_n ladder)"
proof -
  let ?u = "useful_index curve"
  have m: "curve ! 0 \<in> set curve" "curve ! ?u \<in> set curve" using useful_index_less [OF assms(1)] assms(1) by simp_all
  obtain ts where ts: "ladder_targets (cv_joint (curve ! 0)) (cv_joint (curve ! ?u)) = Some ts"
    using ladder_targets_return assms(2) m by blast
  let ?l = "ladder_loop curve ?u ts [] (- 1)"
  have l: "set ?l \<subseteq> set curve" "distinct (map cv_n ?l)"
    using ladder_loop_facts [OF assms(1), of "[]" ?u ts "- 1"] by simp_all
  let ?r = "if already ?l (cv_n (curve ! ?u)) then ?l else ?l @ [curve ! ?u]"
  have "derive_ladder curve = Some ?r" using assms(1) ts by (simp add: derive_ladder_def Let_def)
  moreover have "?r \<noteq> []" by (auto simp: already_def)
  moreover have "set ?r \<subseteq> set curve" using l(1) m(2) by simp
  moreover have "distinct (map cv_n ?r)" using l(2) by (auto simp: already_iff)
  ultimately show ?thesis using that by blast
qed

subsection \<open>Plans\<close>

lemma pools_steps:
  "steps (cum 0 (fill_pool s chans net unmanaged))" "steps (cum 0 (drain_pool s chans net unmanaged))"
proof -
  show "steps (cum 0 (fill_pool s chans net unmanaged))"
    using fill_pool_item(2,6) by (intro steps_cum) (auto simp: fill_pool_def by_ppm_sorted)
  show "steps (cum 0 (drain_pool s chans net unmanaged))"
    using drain_pool_item(2,6) by (intro steps_cum) (auto simp: drain_pool_def by_ppm_sorted)
qed

lemma map_filter_distinct:
  assumes "distinct (map g xs)" "\<And>x y. f x = Some y \<Longrightarrow> h y = g x"
  shows "distinct (map h (List.map_filter f xs))"
  using assms(1)
proof (induction xs)
  case (Cons x xs)
  have "h ` set (List.map_filter f xs) \<subseteq> g ` set xs" using assms(2) by (fastforce simp: mem_map_filter)
  then show ?case using Cons assms(2) [of x] by (cases "f x") (auto simp: List.map_filter_simps)
qed (simp add: List.map_filter_simps)

lemma pools_distinct:
  "distinct (map (\<lambda>i. pe_node (pi_peer i)) (fill_pool s chans net unmanaged))"
  "distinct (map (\<lambda>i. pe_node (pi_peer i)) (drain_pool s chans net unmanaged))"
proof -
  have d: "distinct (map h (by_ppm xs)) = distinct (map h xs)" for h :: "pool_item \<Rightarrow> node_id" and xs
  proof -
    have "mset (map h (by_ppm xs)) = mset (map h xs)" by simp
    then show ?thesis by (rule mset_eq_imp_distinct_iff)
  qed
  show "distinct (map (\<lambda>i. pe_node (pi_peer i)) (fill_pool s chans net unmanaged))"
    unfolding fill_pool_def d
    by (rule map_filter_distinct [OF aggregate_distinct]) (auto simp: fill_item_def Let_def split: option.splits if_splits)
  show "distinct (map (\<lambda>i. pe_node (pi_peer i)) (drain_pool s chans net unmanaged))"
    unfolding drain_pool_def d
    by (rule map_filter_distinct [OF aggregate_distinct]) (auto simp: drain_item_def Let_def split: option.splits if_splits)
qed

lemma picked_take: "\<exists>k. picked n acc pool = take k pool"
proof (induction pool arbitrary: acc)
  case (Cons i pool)
  obtain k where "picked n (acc + pi_deficit i) pool = take k pool" using Cons by blast
  then show ?case by (cases "acc \<ge> n") (auto intro: exI [of _ 0] exI [of _ "Suc k"])
qed simp

lemma steps_matched_hd:
  assumes "steps c" "c \<noteq> []" "v \<le> fst (hd c)"
  shows "v \<le> fst (last c)"
proof (cases c)
  case (Cons e es)
  then have "es \<noteq> [] \<Longrightarrow> fst e < fst (last es)" using assms(1) last_in_set by (auto simp: steps_Cons)
  then show ?thesis using Cons assms(3) by (cases "es = []") simp_all
qed (use assms in simp)

lemma joint_curve_facts:
  assumes f: "steps (cum 0 fill)" "fill \<noteq> []" "\<forall>i \<in> set fill. 0 < pi_deficit i"
    and d: "steps (cum 0 drain)" "drain \<noteq> []" "\<forall>i \<in> set drain. 0 < pi_deficit i"
  shows "joint_curve fill drain \<noteq> []"
    and "p \<in> set (joint_curve fill drain) \<Longrightarrow>
      p = point_at (cum 0 fill) (cum 0 drain) (cv_n p) \<and> matched (cum 0 fill) (cum 0 drain) (cv_n p) \<and> 0 < cv_n p \<and> 0 < cv_joint p"
proof -
  let ?f = "cum 0 fill" and ?d = "cum 0 drain"
  have ne: "?f \<noteq> []" "?d \<noteq> []" using f(2) d(2) by simp_all
  have c: "joint_curve fill drain = map (point_at ?f ?d) (filter (matched ?f ?d) (breakpoints ?f ?d))"
    by (simp add: joint_curve_def Let_def curve_points [OF f(1) d(1) ne breakpoints_facts(2)])
  let ?n = "min (fst (hd ?f)) (fst (hd ?d))"
  have "matched ?f ?d ?n"
    using steps_matched_hd [OF f(1) ne(1), of ?n] steps_matched_hd [OF d(1) ne(2), of ?n] by (simp add: matched_def)
  moreover have "?n \<in> set (breakpoints ?f ?d)" using ne by (auto simp: breakpoints_facts(1) min_def)
  ultimately have "?n \<in> set (filter (matched ?f ?d) (breakpoints ?f ?d))" by simp
  then show "joint_curve fill drain \<noteq> []" unfolding c by (metis empty_iff list.map_disc_iff list.set(1))
  assume "p \<in> set (joint_curve fill drain)"
  then obtain n where n: "p = point_at ?f ?d n" "matched ?f ?d n" "n \<in> fst ` set ?f \<union> fst ` set ?d"
    unfolding c by (auto simp: breakpoints_facts(1))
  then have t: "0 \<le> threshold_at ?f n" "0 \<le> threshold_at ?d n"
    using f(1) d(1) ne by (simp_all add: threshold_nonneg matched_def)
  then have "0 < threshold_at ?f n" "0 < threshold_at ?d n"
    using threshold_mem [OF t(1)] threshold_mem [OF t(2)] f(1) d(1) by (auto simp: steps_def)
  then have "0 < joint_at ?f ?d n" unfolding joint_at_def by (intro fl_pos) simp
  moreover have "0 < n" using n(3) cum_bounds [OF f(3)] cum_bounds [OF d(3)] by auto
  ultimately show "p = point_at ?f ?d (cv_n p) \<and> matched ?f ?d (cv_n p) \<and> 0 < cv_n p \<and> 0 < cv_joint p"
    using n(1,2) by (simp add: point_at_def)
qed

lemma best_cut_mem:
  assumes "best_cut flr curve = Some p"
  shows "p \<in> set curve" "flr \<le> cv_joint p"
proof -
  let ?t = "takeWhile (\<lambda>p. cv_joint p \<ge> flr) curve"
  have "\<exists>q. rev ?t = p # q" using assms by (auto simp: best_cut_def split: list.splits)
  then have "p \<in> set (rev ?t)" by (metis list.set_intros(1))
  then have "p \<in> set ?t" by simp
  then show "p \<in> set curve" "flr \<le> cv_joint p" by (auto dest: set_takeWhileD)
qed

text \<open>The floor a matched cycle works with: the configured one, or that of a rung.\<close>

lemma plan_matched_cases:
  assumes f: "steps (cum 0 fill)" "fill \<noteq> []" "\<forall>i \<in> set fill. 0 < pi_deficit i"
    and d: "steps (cum 0 drain)" "drain \<noteq> []" "\<forall>i \<in> set drain. 0 < pi_deficit i"
    and draw: "\<And>b. draw b \<le> b"
  obtains ladder where "ladder \<noteq> []" "set ladder \<subseteq> set (joint_curve fill drain)" "derive_ladder (joint_curve fill drain) = Some ladder"
    "plan_matched s draw fill drain =
       (case best_cut (effective_floor s draw ladder) (joint_curve fill drain) of
          None \<Rightarrow> Some (NoViable (effective_floor s draw ladder))
        | Some p \<Rightarrow> Some (ExecuteCycle (execute_request s (pick_caps (cv_n p) 0 drain) (pick_caps (cv_n p) 0 fill)
                         (cv_n p) (of_int (llround (cv_joint p))))))"
    "xs_floor_auto s \<Longrightarrow> \<exists>q \<in> set (joint_curve fill drain). effective_floor s draw ladder = cv_joint q"
proof -
  note c = joint_curve_facts [OF f d]
  have "\<forall>p \<in> set (joint_curve fill drain). 0 < cv_joint p" using c(2) by blast
  then obtain ladder where l: "derive_ladder (joint_curve fill drain) = Some ladder" "ladder \<noteq> []"
    "set ladder \<subseteq> set (joint_curve fill drain)"
    using derive_ladder_facts [OF c(1)] by blast
  let ?flr = "effective_floor s draw ladder"
  have pos: "0 < cv_n p" if "best_cut ?flr (joint_curve fill drain) = Some p" for p
  proof -
    show ?thesis using c(2) best_cut_mem [OF that] by blast
  qed
  have p: "plan_matched s draw fill drain =
       (case best_cut ?flr (joint_curve fill drain) of
          None \<Rightarrow> Some (NoViable ?flr)
        | Some p \<Rightarrow> Some (ExecuteCycle (execute_request s (pick_caps (cv_n p) 0 drain) (pick_caps (cv_n p) 0 fill)
                         (cv_n p) (of_int (llround (cv_joint p))))))"
    using pos by (auto simp: plan_matched_def l(1) Let_def split: option.splits)
  have "\<exists>q \<in> set (joint_curve fill drain). ?flr = cv_joint q" if "xs_floor_auto s"
  proof -
    have "draw (length ladder - 1) < length ladder"
      using draw [of "length ladder - 1"] l(2) by (metis One_nat_def Suc_pred length_greater_0_conv less_Suc_eq_le)
    then have "ladder ! draw (length ladder - 1) \<in> set (joint_curve fill drain)" using l(3) by auto
    then show ?thesis using that l(2) by (auto simp: effective_floor_def)
  qed
  then show ?thesis using that [OF l(2,3,1) p] by blast
qed

abbreviation cap_entries :: "scid_cap list \<Rightarrow> (string \<times> u64) list" where
  "cap_entries cs \<equiv> map (\<lambda>(scid, c). (scid, of_int c * 1000)) cs"

lemma demand_target_mem:
  assumes "demand_target scid fill = Some i"
  shows "i \<in> set fill" "\<exists>c \<in> set (pe_chans (pi_peer i)). ch_scid c = scid"
  using assms by (auto simp: demand_target_def find_Some_iff list_ex_iff)

lemma keep_sources_bounds: "0 < n \<Longrightarrow> 0 < keep_sources r n" "keep_sources r n \<le> n"
  by (simp_all add: keep_sources_def Let_def)

text \<open>The peers behind a request.\<close>

lemma plan_cycle_items:
  assumes "plan_cycle s draw chans net scid unmanaged = Some (ExecuteCycle rq)"
  obtains k l where "rq_sources rq = cap_entries (concat (map pi_caps (take k (drain_pool s chans net unmanaged))))"
      "rq_destinations rq = cap_entries (concat (map pi_caps (take l (fill_pool s chans net unmanaged))))"
  | k i where "rq_sources rq = cap_entries (concat (map pi_caps (take k (drain_pool s chans net unmanaged))))"
      "rq_destinations rq = cap_entries (pi_caps i)" "i \<in> set (fill_pool s chans net unmanaged)"
proof (cases "scid = []")
  case True
  obtain n m where r: "rq = execute_request s (pick_caps n 0 (drain_pool s chans net unmanaged))
      (pick_caps n 0 (fill_pool s chans net unmanaged)) n m"
    using assms True by (auto simp: plan_cycle_def plan_matched_def Let_def bind_eq_Some_conv split: if_splits option.splits)
  obtain k l where "picked n 0 (drain_pool s chans net unmanaged) = take k (drain_pool s chans net unmanaged)"
    "picked n 0 (fill_pool s chans net unmanaged) = take l (fill_pool s chans net unmanaged)"
    using picked_take by metis
  then show ?thesis using that(1) by (simp add: r execute_request_def pick_caps_picked)
next
  case False
  then obtain i where i: "demand_target scid (fill_pool s chans net unmanaged) = Some i"
    using assms by (auto simp: plan_cycle_def plan_demand_def Let_def split: if_splits option.splits)
  show ?thesis
    using assms False i demand_target_mem(1) [OF i] that(2)
    by (auto simp: plan_cycle_def plan_demand_def Let_def execute_request_def split: if_splits)
qed

text \<open>What is promised of one side of a request, said without the rounding of the code: each channel gets at most one
  cap, of at least a thousand satoshis, and with all caps used the peer stays on its side of the band.\<close>

definition own_caps :: "pool_item \<Rightarrow> bool" where
  "own_caps i = (subseq (map fst (pi_caps i)) (map ch_scid (pe_chans (pi_peer i))) \<and> (\<forall>c \<in> set (pi_caps i). 1000 \<le> snd c))"

definition fill_sound :: "xr_settings \<Rightarrow> (node_id \<times> net_ppm) list \<Rightarrow> pool_item \<Rightarrow> bool" where
  "fill_sound s net i =
     (own_caps i \<and> (\<exists>np. map_of net (pe_node (pi_peer i)) = Some np \<and> np_out np = Some (pi_ppm i)) \<and> 0 < pi_ppm i
      \<and> of_int (pe_local (pi_peer i) + sum_list (map snd (pi_caps i)))
          \<le> of_int (pe_cap (pi_peer i)) * xs_fill_band s / 100 + 1)"

definition drain_sound :: "xr_settings \<Rightarrow> (node_id \<times> net_ppm) list \<Rightarrow> pool_item \<Rightarrow> bool" where
  "drain_sound s net i =
     (own_caps i \<and> (\<exists>np. map_of net (pe_node (pi_peer i)) = Some np \<and> np_in np = Some (pi_ppm i)) \<and> 0 < pi_ppm i
      \<and> of_int (pe_cap (pi_peer i)) * xs_drain_band s / 100
          \<le> of_int (pe_local (pi_peer i) - sum_list (map snd (pi_caps i))) + 2)"

lemma subseq_map_filter:
  assumes "\<And>x y. x \<in> set xs \<Longrightarrow> f x = Some y \<Longrightarrow> g y = h x"
  shows "subseq (map g (List.map_filter f xs)) (map h xs)"
  using assms by (induction xs) (auto simp: List.map_filter_simps split: option.splits)

lemma distribute_caps_own:
  assumes "pi_caps i = distribute_caps (pi_peer i) b side d"
  shows "own_caps i"
proof -
  let ?z = "zip (pe_chans (pi_peer i)) (map (headroom b side) (pe_chans (pi_peer i)))"
  have "subseq (map fst (pi_caps i)) (map (\<lambda>(c, v). ch_scid c) ?z)" if "pi_caps i \<noteq> []"
    using that unfolding assms distribute_caps_def Let_def
    by (auto intro!: subseq_map_filter split: if_splits simp: Let_def)
  moreover have "map (\<lambda>(c, v). ch_scid c) ?z = map ch_scid (pe_chans (pi_peer i))"
    by (simp add: zip_map2 map_zip_map case_prod_beta comp_def zip_same_conv_map)
  ultimately have "subseq (map fst (pi_caps i)) (map ch_scid (pe_chans (pi_peer i)))" by (cases "pi_caps i = []") simp_all
  then show ?thesis using distribute_caps_member(1) assms by (fastforce simp: own_caps_def min_cap_sat_def)
qed

lemma fill_pool_sound:
  assumes "i \<in> set (fill_pool s chans net unmanaged)" "chans_small chans" "bands_ok s"
  shows "fill_sound s net i"
proof -
  note f = fill_pool_item [OF assms(1)] and small = candidate_small [OF fill_pool_item(1) [OF assms(1)] assms(2)]
  have "(of_int (pe_local (pi_peer i) + sum_list (map snd (pi_caps i))) :: rat)
      \<le> of_int (band_edge (pe_cap (pi_peer i)) (xs_fill_band s))"
    using fill_within_band [OF assms] by (simp only: of_int_le_iff)
  moreover have "of_int (band_edge (pe_cap (pi_peer i)) (xs_fill_band s)) \<le> of_int (pe_cap (pi_peer i)) * xs_fill_band s / 100 + 1"
    using band_edge_near(1) [OF small(2,3)] assms(3) by (simp add: bands_ok_def)
  ultimately show ?thesis using f(2,4) distribute_caps_own [OF f(7)] by (auto simp: fill_sound_def)
qed

lemma drain_pool_sound:
  assumes "i \<in> set (drain_pool s chans net unmanaged)" "chans_small chans" "bands_ok s"
  shows "drain_sound s net i"
proof -
  note f = drain_pool_item [OF assms(1)] and small = candidate_small [OF drain_pool_item(1) [OF assms(1)] assms(2)]
  have "(of_int (band_edge (pe_cap (pi_peer i)) (xs_drain_band s)) :: rat)
      \<le> of_int (pe_local (pi_peer i) - sum_list (map snd (pi_caps i)))"
    using drain_within_band [OF assms] by (simp only: of_int_le_iff)
  moreover have "of_int (pe_cap (pi_peer i)) * xs_drain_band s / 100 \<le> of_int (band_edge (pe_cap (pi_peer i)) (xs_drain_band s)) + 2"
    using band_edge_near(2) [OF small(2,3)] assms(3) by (simp add: bands_ok_def)
  ultimately show ?thesis using f(2,4) distribute_caps_own [OF f(7)] by (auto simp: drain_sound_def)
qed

text \<open>C29: what a rebalancing may do to a peer. Let the channels hold less than \<open>2 ^ 46\<close> satoshis in all and the bands lie
  between 0 and 100 percent. A request, matched or on demand, lists the capped channels of some source peers and some
  destination peers, all different nodes, each online and not unmanaged. A peer has at most one cap for each of its
  channels, none below 1000 satoshis, and a positive net rate on its side. Also when all its caps are used up, with all
  rounding in the shares, no destination ends more than a satoshi above the fill band and no source more than two
  satoshis below the drain band.\<close>

theorem rebalance_within_bands:
  assumes small: "chans_small chans" and bands: "bands_ok s"
    and plan: "plan_cycle s draw chans net scid unmanaged = Some (ExecuteCycle rq)"
  shows "\<exists>(srcs :: pool_item list) (dsts :: pool_item list). rq_sources rq = cap_entries (concat (map pi_caps srcs))
    \<and> rq_destinations rq = cap_entries (concat (map pi_caps dsts))
    \<and> distinct (map (\<lambda>i. pe_node (pi_peer i)) (srcs @ dsts))
    \<and> (\<forall>i \<in> set (srcs @ dsts). rebalance_candidate chans net unmanaged (pi_peer i))
    \<and> (\<forall>i \<in> set srcs. drain_sound s net i) \<and> (\<forall>i \<in> set dsts. fill_sound s net i)"
proof -
  let ?F = "fill_pool s chans net unmanaged" and ?D = "drain_pool s chans net unmanaged"
  let ?n = "\<lambda>i. pe_node (pi_peer i)"
  have rest: ?thesis
    if s: "set srcs \<subseteq> set ?D" "set dsts \<subseteq> set ?F" "distinct (map ?n srcs)" "distinct (map ?n dsts)"
      and r: "rq_sources rq = cap_entries (concat (map pi_caps srcs))" "rq_destinations rq = cap_entries (concat (map pi_caps dsts))"
    for srcs dsts
  proof -
    have "?n ` set srcs \<inter> ?n ` set dsts = {}" using s(1,2) pools_disjoint by fastforce
    then have "distinct (map ?n (srcs @ dsts))" using s(3,4) by simp
    moreover have "\<forall>i \<in> set (srcs @ dsts). rebalance_candidate chans net unmanaged (pi_peer i)"
      using s(1,2) fill_pool_item(1) drain_pool_item(1) by (metis Un_iff set_append subsetD)
    moreover have "\<forall>i \<in> set dsts. fill_sound s net i" using s(2) fill_pool_sound [OF _ small bands] by blast
    moreover have "\<forall>i \<in> set srcs. drain_sound s net i" using s(1) drain_pool_sound [OF _ small bands] by blast
    ultimately show ?thesis using r by (intro exI [of _ srcs] exI [of _ dsts] conjI)
  qed
  have t: "set (take k xs) \<subseteq> set xs" "distinct (map ?n xs) \<Longrightarrow> distinct (map ?n (take k xs))" for k xs
    by (simp_all add: set_take_subset take_map [symmetric] distinct_take)
  from plan show ?thesis
  proof (cases rule: plan_cycle_items)
    case (1 k l)
    then show ?thesis by (intro rest [OF t(1) t(1) t(2) [OF pools_distinct(2)] t(2) [OF pools_distinct(1)]])
  next
    case (2 k i)
    have "set [i] \<subseteq> set ?F" "distinct (map ?n [i])" "rq_destinations rq = cap_entries (concat (map pi_caps [i]))"
      using 2(2,3) by simp_all
    then show ?thesis by (intro rest [OF t(1) _ t(2) [OF pools_distinct(2)] _ 2(1)])
  qed
qed

text \<open>The volume of a matched cycle is the largest that pays. With the floor in force, a volume both pools can
  supply has a joint marginal rate of at least the floor exactly when it is not above the amount requested; the fee
  limit is the joint rate there; the peers picked on each side have deficits of at least the amount; and any source
  and any destination picked together earn at least the joint rate the fee limit is set to.\<close>

theorem matched_volume_largest:
  assumes draw: "\<And>b. draw b \<le> b"
    and plan: "plan_cycle s draw chans net [] unmanaged = Some (ExecuteCycle rq)"
  shows "let fill = fill_pool s chans net unmanaged; drain = drain_pool s chans net unmanaged;
             fc = cum 0 fill; dc = cum 0 drain
         in \<exists>ladder n. derive_ladder (joint_curve fill drain) = Some ladder
           \<and> 0 < n \<and> matched fc dc n \<and> rq_amount rq = of_int n * 1000
           \<and> rq_maxfee rq = of_int (llround (joint_at fc dc n))
           \<and> (\<forall>v. matched fc dc v \<longrightarrow> (effective_floor s draw ladder \<le> joint_at fc dc v \<longleftrightarrow> v \<le> n))
           \<and> n \<le> sum_list (map pi_deficit (picked n 0 fill)) \<and> n \<le> sum_list (map pi_deficit (picked n 0 drain))
           \<and> (\<forall>i \<in> set (picked n 0 fill). \<forall>j \<in> set (picked n 0 drain). joint_at fc dc n \<le> fl (pi_ppm i + pi_ppm j))"
proof -
  let ?F = "fill_pool s chans net unmanaged" and ?D = "drain_pool s chans net unmanaged"
  let ?fc = "cum 0 ?F" and ?dc = "cum 0 ?D"
  have ne: "?F \<noteq> []" "?D \<noteq> []" and pm: "plan_matched s draw ?F ?D = Some (ExecuteCycle rq)"
    using plan by (auto simp: plan_cycle_def Let_def split: if_splits)
  have pos: "\<forall>i \<in> set ?F. 0 < pi_deficit i" "\<forall>i \<in> set ?D. 0 < pi_deficit i"
    using fill_pool_item(6) drain_pool_item(6) by blast+
  note st = pools_steps [of s chans net unmanaged]
  obtain ladder where l: "derive_ladder (joint_curve ?F ?D) = Some ladder" and
    p: "plan_matched s draw ?F ?D =
       (case best_cut (effective_floor s draw ladder) (joint_curve ?F ?D) of
          None \<Rightarrow> Some (NoViable (effective_floor s draw ladder))
        | Some p \<Rightarrow> Some (ExecuteCycle (execute_request s (pick_caps (cv_n p) 0 ?D) (pick_caps (cv_n p) 0 ?F)
                         (cv_n p) (of_int (llround (cv_joint p))))))"
    by (rule plan_matched_cases [OF st(1) ne(1) pos(1) st(2) ne(2) pos(2) draw, of s]) (rule that; assumption)
  let ?flr = "effective_floor s draw ladder"
  obtain q where q: "best_cut ?flr (joint_curve ?F ?D) = Some q"
    and rq: "rq = execute_request s (pick_caps (cv_n q) 0 ?D) (pick_caps (cv_n q) 0 ?F) (cv_n q) (of_int (llround (cv_joint q)))"
    using p pm by (auto split: option.splits)
  define n where "n = cv_n q"
  have qc: "q = point_at ?fc ?dc n" "matched ?fc ?dc n" "0 < n"
    using joint_curve_facts(2) [OF st(1) ne(1) pos(1) st(2) ne(2) pos(2)] best_cut_mem(1) [OF q] by (simp_all add: n_def)
  have "cv_joint q = joint_at ?fc ?dc n" by (subst qc(1)) (simp add: point_at_def)
  then have r: "rq_amount rq = of_int n * 1000" "rq_maxfee rq = of_int (llround (joint_at ?fc ?dc n))"
    by (simp_all add: rq execute_request_def n_def)
  have cut: "?flr \<le> joint_at ?fc ?dc v \<longleftrightarrow> v \<le> n" if "matched ?fc ?dc v" for v
    using cut_decides [OF st _ _ _ that, of ?flr q] ne q by (simp add: joint_curve_def Let_def n_def)
  have "n \<le> sum_list (map pi_deficit ?F)" "n \<le> sum_list (map pi_deficit ?D)"
    using qc(2) ne by (simp_all add: matched_def last_cum)
  then have cov: "n \<le> sum_list (map pi_deficit (picked n 0 ?F))" "n \<le> sum_list (map pi_deficit (picked n 0 ?D))"
    using picked_covers [of n 0] by simp_all
  have rate: "joint_at ?fc ?dc n \<le> fl (pi_ppm i + pi_ppm j)" if "i \<in> set (picked n 0 ?F)" "j \<in> set (picked n 0 ?D)" for i j
  proof -
    have "0 \<le> threshold_at ?fc n" "0 \<le> threshold_at ?dc n"
      using qc(2) st ne by (simp_all add: threshold_nonneg matched_def)
    then show ?thesis unfolding joint_at_def
      using picked_rate [OF st(1) that(1)] picked_rate [OF st(2) that(2)] by (intro fl_mono) simp_all
  qed
  show ?thesis unfolding Let_def using l qc(2,3) r cut cov rate by blast
qed

text \<open>Planning always ends, also in the loop that builds the ladder of floors; and with the automatic floor, a matched
  cycle with candidates on both sides always has a volume to request, since the floor is the rate of a rung.\<close>

theorem rebalance_plan_returns:
  assumes draw: "\<And>b. draw b \<le> b"
  shows "\<exists>p. plan_cycle s draw chans net scid unmanaged = Some p
    \<and> (scid = [] \<and> xs_floor_auto s \<longrightarrow> p = NoCandidates \<or> (\<exists>rq. p = ExecuteCycle rq))"
proof -
  let ?F = "fill_pool s chans net unmanaged" and ?D = "drain_pool s chans net unmanaged"
  show ?thesis
  proof (cases "?F \<noteq> [] \<and> ?D \<noteq> [] \<and> scid = []")
    case False
    then show ?thesis by (auto simp: plan_cycle_def Let_def)
  next
    case True
    then have ne: "?F \<noteq> []" "?D \<noteq> []" by simp_all
    have pos: "\<forall>i \<in> set ?F. 0 < pi_deficit i" "\<forall>i \<in> set ?D. 0 < pi_deficit i"
      using fill_pool_item(6) drain_pool_item(6) by blast+
    note st = pools_steps [of s chans net unmanaged]
    have pc: "plan_cycle s draw chans net scid unmanaged = plan_matched s draw ?F ?D" using True by (simp add: plan_cycle_def Let_def)
    obtain ladder where p: "plan_matched s draw ?F ?D =
       (case best_cut (effective_floor s draw ladder) (joint_curve ?F ?D) of
          None \<Rightarrow> Some (NoViable (effective_floor s draw ladder))
        | Some p \<Rightarrow> Some (ExecuteCycle (execute_request s (pick_caps (cv_n p) 0 ?D) (pick_caps (cv_n p) 0 ?F)
                         (cv_n p) (of_int (llround (cv_joint p))))))"
      and q: "xs_floor_auto s \<Longrightarrow> \<exists>q \<in> set (joint_curve ?F ?D). effective_floor s draw ladder = cv_joint q"
      by (rule plan_matched_cases [OF st(1) ne(1) pos(1) st(2) ne(2) pos(2) draw, of s]) (rule that; assumption)
    show ?thesis
    proof (cases "best_cut (effective_floor s draw ladder) (joint_curve ?F ?D)")
      case (Some r)
      then show ?thesis by (simp add: pc p)
    next
      case None
      let ?fc = "cum 0 ?F" and ?dc = "cum 0 ?D"
      let ?ns = "filter (matched ?fc ?dc) (breakpoints ?fc ?dc)"
      have n: "?fc \<noteq> []" "?dc \<noteq> []" using ne by simp_all
      have c: "joint_curve ?F ?D = map (point_at ?fc ?dc) ?ns"
        by (simp add: joint_curve_def Let_def curve_points [OF st n breakpoints_facts(2)])
      have "sorted_wrt (<) ?ns" "\<forall>n \<in> set ?ns. matched ?fc ?dc n"
        using breakpoints_facts(2) by (auto intro: sorted_wrt_filter)
      from best_cut_spec [OF st n this, of "effective_floor s draw ladder"]
      have "\<forall>m \<in> set ?ns. joint_at ?fc ?dc m < effective_floor s draw ladder" using None by (simp only: c option.case)
      then have "\<forall>p \<in> set (joint_curve ?F ?D). cv_joint p < effective_floor s draw ladder"
        unfolding c by (simp add: point_at_def)
      then have "\<not> xs_floor_auto s" using q by fastforce
      then show ?thesis using None by (simp add: pc p)
    qed
  qed
qed

lemma pool_sorted_le:
  assumes "sorted_wrt (\<lambda>a b. pi_ppm b \<le> pi_ppm a) pool" "k \<le> length pool" "0 < k"
  shows "\<forall>j \<in> set (take k pool). pi_ppm (pool ! (k - 1)) \<le> pi_ppm j"
    and "\<forall>j \<in> set (drop k pool). pi_ppm j \<le> pi_ppm (pool ! (k - 1))"
proof -
  have lt: "k - 1 < length pool" using assms(2,3) by simp
  have le: "pi_ppm (pool ! b) \<le> pi_ppm (pool ! a)" if "a \<le> b" "b < length pool" for a b
    using sorted_wrt_nth_less [OF assms(1), of a b] that by (cases "a = b") auto
  show "\<forall>j \<in> set (take k pool). pi_ppm (pool ! (k - 1)) \<le> pi_ppm j"
    using le [OF _ lt] assms(2) by (auto simp: in_set_conv_nth)
  show "\<forall>j \<in> set (drop k pool). pi_ppm j \<le> pi_ppm (pool ! (k - 1))"
  proof
    fix j assume "j \<in> set (drop k pool)"
    then obtain a where "a < length (drop k pool)" "drop k pool ! a = j" by (auto simp: in_set_conv_nth)
    then show "pi_ppm j \<le> pi_ppm (pool ! (k - 1))" using le [of "k - 1" "k + a"] by auto
  qed
qed

text \<open>A cycle on demand fills the one peer that has the channel the forward left through, up to its deficit, from the
  best sources: at least one, none left out that has a better rate than one offered, and the fee limit is not above what
  the peer and any offered source earn together.\<close>

theorem demand_cycle_price:
  assumes plan: "plan_cycle s draw chans net scid unmanaged = Some (ExecuteCycle rq)" and scid: "scid \<noteq> []"
  shows "let drain = drain_pool s chans net unmanaged in
    \<exists>target \<in> set (fill_pool s chans net unmanaged). \<exists>k limit.
      (\<exists>c \<in> set (pe_chans (pi_peer target)). ch_scid c = scid)
      \<and> rq_destinations rq = cap_entries (pi_caps target) \<and> rq_amount rq = of_int (pi_deficit target) * 1000
      \<and> 0 < k \<and> k \<le> length drain \<and> rq_sources rq = cap_entries (concat (map pi_caps (take k drain)))
      \<and> (\<forall>i \<in> set (take k drain). \<forall>j \<in> set (drop k drain). pi_ppm j \<le> pi_ppm i)
      \<and> rq_maxfee rq = of_int (llround limit) \<and> (\<forall>i \<in> set (take k drain). limit \<le> fl (pi_ppm target + pi_ppm i))"
proof -
  let ?F = "fill_pool s chans net unmanaged" and ?D = "drain_pool s chans net unmanaged"
  have ne: "?D \<noteq> []" and pd: "plan_demand s draw ?F ?D scid = ExecuteCycle rq"
    using plan scid by (auto simp: plan_cycle_def Let_def split: if_splits)
  then obtain i where i: "demand_target scid ?F = Some i" by (auto simp: plan_demand_def Let_def split: option.splits)
  define k where "k = keep_sources ([20, 50, 80] ! draw 2) (length ?D)"
  define limit where "limit = fl (pi_ppm i + pi_ppm (?D ! (k - 1)))"
  have k: "0 < k" "k \<le> length ?D" using keep_sources_bounds ne by (simp_all add: k_def)
  have rq: "rq_sources rq = cap_entries (concat (map pi_caps (take k ?D)))" "rq_destinations rq = cap_entries (pi_caps i)"
    "rq_amount rq = of_int (pi_deficit i) * 1000" "rq_maxfee rq = of_int (llround limit)"
    using pd i by (auto simp: plan_demand_def Let_def execute_request_def k_def limit_def)
  have so: "sorted_wrt (\<lambda>a b. pi_ppm b \<le> pi_ppm a) ?D" by (simp add: drain_pool_def by_ppm_sorted)
  note le = pool_sorted_le [OF so k(2,1)]
  have "?D ! (k - 1) \<in> set ?D" using k by simp
  then have pos: "0 < pi_ppm i + pi_ppm (?D ! (k - 1))"
    using fill_pool_item(2) [OF demand_target_mem(1) [OF i]] drain_pool_item(2) by (simp add: add_pos_pos)
  have "limit \<le> fl (pi_ppm i + pi_ppm j)" if "j \<in> set (take k ?D)" for j
    unfolding limit_def using le(1) that pos by (intro fl_mono) simp_all
  moreover have "pi_ppm j \<le> pi_ppm m" if "m \<in> set (take k ?D)" "j \<in> set (drop k ?D)" for m j
    using le that by (meson order_trans)
  ultimately show ?thesis unfolding Let_def using rq k demand_target_mem [OF i] by blast
qed

subsection \<open>Examples\<close>

definition ex_fill_chan :: chan where
  "ex_fill_chan = \<lparr>ch_scid = ''1x1x1'', ch_node = NodeId (Some [2]), ch_online = True, ch_cap = 1000000, ch_local = 0\<rparr>"

definition ex_drain_chan :: chan where
  "ex_drain_chan = \<lparr>ch_scid = ''2x2x2'', ch_node = NodeId (Some [3]), ch_online = True, ch_cap = 1000000, ch_local = 1000000\<rparr>"

definition ex_net :: "(node_id \<times> net_ppm) list" where
  "ex_net = [(NodeId (Some [2]), \<lparr>np_in = None, np_out = Some 300\<rparr>), (NodeId (Some [3]), \<lparr>np_in = Some 200, np_out = None\<rparr>)]"

lemma ex_bands: "chans_small [ex_fill_chan, ex_drain_chan]" "bands_ok xs_default"
  by (simp_all add: chans_small_def ex_fill_chan_def ex_drain_chan_def bands_ok_def xs_default_def)

definition ex_items :: "pool_item \<times> pool_item" where
  "ex_items =
     (\<lparr>pi_peer = peer_of (NodeId (Some [2])) [ex_fill_chan], pi_ppm = 300, pi_deficit = 250000, pi_caps = [(''1x1x1'', 250000)]\<rparr>,
      \<lparr>pi_peer = peer_of (NodeId (Some [3])) [ex_drain_chan], pi_ppm = 200, pi_deficit = 250000, pi_caps = [(''2x2x2'', 250000)]\<rparr>)"

lemma ex_pools:
  "fill_pool xs_default [ex_fill_chan, ex_drain_chan] ex_net {} = [fst ex_items]"
  "drain_pool xs_default [ex_fill_chan, ex_drain_chan] ex_net {} = [snd ex_items]"
  by code_simp+

definition ex_rebalance_request :: xr_request where
  "ex_rebalance_request = \<lparr>rq_sources = [(''2x2x2'', 250000000)], rq_destinations = [(''1x1x1'', 250000000)],
     rq_amount = 250000000, rq_maxfee = 500, rq_maxparts = 80\<rparr>"

lemma ex_fl: "fl 500 = 500"
  using fl_int [of 500] by simp

lemma ex_cycles:
  "plan_cycle xs_default (\<lambda>_. 0) [ex_fill_chan, ex_drain_chan] ex_net ''1x1x1'' {} = Some (ExecuteCycle ex_rebalance_request)"
  "plan_cycle xs_default (\<lambda>_. 0) [ex_fill_chan, ex_drain_chan] ex_net [] {} = Some (ExecuteCycle ex_rebalance_request)"
proof -
  have k: "keep_sources 20 (Suc 0) = 1"
    using keep_sources_bounds(1) [of "Suc 0" 20] keep_sources_bounds(2) [of 20 "Suc 0"] by simp
  have r: "llround 500 = 500" by (simp add: llround_def floor_eq_iff)
  show "plan_cycle xs_default (\<lambda>_. 0) [ex_fill_chan, ex_drain_chan] ex_net ''1x1x1'' {} = Some (ExecuteCycle ex_rebalance_request)"
    unfolding plan_cycle_def Let_def ex_pools
    by (simp add: plan_demand_def demand_target_def ex_items_def peer_of_def ex_fill_chan_def k
        Let_def ex_fl r execute_request_def ex_rebalance_request_def xs_default_def)
  have c: "joint_curve [fst ex_items] [snd ex_items] = [\<lparr>cv_n = 250000, cv_fill = 300, cv_drain = 200, cv_joint = 500\<rparr>]"
    by (simp add: joint_curve_def breakpoints_def ex_items_def Let_def ex_fl)
  have l: "derive_ladder [\<lparr>cv_n = 250000, cv_fill = 300, cv_drain = 200, cv_joint = 500\<rparr>]
      = Some [\<lparr>cv_n = 250000, cv_fill = 300, cv_drain = 200, cv_joint = 500\<rparr>]"
    by (simp add: derive_ladder_def useful_index_def noise_ppm_def ladder_targets.simps snap_def already_def Let_def)
  show "plan_cycle xs_default (\<lambda>_. 0) [ex_fill_chan, ex_drain_chan] ex_net [] {} = Some (ExecuteCycle ex_rebalance_request)"
    unfolding plan_cycle_def Let_def ex_pools plan_matched_def c l
    by (simp add: Let_def effective_floor_def best_cut_def ex_items_def
        r execute_request_def ex_rebalance_request_def xs_default_def)
qed

theorem rebalance_within_bands_witness:
  "\<exists>(srcs :: pool_item list) (dsts :: pool_item list).
     rq_sources ex_rebalance_request = cap_entries (concat (map pi_caps srcs)) \<and> distinct (map (\<lambda>i. pe_node (pi_peer i)) (srcs @ dsts))
     \<and> (\<forall>i \<in> set srcs. drain_sound xs_default ex_net i) \<and> (\<forall>i \<in> set dsts. fill_sound xs_default ex_net i)"
  using rebalance_within_bands [OF ex_bands ex_cycles(1)] by blast

theorem matched_volume_largest_witness:
  "\<exists>n. 0 < n \<and> rq_amount ex_rebalance_request = of_int n * 1000
     \<and> (\<forall>v. matched (cum 0 [fst ex_items]) (cum 0 [snd ex_items]) v
          \<longrightarrow> (500 \<le> joint_at (cum 0 [fst ex_items]) (cum 0 [snd ex_items]) v \<longleftrightarrow> v \<le> n))"
proof -
  have c: "derive_ladder (joint_curve [fst ex_items] [snd ex_items])
      = Some [\<lparr>cv_n = 250000, cv_fill = 300, cv_drain = 200, cv_joint = 500\<rparr>]"
    by (simp add: joint_curve_def breakpoints_def ex_items_def ex_fl derive_ladder_def useful_index_def noise_ppm_def
        ladder_targets.simps snap_def already_def Let_def)
  have e: "effective_floor xs_default (\<lambda>_. 0) [\<lparr>cv_n = 250000, cv_fill = 300, cv_drain = 200, cv_joint = 500\<rparr>] = 500"
    by (simp add: effective_floor_def xs_default_def)
  from matched_volume_largest [OF _ ex_cycles(2)] show ?thesis
    by (simp only: ex_pools Let_def c option.inject le0) (auto simp: e)
qed

theorem rebalance_plan_returns_witness:
  "\<exists>p. plan_cycle xs_default (\<lambda>_. 0) [ex_fill_chan, ex_drain_chan] ex_net [] {} = Some p
     \<and> (p = NoCandidates \<or> (\<exists>rq. p = ExecuteCycle rq))"
  using rebalance_plan_returns [of "\<lambda>_. 0" xs_default "[ex_fill_chan, ex_drain_chan]" ex_net "[]" "{}"]
  by (auto simp: xs_default_def)

theorem demand_cycle_price_witness:
  "\<exists>limit. rq_maxfee ex_rebalance_request = of_int (llround limit) \<and> limit \<le> fl (pi_ppm (fst ex_items) + pi_ppm (snd ex_items))"
proof -
  have n: "''1x1x1'' \<noteq> []" by simp
  have t: "take k [snd ex_items] = [snd ex_items]" if "0 < k" for k using that by (cases k) simp_all
  from demand_cycle_price [OF ex_cycles(1) n] obtain k limit where "0 < k" "rq_maxfee ex_rebalance_request = of_int (llround limit)"
    "\<forall>i \<in> set (take k [snd ex_items]). limit \<le> fl (pi_ppm (fst ex_items) + pi_ppm i)"
    by (simp only: ex_pools Let_def) auto
  then show ?thesis using t by auto
qed

end
