(* ===== verification/Spec2Isabelle.thy ===== *)
theory Spec2Isabelle
  imports Boltz_Swaps Channel_Creator Channel_Decider Swap_Requests Swap_Support Channel_Distance Fee_Manager Fee_Size Fee_Price_Theory Complaints_Desk Xrebalance_Plan
begin

text \<open>
  Verification of CLBOSS, an autopilot for a Lightning node. The program is a set of modules on a
  message bus: each keeps state in memory and in an sqlite database, answers messages, and asks the
  node over JSON-RPC. The development follows the path of the money: how candidates for channels are
  found and kept, how funds found onchain become channels, which fees are set on them, how funds are
  moved between them and swapped back onchain, and when they are closed. A module is modelled as its state
  (a record), one operation for each of its functions and handlers, and, where handlers wait for
  the database or the node, a step relation in which the pieces between two waits interleave freely
  with messages and restarts. All files named below are under \<open>src/\<close>.

  \<^bold>\<open>Foundations.\<close>
  \<^item> \<open>Clboss_Prelude\<close>: machine integers and byte strings, the exceptions of the sources as the type
    \<open>exn\<close> with \<open>'a result = exn + 'a\<close> (every \<open>throw\<close>, every failed \<open>assert\<close> and undefined behaviour is an
    \<open>Inl\<close>), decimal numbers, reading of byte streams, and the locale \<open>codec\<close> of an encoder and its decoder.
  \<^item> \<open>Cxx_Double\<close>: \<open>double\<close> as a rational with the rounding to 53 bits explicit; \<open>Cxx_Map\<close>: \<open>std::map\<close> in key order.
  \<^item> \<open>Util_Str\<close> (\<open>Util/Str.cpp\<close>), \<open>Ln_Amount\<close> (\<open>Ln/Amount.hpp\<close>, \<open>.cpp\<close>), \<open>Ln_Ids\<close> (\<open>Ln/NodeId\<close>, \<open>Ln/Scid\<close>,
    \<open>Ln/Preimage\<close>, \<open>Sha256/Hash\<close>, \<open>Ripemd160/Hash\<close>, \<open>Uuid\<close>): values with their text forms at the width
    the code gives them; round trips, saturation, and which texts are accepted.
  \<^item> \<open>Jsmn_Object\<close> (\<open>Jsmn/Object.cpp\<close>, \<open>Jsmn/Detail/Str.cpp\<close>) and \<open>Amount_Json\<close>: access to a parsed JSON
    value, with the type errors it throws. \<open>Channel_Balance\<close> (\<open>Boss/Mod/ChannelBalance.cpp\<close>): what a reply says
    of our share of a channel.
  \<^item> \<open>Graph_Dijkstra\<close> (\<open>Graph/Dijkstra.hpp\<close>): the tree it builds holds shortest paths, for any cost that keeps
    the laws of the locale \<open>cost_add\<close>, which the saturating amounts do. \<open>Stats_Samplers\<close>
    (\<open>Stats/ReservoirSampler.hpp\<close>, \<open>WeightedMedian.hpp\<close>): the sample keeps the largest keys, the median
    splits the weight.

  \<^bold>\<open>Bitcoin.\<close>
  \<^item> \<open>Bitcoin_Codec\<close>, \<open>Bitcoin_Tx\<close>, \<open>Bitcoin_Sighash\<close>, \<open>Bitcoin_Addr\<close>: the files of \<open>Bitcoin/\<close> and
    \<open>Util/Bech32\<close>: integers, transactions, the segwit signature hash and addresses; encoding and
    decoding are inverse, and neither the transaction id nor the signature hash depends on witnesses.

  \<^bold>\<open>The Boltz swap service.\<close>
  \<^item> \<open>Boltz_Script\<close> and \<open>Boltz_Claim\<close> (\<open>Boltz/Detail/match_lockscript.cpp\<close>, \<open>find_lockup_outnum.cpp\<close>,
    \<open>initial_claim_tx.cpp\<close>): the lock script is recognised exactly, the claim transaction conserves
    value, pays the feerate it was given and signs itself.
  \<^item> \<open>Boltz_Service\<close> (\<open>SwapSetupHandler.cpp\<close>, \<open>ClaimTxHandler.cpp\<close>, \<open>ServiceImpl.cpp\<close>): handlers of one
    swap with every check and exception. \<open>Boltz_Swaps\<close>: the handlers of many swaps interleaved, as a
    step relation; the table's invariant, and that what is broadcast claims an output that was
    validated when the swap was set up.

  \<^bold>\<open>Asking for swaps.\<close>
  \<^item> \<open>Swapper\<close> (\<open>Boss/ModG/Swapper.cpp\<close>, \<open>NeedsOnchainFundsSwapper.cpp\<close>, \<open>NodeBalanceSwapper.cpp\<close>): one row for
    the swap a module waits for; a swapper asks for one swap at a time, with the pauses it promises, and for the
    amounts its policy gives. \<open>Swap_Requests\<close>: what a swapper asks for is a request the manager takes up.
  \<^item> \<open>Swap_Manager\<close> (\<open>Boss/Mod/SwapManager.cpp\<close>): the tables, queues and loops. A handler is cut into
    tasks where the code waits for a database transaction or raises a message.
  \<^item> \<open>Swap_Lifecycle\<close>: what is promised of a swap, as an abstract transition system with its
    invariant. \<open>Swap_Manager_Steps\<close>: tasks, messages and restarts in any order, and that each step
    is one of the life cycle. \<open>Swap_Manager_Loops\<close>: the locale \<open>guarded_loop\<close>, interpreted for the
    address loop and for the invoice loop. \<open>Swap_Manager_Properties\<close>: what follows for every
    reachable state, and two runs in which a swap is answered and paid twice.
  \<^item> \<open>Swap_Support\<close> (\<open>ListpaysHandler.cpp\<close>, \<open>OnchainFundsIgnorer.cpp\<close>, \<open>SwapReporter.cpp\<close>): a payment is
    taken for failed only when the node's reply says so; the window in which onchain funds are left alone.

  \<^bold>\<open>Finding and keeping candidates.\<close>
  \<^item> \<open>Channel_Distance\<close> (\<open>ChannelFinderByDistance.cpp\<close>): candidates are a sample of the leaves of the
    shortest-path tree, and every run ends.
  \<^item> \<open>Candidate_Secretary\<close> and \<open>Candidate_Investigator\<close> (\<open>ChannelCandidateInvestigator/\<close>): the table of
    candidates with its scores and the choice whom to drop, and the handlers of the manager, the gumshoe and the
    janitor interleaved; scores count investigations, and a candidate stays for exactly as long as they allow.
  \<^item> \<open>Unmanaged_Manager\<close> (\<open>UnmanagedManager.cpp\<close> and the four modules it informs): the locale
    \<open>unmanage_client\<close> is what a module promises; the sets the modules keep agree with the stored tags.

  \<^bold>\<open>Channel creation.\<close>
  \<^item> \<open>Amount_Settings\<close> (\<open>AmountSettingsHandler.cpp\<close>): the limits on channel sizes and their repair.
  \<^item> \<open>Channel_Decider\<close> (\<open>ChannelCreationDecider.cpp\<close>): when and how much to put into channels.
  \<^item> \<open>Net_Address\<close>, \<open>Channel_Proposals\<close> (\<open>ChanneledPeers.cpp\<close>, \<open>RearrangerBySize.cpp\<close>,
    \<open>Reprioritizer.cpp\<close>, \<open>NodeAddress.cpp\<close>, part of \<open>Manager.cpp\<close>): the order of the candidates; every
    stage keeps the contract of the locale \<open>proposal_stage\<close>.
  \<^item> \<open>Channel_Planner\<close> (\<open>Planner.cpp\<close>): the amounts. \<open>Channel_Creator\<close> (\<open>Manager.cpp\<close>, \<open>Carpenter.cpp\<close>): a
    whole cycle, from the request to the reports of what was created.

  \<^bold>\<open>Fees.\<close>
  \<^item> \<open>Fee_Survey\<close> (\<open>PeerCompetitorFeeMonitor/\<close>): the weighted median of what others charge.
  \<^item> \<open>Fee_Balance\<close> (\<open>FeeModderByBalance.cpp\<close>), \<open>Fee_Size\<close> (\<open>FeeModderBySize.cpp\<close>) and \<open>Fee_Price_Theory\<close>
    (\<open>FeeModderByPriceTheory.cpp\<close>): the three multipliers; the bins and their hysteresis, the comparison with
    competitors, and the card game for the price, which refines a game on each node's own cards.
  \<^item> \<open>Fee_Manager\<close> (\<open>ChannelFeeManager.cpp\<close>, \<open>ChannelFeeSetter.cpp\<close>): the final fees are the medians times the
    product of the multipliers, up to rounding, with the rules for fees of zero.

  \<^bold>\<open>Rebalancing and closing.\<close>
  \<^item> \<open>Earnings_Tracker\<close> (\<open>EarningsTracker.cpp\<close>): the table of earnings by peer and day; its windowed sums are the
    sums over the events.
  \<^item> \<open>Xrebalance_Plan\<close> (the planning half of \<open>XRebalancer.cpp\<close>): from channels and earnings to a request; no
    peer is taken past its band, the volume is the largest that clears the floor, planning always ends.
  \<^item> \<open>Complaint_Records\<close> and \<open>Complaints_Desk\<close> (\<open>PeerComplaintsDesk/\<close>): rounds of complaints, exemptions, and the
    closing of channels; a channel is closed only for cause, and for a peer that is offline only after a wait.

  \<^bold>\<open>How the theories fit together.\<close> The theorem of this theory joins three modules: with limits that the
  settings handler published and candidates that the investigator answered, a cycle of the channel creator
  that its manager starts passes every assertion. A swapper's request is one the swap manager enters
  (\<open>Swap_Requests\<close>). The unmanagement command and the modules it informs are one model, and the desk of complaints
  uses its part of it. The surveyor's medians and the modifiers' numbers are the input of the fee manager. The
  rebalancer reads the table that the earnings tracker keeps. The Boltz service and the swap manager are modelled
  apart: the manager takes the provider's answer as a message, as the code does over the bus.

  \<^bold>\<open>Parameters.\<close> The hash functions, the curve, \<open>inet_pton\<close>, \<open>pow\<close>, \<open>exp\<close>, \<open>log\<close> and \<open>sqrt\<close>, dates, shuffling, random
  draws and the keys of samples, the answers of modules that are not modelled (the dowser, metrics,
  track records) and the replies of the node and of servers are arguments, arbitrary unless a theorem
  states otherwise.

  \<^bold>\<open>Bounds.\<close> Amounts are 64-bit words with the saturation and the wrap-around of the code. Where a
  theorem goes through a \<open>double\<close> it asks for amounts below \<open>2 ^ 51\<close> or \<open>2 ^ 53\<close> (the rebalancer for satoshis
  below \<open>2 ^ 46\<close>), where doubles are exact, and the swap manager's requests are below \<open>2 ^ 62\<close> millisatoshi,
  so that tripling does not wrap. Plain \<open>char\<close> is signed, and \<open>size_t\<close> has 64 bits. \<open>std::sort\<close> leaves the order
  of equal elements open; the model is stable where the theorems do not depend on it.

  \<^bold>\<open>Loops.\<close> Most loops are structural recursion. The search of \<open>Channel_Distance\<close> and its walk over the tree run
  on fuel; one more step than there are nodes to reach is enough, and a theorem says that
  for any replies some fuel suffices and that more changes nothing. The survey for old nodes runs on fuel too, since
  in the code it may repeat a question without end; it returns for some fuel exactly when every entry can be
  read. The draw of a card and its price (\<open>Fee_Price_Theory\<close>) and the targets of the ladder (\<open>Xrebalance_Plan\<close>) are
  partial functions, where not returning is \<open>None\<close>; that they return is proved.

  \<^bold>\<open>Not modelled.\<close> The event loop, threads and sockets (\<open>Ev/\<close>, \<open>Net/\<close> but for addresses), the database
  wrapper (\<open>Sqlite3/\<close>; tables are lists of rows), the message bus, the tokenizer and the text assembly of JSON,
  HTTP, logging and most status reports, and vendored code; copying of a search in the middle of a run and
  \<open>Stats/RunningMean\<close>, which no modelled module uses; the options, the timer loop and the plugin health of
  the rebalancer; the modules that probe and gather statistics, whose messages are inputs here.
\<close>

section \<open>From the proposal of a node to the funding of a channel\<close>

text \<open>What the settings handler publishes is what it keeps.\<close>

lemma published_is_kept:
  assumes "settings_step i h = Inr (h', ev)" "Published s \<in> set ev"
  shows "s = sh_settings h'"
  using assms
  by (cases i) (auto simp: settings_step_def on_option_def on_end_of_options_def on_dynamic_option_def Let_def
      case_prod_beta rbind_eq_Inr split: if_splits option.splits)

lemma published_sane:
  assumes "settings_run is h = Inr (h', ev)" "handler_ok h" "list_all input_sane is" "Published s \<in> set ev"
  shows "settings_sane s"
  using assms
proof (induction "is" arbitrary: h ev)
  case (Cons i "is")
  then obtain h1 e1 e2 where r: "settings_step i h = Inr (h1, e1)" "settings_run is h1 = Inr (h', e2)" "ev = e1 @ e2"
    by (auto simp: rbind_eq_Inr case_prod_beta)
  have ok: "handler_ok h1" using settings_step_ok [OF r(1)] Cons.prems by simp
  show ?case
  proof (cases "Published s \<in> set e1")
    case True
    then show ?thesis using published_is_kept [OF r(1)] ok by (simp add: handler_ok_def)
  next
    case False
    then show ?thesis using Cons.IH [OF r(2) ok] Cons.prems r(3) by simp
  qed
qed simp

text \<open>C3: from the settings handler and the investigator to a channel creation cycle. With limits the handler
  published, from options below \<open>2 ^ 51\<close> millisatoshis, and with a list of candidates that the
  investigator answered in any reachable state, a cycle that the manager starts for a request of less than
  \<open>2 ^ 53\<close> millisatoshis, with random draws within their range, finds the RPC interface
  set wherever it is used or asserted, and passes the checks of the limits and every assertion of the planner, whatever
  the other modules and the node answer and also when the limits change while the cycle runs, as long as the minimum
  channel size is not raised meanwhile.\<close>

theorem creation_never_aborts:
  assumes run: "settings_run is settings_init = Inr (h, ev)" "list_all input_sane is"
    and pub: "Published s \<in> set ev" "Published s' \<in> set ev" "as_min_channel s' \<le> as_min_channel s"
    and cand: "inv_reachable w" "OutCandidates (ce_candidates e) \<in> set (iw_out w)"
    and amount: "amt a < 2 ^ 53" and draw: "\<And>b. ce_draw e b \<le> b"
    and gate: "manager_on_request a (on_amount_settings s m0) = (m, Some a)"
  shows "on_request_channel_creation m m1 (on_amount_settings s' m2) a e
    \<notin> {Inl AssertFailed, Inl UndefinedBehaviour, Inr CycleBadLimits}"
proof -
  have ok: "settings_ok t" "settings_sane t" if "Published t \<in> set ev" for t
    using that settings_run_ok [OF run(1) settings_init_ok run(2)]
      published_sane [OF run(1) settings_init_ok run(2)] by simp_all
  show ?thesis
    by (rule cycle_no_assert [OF ok [OF pub(1)] ok [OF pub(2)] pub(3) amount candidates_distinct [OF cand] draw gate])
qed

text \<open>A run of the investigator that answers with one candidate.\<close>

lemma ex_answer:
  obtains w where "inv_reachable w" "OutCandidates [ex_candidate] \<in> set (iw_out w)"
proof -
  obtain n p where c: "ex_candidate = (n, p)" by (cases ex_candidate)
  let ?s = "inv_initial\<lparr>iv_init := True, iv_offline := True\<rparr>"
  let ?t = "?s\<lparr>iv_table := [\<lparr>cand_proposal = n, cand_patron = p, cand_score = 0\<rparr>]\<rparr>"
  note defs = inv_advance_def iw_initial_def inv_initial_def
  have 0: "inv_reachable iw_initial" by (simp add: inv_reachable_def)
  have 1: "inv_reachable (iw_initial\<lparr>iw_inv := ?s, iw_tasks := [InitTx]\<rparr>)"
    using inv_reachable_message [OF 0, of "InitMsg True"] by (simp add: defs)
  have 2: "inv_reachable (iw_initial\<lparr>iw_inv := ?s\<rparr>)"
    using inv_reachable_task [OF 1, of InitTx] by (simp add: defs inv_init_tx_def)
  have 3: "inv_reachable (iw_initial\<lparr>iw_inv := ?s, iw_tasks := [CheckTask n p (Amount 0)]\<rparr>)"
    using inv_reachable_message [OF 2, of "ProposeMsg n p"] by (simp add: defs)
  have 4: "inv_reachable (iw_initial\<lparr>iw_inv := ?s, iw_tasks := [AddTx n p]\<rparr>)"
    using inv_reachable_task [OF 3, of "CheckTask n p (Amount 0)"]
    by (simp add: defs check_acceptable_def ex_inv_env_def amount_order)
  have 5: "inv_reachable (iw_initial\<lparr>iw_inv := ?t\<rparr>)"
    using inv_reachable_task [OF 4, of "AddTx n p"] by (simp add: defs add_candidate_def)
  have 6: "inv_reachable (iw_initial\<lparr>iw_inv := ?t, iw_tasks := [CandidatesTx]\<rparr>)"
    using inv_reachable_message [OF 5, of GetCandidatesMsg] by (simp add: defs)
  have "inv_reachable (iw_initial\<lparr>iw_inv := ?t, iw_out := [OutCandidates [ex_candidate]]\<rparr>)"
    using inv_reachable_task [OF 6, of CandidatesTx] by (simp add: defs get_for_channeling_def by_score_def c)
  from that [OF this] show ?thesis by simp
qed

theorem creation_never_aborts_witness:
  "\<exists>s m. manager_on_request (amount_sat 1000000) (on_amount_settings s ex_manager) = (m, Some (amount_sat 1000000))
     \<and> on_request_channel_creation m ex_manager (on_amount_settings s ex_manager) (amount_sat 1000000) ex_env
       \<notin> {Inl AssertFailed, Inl UndefinedBehaviour, Inr CycleBadLimits}"
proof -
  have "\<exists>h s. settings_run [EndOfOptions] settings_init = Inr (h, [Published s])"
    by (simp add: settings_step_def settings_init_def on_end_of_options_def Let_def)
  then obtain h s where r: "settings_run [EndOfOptions] settings_init = Inr (h, [Published s])" by blast
  obtain w where w: "inv_reachable w" "OutCandidates (ce_candidates ex_env) \<in> set (iw_out w)"
    using ex_answer by (auto simp: ex_env_def)
  have i: "list_all input_sane [EndOfOptions]" by (simp add: input_sane_def)
  have p: "Published s \<in> set [Published s]" by simp
  have a: "amt (amount_sat 1000000) < 2 ^ 53" "\<And>b. ce_draw ex_env b \<le> b" by (simp_all add: amount_sat_def ex_env_def)
  let ?m = "(on_amount_settings s ex_manager)\<lparr>mg_cycle_running := True\<rparr>"
  have g: "manager_on_request (amount_sat 1000000) (on_amount_settings s ex_manager) = (?m, Some (amount_sat 1000000))"
    by (simp add: manager_on_request_def ex_manager_def on_amount_settings_def)
  from creation_never_aborts [OF r i p p order_refl w a g] g show ?thesis by blast
qed

end
